(* ===== verification/Prelude.thy ===== *)
theory Prelude
  imports Main "HOL-Library.Word"
begin

text \<open>
  Shared ground of the development: bytes and byte-addressed memory, the C integers
  that the program keeps in pages (two-byte \<open>short\<close>, four-byte \<open>int\<close>, little endian,
  two's complement), block copies, C's truncating remainder, and the lemma collections
  \<open>mem_simps\<close> (reading a field back after a write) that the component theories use.

  Memory is a function from integer addresses to bytes. A page of the program
  (1024 bytes) is such a memory with addresses 0 to 1023. Addresses are integers because
  the program indexes the slot array of a page with negative numbers, and with positive
  ones when a record identifier is out of range.
\<close>

named_theorems mem_simps \<open>reads of memory after a write\<close>
named_theorems slot_simps \<open>slot array bookkeeping of a page\<close>

subsection \<open>Bytes and memory\<close>

type_synonym byte = "8 word"
type_synonym memory = "int \<Rightarrow> byte"

abbreviation zero_mem :: memory where
  "zero_mem \<equiv> (\<lambda>_. 0)"

text \<open>Little-endian reads and writes of \<open>n\<close> bytes.\<close>

fun get_le :: "memory \<Rightarrow> int \<Rightarrow> nat \<Rightarrow> int" where
  "get_le m a 0 = 0"
| "get_le m a (Suc n) = uint (m a) + 256 * get_le m (a + 1) n"

fun put_le :: "memory \<Rightarrow> int \<Rightarrow> nat \<Rightarrow> int \<Rightarrow> memory" where
  "put_le m a 0 v = m"
| "put_le m a (Suc n) v = (put_le m (a + 1) n (v div 256))(a := word_of_int v)"

text \<open>Reading \<open>w\<close> bits as two's complement; also the result of storing an integer in \<open>w\<close> bits.\<close>

definition swrap :: "nat \<Rightarrow> int \<Rightarrow> int" where
  "swrap w v = (v + 2 ^ (w - 1)) mod 2 ^ w - 2 ^ (w - 1)"

definition get_short :: "memory \<Rightarrow> int \<Rightarrow> int" where
  "get_short m a = swrap 16 (get_le m a 2)"

definition put_short :: "memory \<Rightarrow> int \<Rightarrow> int \<Rightarrow> memory" where
  "put_short m a v = put_le m a 2 v"

definition get_int :: "memory \<Rightarrow> int \<Rightarrow> int" where
  "get_int m a = swrap 32 (get_le m a 4)"

definition put_int :: "memory \<Rightarrow> int \<Rightarrow> int \<Rightarrow> memory" where
  "put_int m a v = put_le m a 4 v"

text \<open>Blocks: what a pointer and a length read, \<open>memcpy\<close> into memory, and \<open>bcopy\<close> inside it.\<close>

definition read_bytes :: "memory \<Rightarrow> int \<Rightarrow> nat \<Rightarrow> byte list" where
  "read_bytes m a n = map (\<lambda>k. m (a + int k)) [0..<n]"

definition write_bytes :: "memory \<Rightarrow> int \<Rightarrow> byte list \<Rightarrow> memory" where
  "write_bytes m a bs =
     (\<lambda>x. if a \<le> x \<and> x < a + int (length bs) then bs ! nat (x - a) else m x)"

definition move_bytes :: "memory \<Rightarrow> int \<Rightarrow> int \<Rightarrow> int \<Rightarrow> memory" where
  "move_bytes m src dst n =
     (\<lambda>x. if dst \<le> x \<and> x < dst + n then m (x - dst + src) else m x)"

text \<open>C's remainder takes the sign of the dividend.\<close>

definition c_rem :: "int \<Rightarrow> int \<Rightarrow> int" where
  "c_rem a b = sgn a * (\<bar>a\<bar> mod \<bar>b\<bar>)"

subsection \<open>Two's complement\<close>

lemma swrap_id: "0 < w \<Longrightarrow> - (2 ^ (w - 1)) \<le> v \<Longrightarrow> v < 2 ^ (w - 1) \<Longrightarrow> swrap w v = v"
proof -
  assume w: "0 < w" and lo: "- (2 ^ (w - 1)) \<le> v" and hi: "v < 2 ^ (w - 1)"
  have two: "(2::int) ^ w = 2 ^ (w - 1) + 2 ^ (w - 1)"
    using w by (cases w) simp_all
  have "(v + 2 ^ (w - 1)) mod 2 ^ w = v + 2 ^ (w - 1)"
    using lo hi two by (intro mod_pos_pos_trivial) simp_all
  then show ?thesis by (simp add: swrap_def)
qed

lemma swrap_short [simp]: "- 32768 \<le> v \<Longrightarrow> v < 32768 \<Longrightarrow> swrap 16 v = v"
  by (rule swrap_id) simp_all

lemma swrap_int [simp]: "- 2147483648 \<le> v \<Longrightarrow> v < 2147483648 \<Longrightarrow> swrap 32 v = v"
  by (rule swrap_id) simp_all

lemma swrap_bounds:
  "0 < w \<Longrightarrow> - (2 ^ (w - 1)) \<le> swrap w v \<and> swrap w v < 2 ^ (w - 1)"
proof -
  assume w: "0 < w"
  have two: "(2::int) ^ w = 2 ^ (w - 1) + 2 ^ (w - 1)"
    using w by (cases w) simp_all
  have "0 \<le> (v + 2 ^ (w - 1)) mod 2 ^ w" "(v + 2 ^ (w - 1)) mod 2 ^ w < 2 ^ w"
    by simp_all
  then show ?thesis using two by (simp add: swrap_def)
qed

lemma swrap_mod: "swrap w (v mod 2 ^ w) = swrap w v"
  by (simp add: swrap_def mod_simps)

lemma get_short_bounds: "- 32768 \<le> get_short m a" "get_short m a < 32768"
  using swrap_bounds [of 16 "get_le m a 2"] by (simp_all add: get_short_def)

lemma get_int_bounds: "- 2147483648 \<le> get_int m a" "get_int m a < 2147483648"
  using swrap_bounds [of 32 "get_le m a 4"] by (simp_all add: get_int_def)

subsection \<open>Reading back what was written\<close>

lemma get_le_cong:
  "(\<And>x. a \<le> x \<Longrightarrow> x < a + int n \<Longrightarrow> m x = m' x) \<Longrightarrow> get_le m a n = get_le m' a n"
proof (induction n arbitrary: a)
  case 0
  then show ?case by simp
next
  case (Suc n)
  have "get_le m (a + 1) n = get_le m' (a + 1) n"
    by (rule Suc.IH) (simp add: Suc.prems)
  moreover have "m a = m' a" by (rule Suc.prems) simp_all
  ultimately show ?case by simp
qed

lemma put_le_other: "x < a \<or> a + int n \<le> x \<Longrightarrow> put_le m a n v x = m x"
  by (induction n arbitrary: a v) auto

lemma get_put_le: "get_le (put_le m a n v) a n = v mod 256 ^ n"
proof (induction n arbitrary: a v)
  case 0
  then show ?case by simp
next
  case (Suc n)
  let ?m = "put_le m (a + 1) n (v div 256)"
  have "get_le (?m(a := word_of_int v)) (a + 1) n = get_le ?m (a + 1) n"
    by (rule get_le_cong) auto
  then have "get_le (put_le m a (Suc n) v) a (Suc n) = v mod 256 + 256 * (v div 256 mod 256 ^ n)"
    by (simp add: Suc.IH uint_word_of_int)
  also have "\<dots> = v mod (256 * 256 ^ n)"
    by (simp add: zmod_zmult2_eq)
  finally show ?case by (simp only: power_Suc)
qed

lemma get_put_short [mem_simps]: "get_short (put_short m a v) a = swrap 16 v"
  using swrap_mod [of 16 v] by (simp add: get_short_def put_short_def get_put_le)

lemma get_put_int [mem_simps]: "get_int (put_int m a v) a = swrap 32 v"
  using swrap_mod [of 32 v] by (simp add: get_int_def put_int_def get_put_le)

lemma put_short_other [mem_simps]: "x < a \<or> a + 2 \<le> x \<Longrightarrow> put_short m a v x = m x"
  unfolding put_short_def by (rule put_le_other) auto

lemma put_int_other [mem_simps]: "x < a \<or> a + 4 \<le> x \<Longrightarrow> put_int m a v x = m x"
  unfolding put_int_def by (rule put_le_other) auto

lemma get_short_cong: "m a = m' a \<Longrightarrow> m (a + 1) = m' (a + 1) \<Longrightarrow> get_short m a = get_short m' a"
  by (simp add: get_short_def numeral_2_eq_2)

lemma get_int_cong:
  "(\<And>x. a \<le> x \<Longrightarrow> x < a + 4 \<Longrightarrow> m x = m' x) \<Longrightarrow> get_int m a = get_int m' a"
  unfolding get_int_def by (rule arg_cong [where f = "swrap 32"], rule get_le_cong) auto

lemma get_short_put_short_other [mem_simps]:
  "b + 2 \<le> a \<or> a + 2 \<le> b \<Longrightarrow> get_short (put_short m a v) b = get_short m b"
  by (rule get_short_cong) (auto intro!: put_short_other)

lemma get_short_put_int_other [mem_simps]:
  "b + 2 \<le> a \<or> a + 4 \<le> b \<Longrightarrow> get_short (put_int m a v) b = get_short m b"
  by (rule get_short_cong) (auto intro!: put_int_other)

lemma get_int_put_short_other [mem_simps]:
  "b + 4 \<le> a \<or> a + 2 \<le> b \<Longrightarrow> get_int (put_short m a v) b = get_int m b"
  by (rule get_int_cong) (auto intro!: put_short_other)

lemma get_int_put_int_other [mem_simps]:
  "b + 4 \<le> a \<or> a + 4 \<le> b \<Longrightarrow> get_int (put_int m a v) b = get_int m b"
  by (rule get_int_cong) (auto intro!: put_int_other)

lemma write_bytes_other [mem_simps]:
  "x < a \<or> a + int (length bs) \<le> x \<Longrightarrow> write_bytes m a bs x = m x"
  by (auto simp: write_bytes_def)

lemma move_bytes_other [mem_simps]:
  "x < dst \<or> dst + n \<le> x \<Longrightarrow> move_bytes m src dst n x = m x"
  by (auto simp: move_bytes_def)

lemma move_bytes_moved:
  "dst \<le> x \<Longrightarrow> x < dst + n \<Longrightarrow> move_bytes m src dst n x = m (x - dst + src)"
  by (auto simp: move_bytes_def)

lemma get_short_write_bytes [mem_simps]:
  "b + 2 \<le> a \<or> a + int (length bs) \<le> b \<Longrightarrow> get_short (write_bytes m a bs) b = get_short m b"
  by (rule get_short_cong) (auto intro!: write_bytes_other)

lemma get_int_write_bytes [mem_simps]:
  "b + 4 \<le> a \<or> a + int (length bs) \<le> b \<Longrightarrow> get_int (write_bytes m a bs) b = get_int m b"
  by (rule get_int_cong) (auto intro!: write_bytes_other)

lemma get_short_move_bytes [mem_simps]:
  "b + 2 \<le> dst \<or> dst + n \<le> b \<Longrightarrow> get_short (move_bytes m src dst n) b = get_short m b"
  by (rule get_short_cong) (auto intro!: move_bytes_other)

lemma get_int_move_bytes [mem_simps]:
  "b + 4 \<le> dst \<or> dst + n \<le> b \<Longrightarrow> get_int (move_bytes m src dst n) b = get_int m b"
  by (rule get_int_cong) (auto intro!: move_bytes_other)

lemma length_read_bytes [simp]: "length (read_bytes m a n) = n"
  by (simp add: read_bytes_def)

lemma nth_read_bytes [simp]: "k < n \<Longrightarrow> read_bytes m a n ! k = m (a + int k)"
  by (simp add: read_bytes_def)

lemma read_bytes_eqI:
  "(\<And>k. k < n \<Longrightarrow> m (a + int k) = m' (b + int k)) \<Longrightarrow> read_bytes m a n = read_bytes m' b n"
  by (rule nth_equalityI) simp_all

lemma read_write_bytes: "n = length bs \<Longrightarrow> read_bytes (write_bytes m a bs) a n = bs"
  by (rule nth_equalityI) (simp_all add: write_bytes_def)

subsection \<open>Remainders\<close>

lemma c_rem_nonneg: "0 \<le> a \<Longrightarrow> 0 < b \<Longrightarrow> c_rem a b = a mod b"
  by (cases "a = 0") (simp_all add: c_rem_def)

lemma c_rem_bound: "0 < b \<Longrightarrow> \<bar>c_rem a b\<bar> < b"
  by (auto simp: c_rem_def abs_mult abs_sgn_eq)

end
