(* ===== verification/ErrorCodes.thy ===== *)
theory ErrorCodes
  imports Prelude
begin

text \<open>
  The status codes of \<open>src/src/error.h\<close> and the messages of \<open>Error::print\<close>
  (\<open>src/src/error.C\<close>). Every operation of the program returns a \<open>Status\<close>; callers only
  compare it with \<open>OK\<close> or with another named code, so it is a datatype here, and
  \<open>status_code\<close> gives the integer the C enumeration assigns to it.
\<close>

datatype Status =
    OK | NOTUSED1
  | BADFILEPTR | BADFILE | FILETABFULL | FILEOPEN | FILENOTOPEN
  | UNIXERR | BADPAGEPTR | BADPAGENO | FILEEXISTS
  | HASHTBLERROR | HASHNOTFOUND | BUFFEREXCEEDED | PAGENOTPINNED
  | BADBUFFER | PAGEPINNED
  | NOSPACE | NORECORDS | ENDOFPAGE | INVALIDSLOTNO | INVALIDRECLEN
  | BADRID | BADRECPTR | BADSCANPARM | BADSCANID | SCANTABFULL | FILEEOF | FILEHDRFULL
  | BADINDEXPARM | RECNOTFOUND | BUCKETFULL | DIROVERFLOW
  | NONUNIQUEENTRY | NOMORERECS
  | BADSORTPARM | INSUFMEM
  | BADCATPARM | RELNOTFOUND | ATTRNOTFOUND
  | NAMETOOLONG | DUPLATTR | RELEXISTS | NOINDEX
  | INDEXEXISTS | ATTRTOOLONG
  | ATTRTYPEMISMATCH | TMP_RES_EXISTS
  | NOTUSED2

text \<open>The enumerators after \<open>NOTUSED1 = -999\<close> count upwards, in the order of the header.\<close>

definition status_order :: "Status list" where
  "status_order =
    [NOTUSED1, BADFILEPTR, BADFILE, FILETABFULL, FILEOPEN, FILENOTOPEN,
     UNIXERR, BADPAGEPTR, BADPAGENO, FILEEXISTS,
     HASHTBLERROR, HASHNOTFOUND, BUFFEREXCEEDED, PAGENOTPINNED,
     BADBUFFER, PAGEPINNED,
     NOSPACE, NORECORDS, ENDOFPAGE, INVALIDSLOTNO, INVALIDRECLEN,
     BADRID, BADRECPTR, BADSCANPARM, BADSCANID, SCANTABFULL, FILEEOF, FILEHDRFULL,
     BADINDEXPARM, RECNOTFOUND, BUCKETFULL, DIROVERFLOW,
     NONUNIQUEENTRY, NOMORERECS,
     BADSORTPARM, INSUFMEM,
     BADCATPARM, RELNOTFOUND, ATTRNOTFOUND,
     NAMETOOLONG, DUPLATTR, RELEXISTS, NOINDEX,
     INDEXEXISTS, ATTRTOOLONG,
     ATTRTYPEMISMATCH, TMP_RES_EXISTS, NOTUSED2]"

fun position :: "'a \<Rightarrow> 'a list \<Rightarrow> int" where
  "position x [] = 0"
| "position x (y # ys) = (if x = y then 0 else 1 + position x ys)"

definition status_code :: "Status \<Rightarrow> int" where
  "status_code s = (if s = OK then 0 else - 999 + position s status_order)"

text \<open>
  \<open>Error::print\<close>: the text written for a status, after \<open>Error: \<close>. The \<open>None\<close> cases are
  those that fall to the \<open>default\<close> branch, which prints the number of the status.
\<close>

fun print_message :: "Status \<Rightarrow> string option" where
  "print_message OK = Some ''no error''"
| "print_message BADFILEPTR = Some ''bad file pointer''"
| "print_message BADFILE = Some ''bad filename''"
| "print_message FILETABFULL = Some ''open file table full''"
| "print_message FILEOPEN = Some ''file open''"
| "print_message FILENOTOPEN = Some ''file not open''"
| "print_message UNIXERR = Some ''Unix error''"
| "print_message BADPAGEPTR = Some ''bad page pointer''"
| "print_message BADPAGENO = Some ''bad page number''"
| "print_message FILEEXISTS = Some ''file exists already''"
| "print_message HASHTBLERROR = Some ''hash table error''"
| "print_message HASHNOTFOUND = Some ''hash entry not found''"
| "print_message BUFFEREXCEEDED = Some ''buffer pool full''"
| "print_message PAGENOTPINNED = Some ''page not pinned''"
| "print_message BADBUFFER = Some ''buffer pool corrupted''"
| "print_message PAGEPINNED = Some ''page still pinned''"
| "print_message NOSPACE = Some ''no space on page for record''"
| "print_message NORECORDS = Some ''page is empty - no records''"
| "print_message ENDOFPAGE = Some ''last record on page''"
| "print_message INVALIDSLOTNO = Some ''invalid slot number''"
| "print_message INVALIDRECLEN = Some ''specified record length <= 0''"
| "print_message BADRID = Some ''bad record id''"
| "print_message BADRECPTR = Some ''bad record pointer''"
| "print_message BADSCANPARM = Some ''bad scan parameter''"
| "print_message SCANTABFULL = Some ''scan table full''"
| "print_message FILEEOF = Some ''end of file encountered''"
| "print_message FILEHDRFULL = Some ''heapfile hdear page is full''"
| "print_message BADINDEXPARM = Some ''bad index parameter''"
| "print_message RECNOTFOUND = Some ''no such record''"
| "print_message BUCKETFULL = Some ''bucket full''"
| "print_message DIROVERFLOW = Some ''directory is full''"
| "print_message NONUNIQUEENTRY = Some ''nonunique entry''"
| "print_message NOMORERECS = Some ''no more records''"
| "print_message BADSORTPARM = Some ''bad sort parameter''"
| "print_message INSUFMEM = Some ''insufficient memory''"
| "print_message BADCATPARM = Some ''bad catalog parameter''"
| "print_message RELNOTFOUND = Some ''relation not in catalog''"
| "print_message ATTRNOTFOUND = Some ''attribute not in catalog''"
| "print_message NAMETOOLONG = Some ''name too long''"
| "print_message ATTRTOOLONG = Some ''attributes too long''"
| "print_message DUPLATTR = Some ''duplicate attribute names''"
| "print_message RELEXISTS = Some ''relation exists already''"
| "print_message NOINDEX = Some ''no index exists''"
| "print_message ATTRTYPEMISMATCH = Some ''attribute type mismatch''"
| "print_message TMP_RES_EXISTS = Some ''temp result already exists''"
| "print_message INDEXEXISTS = Some ''index exists already''"
| "print_message BADSCANID = None"
| "print_message NOTUSED1 = None"
| "print_message NOTUSED2 = None"

lemma status_order_complete: "s \<noteq> OK \<Longrightarrow> s \<in> set status_order"
  by (cases s) (simp_all add: status_order_def)

lemma position_nonneg: "0 \<le> position x xs"
  by (induction xs) auto

lemma position_less: "x \<in> set xs \<Longrightarrow> position x xs < int (length xs)"
  by (induction xs) auto

lemma position_inj:
  "x \<in> set xs \<Longrightarrow> y \<in> set xs \<Longrightarrow> position x xs = position y xs \<Longrightarrow> x = y"
proof (induction xs)
  case Nil
  then show ?case by simp
next
  case (Cons a xs)
  then show ?case
    using position_nonneg [of x xs] position_nonneg [of y xs] by (auto split: if_splits)
qed

lemma status_code_negative: "s \<noteq> OK \<Longrightarrow> status_code s < 0"
  using position_less [OF status_order_complete, of s]
  by (simp add: status_code_def status_order_def)

end
