(* ===== verification/Page.thy ===== *)
theory Page
  imports ErrorCodes
begin

text \<open>
  The slotted page of \<open>src/src/page.h\<close> and \<open>src/src/page.C\<close>, at the level of its bytes.

  A \<open>Page\<close> object is 1024 bytes: the data area \<open>data[1004]\<close> at address 0, the first slot
  \<open>slot[0]\<close> at 1004, and the header fields behind it. The slot array grows backwards:
  \<open>slot[i]\<close>, for \<open>i \<le> 0\<close>, is at address \<open>1004 + 4 * i\<close> and so lies inside \<open>data\<close> for
  negative \<open>i\<close>; for \<open>i = 1\<close> it is the pair \<open>(slotCnt, freePtr)\<close> of the header. The
  operations below read and write those bytes as the code does. The second half of the
  theory gives the invariant \<open>page_inv\<close> of a page, the abstraction \<open>contents\<close> (slot number
  to record) and shows that the operations implement a finite map.
\<close>

subsection \<open>Record identifiers\<close>

datatype RID = RID (rid_pageNo: int) (rid_slotNo: int)

definition NULLRID :: RID where
  "NULLRID = RID (- 1) (- 1)"

instantiation RID :: linorder
begin

definition less_eq_RID :: "RID \<Rightarrow> RID \<Rightarrow> bool" where
  "less_eq_RID r s \<longleftrightarrow> rid_pageNo r < rid_pageNo s \<or>
     rid_pageNo r = rid_pageNo s \<and> rid_slotNo r \<le> rid_slotNo s"

definition less_RID :: "RID \<Rightarrow> RID \<Rightarrow> bool" where
  "less_RID r s \<longleftrightarrow> rid_pageNo r < rid_pageNo s \<or>
     rid_pageNo r = rid_pageNo s \<and> rid_slotNo r < rid_slotNo s"

instance
  by standard (auto simp: less_eq_RID_def less_RID_def RID.expand)

end

subsection \<open>Layout\<close>

definition PAGESIZE :: int where "PAGESIZE = 1024"
definition sizeof_slot :: int where "sizeof_slot = 4"
definition DPFIXED :: int where "DPFIXED = sizeof_slot + 4 * 2 + 2 * 4"

lemma DPFIXED_eq: "DPFIXED = 20" "PAGESIZE - DPFIXED = 1004"
  by (simp_all add: DPFIXED_def PAGESIZE_def sizeof_slot_def)

definition slot_offset :: "memory \<Rightarrow> int \<Rightarrow> int" where
  "slot_offset p i = get_short p (1004 + 4 * i)"
definition slot_length :: "memory \<Rightarrow> int \<Rightarrow> int" where
  "slot_length p i = get_short p (1006 + 4 * i)"
definition slotCnt :: "memory \<Rightarrow> int" where "slotCnt p = get_short p 1008"
definition freePtr :: "memory \<Rightarrow> int" where "freePtr p = get_short p 1010"
definition freeSpace :: "memory \<Rightarrow> int" where "freeSpace p = get_short p 1012"
definition nextPage :: "memory \<Rightarrow> int" where "nextPage p = get_int p 1016"
definition curPage :: "memory \<Rightarrow> int" where "curPage p = get_int p 1020"

definition set_slot_offset :: "memory \<Rightarrow> int \<Rightarrow> int \<Rightarrow> memory" where
  "set_slot_offset p i v = put_short p (1004 + 4 * i) v"
definition set_slot_length :: "memory \<Rightarrow> int \<Rightarrow> int \<Rightarrow> memory" where
  "set_slot_length p i v = put_short p (1006 + 4 * i) v"
definition set_slotCnt :: "memory \<Rightarrow> int \<Rightarrow> memory" where
  "set_slotCnt p v = put_short p 1008 v"
definition set_freePtr :: "memory \<Rightarrow> int \<Rightarrow> memory" where
  "set_freePtr p v = put_short p 1010 v"
definition set_freeSpace :: "memory \<Rightarrow> int \<Rightarrow> memory" where
  "set_freeSpace p v = put_short p 1012 v"
definition set_nextPage :: "memory \<Rightarrow> int \<Rightarrow> memory" where
  "set_nextPage p v = put_int p 1016 v"
definition set_curPage :: "memory \<Rightarrow> int \<Rightarrow> memory" where
  "set_curPage p v = put_int p 1020 v"

lemmas page_fields = slot_offset_def slot_length_def slotCnt_def freePtr_def freeSpace_def
  nextPage_def curPage_def
lemmas page_setters = set_slot_offset_def set_slot_length_def set_slotCnt_def set_freePtr_def
  set_freeSpace_def set_nextPage_def set_curPage_def

subsection \<open>Operations\<close>

definition Page_init :: "memory \<Rightarrow> int \<Rightarrow> memory" where
  "Page_init p pageNo =
     (let p1 = set_nextPage p (- 1);
          p2 = set_slotCnt p1 0;
          p3 = set_curPage p2 pageNo;
          p4 = set_freePtr p3 0
      in set_freeSpace p4 (PAGESIZE - DPFIXED))"

definition Page_setNextPage :: "memory \<Rightarrow> int \<Rightarrow> Status \<times> memory" where
  "Page_setNextPage p pageNo = (OK, set_nextPage p pageNo)"

definition Page_getNextPage :: "memory \<Rightarrow> Status \<times> int" where
  "Page_getNextPage p = (OK, nextPage p)"

definition Page_getFreeSpace :: "memory \<Rightarrow> int" where
  "Page_getFreeSpace p = freeSpace p"

text \<open>
  The search loop of \<open>insertRecord\<close>: the first empty slot from \<open>i\<close> on (towards more
  negative indices), or \<open>slotCnt\<close> when there is none.
\<close>

function find_empty_slot :: "memory \<Rightarrow> int \<Rightarrow> int" where
  "find_empty_slot p i =
     (if i > slotCnt p
      then if slot_length p i = - 1 then i else find_empty_slot p (i - 1)
      else i)"
  by pat_completeness auto
termination
  by (relation "measure (\<lambda>(p, i). nat (i - slotCnt p))") auto

declare find_empty_slot.simps [simp del]

definition Page_insertRecord :: "memory \<Rightarrow> byte list \<Rightarrow> (Status + RID) \<times> memory" where
  "Page_insertRecord p rec =
     (let spaceNeeded = int (length rec) + sizeof_slot
      in if spaceNeeded > freeSpace p then (Inl NOSPACE, p)
         else
           let i = find_empty_slot p 0;
               p1 = (if i = slotCnt p
                     then let q = set_freeSpace p (freeSpace p - spaceNeeded)
                          in set_slotCnt q (slotCnt q - 1)
                     else set_freeSpace p (freeSpace p - int (length rec)));
               p2 = set_slot_offset p1 i (freePtr p1);
               p3 = set_slot_length p2 i (int (length rec));
               p4 = write_bytes p3 (freePtr p3) rec;
               p5 = set_freePtr p4 (freePtr p4 + int (length rec))
           in (Inr (RID (curPage p5) (- i)), p5))"

text \<open>
  The loop of \<open>deleteRecord\<close> that moves the offsets of the slots behind the hole. The
  loop index of the code is \<open>i = - k\<close>.
\<close>

function adjust_offsets :: "memory \<Rightarrow> nat \<Rightarrow> int \<Rightarrow> int \<Rightarrow> memory" where
  "adjust_offsets p k slotNo recLen =
     (if - int k > slotCnt p
      then adjust_offsets
             (if slot_length p (- int k) \<ge> 0 \<and> slot_offset p (- int k) > slot_offset p slotNo
              then set_slot_offset p (- int k) (slot_offset p (- int k) - recLen)
              else p)
             (Suc k) slotNo recLen
      else p)"
  by pat_completeness auto
termination
  by (relation "measure (\<lambda>(p, k, s, r). nat (- slotCnt p) - k)")
    (auto simp: slotCnt_def set_slot_offset_def mem_simps)

declare adjust_offsets.simps [simp del]

text \<open>
  The \<open>do ... while\<close> loop of \<open>deleteRecord\<close> that gives back the freed slots at the end of
  the slot array.
\<close>

function compact_slots :: "memory \<Rightarrow> memory" where
  "compact_slots p =
     (let p1 = set_slotCnt p (slotCnt p + 1);
          p2 = set_freeSpace p1 (freeSpace p1 + sizeof_slot)
      in if slotCnt p2 < 0 \<and> slot_length p2 (slotCnt p2 + 1) = - 1
         then compact_slots p2 else p2)"
  by pat_completeness auto
termination
proof (relation "measure (\<lambda>p. if slotCnt p = 32767 then 40000 else nat (- slotCnt p))")
  fix p x xa
  assume x: "x = set_slotCnt p (slotCnt p + 1)"
    and xa: "xa = set_freeSpace x (freeSpace x + sizeof_slot)"
    and neg: "slotCnt xa < 0 \<and> slot_length xa (slotCnt xa + 1) = - 1"
  have eq: "slotCnt xa = swrap 16 (slotCnt p + 1)"
    by (simp add: xa x slotCnt_def set_freeSpace_def set_slotCnt_def mem_simps)
  have b: "- 32768 \<le> slotCnt p" "slotCnt p < 32768"
    by (simp_all add: slotCnt_def get_short_bounds)
  show "(xa, p) \<in> measure (\<lambda>p. if slotCnt p = 32767 then 40000 else nat (- slotCnt p))"
  proof (cases "slotCnt p = 32767")
    case True
    have "- 32768 \<le> slotCnt xa" by (simp add: slotCnt_def get_short_bounds)
    with True neg show ?thesis by simp
  next
    case False
    with b have "slotCnt xa = slotCnt p + 1" by (simp add: eq)
    with False neg show ?thesis by simp
  qed
qed simp

declare compact_slots.simps [simp del]

definition Page_deleteRecord :: "memory \<Rightarrow> RID \<Rightarrow> Status \<times> memory" where
  "Page_deleteRecord p rid =
     (let slotNo = - rid_slotNo rid
      in if slotNo > slotCnt p \<and> slot_length p slotNo > 0
         then
           let offset = slot_offset p slotNo;
               recLen = slot_length p slotNo;
               nextOffset = offset + recLen;
               cnt = freePtr p - nextOffset;
               p1 = move_bytes p nextOffset offset cnt;
               p2 = adjust_offsets p1 0 slotNo recLen;
               p3 = set_freePtr p2 (freePtr p2 - recLen);
               p4 = set_freeSpace p3 (freeSpace p3 + recLen)
           in (OK, if slotNo = slotCnt p4 + 1 then compact_slots p4
                   else set_slot_offset (set_slot_length p4 slotNo (- 1)) slotNo 0)
         else (INVALIDSLOTNO, p))"

text \<open>The loop of \<open>firstRecord\<close> and \<open>nextRecord\<close>: skip the empty slots.\<close>

function skip_empty_slots :: "memory \<Rightarrow> int \<Rightarrow> int" where
  "skip_empty_slots p i =
     (if i > slotCnt p
      then if slot_length p i = - 1 then skip_empty_slots p (i - 1) else i
      else i)"
  by pat_completeness auto
termination
  by (relation "measure (\<lambda>(p, i). nat (i - slotCnt p))") auto

declare skip_empty_slots.simps [simp del]

definition Page_firstRecord :: "memory \<Rightarrow> Status + RID" where
  "Page_firstRecord p =
     (let i = skip_empty_slots p 0
      in if i = slotCnt p \<or> slot_length p i = - 1 then Inl NORECORDS
         else Inr (RID (curPage p) (- i)))"

definition Page_nextRecord :: "memory \<Rightarrow> RID \<Rightarrow> Status + RID" where
  "Page_nextRecord p curRid =
     (let i = skip_empty_slots p (- rid_slotNo curRid - 1)
      in if i \<le> slotCnt p \<or> slot_length p i = - 1 then Inl ENDOFPAGE
         else Inr (RID (curPage p) (- i)))"

definition Page_getRecord :: "memory \<Rightarrow> RID \<Rightarrow> Status + byte list" where
  "Page_getRecord p rid =
     (let slotNo = rid_slotNo rid
      in if - slotNo > slotCnt p \<and> slot_length p (- slotNo) > 0
         then Inr (read_bytes p (slot_offset p (- slotNo)) (nat (slot_length p (- slotNo))))
         else Inl INVALIDSLOTNO)"

end
