(* ===== verification/Page_Spec.thy ===== *)
theory Page_Spec
  imports Page
begin

text \<open>
  Correctness of the slotted page: field lemmas for the byte layout, the invariant
  \<open>page_inv\<close>, the abstraction \<open>contents\<close>, and the behaviour of every operation of
  \<open>Page\<close> in terms of them.
\<close>

subsection \<open>Fields after a write\<close>

lemma slotCnt_upd [slot_simps]:
  "slotCnt (set_slotCnt p v) = swrap 16 v"
  "slotCnt (set_freePtr p v) = slotCnt p"
  "slotCnt (set_freeSpace p v) = slotCnt p"
  "slotCnt (set_nextPage p v) = slotCnt p"
  "slotCnt (set_curPage p v) = slotCnt p"
  "i \<le> 0 \<Longrightarrow> slotCnt (set_slot_offset p i v) = slotCnt p"
  "i \<le> 0 \<Longrightarrow> slotCnt (set_slot_length p i v) = slotCnt p"
  by (simp_all add: page_fields page_setters mem_simps)

lemma freePtr_upd [slot_simps]:
  "freePtr (set_slotCnt p v) = freePtr p"
  "freePtr (set_freePtr p v) = swrap 16 v"
  "freePtr (set_freeSpace p v) = freePtr p"
  "freePtr (set_nextPage p v) = freePtr p"
  "freePtr (set_curPage p v) = freePtr p"
  "i \<le> 0 \<Longrightarrow> freePtr (set_slot_offset p i v) = freePtr p"
  "i \<le> 0 \<Longrightarrow> freePtr (set_slot_length p i v) = freePtr p"
  by (simp_all add: page_fields page_setters mem_simps)

lemma freeSpace_upd [slot_simps]:
  "freeSpace (set_slotCnt p v) = freeSpace p"
  "freeSpace (set_freePtr p v) = freeSpace p"
  "freeSpace (set_freeSpace p v) = swrap 16 v"
  "freeSpace (set_nextPage p v) = freeSpace p"
  "freeSpace (set_curPage p v) = freeSpace p"
  "i \<le> 0 \<Longrightarrow> freeSpace (set_slot_offset p i v) = freeSpace p"
  "i \<le> 0 \<Longrightarrow> freeSpace (set_slot_length p i v) = freeSpace p"
  by (simp_all add: page_fields page_setters mem_simps)

lemma nextPage_upd [slot_simps]:
  "nextPage (set_slotCnt p v) = nextPage p"
  "nextPage (set_freePtr p v) = nextPage p"
  "nextPage (set_freeSpace p v) = nextPage p"
  "nextPage (set_nextPage p v) = swrap 32 v"
  "nextPage (set_curPage p v) = nextPage p"
  "i \<le> 0 \<Longrightarrow> nextPage (set_slot_offset p i v) = nextPage p"
  "i \<le> 0 \<Longrightarrow> nextPage (set_slot_length p i v) = nextPage p"
  by (simp_all add: page_fields page_setters mem_simps)

lemma curPage_upd [slot_simps]:
  "curPage (set_slotCnt p v) = curPage p"
  "curPage (set_freePtr p v) = curPage p"
  "curPage (set_freeSpace p v) = curPage p"
  "curPage (set_nextPage p v) = curPage p"
  "curPage (set_curPage p v) = swrap 32 v"
  "i \<le> 0 \<Longrightarrow> curPage (set_slot_offset p i v) = curPage p"
  "i \<le> 0 \<Longrightarrow> curPage (set_slot_length p i v) = curPage p"
  by (simp_all add: page_fields page_setters mem_simps)

lemma slot_offset_upd [slot_simps]:
  "i \<le> 0 \<Longrightarrow> slot_offset (set_slotCnt p v) i = slot_offset p i"
  "i \<le> 0 \<Longrightarrow> slot_offset (set_freePtr p v) i = slot_offset p i"
  "i \<le> 0 \<Longrightarrow> slot_offset (set_freeSpace p v) i = slot_offset p i"
  "i \<le> 0 \<Longrightarrow> slot_offset (set_nextPage p v) i = slot_offset p i"
  "i \<le> 0 \<Longrightarrow> slot_offset (set_curPage p v) i = slot_offset p i"
  "slot_offset (set_slot_length p j v) i = slot_offset p i"
  "slot_offset (set_slot_offset p j v) i = (if i = j then swrap 16 v else slot_offset p i)"
proof -
  show "slot_offset (set_slot_length p j v) i = slot_offset p i"
    unfolding page_fields page_setters by (rule get_short_put_short_other) arith
  show "slot_offset (set_slot_offset p j v) i = (if i = j then swrap 16 v else slot_offset p i)"
    unfolding page_fields page_setters
    by (cases "i = j") (simp add: mem_simps, simp, rule get_short_put_short_other, arith)
qed (simp_all add: page_fields page_setters mem_simps)

lemma slot_length_upd [slot_simps]:
  "i \<le> 0 \<Longrightarrow> slot_length (set_slotCnt p v) i = slot_length p i"
  "i \<le> 0 \<Longrightarrow> slot_length (set_freePtr p v) i = slot_length p i"
  "i \<le> 0 \<Longrightarrow> slot_length (set_freeSpace p v) i = slot_length p i"
  "i \<le> 0 \<Longrightarrow> slot_length (set_nextPage p v) i = slot_length p i"
  "i \<le> 0 \<Longrightarrow> slot_length (set_curPage p v) i = slot_length p i"
  "slot_length (set_slot_offset p j v) i = slot_length p i"
  "slot_length (set_slot_length p j v) i = (if i = j then swrap 16 v else slot_length p i)"
proof -
  show "slot_length (set_slot_offset p j v) i = slot_length p i"
    unfolding page_fields page_setters by (rule get_short_put_short_other) arith
  show "slot_length (set_slot_length p j v) i = (if i = j then swrap 16 v else slot_length p i)"
    unfolding page_fields page_setters
    by (cases "i = j") (simp add: mem_simps, simp, rule get_short_put_short_other, arith)
qed (simp_all add: page_fields page_setters mem_simps)

text \<open>Bytes in front of a field are not touched by writing it.\<close>

lemma data_upd [slot_simps]:
  "x < 1008 \<Longrightarrow> set_slotCnt p v x = p x"
  "x < 1008 \<Longrightarrow> set_freePtr p v x = p x"
  "x < 1008 \<Longrightarrow> set_freeSpace p v x = p x"
  "x < 1008 \<Longrightarrow> set_nextPage p v x = p x"
  "x < 1008 \<Longrightarrow> set_curPage p v x = p x"
  "x < 1004 + 4 * i \<Longrightarrow> set_slot_offset p i v x = p x"
  "x < 1004 + 4 * i \<Longrightarrow> set_slot_length p i v x = p x"
  by (simp_all add: page_setters mem_simps)

lemma write_bytes_fields [slot_simps]:
  assumes "a + int (length bs) \<le> 1008"
  shows "slotCnt (write_bytes p a bs) = slotCnt p"
    and "freePtr (write_bytes p a bs) = freePtr p"
    and "freeSpace (write_bytes p a bs) = freeSpace p"
    and "nextPage (write_bytes p a bs) = nextPage p"
    and "curPage (write_bytes p a bs) = curPage p"
  using assms by (simp_all add: page_fields mem_simps)

lemma write_bytes_slots [slot_simps]:
  assumes "a + int (length bs) \<le> 1004 + 4 * i"
  shows "slot_offset (write_bytes p a bs) i = slot_offset p i"
    and "slot_length (write_bytes p a bs) i = slot_length p i"
  using assms by (simp_all add: page_fields mem_simps)

lemma move_bytes_fields [slot_simps]:
  assumes "dst + n \<le> 1008"
  shows "slotCnt (move_bytes p src dst n) = slotCnt p"
    and "freePtr (move_bytes p src dst n) = freePtr p"
    and "freeSpace (move_bytes p src dst n) = freeSpace p"
    and "nextPage (move_bytes p src dst n) = nextPage p"
    and "curPage (move_bytes p src dst n) = curPage p"
  using assms by (simp_all add: page_fields mem_simps)

lemma move_bytes_slots [slot_simps]:
  assumes "dst + n \<le> 1004 + 4 * i"
  shows "slot_offset (move_bytes p src dst n) i = slot_offset p i"
    and "slot_length (move_bytes p src dst n) i = slot_length p i"
  using assms by (simp_all add: page_fields mem_simps)

lemma field_bounds:
  "- 32768 \<le> slotCnt p" "slotCnt p < 32768"
  "- 32768 \<le> freePtr p" "freePtr p < 32768"
  "- 32768 \<le> freeSpace p" "freeSpace p < 32768"
  "- 32768 \<le> slot_offset p i" "slot_offset p i < 32768"
  "- 32768 \<le> slot_length p i" "slot_length p i < 32768"
  by (simp_all add: page_fields get_short_bounds)

subsection \<open>Invariant and abstraction\<close>

text \<open>
  A slot \<open>i\<close> (\<open>slotCnt < i \<le> 0\<close>) is in use unless its length is -1. The records of the slots
  in use lie in the data area in front of \<open>freePtr\<close>, do not overlap and leave no gap (their
  lengths add up to \<open>freePtr\<close>); data, slots and free space share the 1004 bytes; and the
  last slot is in use.
\<close>

definition in_use :: "memory \<Rightarrow> int \<Rightarrow> bool" where
  "in_use p i \<longleftrightarrow> slotCnt p < i \<and> i \<le> 0 \<and> slot_length p i \<noteq> - 1"

definition used_bytes :: "memory \<Rightarrow> int" where
  "used_bytes p = (\<Sum>i \<in> {slotCnt p<..0}. if slot_length p i = - 1 then 0 else slot_length p i)"

definition slot_ok :: "memory \<Rightarrow> int \<Rightarrow> bool" where
  "slot_ok p i \<longleftrightarrow> 0 < slot_length p i \<and> 0 \<le> slot_offset p i \<and>
     slot_offset p i + slot_length p i \<le> freePtr p"

definition apart :: "memory \<Rightarrow> int \<Rightarrow> int \<Rightarrow> bool" where
  "apart p i j \<longleftrightarrow> slot_offset p i + slot_length p i \<le> slot_offset p j \<or>
     slot_offset p j + slot_length p j \<le> slot_offset p i"

definition page_inv :: "memory \<Rightarrow> bool" where
  "page_inv p \<longleftrightarrow>
     slotCnt p \<le> 0 \<and> 0 \<le> freePtr p \<and> 0 \<le> freeSpace p \<and>
     freePtr p + freeSpace p - 4 * slotCnt p = 1004 \<and>
     (\<forall>i. in_use p i \<longrightarrow> slot_ok p i) \<and>
     (\<forall>i j. in_use p i \<longrightarrow> in_use p j \<longrightarrow> i \<noteq> j \<longrightarrow> apart p i j) \<and>
     used_bytes p = freePtr p \<and>
     (slotCnt p < 0 \<longrightarrow> slot_length p (slotCnt p + 1) \<noteq> - 1)"

text \<open>What a client sees: the map from (non-negative) slot numbers to record contents.\<close>

definition contents :: "memory \<Rightarrow> int \<Rightarrow> byte list option" where
  "contents p k =
     (if in_use p (- k)
      then Some (read_bytes p (slot_offset p (- k)) (nat (slot_length p (- k))))
      else None)"

lemma page_invD:
  assumes "page_inv p"
  shows "slotCnt p \<le> 0" "0 \<le> freePtr p" "0 \<le> freeSpace p"
    and "freePtr p + freeSpace p - 4 * slotCnt p = 1004"
    and "\<And>i. in_use p i \<Longrightarrow> slot_ok p i"
    and "\<And>i j. in_use p i \<Longrightarrow> in_use p j \<Longrightarrow> i \<noteq> j \<Longrightarrow> apart p i j"
    and "used_bytes p = freePtr p"
    and "slotCnt p < 0 \<Longrightarrow> slot_length p (slotCnt p + 1) \<noteq> - 1"
  using assms by (simp_all add: page_inv_def)

subsection \<open>The search loops\<close>

lemma find_empty_slot_spec:
  "slotCnt p \<le> i \<Longrightarrow>
     slotCnt p \<le> find_empty_slot p i \<and> find_empty_slot p i \<le> i \<and>
     (find_empty_slot p i \<noteq> slotCnt p \<longrightarrow> slot_length p (find_empty_slot p i) = - 1) \<and>
     (\<forall>j. find_empty_slot p i < j \<and> j \<le> i \<longrightarrow> slot_length p j \<noteq> - 1)"
proof (induction p i rule: find_empty_slot.induct)
  case (1 p i)
  show ?case
  proof (cases "i > slotCnt p \<and> slot_length p i \<noteq> - 1")
    case True
    have eq: "find_empty_slot p i = find_empty_slot p (i - 1)"
      using True by (simp add: find_empty_slot.simps [of p i])
    have "j \<le> i \<Longrightarrow> j = i \<or> j \<le> i - 1" for j by arith
    with "1.IH" True show ?thesis unfolding eq by fastforce
  next
    case False
    with "1.prems" show ?thesis by (auto simp: find_empty_slot.simps [of p i])
  qed
qed

lemma skip_empty_slots_spec:
  "skip_empty_slots p i \<le> i \<and>
     (slotCnt p \<le> i \<longrightarrow> slotCnt p \<le> skip_empty_slots p i) \<and>
     (skip_empty_slots p i > slotCnt p \<longrightarrow> slot_length p (skip_empty_slots p i) \<noteq> - 1) \<and>
     (\<forall>j. skip_empty_slots p i < j \<and> j \<le> i \<longrightarrow> slot_length p j = - 1)"
proof (induction p i rule: skip_empty_slots.induct)
  case (1 p i)
  show ?case
  proof (cases "i > slotCnt p \<and> slot_length p i = - 1")
    case True
    have eq: "skip_empty_slots p i = skip_empty_slots p (i - 1)"
      using True by (simp add: skip_empty_slots.simps [of p i])
    have "j \<le> i \<Longrightarrow> j = i \<or> j \<le> i - 1" for j by arith
    with "1.IH" True show ?thesis unfolding eq by fastforce
  next
    case False
    then show ?thesis by (auto simp: skip_empty_slots.simps [of p i])
  qed
qed

subsection \<open>Initialisation and insertion\<close>

lemma Page_init_fields:
  assumes "- 2147483648 \<le> n" "n < 2147483648"
  shows "slotCnt (Page_init p n) = 0" "freePtr (Page_init p n) = 0"
    "freeSpace (Page_init p n) = 1004" "nextPage (Page_init p n) = - 1"
    "curPage (Page_init p n) = n"
  using assms by (simp_all add: Page_init_def Let_def slot_simps DPFIXED_eq(1) PAGESIZE_def)

lemma Page_init_inv: "page_inv (Page_init p n)"
  by (auto simp: page_inv_def in_use_def used_bytes_def Page_init_def Let_def slot_simps
      DPFIXED_eq(1) PAGESIZE_def)

lemma Page_init_contents: "contents (Page_init p n) = Map.empty"
  by (rule ext)
    (simp add: contents_def in_use_def Page_init_def Let_def slot_simps)

text \<open>The slot an insertion uses: a free one, or the next one behind the array.\<close>

abbreviation insert_slot :: "memory \<Rightarrow> int" where
  "insert_slot p \<equiv> find_empty_slot p 0"

lemma insert_slot_spec:
  assumes "page_inv p"
  shows "slotCnt p \<le> insert_slot p" "insert_slot p \<le> 0"
    "\<not> in_use p (insert_slot p)"
    "\<And>j. insert_slot p < j \<Longrightarrow> j \<le> 0 \<Longrightarrow> slot_length p j \<noteq> - 1"
  using find_empty_slot_spec [of p 0] page_invD(1) [OF assms] by (auto simp: in_use_def)

text \<open>The whole effect of a successful insertion on the fields and on the data bytes.\<close>

lemma insert_effect:
  assumes inv: "page_inv p" and fits: "int (length rec) + 4 \<le> freeSpace p"
    and ins: "Page_insertRecord p rec = (r, q)"
  shows "r = Inr (RID (curPage p) (- insert_slot p))"
    and "slotCnt q = (if insert_slot p = slotCnt p then slotCnt p - 1 else slotCnt p)"
    and "freePtr q = freePtr p + int (length rec)"
    and "freeSpace q = freeSpace p - int (length rec) - (if insert_slot p = slotCnt p then 4 else 0)"
    and "nextPage q = nextPage p" "curPage q = curPage p"
    and "\<And>j. slotCnt q < j \<Longrightarrow> j \<le> 0 \<Longrightarrow>
           slot_offset q j = (if j = insert_slot p then freePtr p else slot_offset p j)"
    and "\<And>j. slotCnt q < j \<Longrightarrow> j \<le> 0 \<Longrightarrow>
           slot_length q j = (if j = insert_slot p then int (length rec) else slot_length p j)"
    and "\<And>x. x < freePtr p \<Longrightarrow> q x = p x"
    and "\<And>k. k < length rec \<Longrightarrow> q (freePtr p + int k) = rec ! k"
proof -
  let ?i = "insert_slot p"
  note D = page_invD(1-4) [OF inv] and S = insert_slot_spec(1,2) [OF inv]
  note B = field_bounds [of p]
  have q: "q = snd (Page_insertRecord p rec)" and r: "r = fst (Page_insertRecord p rec)"
    using ins by simp_all
  have sz: "sizeof_slot = 4" by (simp add: sizeof_slot_def)
  show "r = Inr (RID (curPage p) (- ?i))"
    using fits D S B by (simp add: r Page_insertRecord_def Let_def slot_simps sz)
  show sc: "slotCnt q = (if ?i = slotCnt p then slotCnt p - 1 else slotCnt p)"
    using fits D S B by (simp add: q Page_insertRecord_def Let_def slot_simps sz)
  show "freePtr q = freePtr p + int (length rec)"
    using fits D S B by (simp add: q Page_insertRecord_def Let_def slot_simps sz)
  show "freeSpace q = freeSpace p - int (length rec) - (if ?i = slotCnt p then 4 else 0)"
    using fits D S B by (simp add: q Page_insertRecord_def Let_def slot_simps sz)
  show "nextPage q = nextPage p" "curPage q = curPage p"
    using fits D S B by (simp_all add: q Page_insertRecord_def Let_def slot_simps sz)
  show "slot_offset q j = (if j = ?i then freePtr p else slot_offset p j)"
    if "slotCnt q < j" "j \<le> 0" for j
    using that fits D S B unfolding sc
    by (simp add: q Page_insertRecord_def Let_def slot_simps sz split: if_splits)
  show "slot_length q j = (if j = ?i then int (length rec) else slot_length p j)"
    if "slotCnt q < j" "j \<le> 0" for j
    using that fits D S B unfolding sc
    by (simp add: q Page_insertRecord_def Let_def slot_simps sz split: if_splits)
  show "q x = p x" if "x < freePtr p" for x
    using that fits D S B by (simp add: q Page_insertRecord_def Let_def slot_simps mem_simps sz)
  show "q (freePtr p + int k) = rec ! k" if "k < length rec" for k
    using that fits D S B
    by (simp add: q Page_insertRecord_def Let_def slot_simps mem_simps sz write_bytes_def)
qed

lemma finite_in_use [simp]: "finite {i. in_use p i}"
  by (rule finite_subset [of _ "{slotCnt p<..0}"]) (auto simp: in_use_def)

lemma used_bytes_in_use: "used_bytes p = (\<Sum>i \<in> {i. in_use p i}. slot_length p i)"
proof -
  have "used_bytes p = (\<Sum>i \<in> {i. in_use p i}. if slot_length p i = - 1 then 0 else slot_length p i)"
    unfolding used_bytes_def by (rule sum.mono_neutral_right) (auto simp: in_use_def)
  also have "\<dots> = (\<Sum>i \<in> {i. in_use p i}. slot_length p i)"
    by (rule sum.cong) (auto simp: in_use_def)
  finally show ?thesis .
qed

lemma insert_in_use:
  assumes "page_inv p" "int (length rec) + 4 \<le> freeSpace p" "Page_insertRecord p rec = (r, q)"
  shows "in_use q j \<longleftrightarrow> in_use p j \<or> j = insert_slot p"
proof -
  note E = insert_effect [OF assms] and S = insert_slot_spec [OF assms(1)]
  show ?thesis
  proof (cases "slotCnt q < j \<and> j \<le> 0")
    case True
    with E(2) E(8) [of j] S show ?thesis by (auto simp: in_use_def split: if_splits)
  next
    case False
    with E(2) S(1,2) show ?thesis by (auto simp: in_use_def split: if_splits)
  qed
qed

lemma insert_inv:
  assumes inv: "page_inv p" and fits: "int (length rec) + 4 \<le> freeSpace p"
    and ins: "Page_insertRecord p rec = (r, q)" and ne: "rec \<noteq> []"
  shows "page_inv q"
proof -
  note E = insert_effect [OF inv fits ins] and S = insert_slot_spec [OF inv]
  note U = insert_in_use [OF inv fits ins] and D = page_invD [OF inv]
  have old: "j \<noteq> insert_slot p \<Longrightarrow> in_use q j \<Longrightarrow> in_use p j \<and>
      slot_offset q j = slot_offset p j \<and> slot_length q j = slot_length p j" for j
    using U [of j] E(7,8) [of j] by (auto simp: in_use_def)
  have new: "slot_offset q (insert_slot p) = freePtr p"
      "slot_length q (insert_slot p) = int (length rec)" "in_use q (insert_slot p)"
    using U [of "insert_slot p"] E(7,8) [of "insert_slot p"] by (auto simp: in_use_def)
  have ok: "slot_ok q j" if "in_use q j" for j
    using old [OF _ that] new D(2) D(5) [of j] ne E(3)
    by (cases "j = insert_slot p") (auto simp: slot_ok_def)
  have ap: "apart q i j" if "in_use q i" "in_use q j" "i \<noteq> j" for i j
    using old [OF _ that(1)] old [OF _ that(2)] new that(3) D(5) [of i] D(5) [of j] D(6) [of i j]
    by (cases "i = insert_slot p"; cases "j = insert_slot p") (auto simp: apart_def slot_ok_def)
  have set: "{i. in_use q i} = insert (insert_slot p) {i. in_use p i}"
    using U by auto
  have "used_bytes q = int (length rec) + (\<Sum>i \<in> {i. in_use p i}. slot_length q i)"
    unfolding used_bytes_in_use set using S(3) new(2) by simp
  also have "(\<Sum>i \<in> {i. in_use p i}. slot_length q i) = used_bytes p"
    unfolding used_bytes_in_use
  proof (rule sum.cong)
    show "slot_length q i = slot_length p i" if "i \<in> {i. in_use p i}" for i
      using that old [of i] U [of i] S(3) by auto
  qed simp
  finally have ub: "used_bytes q = freePtr q" using D(7) E(3) by simp
  have last: "slot_length q (slotCnt q + 1) \<noteq> - 1" if "slotCnt q < 0"
    using E(2) E(8) [of "slotCnt q + 1"] new(2) D(8) that S(1,2) by (auto split: if_splits)
  have "slotCnt q \<le> 0" "0 \<le> freeSpace q" "freePtr q + freeSpace q - 4 * slotCnt q = 1004"
    using E(2-4) D(1-4) fits by (auto split: if_splits)
  with ok ap ub last D(2) E(3) show ?thesis by (auto simp: page_inv_def)
qed

lemma insert_contents:
  assumes inv: "page_inv p" and fits: "int (length rec) + 4 \<le> freeSpace p"
    and ins: "Page_insertRecord p rec = (r, q)"
  shows "contents q = (contents p)(- insert_slot p \<mapsto> rec)"
proof
  fix k
  note E = insert_effect [OF inv fits ins] and S = insert_slot_spec [OF inv]
  note U = insert_in_use [OF inv fits ins, of "- k"] and D = page_invD [OF inv]
  show "contents q k = ((contents p)(- insert_slot p \<mapsto> rec)) k"
  proof (cases "- k = insert_slot p")
    case True
    with U E(7,8) [of "- k"] have "slot_offset q (- k) = freePtr p"
        "slot_length q (- k) = int (length rec)"
      by (auto simp: in_use_def)
    moreover have "read_bytes q (freePtr p) (length rec) = rec"
      by (rule nth_equalityI) (simp_all add: E(10))
    ultimately show ?thesis using True U by (simp add: contents_def)
  next
    case False
    then have k: "k \<noteq> - insert_slot p" by auto
    show ?thesis
    proof (cases "in_use p (- k)")
      case True
      with False U E(7,8) [of "- k"] have f: "slot_offset q (- k) = slot_offset p (- k)"
          "slot_length q (- k) = slot_length p (- k)"
        by (auto simp: in_use_def)
      have "read_bytes q (slot_offset p (- k)) (nat (slot_length p (- k)))
          = read_bytes p (slot_offset p (- k)) (nat (slot_length p (- k)))"
        using D(5) [OF True] by (intro read_bytes_eqI E(9)) (auto simp: slot_ok_def)
      with f k True U show ?thesis by (simp add: contents_def)
    next
      case nu: False
      with False U k show ?thesis by (simp add: contents_def)
    qed
  qed
qed

subsection \<open>Deletion\<close>

text \<open>The offset loop moves exactly the slots behind the hole and touches nothing else.\<close>

lemma adjust_offsets_effect:
  "s \<le> 0 \<Longrightarrow>
     slotCnt (adjust_offsets p k s r) = slotCnt p \<and>
     freePtr (adjust_offsets p k s r) = freePtr p \<and>
     freeSpace (adjust_offsets p k s r) = freeSpace p \<and>
     nextPage (adjust_offsets p k s r) = nextPage p \<and>
     curPage (adjust_offsets p k s r) = curPage p \<and>
     (\<forall>j. slot_length (adjust_offsets p k s r) j = slot_length p j) \<and>
     (\<forall>j \<le> 0. slot_offset (adjust_offsets p k s r) j =
        (if slotCnt p < j \<and> j \<le> - int k \<and> 0 \<le> slot_length p j \<and> slot_offset p s < slot_offset p j
         then swrap 16 (slot_offset p j - r) else slot_offset p j)) \<and>
     (\<forall>x < 1008 + 4 * slotCnt p. adjust_offsets p k s r x = p x)"
proof (induction p k s r rule: adjust_offsets.induct)
  case (1 p k s r)
  let ?i = "- int k"
  let ?c = "slot_length p ?i \<ge> 0 \<and> slot_offset p ?i > slot_offset p s"
  let ?p = "if ?c then set_slot_offset p ?i (slot_offset p ?i - r) else p"
  show ?case
  proof (cases "?i > slotCnt p")
    case True
    have eq: "adjust_offsets p k s r = adjust_offsets ?p (Suc k) s r"
      using True by (simp only: adjust_offsets.simps [of p k s r] if_True)
    have f: "slotCnt ?p = slotCnt p" "freePtr ?p = freePtr p" "freeSpace ?p = freeSpace p"
        "nextPage ?p = nextPage p" "curPage ?p = curPage p" "\<And>j. slot_length ?p j = slot_length p j"
        "slot_offset ?p s = slot_offset p s"
      by (auto simp: slot_simps)
    have o: "slot_offset ?p j = (if ?c \<and> j = ?i then swrap 16 (slot_offset p j - r) else slot_offset p j)" for j
      by (auto simp: slot_simps)
    have d: "?p x = p x" if "x < 1008 + 4 * slotCnt p" for x
      using that True by (simp add: slot_simps)
    have le: "j \<le> ?i \<longleftrightarrow> j = ?i \<or> j \<le> - int (Suc k)" for j by auto
    note IH = "1.IH" [OF True "1.prems", unfolded f]
    have off: "\<forall>j \<le> 0. slot_offset (adjust_offsets ?p (Suc k) s r) j =
        (if slotCnt p < j \<and> j \<le> ?i \<and> 0 \<le> slot_length p j \<and> slot_offset p s < slot_offset p j
         then swrap 16 (slot_offset p j - r) else slot_offset p j)"
      using IH True o unfolding le by auto
    show ?thesis unfolding eq using IH off d by auto
  next
    case False
    then have "adjust_offsets p k s r = p" by (simp add: adjust_offsets.simps [of p k s r])
    with False show ?thesis by auto
  qed
qed

text \<open>
  The compaction loop gives back the last slot and the empty slots in front of it; no
  other slot and no data byte changes.
\<close>

lemma compact_slots_effect:
  assumes "slotCnt p < 0" "0 \<le> freeSpace p" "freeSpace p - 4 * slotCnt p \<le> 1004"
  shows "slotCnt p < slotCnt (compact_slots p) \<and> slotCnt (compact_slots p) \<le> 0 \<and>
     freePtr (compact_slots p) = freePtr p \<and>
     freeSpace (compact_slots p) - 4 * slotCnt (compact_slots p) = freeSpace p - 4 * slotCnt p \<and>
     nextPage (compact_slots p) = nextPage p \<and> curPage (compact_slots p) = curPage p \<and>
     (\<forall>j \<le> 0. slot_length (compact_slots p) j = slot_length p j \<and>
             slot_offset (compact_slots p) j = slot_offset p j) \<and>
     (\<forall>j. slotCnt p + 1 < j \<and> j \<le> slotCnt (compact_slots p) \<longrightarrow> slot_length p j = - 1) \<and>
     (slotCnt (compact_slots p) < 0 \<longrightarrow> slot_length p (slotCnt (compact_slots p) + 1) \<noteq> - 1) \<and>
     (\<forall>x < 1008. compact_slots p x = p x)"
  using assms
proof (induction p rule: compact_slots.induct)
  case (1 p)
  let ?p1 = "set_slotCnt p (slotCnt p + 1)"
  let ?p2 = "set_freeSpace ?p1 (freeSpace ?p1 + sizeof_slot)"
  have f: "slotCnt ?p2 = slotCnt p + 1" "freePtr ?p2 = freePtr p" "freeSpace ?p2 = freeSpace p + 4"
      "nextPage ?p2 = nextPage p" "curPage ?p2 = curPage p"
    using "1.prems" field_bounds [of p] by (simp_all add: slot_simps sizeof_slot_def)
  have l: "slot_length ?p2 j = slot_length p j" "slot_offset ?p2 j = slot_offset p j" if "j \<le> 0" for j
    using that by (simp_all add: slot_simps)
  have d: "?p2 x = p x" if "x < 1008" for x
    using that by (simp add: slot_simps)
  show ?case
  proof (cases "slotCnt ?p2 < 0 \<and> slot_length ?p2 (slotCnt ?p2 + 1) = - 1")
    case True
    have eq: "compact_slots p = compact_slots ?p2"
      using True by (simp add: compact_slots.simps [of p] Let_def)
    have "freeSpace ?p2 - 4 * slotCnt ?p2 \<le> 1004" "0 \<le> freeSpace ?p2"
      using "1.prems" f by simp_all
    note IH = "1.IH" [OF refl refl True conjunct1 [OF True] this(2) this(1)]
    have step: "slotCnt p + 1 < j \<longleftrightarrow> j = slotCnt p + 2 \<or> slotCnt p + 2 < j" for j by auto
    have e: "\<forall>j. slotCnt p + 1 < j \<and> j \<le> slotCnt (compact_slots ?p2) \<longrightarrow> slot_length p j = - 1"
      using IH True f l unfolding step by (auto simp: algebra_simps)
    have e2: "slotCnt (compact_slots ?p2) < 0 \<longrightarrow> slot_length p (slotCnt (compact_slots ?p2) + 1) \<noteq> - 1"
      using IH l [of "slotCnt (compact_slots ?p2) + 1"] by auto
    show ?thesis unfolding eq using IH e e2 f l d by auto
  next
    case False
    have eq: "compact_slots p = ?p2"
      using False by (auto simp: compact_slots.simps [of p] Let_def)
    show ?thesis unfolding eq using False "1.prems" f l d by (auto simp: algebra_simps)
  qed
qed

text \<open>
  The page after the bytes are moved and the offsets adjusted, before the slot itself is
  given back.
\<close>

definition closed_up :: "memory \<Rightarrow> int \<Rightarrow> memory" where
  "closed_up p s =
     (let p1 = move_bytes p (slot_offset p s + slot_length p s) (slot_offset p s)
                 (freePtr p - (slot_offset p s + slot_length p s));
          p2 = adjust_offsets p1 0 s (slot_length p s);
          p3 = set_freePtr p2 (freePtr p2 - slot_length p s)
      in set_freeSpace p3 (freeSpace p3 + slot_length p s))"

lemma closed_up_effect:
  assumes inv: "page_inv p" and s: "in_use p s"
  defines "q \<equiv> closed_up p s"
  shows "slotCnt q = slotCnt p" "freePtr q = freePtr p - slot_length p s"
    and "freeSpace q = freeSpace p + slot_length p s"
    and "nextPage q = nextPage p" "curPage q = curPage p"
    and "\<And>j. slotCnt p < j \<Longrightarrow> j \<le> 0 \<Longrightarrow> slot_length q j = slot_length p j"
    and "\<And>j. in_use p j \<Longrightarrow> slot_offset q j =
           (if slot_offset p s < slot_offset p j then slot_offset p j - slot_length p s
            else slot_offset p j)"
    and "\<And>x. x < slot_offset p s \<Longrightarrow> q x = p x"
    and "\<And>x. slot_offset p s \<le> x \<Longrightarrow> x < freePtr q \<Longrightarrow> q x = p (x + slot_length p s)"
proof -
  let ?o = "slot_offset p s" and ?l = "slot_length p s"
  let ?p1 = "move_bytes p (?o + ?l) ?o (freePtr p - (?o + ?l))"
  let ?p2 = "adjust_offsets ?p1 0 s ?l"
  note D = page_invD(1-4) [OF inv] and ok = page_invD(5) [OF inv] and B = field_bounds [of p]
  have s0: "slotCnt p < s" "s \<le> 0" and so: "0 < ?l" "0 \<le> ?o" "?o + ?l \<le> freePtr p"
    using s ok [OF s] by (auto simp: in_use_def slot_ok_def)
  have m: "slotCnt ?p1 = slotCnt p" "freePtr ?p1 = freePtr p" "freeSpace ?p1 = freeSpace p"
      "nextPage ?p1 = nextPage p" "curPage ?p1 = curPage p"
    using D so by (simp_all add: slot_simps)
  have ms: "slot_length ?p1 j = slot_length p j" "slot_offset ?p1 j = slot_offset p j"
    if "slotCnt p < j" for j
    using that D so by (simp_all add: slot_simps)
  note A = adjust_offsets_effect [OF s0(2), of ?p1 0 ?l, unfolded m ms(2) [OF s0(1)]]
  have a: "slotCnt ?p2 = slotCnt p" "freePtr ?p2 = freePtr p" "freeSpace ?p2 = freeSpace p"
      "nextPage ?p2 = nextPage p" "curPage ?p2 = curPage p"
    using A by auto
  show "slotCnt q = slotCnt p" "freePtr q = freePtr p - ?l" "freeSpace q = freeSpace p + ?l"
      "nextPage q = nextPage p" "curPage q = curPage p"
    using D so B a by (simp_all add: q_def closed_up_def Let_def slot_simps)
  note fq = this
  show "slot_length q j = slot_length p j" if "slotCnt p < j" "j \<le> 0" for j
    using that A ms by (simp add: q_def closed_up_def Let_def slot_simps)
  show "slot_offset q j = (if ?o < slot_offset p j then slot_offset p j - ?l else slot_offset p j)"
    if j: "in_use p j" for j
  proof -
    have jr: "slotCnt p < j" "j \<le> 0" and jo: "0 < slot_length p j" "0 \<le> slot_offset p j"
        "slot_offset p j + slot_length p j \<le> freePtr p"
      using j ok [OF j] by (auto simp: in_use_def slot_ok_def)
    have "slot_offset q j = slot_offset ?p2 j"
      using jr by (simp add: q_def closed_up_def Let_def slot_simps)
    also have "\<dots> = (if ?o < slot_offset p j then swrap 16 (slot_offset p j - ?l) else slot_offset p j)"
      using A jr jo ms [OF jr(1)] by simp
    finally show ?thesis using jo so B by simp
  qed
  have q2: "q x = ?p1 x" if "x < freePtr p" for x
    using that D A by (simp add: q_def closed_up_def Let_def slot_simps)
  show "q x = p x" if "x < ?o" for x
    using that so q2 [of x] by (simp add: mem_simps)
  show "q x = p (x + ?l)" if "?o \<le> x" "x < freePtr q" for x
    using that so fq q2 [of x] by (simp add: move_bytes_moved algebra_simps)
qed

lemma delete_closed_up:
  assumes "page_inv p" "in_use p s" "rid_slotNo rid = - s"
  shows "Page_deleteRecord p rid =
    (OK, if s = slotCnt p + 1 then compact_slots (closed_up p s)
         else set_slot_offset (set_slot_length (closed_up p s) s (- 1)) s 0)"
proof -
  have "s > slotCnt p" "slot_length p s > 0"
    using assms(2) page_invD(5) [OF assms(1) assms(2)] by (auto simp: in_use_def slot_ok_def)
  with assms(3) closed_up_effect(1) [OF assms(1,2)] show ?thesis
    by (simp add: Page_deleteRecord_def closed_up_def Let_def)
qed

text \<open>
  Both ways of giving the slot back (compaction of the array, or marking the slot) leave
  the same picture.
\<close>

definition gave_back :: "memory \<Rightarrow> int \<Rightarrow> memory \<Rightarrow> bool" where
  "gave_back p s q \<longleftrightarrow>
     (\<forall>j. in_use q j \<longleftrightarrow> in_use p j \<and> j \<noteq> s) \<and> slotCnt p \<le> slotCnt q \<and> slotCnt q \<le> 0 \<and>
     freePtr q = freePtr (closed_up p s) \<and>
     freeSpace q - 4 * slotCnt q = freeSpace (closed_up p s) - 4 * slotCnt p \<and>
     nextPage q = nextPage (closed_up p s) \<and> curPage q = curPage (closed_up p s) \<and>
     (\<forall>j. in_use q j \<longrightarrow> slot_length q j = slot_length (closed_up p s) j \<and>
                       slot_offset q j = slot_offset (closed_up p s) j) \<and>
     (\<forall>x < freePtr p. q x = closed_up p s x) \<and>
     (slotCnt q < 0 \<longrightarrow> slot_length q (slotCnt q + 1) \<noteq> - 1)"

lemma gave_back_compact:
  assumes inv: "page_inv p" and s: "in_use p s" and last: "s = slotCnt p + 1"
  shows "gave_back p s (compact_slots (closed_up p s))" (is "gave_back p s ?q")
proof -
  note C = closed_up_effect [OF inv s] and D = page_invD [OF inv]
  have "slotCnt p < s" "s \<le> 0" "0 < slot_length p s"
      "slot_offset p s + slot_length p s \<le> freePtr p" "0 \<le> slot_offset p s"
    using s D(5) [OF s] by (auto simp: in_use_def slot_ok_def)
  then have "slotCnt (closed_up p s) < 0" "0 \<le> freeSpace (closed_up p s)"
      "freeSpace (closed_up p s) - 4 * slotCnt (closed_up p s) \<le> 1004"
    using C(1-3) D(1-4) last by auto
  note K = compact_slots_effect [OF this, unfolded C(1)]
  have use: "in_use ?q j \<longleftrightarrow> in_use p j \<and> j \<noteq> s" for j
  proof (cases "slotCnt ?q < j \<and> j \<le> 0")
    case True
    with K C(6) [of j] last show ?thesis by (auto simp: in_use_def)
  next
    case False
    then have "\<not> in_use ?q j" by (auto simp: in_use_def)
    moreover have "\<not> in_use p j" if "j \<noteq> s"
      using that False K C(6) [of j] last by (auto simp: in_use_def)
    ultimately show ?thesis by blast
  qed
  have "freePtr p \<le> 1008" using D(1-4) by simp
  with use K show ?thesis by (auto simp: gave_back_def in_use_def)
qed

lemma gave_back_mark:
  assumes inv: "page_inv p" and s: "in_use p s" and mid: "s \<noteq> slotCnt p + 1"
  shows "gave_back p s (set_slot_offset (set_slot_length (closed_up p s) s (- 1)) s 0)"
    (is "gave_back p s ?q")
proof -
  note C = closed_up_effect [OF inv s] and D = page_invD [OF inv]
  have s0: "slotCnt p < s" "s \<le> 0" using s by (auto simp: in_use_def)
  have f: "slotCnt ?q = slotCnt p" "freePtr ?q = freePtr (closed_up p s)"
      "freeSpace ?q = freeSpace (closed_up p s)"
      "nextPage ?q = nextPage (closed_up p s)" "curPage ?q = curPage (closed_up p s)"
    using s0 C(1) by (simp_all add: slot_simps)
  have l: "slot_length ?q j = (if j = s then - 1 else slot_length (closed_up p s) j)"
      "j \<noteq> s \<Longrightarrow> slot_offset ?q j = slot_offset (closed_up p s) j" for j
    by (simp_all add: slot_simps)
  have u: "in_use ?q j \<longleftrightarrow> in_use p j \<and> j \<noteq> s" for j
    using l C(6) [of j] f by (auto simp: in_use_def)
  have d: "?q x = closed_up p s x" if "x < freePtr p" for x
    using that s0 D(1-4) by (simp add: slot_simps)
  have "slotCnt ?q < 0 \<longrightarrow> slot_length ?q (slotCnt ?q + 1) \<noteq> - 1"
    using D(8) C(6) [of "slotCnt p + 1"] mid f(1) l by auto
  with u f l d D(1) show ?thesis by (auto simp: gave_back_def)
qed

lemma delete_effect:
  assumes inv: "page_inv p" and s: "in_use p s" and rid: "rid_slotNo rid = - s"
    and del: "Page_deleteRecord p rid = (st, q)"
  shows "st = OK"
    and "\<And>j. in_use q j \<longleftrightarrow> in_use p j \<and> j \<noteq> s"
    and "slotCnt p \<le> slotCnt q" "slotCnt q \<le> 0"
    and "freePtr q = freePtr p - slot_length p s"
    and "freeSpace q - 4 * slotCnt q = freeSpace p - 4 * slotCnt p + slot_length p s"
    and "nextPage q = nextPage p" "curPage q = curPage p"
    and "\<And>j. in_use q j \<Longrightarrow> slot_length q j = slot_length p j"
    and "\<And>j. in_use q j \<Longrightarrow> slot_offset q j =
           (if slot_offset p s < slot_offset p j then slot_offset p j - slot_length p s
            else slot_offset p j)"
    and "\<And>x. x < slot_offset p s \<Longrightarrow> q x = p x"
    and "\<And>x. slot_offset p s \<le> x \<Longrightarrow> x < freePtr q \<Longrightarrow> q x = p (x + slot_length p s)"
    and "slotCnt q < 0 \<Longrightarrow> slot_length q (slotCnt q + 1) \<noteq> - 1"
    and "0 \<le> freeSpace q"
proof -
  note C = closed_up_effect [OF inv s] and D = page_invD [OF inv]
  have so: "0 < slot_length p s" "0 \<le> slot_offset p s"
      "slot_offset p s + slot_length p s \<le> freePtr p"
    using D(5) [OF s] by (auto simp: slot_ok_def)
  note eq = delete_closed_up [OF inv s rid, unfolded del]
  show "st = OK" using eq by simp
  have G: "gave_back p s q"
    using eq gave_back_compact [OF inv s] gave_back_mark [OF inv s] by (auto split: if_splits)
  show "\<And>j. in_use q j \<longleftrightarrow> in_use p j \<and> j \<noteq> s" "slotCnt p \<le> slotCnt q" "slotCnt q \<le> 0"
    "slotCnt q < 0 \<Longrightarrow> slot_length q (slotCnt q + 1) \<noteq> - 1"
    using G unfolding gave_back_def by blast+
  show "freePtr q = freePtr p - slot_length p s" "nextPage q = nextPage p" "curPage q = curPage p"
    "freeSpace q - 4 * slotCnt q = freeSpace p - 4 * slotCnt p + slot_length p s"
    using G C(1-5) by (simp_all add: gave_back_def)
  show "0 \<le> freeSpace q" using G C(1-3) D(3) so by (auto simp: gave_back_def)
  show "slot_length q j = slot_length p j" if "in_use q j" for j
    using that G C(6) [of j] by (auto simp: gave_back_def in_use_def)
  show "slot_offset q j = (if slot_offset p s < slot_offset p j
      then slot_offset p j - slot_length p s else slot_offset p j)" if "in_use q j" for j
    using that G C(7) [of j] by (auto simp: gave_back_def)
  show "q x = p x" if "x < slot_offset p s" for x
    using that G so C(8) [of x] by (auto simp: gave_back_def)
  show "q x = p (x + slot_length p s)" if "slot_offset p s \<le> x" "x < freePtr q" for x
    using that G so C(2) C(9) [of x] by (auto simp: gave_back_def)
qed

lemma delete_inv:
  assumes inv: "page_inv p" and s: "in_use p s" and rid: "rid_slotNo rid = - s"
    and del: "Page_deleteRecord p rid = (st, q)"
  shows "page_inv q"
proof -
  note E = delete_effect [OF inv s rid del] and D = page_invD [OF inv]
  have so: "slot_ok p s" by (rule D(5) [OF s])
  have ok: "slot_ok q j" if "in_use q j" for j
    using that E(2) [of j] E(5) E(9,10) [OF that] D(5) [of j] D(6) [of j s] so s
    by (auto simp: slot_ok_def apart_def)
  have ap: "apart q i j" if "in_use q i" "in_use q j" "i \<noteq> j" for i j
    using that E(2) [of i] E(2) [of j] E(9,10) [OF that(1)] E(9,10) [OF that(2)]
      D(5) [of i] D(5) [of j] D(6) [of i j] D(6) [of i s] D(6) [of j s] so s
    by (auto simp: slot_ok_def apart_def)
  have set: "{i. in_use p i} = insert s {i. in_use q i}" using E(2) s by auto
  have "used_bytes p = slot_length p s + (\<Sum>i \<in> {i. in_use q i}. slot_length p i)"
    unfolding used_bytes_in_use set using E(2) [of s] by simp
  also have "(\<Sum>i \<in> {i. in_use q i}. slot_length p i) = used_bytes q"
    unfolding used_bytes_in_use by (rule sum.cong) (simp_all add: E(9))
  finally have ub: "used_bytes q = freePtr q" using D(7) E(5) by simp
  have "0 \<le> freePtr q" "freePtr q + freeSpace q - 4 * slotCnt q = 1004"
    using E(5,6) so D(4) by (auto simp: slot_ok_def)
  with ok ap ub E(4,13,14) show ?thesis by (auto simp: page_inv_def)
qed

lemma delete_contents:
  assumes inv: "page_inv p" and s: "in_use p s" and rid: "rid_slotNo rid = - s"
    and del: "Page_deleteRecord p rid = (st, q)"
  shows "contents q = (contents p)(- s := None)"
proof
  fix k
  note E = delete_effect [OF inv s rid del] and D = page_invD [OF inv]
  show "contents q k = ((contents p)(- s := None)) k"
  proof (cases "in_use q (- k)")
    case True
    then have u: "in_use p (- k)" "- k \<noteq> s" using E(2) by auto
    note so = D(5) [OF s] and ko = D(5) [OF u(1)] and ap = D(6) [OF u(1) s u(2)]
    let ?n = "nat (slot_length p (- k))"
    have "read_bytes q (slot_offset q (- k)) ?n = read_bytes p (slot_offset p (- k)) ?n"
    proof (rule read_bytes_eqI)
      fix i assume i: "i < ?n"
      show "q (slot_offset q (- k) + int i) = p (slot_offset p (- k) + int i)"
        using i so ko ap E(10) [OF True] E(5)
          E(11) [of "slot_offset q (- k) + int i"] E(12) [of "slot_offset q (- k) + int i"]
        by (auto simp: slot_ok_def apart_def)
    qed
    with True u E(9) [OF True] show ?thesis by (auto simp: contents_def)
  next
    case False
    with E(2) [of "- k"] show ?thesis by (auto simp: contents_def)
  qed
qed

subsection \<open>Lookup and iteration\<close>

lemma contents_dom: "contents p k \<noteq> None \<longleftrightarrow> in_use p (- k)"
  by (simp add: contents_def)

lemma slot_used_iff:
  assumes "page_inv p" "0 \<le> k"
  shows "in_use p (- k) \<longleftrightarrow> - k > slotCnt p \<and> slot_length p (- k) > 0"
  using page_invD(5) [OF assms(1), of "- k"] assms(2) by (auto simp: in_use_def slot_ok_def)

lemma Page_getRecord_contents:
  assumes "page_inv p" "0 \<le> k"
  shows "Page_getRecord p (RID n k) =
    (case contents p k of Some rec \<Rightarrow> Inr rec | None \<Rightarrow> Inl INVALIDSLOTNO)"
  using slot_used_iff [OF assms] by (simp add: Page_getRecord_def contents_def)

lemma skip_hit:
  assumes inv: "page_inv p" and i: "i \<le> 0" and hit: "skip_empty_slots p i > slotCnt p"
  shows "in_use p (skip_empty_slots p i)"
    and "\<And>j. in_use p j \<Longrightarrow> j \<le> i \<Longrightarrow> j \<le> skip_empty_slots p i"
  using skip_empty_slots_spec [of p i] i hit by (auto simp: in_use_def not_less [symmetric])

lemma skip_miss:
  assumes miss: "skip_empty_slots p i \<le> slotCnt p" and j: "in_use p j" "j \<le> i"
  shows False
  using skip_empty_slots_spec [of p i] miss j by (auto simp: in_use_def)

lemma Page_nextRecord_Inr:
  assumes "Page_nextRecord p r = Inr r'"
  shows "rid_slotNo r < rid_slotNo r'" "- rid_slotNo r' > slotCnt p" "rid_pageNo r' = curPage p"
  using assms skip_empty_slots_spec [of p "- rid_slotNo r - 1"]
  by (auto simp: Page_nextRecord_def Let_def split: if_splits)

text \<open>
  The iteration protocol of the scan code: start behind \<open>NULLRID\<close> and ask for the next
  record until \<open>ENDOFPAGE\<close>.
\<close>

function page_scan :: "memory \<Rightarrow> RID \<Rightarrow> RID list" where
  "page_scan p r = (case Page_nextRecord p r of Inr r' \<Rightarrow> r' # page_scan p r' | Inl _ \<Rightarrow> [])"
  by pat_completeness auto
termination
  by (relation "measure (\<lambda>(p, r). nat (- slotCnt p - rid_slotNo r))")
    (use Page_nextRecord_Inr in \<open>fastforce+\<close>)

declare page_scan.simps [simp del]

lemma Page_nextRecord_spec:
  assumes inv: "page_inv p" and r: "- 1 \<le> rid_slotNo r"
  shows "(case Page_nextRecord p r of
            Inr r' \<Rightarrow> rid_pageNo r' = curPage p \<and> contents p (rid_slotNo r') \<noteq> None \<and>
              rid_slotNo r < rid_slotNo r' \<and>
              (\<forall>k. rid_slotNo r < k \<and> contents p k \<noteq> None \<longrightarrow> rid_slotNo r' \<le> k)
          | Inl e \<Rightarrow> e = ENDOFPAGE \<and> (\<forall>k. rid_slotNo r < k \<longrightarrow> contents p k = None))"
proof -
  let ?i = "skip_empty_slots p (- rid_slotNo r - 1)"
  have i: "- rid_slotNo r - 1 \<le> 0" using r by simp
  show ?thesis
  proof (cases "?i \<le> slotCnt p")
    case True
    then have "Page_nextRecord p r = Inl ENDOFPAGE" by (simp add: Page_nextRecord_def Let_def)
    moreover have "contents p k = None" if "rid_slotNo r < k" for k
      using skip_miss [OF True, of "- k"] that by (auto simp: contents_def)
    ultimately show ?thesis by simp
  next
    case False
    note hit = skip_hit [OF inv i]
    have "slot_length p ?i \<noteq> - 1" using hit(1) False by (simp add: in_use_def)
    with False have "Page_nextRecord p r = Inr (RID (curPage p) (- ?i))"
      by (simp add: Page_nextRecord_def Let_def)
    moreover have "- ?i \<le> k" if "rid_slotNo r < k" "contents p k \<noteq> None" for k
      using hit(2) [of "- k"] that False contents_dom [of p k] by auto
    ultimately show ?thesis
      using hit(1) False skip_empty_slots_spec [of p "- rid_slotNo r - 1"] by (auto simp: contents_def)
  qed
qed

lemma page_scan_spec:
  assumes inv: "page_inv p"
  shows "- 1 \<le> rid_slotNo r \<Longrightarrow>
    sorted_wrt (<) (map rid_slotNo (page_scan p r)) \<and>
    set (map rid_slotNo (page_scan p r)) = {k. rid_slotNo r < k \<and> contents p k \<noteq> None} \<and>
    (\<forall>r' \<in> set (page_scan p r). rid_pageNo r' = curPage p)"
  using inv
proof (induction p r rule: page_scan.induct)
  case (1 p r)
  note N = Page_nextRecord_spec [OF "1.prems"(2,1)]
  show ?case
  proof (cases "Page_nextRecord p r")
    case (Inl e)
    with N show ?thesis by (simp add: page_scan.simps [of p r])
  next
    case (Inr r')
    have lt: "rid_slotNo r < rid_slotNo r'" using N Inr by simp
    then have "- 1 \<le> rid_slotNo r'" using "1.prems"(1) by simp
    note IH = "1.IH" [OF Inr this "1.prems"(2)]
    have "{k. rid_slotNo r < k \<and> contents p k \<noteq> None}
        = insert (rid_slotNo r') {k. rid_slotNo r' < k \<and> contents p k \<noteq> None}"
      using N Inr lt by force
    with IH N Inr show ?thesis by (simp add: page_scan.simps [of p r])
  qed
qed

lemma Page_firstRecord_next:
  assumes "page_inv p"
  shows "Page_firstRecord p =
    (case Page_nextRecord p NULLRID of Inr r \<Rightarrow> Inr r | Inl _ \<Rightarrow> Inl NORECORDS)"
proof -
  have "slotCnt p \<le> skip_empty_slots p 0"
    using skip_empty_slots_spec [of p 0] page_invD(1) [OF assms] by simp
  then have "skip_empty_slots p 0 \<le> slotCnt p \<longleftrightarrow> skip_empty_slots p 0 = slotCnt p" by auto
  then show ?thesis
    by (auto simp: Page_firstRecord_def Page_nextRecord_def NULLRID_def Let_def)
qed

end
