(* ===== verification/Page_Refine.thy ===== *)
theory Page_Refine
  imports Page_Spec
begin

text \<open>
  The slotted page as an implementation of a record store. The locale \<open>record_store\<close> is
  the contract a page offers to the heap file code (insert, delete and get by record
  identifier over a map from slot numbers to records); the page of \<open>Page\<close> is an
  interpretation, so the operations of a client that inserts non-empty records and deletes by
  slot numbers that are not negative refine the same operations on the map.
\<close>

subsection \<open>The contract\<close>

locale record_store =
  fixes ins :: "'p \<Rightarrow> 'r \<Rightarrow> (Status + RID) \<times> 'p"
    and del :: "'p \<Rightarrow> RID \<Rightarrow> Status \<times> 'p"
    and get :: "'p \<Rightarrow> RID \<Rightarrow> Status + 'r"
    and inv :: "'p \<Rightarrow> bool"
    and recs :: "'p \<Rightarrow> int \<Rightarrow> 'r option"
    and rec_ok :: "'r \<Rightarrow> bool"
  assumes ins_Inr: "inv p \<Longrightarrow> rec_ok r \<Longrightarrow> ins p r = (Inr rid, q) \<Longrightarrow>
      inv q \<and> recs p (rid_slotNo rid) = None \<and> 0 \<le> rid_slotNo rid \<and>
      recs q = (recs p)(rid_slotNo rid \<mapsto> r)"
    and ins_Inl: "ins p r = (Inl e, q) \<Longrightarrow> q = p"
    and del_Some: "inv p \<Longrightarrow> recs p (rid_slotNo rid) = Some r \<Longrightarrow> del p rid = (s, q) \<Longrightarrow>
      s = OK \<and> inv q \<and> recs q = (recs p)(rid_slotNo rid := None)"
    and del_None: "inv p \<Longrightarrow> 0 \<le> rid_slotNo rid \<Longrightarrow> recs p (rid_slotNo rid) = None \<Longrightarrow>
      del p rid = (INVALIDSLOTNO, p)"
    and get_eq: "inv p \<Longrightarrow> 0 \<le> rid_slotNo rid \<Longrightarrow>
      get p rid = (case recs p (rid_slotNo rid) of Some r \<Rightarrow> Inr r | None \<Rightarrow> Inl INVALIDSLOTNO)"
begin

lemma get_after_ins:
  "inv p \<Longrightarrow> rec_ok r \<Longrightarrow> ins p r = (Inr rid, q) \<Longrightarrow> get q rid = Inr r"
  using ins_Inr [of p r rid q] get_eq [of q rid] by simp

lemma get_other_after_ins:
  assumes "inv p" "rec_ok r" "ins p r = (Inr rid, q)"
    and "0 \<le> rid_slotNo rid'" "rid_slotNo rid' \<noteq> rid_slotNo rid"
  shows "get q rid' = get p rid'"
  using ins_Inr [OF assms(1-3)] get_eq [of q rid'] get_eq [of p rid'] assms by simp

lemma get_after_del:
  assumes "inv p" "recs p (rid_slotNo rid) = Some r" "del p rid = (s, q)" "0 \<le> rid_slotNo rid"
  shows "get q rid = Inl INVALIDSLOTNO"
    and "0 \<le> rid_slotNo rid' \<Longrightarrow> rid_slotNo rid' \<noteq> rid_slotNo rid \<Longrightarrow> get q rid' = get p rid'"
  using del_Some [OF assms(1-3)] get_eq [of q] get_eq [of p] assms by simp_all

text \<open>A second deletion of the same record is refused and changes nothing.\<close>

lemma del_twice:
  assumes "inv p" "recs p (rid_slotNo rid) = Some r" "del p rid = (s, q)" "0 \<le> rid_slotNo rid"
  shows "del q rid = (INVALIDSLOTNO, q)"
  using del_Some [OF assms(1-3)] del_None [of q rid] assms by simp

text \<open>Inserting and deleting again gives back the old contents.\<close>

lemma del_after_ins:
  assumes "inv p" "rec_ok r" "ins p r = (Inr rid, q)" "del q rid = (s, q')"
  shows "s = OK \<and> inv q' \<and> recs q' = recs p"
  using ins_Inr [OF assms(1-3)] del_Some [of q rid r s q'] assms(4) by auto

end

subsection \<open>The page implements it\<close>

lemma Page_insert_Inr_fits:
  "Page_insertRecord p rec = (Inr rid, q) \<Longrightarrow> int (length rec) + 4 \<le> freeSpace p"
  by (auto simp: Page_insertRecord_def sizeof_slot_def Let_def split: if_splits)

interpretation pg: record_store Page_insertRecord Page_deleteRecord Page_getRecord
  page_inv contents "\<lambda>rec. rec \<noteq> []"
proof (unfold_locales, goal_cases)
  case (1 p r rid q)
  note fits = Page_insert_Inr_fits [OF 1(3)]
  note E = insert_effect(1) [OF 1(1) fits 1(3)] and S = insert_slot_spec [OF 1(1)]
  show ?case
    using E S insert_inv [OF 1(1) fits 1(3,2)] insert_contents [OF 1(1) fits 1(3)]
    by (simp add: contents_def)
next
  case (2 p r e q)
  then show ?case by (auto simp: Page_insertRecord_def Let_def split: if_splits)
next
  case (3 p rid r s q)
  then have u: "in_use p (- rid_slotNo rid)" using contents_dom [of p "rid_slotNo rid"] by simp
  show ?case
    using delete_effect(1) [OF 3(1) u _ 3(3)] delete_inv [OF 3(1) u _ 3(3)]
      delete_contents [OF 3(1) u _ 3(3)] by simp
next
  case (4 p rid)
  then have "\<not> in_use p (- rid_slotNo rid)" using contents_dom [of p "rid_slotNo rid"] by simp
  with slot_used_iff [OF 4(1,2)] show ?case by (auto simp: Page_deleteRecord_def Let_def)
next
  case (5 p rid)
  then show ?case using Page_getRecord_contents [OF 5, of "rid_pageNo rid"] by simp
qed

subsection \<open>Runs of page operations\<close>

text \<open>
  A page together with the map it should hold, from a fresh page (\<open>Page::init\<close>) on, for a client
  that keeps to two rules: records have at least one byte, and slot numbers passed to
  \<open>deleteRecord\<close> are not negative. Within these rules operations may succeed or fail. Neither
  rule is checked by the code: \<open>Page_deleteRecord_NULLRID\<close> below shows what a negative slot number
  does, and an empty record occupies a slot in which \<open>getRecord\<close> finds nothing.
\<close>

inductive page_reach :: "memory \<Rightarrow> (int \<Rightarrow> byte list option) \<Rightarrow> bool" where
  reach_init: "page_reach (Page_init p n) Map.empty"
| reach_insert: "page_reach p m \<Longrightarrow> rec \<noteq> [] \<Longrightarrow> Page_insertRecord p rec = (r, q) \<Longrightarrow>
    page_reach q (case r of Inr rid \<Rightarrow> m(rid_slotNo rid \<mapsto> rec) | Inl _ \<Rightarrow> m)"
| reach_delete: "page_reach p m \<Longrightarrow> 0 \<le> rid_slotNo rid \<Longrightarrow> Page_deleteRecord p rid = (st, q) \<Longrightarrow>
    page_reach q (if st = OK then m(rid_slotNo rid := None) else m)"
| reach_setNextPage: "page_reach p m \<Longrightarrow> Page_setNextPage p n = (st, q) \<Longrightarrow> page_reach q m"

inductive_cases page_reachE: "page_reach p m"

lemma setNextPage_inv: "page_inv (set_nextPage p n) = page_inv p"
proof -
  have u: "in_use (set_nextPage p n) i = in_use p i" for i
    by (auto simp: in_use_def slot_simps)
  have "i \<le> 0 \<Longrightarrow> slot_ok (set_nextPage p n) i = slot_ok p i"
      "i \<le> 0 \<Longrightarrow> j \<le> 0 \<Longrightarrow> apart (set_nextPage p n) i j = apart p i j" for i j
    by (simp_all add: slot_ok_def apart_def slot_simps)
  moreover have "used_bytes (set_nextPage p n) = used_bytes p"
    unfolding used_bytes_in_use u by (rule sum.cong) (auto simp: in_use_def slot_simps)
  moreover have "slotCnt p < 0 \<Longrightarrow>
      slot_length (set_nextPage p n) (slotCnt p + 1) = slot_length p (slotCnt p + 1)"
    by (simp add: slot_simps)
  ultimately show ?thesis
    unfolding page_inv_def u by (auto simp: slot_simps in_use_def)
qed

lemma setNextPage_contents:
  assumes "page_inv p"
  shows "contents (set_nextPage p n) = contents p"
proof
  fix k
  have u: "in_use (set_nextPage p n) (- k) = in_use p (- k)"
    by (auto simp: in_use_def slot_simps)
  have "read_bytes (set_nextPage p n) (slot_offset p (- k)) (nat (slot_length p (- k)))
      = read_bytes p (slot_offset p (- k)) (nat (slot_length p (- k)))" if "in_use p (- k)"
    using page_invD(5) [OF assms that] page_invD(1-4) [OF assms]
    by (intro read_bytes_eqI) (auto simp: slot_ok_def slot_simps)
  then show "contents (set_nextPage p n) k = contents p k"
    by (auto simp: contents_def u slot_simps in_use_def)
qed

lemma page_reach_inv: "page_reach p m \<Longrightarrow> page_inv p \<and> contents p = m"
proof (induction rule: page_reach.induct)
  case (reach_init p n)
  then show ?case by (simp add: Page_init_inv Page_init_contents)
next
  case (reach_insert p m rec r q)
  then show ?case using pg.ins_Inr [of p rec _ q] pg.ins_Inl [of p rec _ q] by (cases r) auto
next
  case (reach_delete p m rid st q)
  then have inv: "page_inv p" "contents p = m" by simp_all
  show ?case
  proof (cases "m (rid_slotNo rid)")
    case None
    then show ?thesis using pg.del_None [OF inv(1) reach_delete.hyps(2)] inv reach_delete.hyps(3) by simp
  next
    case (Some rec)
    then show ?thesis using pg.del_Some [OF inv(1) _ reach_delete.hyps(3)] inv by simp
  qed
next
  case (reach_setNextPage p m n st q)
  then show ?case by (auto simp: Page_setNextPage_def setNextPage_inv setNextPage_contents)
qed

lemma adjust_offsets_slotCnt: "slotCnt (adjust_offsets p k s r) = slotCnt p"
proof (induction p k s r rule: adjust_offsets.induct)
  case (1 p k s r)
  then show ?case
    by (cases "- int k > slotCnt p") (simp_all add: adjust_offsets.simps [of p k s r] slot_simps)
qed

subsection \<open>A sample page\<close>

text \<open>Page 5 of a file with one record of two bytes in slot 0.\<close>

definition demo_page :: memory where
  "demo_page = snd (Page_insertRecord (Page_init zero_mem 5) [9, 8])"

lemma demo_page_insert:
  "Page_insertRecord (Page_init zero_mem 5) [9, 8] = (Inr (RID 5 0), demo_page)"
proof -
  let ?e = "Page_init zero_mem 5"
  obtain r q where ins: "Page_insertRecord ?e [9, 8] = (r, q)" by fastforce
  have "insert_slot ?e = 0" by (simp add: find_empty_slot.simps Page_init_fields)
  with insert_effect(1) [OF Page_init_inv _ ins] have "r = Inr (RID 5 0)"
    by (simp add: Page_init_fields)
  with ins show ?thesis by (simp add: demo_page_def)
qed

lemma demo_page: "page_inv demo_page" "contents demo_page = [0 \<mapsto> [9, 8]]"
  using pg.ins_Inr [OF Page_init_inv _ demo_page_insert] by (simp_all add: Page_init_contents)

lemma demo_page_reach: "page_reach demo_page [0 \<mapsto> [9, 8]]"
  using reach_insert [OF reach_init _ demo_page_insert] by simp

subsection \<open>Properties of the slotted page\<close>

text \<open>
  C3. Inserting a record that fits always succeeds, uses the lowest free slot number, keeps
  the page invariant, and changes the contents of that slot only.
\<close>

theorem Page_insertRecord_correct:
  assumes "page_inv p" "rec \<noteq> []" "int (length rec) + 4 \<le> freeSpace p"
  shows "\<exists>k q. Page_insertRecord p rec = (Inr (RID (curPage p) k), q) \<and> page_inv q \<and>
    contents q = (contents p)(k \<mapsto> rec) \<and> 0 \<le> k \<and> contents p k = None \<and>
    (\<forall>j. 0 \<le> j \<and> j < k \<longrightarrow> contents p j \<noteq> None) \<and>
    curPage q = curPage p \<and> nextPage q = nextPage p"
proof -
  obtain r q where ins: "Page_insertRecord p rec = (r, q)" by fastforce
  note E = insert_effect [OF assms(1,3) ins] and S = insert_slot_spec [OF assms(1)]
  have "contents p j \<noteq> None" if "0 \<le> j \<and> j < - insert_slot p" for j
    using S(1) S(4) [of "- j"] that by (auto simp: contents_def in_use_def)
  with ins E S insert_inv [OF assms(1,3) ins assms(2)] insert_contents [OF assms(1,3) ins]
  show ?thesis
    by (intro exI [of _ "- insert_slot p"] exI [of _ q]) (auto simp: contents_def)
qed

theorem Page_insertRecord_correct_witness:
  "\<exists>k q. Page_insertRecord (Page_init zero_mem 5) [1, 2, 3] =
      (Inr (RID (curPage (Page_init zero_mem 5)) k), q) \<and> page_inv q \<and>
    contents q = (contents (Page_init zero_mem 5))(k \<mapsto> [1, 2, 3]) \<and> 0 \<le> k \<and>
    contents (Page_init zero_mem 5) k = None \<and>
    (\<forall>j. 0 \<le> j \<and> j < k \<longrightarrow> contents (Page_init zero_mem 5) j \<noteq> None) \<and>
    curPage q = curPage (Page_init zero_mem 5) \<and> nextPage q = nextPage (Page_init zero_mem 5)"
  by (rule Page_insertRecord_correct) (simp_all add: Page_init_inv Page_init_fields)

text \<open>
  C2. Deleting a stored record succeeds, keeps the page invariant, removes exactly that
  record (the records moved by the compaction keep their identifiers and their bytes) and
  gives its bytes back: the free pointer moves down by the length of the record.
\<close>

theorem Page_deleteRecord_correct:
  assumes "page_inv p" "contents p (rid_slotNo rid) = Some rec"
  shows "\<exists>q. Page_deleteRecord p rid = (OK, q) \<and> page_inv q \<and>
    contents q = (contents p)(rid_slotNo rid := None) \<and>
    freePtr q = freePtr p - int (length rec) \<and>
    freeSpace q \<ge> freeSpace p + int (length rec) \<and>
    curPage q = curPage p \<and> nextPage q = nextPage p"
proof -
  obtain s q where del: "Page_deleteRecord p rid = (s, q)" by fastforce
  have u: "in_use p (- rid_slotNo rid)" using assms(2) contents_dom by fastforce
  note E = delete_effect [OF assms(1) u _ del]
  have "int (length rec) = slot_length p (- rid_slotNo rid)"
    using assms(2) u page_invD(5) [OF assms(1) u] by (auto simp: contents_def slot_ok_def)
  with E del pg.del_Some [OF assms del] show ?thesis by auto
qed

theorem Page_deleteRecord_correct_witness:
  "\<exists>q. Page_deleteRecord demo_page (RID 5 0) = (OK, q) \<and> page_inv q \<and>
    contents q = (contents demo_page)(rid_slotNo (RID 5 0) := None) \<and>
    freePtr q = freePtr demo_page - int (length [9 :: byte, 8]) \<and>
    freeSpace q \<ge> freeSpace demo_page + int (length [9 :: byte, 8]) \<and>
    curPage q = curPage demo_page \<and> nextPage q = nextPage demo_page"
  by (rule Page_deleteRecord_correct) (simp_all add: demo_page)

text \<open>
  Looking a record up by its identifier returns exactly the stored bytes, and
  \<open>INVALIDSLOTNO\<close> for every slot number that holds no record.
\<close>

theorem Page_getRecord_correct:
  assumes "page_inv p" "0 \<le> rid_slotNo rid"
  shows "Page_getRecord p rid =
    (case contents p (rid_slotNo rid) of Some rec \<Rightarrow> Inr rec | None \<Rightarrow> Inl INVALIDSLOTNO)"
  using assms by (rule pg.get_eq)

theorem Page_getRecord_correct_witness:
  "Page_getRecord demo_page (RID 5 0) = Inr [9, 8]"
  using Page_getRecord_correct [of demo_page "RID 5 0"] by (simp add: demo_page)

text \<open>
  C4. Iterating over a page from \<open>NULLRID\<close> with \<open>nextRecord\<close> visits every record exactly once,
  in increasing order of the slot number, and ends with \<open>ENDOFPAGE\<close>; \<open>firstRecord\<close> is the
  first step of that iteration.
\<close>

theorem Page_scan_complete:
  assumes "page_inv p"
  shows "map rid_slotNo (page_scan p NULLRID) = sorted_list_of_set {k. contents p k \<noteq> None} \<and>
    sorted_wrt (<) (page_scan p NULLRID) \<and>
    Page_firstRecord p =
      (case page_scan p NULLRID of [] \<Rightarrow> Inl NORECORDS | r # rs \<Rightarrow> Inr r)"
proof -
  note S = page_scan_spec [OF assms, of NULLRID]
  have dom: "{k. rid_slotNo NULLRID < k \<and> contents p k \<noteq> None} = {k. contents p k \<noteq> None}"
    by (auto simp: NULLRID_def contents_def in_use_def split: if_splits)
  have sorted: "sorted_wrt (<) (map rid_slotNo (page_scan p NULLRID))"
    and set: "set (map rid_slotNo (page_scan p NULLRID)) = {k. contents p k \<noteq> None}"
    using S unfolding dom by (simp_all add: NULLRID_def)
  have "map rid_slotNo (page_scan p NULLRID) = sorted_list_of_set {k. contents p k \<noteq> None}"
    using sorted unfolding set [symmetric] by (simp add: strict_sorted_equal sorted_list_of_set_unique)
  moreover have "sorted_wrt (<) (page_scan p NULLRID)"
    using sorted S
    by (auto simp: sorted_wrt_map NULLRID_def less_RID_def elim!: sorted_wrt_mono_rel [rotated])
  moreover have "Page_firstRecord p =
      (case page_scan p NULLRID of [] \<Rightarrow> Inl NORECORDS | r # rs \<Rightarrow> Inr r)"
    unfolding Page_firstRecord_next [OF assms]
    by (simp add: page_scan.simps [of p NULLRID] split: sum.splits)
  ultimately show ?thesis by blast
qed

theorem Page_scan_complete_witness:
  "map rid_slotNo (page_scan demo_page NULLRID) = [0]"
  using Page_scan_complete [of demo_page] by (simp add: demo_page)

text \<open>
  C1. Refinement, for clients that insert non-empty records and delete by slot numbers that are not
  negative: after every sequence of such operations from \<open>Page::init\<close>, failing ones included, the
  bytes of the page represent exactly the map that the same sequence builds on finite maps, the
  page invariant holds, and every lookup agrees with the map.
\<close>

theorem Page_refines_map:
  assumes "page_reach p m"
  shows "page_inv p \<and> contents p = m \<and>
    (0 \<le> k \<longrightarrow> Page_getRecord p (RID n k) =
       (case m k of Some rec \<Rightarrow> Inr rec | None \<Rightarrow> Inl INVALIDSLOTNO))"
  using page_reach_inv [OF assms] pg.get_eq [of p "RID n k"] by auto

theorem Page_refines_map_witness:
  "page_reach demo_page [0 \<mapsto> [9, 8]] \<and> Page_getRecord demo_page (RID 5 0) = Inr [9, 8]"
proof -
  have r: "page_reach demo_page [0 \<mapsto> [9, 8]]" by (rule demo_page_reach)
  show ?thesis using Page_refines_map [OF r, of 0 5] r by simp
qed

text \<open>
  C5. Space safety, for the same clients. The data of all records ends at the free pointer, which
  lies below every slot; slots lie below the header; no two records share a byte. \<open>freeSpace\<close> is
  never negative: it is the number of bytes between the free pointer and the slot array, less the
  slot that the next record needs.
\<close>

theorem Page_layout_safe:
  assumes "page_reach p m"
  shows "0 \<le> freeSpace p \<and> freePtr p + freeSpace p + sizeof_slot = 1004 + 4 * (slotCnt p + 1) \<and>
    (\<forall>i. in_use p i \<longrightarrow> 0 \<le> slot_offset p i \<and> 0 < slot_length p i \<and> slot_offset p i + slot_length p i \<le> freePtr p \<and>
       freePtr p \<le> 1004 + 4 * i \<and> 1004 + 4 * i + sizeof_slot \<le> 1008) \<and>
    (\<forall>i j. in_use p i \<longrightarrow> in_use p j \<longrightarrow> i \<noteq> j \<longrightarrow>
       {slot_offset p i..<slot_offset p i + slot_length p i} \<inter> {slot_offset p j..<slot_offset p j + slot_length p j} = {})"
proof -
  have inv: "page_inv p" using page_reach_inv [OF assms] ..
  note I = page_invD(1-4) [OF inv]
  have "slot_ok p i" if "in_use p i" for i by (rule page_invD(5) [OF inv that])
  moreover have "{slot_offset p i..<slot_offset p i + slot_length p i} \<inter> {slot_offset p j..<slot_offset p j + slot_length p j} = {}"
    if "in_use p i" "in_use p j" "i \<noteq> j" for i j using page_invD(6) [OF inv that] by (auto simp: apart_def)
  ultimately show ?thesis using I by (auto simp: slot_ok_def in_use_def sizeof_slot_def)
qed

theorem Page_layout_safe_witness:
  "in_use demo_page 0 \<and> slot_offset demo_page 0 + slot_length demo_page 0 \<le> freePtr demo_page \<and>
    freePtr demo_page \<le> 1004 \<and> 0 \<le> freeSpace demo_page"
proof -
  have u: "in_use demo_page 0" using contents_dom [of demo_page 0] by (simp add: demo_page)
  show ?thesis using Page_layout_safe [OF demo_page_reach] u by auto
qed

text \<open>
  Deletion leaks no space: once every record of a page is deleted, slots and data area are
  as after \<open>Page::init\<close>, whatever the history.
\<close>

theorem Page_empty_reclaimed:
  assumes "page_inv p" "contents p = Map.empty"
  shows "slotCnt p = 0 \<and> freePtr p = 0 \<and> Page_getFreeSpace p = PAGESIZE - DPFIXED"
proof -
  have none: "\<not> in_use p i" for i
    using contents_dom [of p "- i"] assms(2) by simp
  then have "used_bytes p = 0" unfolding used_bytes_in_use by (intro sum.neutral) simp
  moreover have "slotCnt p = 0"
    using page_invD(1,8) [OF assms(1)] none [of "slotCnt p + 1"] by (force simp: in_use_def)
  ultimately show ?thesis
    using page_invD(4,7) [OF assms(1)]
    by (simp add: Page_getFreeSpace_def PAGESIZE_def DPFIXED_eq(1))
qed

theorem Page_empty_reclaimed_witness:
  "\<exists>q. Page_deleteRecord demo_page (RID 5 0) = (OK, q) \<and> Page_getFreeSpace q = 1004"
proof -
  obtain s q where d: "Page_deleteRecord demo_page (RID 5 0) = (s, q)" by fastforce
  have "contents demo_page (rid_slotNo (RID 5 0)) = Some [9, 8]" by (simp add: demo_page)
  with pg.del_Some [OF demo_page(1) this d]
  have "page_inv q" "contents q = Map.empty" "s = OK" by (simp_all add: demo_page)
  with Page_empty_reclaimed [of q] d show ?thesis by (simp add: PAGESIZE_def DPFIXED_eq(1))
qed

text \<open>
  C6. \<open>deleteRecord\<close> does not check that the slot number is not negative. For slot number -1,
  which is the slot number of \<open>NULLRID\<close>, it takes the header fields \<open>slotCnt\<close> and \<open>freePtr\<close>
  for a slot: on every page that holds a record it reports \<open>OK\<close> and leaves the free pointer
  at -1, so that the page invariant is lost.
\<close>

theorem Page_deleteRecord_NULLRID:
  assumes "page_inv p" "contents p k \<noteq> None"
  shows "\<exists>q. Page_deleteRecord p NULLRID = (OK, q) \<and> freePtr q = - 1 \<and> \<not> page_inv q"
proof -
  have u: "in_use p (- k)" using assms(2) contents_dom by blast
  note D = page_invD(1-4) [OF assms(1)]
  have neg: "slotCnt p < 0" and pos: "0 < freePtr p"
    using u page_invD(5) [OF assms(1) u] by (auto simp: in_use_def slot_ok_def)
  have slot1: "slot_offset p 1 = slotCnt p" "slot_length p 1 = freePtr p"
    by (simp_all add: page_fields)
  let ?p1 = "move_bytes p (slotCnt p + freePtr p) (slotCnt p) (- slotCnt p)"
  have "slotCnt (adjust_offsets ?p1 0 1 (freePtr p)) = slotCnt p"
    using neg by (simp add: adjust_offsets_slotCnt slot_simps)
  then have "\<exists>r. Page_deleteRecord p NULLRID =
      (OK, set_slot_offset (set_slot_length r 1 (- 1)) 1 0)"
    using neg pos by (auto simp: Page_deleteRecord_def NULLRID_def Let_def slot1 slot_simps)
  then obtain r where r: "Page_deleteRecord p NULLRID =
      (OK, set_slot_offset (set_slot_length r 1 (- 1)) 1 0)" ..
  have "freePtr (set_slot_offset (set_slot_length r 1 (- 1)) 1 0) = - 1"
    by (simp add: page_fields page_setters mem_simps)
  with r show ?thesis by (auto simp: page_inv_def)
qed

theorem Page_deleteRecord_NULLRID_witness:
  "\<exists>q. Page_deleteRecord demo_page NULLRID = (OK, q) \<and> freePtr q = - 1 \<and> \<not> page_inv q"
  by (rule Page_deleteRecord_NULLRID [of _ 0]) (simp_all add: demo_page)

end
