(* ===== verification/FileIO.thy ===== *)
theory FileIO
  imports Page
begin

text \<open>
  The \<open>File\<close> class of \<open>src/src/db.C\<close>: paged access to a Unix file, with a header page
  (page 0) that holds the head of a list of free pages, the number of the first user page and
  the number of pages.

  The Unix file system is a map from names to files; a file of the program is always a whole
  number of pages, so it is a list of pages. A write beyond the end of a file fills the gap
  with zeros; a write beyond the limit \<open>quota\<close> on the size of a file fails, as \<open>write\<close> does
  when the system refuses to extend the file. A descriptor is the name of the file it was
  opened on, \<open>None\<close> for the value -1. \<open>File\<close> objects live at addresses: \<open>objs\<close> is the memory
  they occupy, \<open>live\<close> the addresses handed out by \<open>new\<close> and not yet deleted, and \<open>heap_new\<close>
  the allocator, a parameter of the model.

  The C++ out-parameters of an operation (\<open>pageNo\<close>, the page read) are the value of the result
  when the status is \<open>OK\<close>; no caller reads them after another status.
\<close>

record File =
  fileName :: string
  openCnt :: int
  unixFile :: "string option"

record sys =
  files :: "string \<rightharpoonup> memory list"
  quota :: nat
  objs :: "int \<Rightarrow> File"
  live :: "int set"
  heap_new :: "int set \<Rightarrow> int"

subsection \<open>The header page\<close>

definition nextFree :: "memory \<Rightarrow> int" where
  "nextFree m = get_int m 0"

definition firstPage :: "memory \<Rightarrow> int" where
  "firstPage m = get_int m 4"

definition numPages :: "memory \<Rightarrow> int" where
  "numPages m = get_int m 8"

definition set_nextFree :: "int \<Rightarrow> memory \<Rightarrow> memory" where
  "set_nextFree v m = put_int m 0 v"

definition set_firstPage :: "int \<Rightarrow> memory \<Rightarrow> memory" where
  "set_firstPage v m = put_int m 4 v"

definition set_numPages :: "int \<Rightarrow> memory \<Rightarrow> memory" where
  "set_numPages v m = put_int m 8 v"

subsection \<open>Reading and writing pages\<close>

definition write_at :: "memory list \<Rightarrow> nat \<Rightarrow> memory \<Rightarrow> memory list" where
  "write_at ps n pg =
     (if n < length ps then ps[n := pg]
      else ps @ replicate (n - length ps) zero_mem @ [pg])"

definition File_intread :: "'a sys_scheme \<Rightarrow> File \<Rightarrow> int \<Rightarrow> Status + memory" where
  "File_intread s f pageNo =
     (case unixFile f of
        None \<Rightarrow> Inl UNIXERR
      | Some fd \<Rightarrow>
          (case files s fd of
             None \<Rightarrow> Inl UNIXERR
           | Some ps \<Rightarrow>
               if pageNo < 0 then Inl UNIXERR
               else if nat pageNo < length ps then Inr (ps ! nat pageNo)
               else Inl UNIXERR))"

definition File_intwrite :: "'a sys_scheme \<Rightarrow> File \<Rightarrow> int \<Rightarrow> memory \<Rightarrow> Status \<times> 'a sys_scheme" where
  "File_intwrite s f pageNo pg =
     (case unixFile f of
        None \<Rightarrow> (UNIXERR, s)
      | Some fd \<Rightarrow>
          (case files s fd of
             None \<Rightarrow> (UNIXERR, s)
           | Some ps \<Rightarrow>
               if pageNo < 0 then (UNIXERR, s)
               else if nat pageNo < length ps \<or> nat pageNo < quota s
               then (OK, s\<lparr>files := (files s)(fd \<mapsto> write_at ps (nat pageNo) pg)\<rparr>)
               else (UNIXERR, s)))"

text \<open>\<open>pagePtr\<close> is \<open>None\<close> for the null pointer, and otherwise the page it points to.\<close>

definition File_readPage :: "'a sys_scheme \<Rightarrow> File \<Rightarrow> int \<Rightarrow> memory option \<Rightarrow> Status + memory" where
  "File_readPage s f pageNo pagePtr =
     (if pagePtr = None then Inl BADPAGEPTR
      else if pageNo < 1 then Inl BADPAGENO
      else File_intread s f pageNo)"

definition File_writePage ::
  "'a sys_scheme \<Rightarrow> File \<Rightarrow> int \<Rightarrow> memory option \<Rightarrow> Status \<times> 'a sys_scheme" where
  "File_writePage s f pageNo pagePtr =
     (case pagePtr of
        None \<Rightarrow> (BADPAGEPTR, s)
      | Some pg \<Rightarrow> if pageNo < 1 then (BADPAGENO, s) else File_intwrite s f pageNo pg)"

definition File_getFirstPage :: "'a sys_scheme \<Rightarrow> File \<Rightarrow> Status + int" where
  "File_getFirstPage s f =
     (case File_intread s f 0 of Inl st \<Rightarrow> Inl st | Inr header \<Rightarrow> Inr (firstPage header))"

subsection \<open>Allocating and disposing of pages\<close>

definition File_allocatePage :: "'a sys_scheme \<Rightarrow> File \<Rightarrow> (Status + int) \<times> 'a sys_scheme" where
  "File_allocatePage s f =
     (case File_intread s f 0 of
        Inl st \<Rightarrow> (Inl st, s)
      | Inr header \<Rightarrow>
          if nextFree header \<noteq> - 1 then
            (let pageNo = nextFree header
             in case File_intread s f pageNo of
                  Inl st \<Rightarrow> (Inl st, s)
                | Inr firstFree \<Rightarrow>
                    (case File_intwrite s f 0 (set_nextFree (nextFree firstFree) header) of
                       (st, s') \<Rightarrow> (if st = OK then Inr pageNo else Inl st, s')))
          else
            (let pageNo = numPages header
             in case File_intwrite s f pageNo zero_mem of
                  (st, s') \<Rightarrow>
                    if st \<noteq> OK then (Inl st, s')
                    else
                      (let header = set_numPages (numPages header + 1) header;
                           header = (if firstPage header = - 1 then set_firstPage pageNo header
                                     else header)
                       in case File_intwrite s' f 0 header of
                            (st, s'') \<Rightarrow> (if st = OK then Inr pageNo else Inl st, s''))))"

definition File_disposePage :: "'a sys_scheme \<Rightarrow> File \<Rightarrow> int \<Rightarrow> Status \<times> 'a sys_scheme" where
  "File_disposePage s f pageNo =
     (if pageNo < 1 then (BADPAGENO, s)
      else
        case File_intread s f 0 of
          Inl st \<Rightarrow> (st, s)
        | Inr header \<Rightarrow>
            if firstPage header = pageNo \<or> numPages header \<le> pageNo then (BADPAGENO, s)
            else
              case File_intread s f pageNo of
                Inl st \<Rightarrow> (st, s)
              | Inr _ \<Rightarrow>
                  (case File_intwrite s f pageNo (set_nextFree (nextFree header) zero_mem) of
                     (st, s') \<Rightarrow>
                       if st \<noteq> OK then (st, s')
                       else File_intwrite s' f 0 (set_nextFree pageNo header)))"

subsection \<open>Creating, destroying and opening files\<close>

definition header_init :: memory where
  "header_init = set_numPages 1 (set_firstPage (- 1) (set_nextFree (- 1) zero_mem))"

text \<open>
  \<open>O_CREAT | O_EXCL\<close> refuses an existing name. The write of the header page is the first
  extension of the file and fails when the limit allows no page; the empty file stays.
\<close>

definition File_create :: "'a sys_scheme \<Rightarrow> string \<Rightarrow> Status \<times> 'a sys_scheme" where
  "File_create s name =
     (if files s name \<noteq> None then (FILEEXISTS, s)
      else if quota s = 0 then (UNIXERR, s\<lparr>files := (files s)(name \<mapsto> [])\<rparr>)
      else (OK, s\<lparr>files := (files s)(name \<mapsto> [header_init])\<rparr>))"

definition File_destroy :: "'a sys_scheme \<Rightarrow> string \<Rightarrow> Status \<times> 'a sys_scheme" where
  "File_destroy s name =
     (if files s name = None then (UNIXERR, s)
      else (OK, s\<lparr>files := (files s)(name := None)\<rparr>))"

definition File_init :: "string \<Rightarrow> File" where
  "File_init name = \<lparr>fileName = name, openCnt = 0, unixFile = None\<rparr>"

definition File_open :: "'a sys_scheme \<Rightarrow> File \<Rightarrow> Status \<times> File" where
  "File_open s f =
     (if openCnt f = 0 then
        (if files s (fileName f) = None then (UNIXERR, f\<lparr>unixFile := None\<rparr>)
         else (OK, f\<lparr>unixFile := Some (fileName f), openCnt := 1\<rparr>))
      else (OK, f\<lparr>openCnt := openCnt f + 1\<rparr>))"

end
