(* ===== verification/HashTables.thy ===== *)
theory HashTables
  imports ErrorCodes
begin

text \<open>
  The two chained hash tables of the program: \<open>BufHashTbl\<close> (\<open>src/src/bufHash.C\<close>), from
  (file, page number) to buffer frame, and \<open>OpenFileHashTbl\<close> (\<open>src/src/db.C\<close>), from file name
  to open file object. A table is an array of singly linked chains; the array is a function
  from indices to chains and a chain is the list of its buckets, front first.

  The locale \<open>hash_table\<close> is the contract the buffer manager and the file layer rely on: a
  partial map with insertion that refuses duplicates. Both tables are interpretations.
\<close>

subsection \<open>Chains\<close>

text \<open>The search loop and the unlinking loop, which both tables share.\<close>

fun chain_find :: "('b \<Rightarrow> bool) \<Rightarrow> 'b list \<Rightarrow> 'b option" where
  "chain_find P [] = None"
| "chain_find P (b # bs) = (if P b then Some b else chain_find P bs)"

fun chain_remove :: "('b \<Rightarrow> bool) \<Rightarrow> 'b list \<Rightarrow> 'b list option" where
  "chain_remove P [] = None"
| "chain_remove P (b # bs) =
     (if P b then Some bs else map_option (\<lambda>cs. b # cs) (chain_remove P bs))"

lemma chain_find_None: "chain_find P bs = None \<longleftrightarrow> (\<forall>b \<in> set bs. \<not> P b)"
  by (induction bs) auto

lemma chain_find_Some: "chain_find P bs = Some b \<Longrightarrow> P b \<and> b \<in> set bs"
  by (induction bs) (auto split: if_splits)

lemma chain_remove_None: "chain_remove P bs = None \<longleftrightarrow> chain_find P bs = None"
  by (induction bs) auto

lemma chain_remove_Some:
  assumes "chain_remove (\<lambda>b. key b = k) bs = Some cs" "distinct (map key bs)"
  shows "distinct (map key cs) \<and> set cs \<subseteq> set bs \<and>
    (\<forall>j. chain_find (\<lambda>b. key b = j) cs = (if j = k then None else chain_find (\<lambda>b. key b = j) bs))"
  using assms
proof (induction bs arbitrary: cs)
  case Nil
  then show ?case by simp
next
  case (Cons b bs)
  show ?case
  proof (cases "key b = k")
    case True
    with Cons.prems have "cs = bs" by simp
    moreover have "key b \<notin> key ` set bs" using Cons.prems(2) by simp
    then have "\<forall>c \<in> set bs. key c \<noteq> k" using True by (metis image_eqI)
    ultimately show ?thesis using Cons.prems True by (auto simp: chain_find_None)
  next
    case False
    with Cons.prems obtain ds where "chain_remove (\<lambda>b. key b = k) bs = Some ds" "cs = b # ds"
      by auto
    with Cons.IH [of ds] Cons.prems False show ?thesis by auto
  qed
qed

subsection \<open>The contract\<close>

text \<open>
  A client of a table is a sequence of insertions and removals. The contract says that the
  table, whatever its hash function and chain order, holds the finite map that the same
  sequence builds, where an insertion never replaces an entry.
\<close>

datatype ('k, 'v) table_op = Insert 'k 'v | Remove 'k

fun run_table :: "('t \<Rightarrow> 'k \<Rightarrow> 'v \<Rightarrow> Status \<times> 't) \<Rightarrow> ('t \<Rightarrow> 'k \<Rightarrow> Status \<times> 't) \<Rightarrow>
    't \<Rightarrow> ('k, 'v) table_op list \<Rightarrow> 't" where
  "run_table ins rem t [] = t"
| "run_table ins rem t (Insert k v # ops) = run_table ins rem (snd (ins t k v)) ops"
| "run_table ins rem t (Remove k # ops) = run_table ins rem (snd (rem t k)) ops"

fun run_map :: "('k \<Rightarrow> 'v option) \<Rightarrow> ('k, 'v) table_op list \<Rightarrow> 'k \<Rightarrow> 'v option" where
  "run_map f [] = f"
| "run_map f (Insert k v # ops) = run_map (if f k = None then f(k \<mapsto> v) else f) ops"
| "run_map f (Remove k # ops) = run_map (f(k := None)) ops"

locale hash_table =
  fixes inserts :: "'t \<Rightarrow> 'k \<Rightarrow> 'v \<Rightarrow> Status \<times> 't"
    and finds :: "'t \<Rightarrow> 'k \<Rightarrow> Status + 'v"
    and removes :: "'t \<Rightarrow> 'k \<Rightarrow> Status \<times> 't"
    and inv :: "'t \<Rightarrow> bool"
    and abs :: "'t \<Rightarrow> 'k \<Rightarrow> 'v option"
  assumes finds_eq: "finds t k = (case abs t k of Some v \<Rightarrow> Inr v | None \<Rightarrow> Inl HASHNOTFOUND)"
    and inserts_new: "inv t \<Longrightarrow> abs t k = None \<Longrightarrow> inserts t k v = (s, t') \<Longrightarrow>
      s = OK \<and> inv t' \<and> abs t' = (abs t)(k \<mapsto> v)"
    and inserts_dup: "abs t k = Some w \<Longrightarrow> inserts t k v = (HASHTBLERROR, t)"
    and removes_Some: "inv t \<Longrightarrow> abs t k = Some v \<Longrightarrow> removes t k = (s, t') \<Longrightarrow>
      s = OK \<and> inv t' \<and> abs t' = (abs t)(k := None)"
    and removes_None: "abs t k = None \<Longrightarrow> removes t k = (HASHTBLERROR, t)"
begin

lemma removes_inv: "inv t \<Longrightarrow> removes t k = (s, t') \<Longrightarrow> inv t' \<and> abs t' = (abs t)(k := None)"
  using removes_Some [of t k _ s t'] removes_None [of t k]
  by (cases "abs t k") (auto simp: fun_upd_idem)

lemma inserts_inv: "inv t \<Longrightarrow> inserts t k v = (s, t') \<Longrightarrow>
    inv t' \<and> abs t' k \<noteq> None \<and> (\<forall>j. j \<noteq> k \<longrightarrow> abs t' j = abs t j)"
  using inserts_new [of t k v s t'] inserts_dup [of t k _ v] by (cases "abs t k") auto

lemma finds_after_inserts:
  "inv t \<Longrightarrow> abs t k = None \<Longrightarrow> inserts t k v = (s, t') \<Longrightarrow>
    finds t' j = (if j = k then Inr v else finds t j)"
  using inserts_new [of t k v s t'] by (simp add: finds_eq)

lemma finds_after_removes:
  "inv t \<Longrightarrow> removes t k = (s, t') \<Longrightarrow>
    finds t' j = (if j = k then Inl HASHNOTFOUND else finds t j)"
  using removes_inv [of t k s t'] by (simp add: finds_eq)

lemma insert_remove:
  "inv t \<Longrightarrow> abs t k = None \<Longrightarrow> inserts t k v = (s, t1) \<Longrightarrow> removes t1 k = (s', t2) \<Longrightarrow>
    s' = OK \<and> abs t2 = abs t"
  using inserts_new [of t k v s t1] removes_Some [of t1 k v s' t2] by auto

lemma run_refines:
  "inv t \<Longrightarrow> inv (run_table inserts removes t ops) \<and>
    abs (run_table inserts removes t ops) = run_map (abs t) ops"
proof (induction ops arbitrary: t)
  case Nil
  then show ?case by simp
next
  case (Cons op ops)
  show ?case
  proof (cases op)
    case (Insert k v)
    have "inv (snd (inserts t k v)) \<and>
        abs (snd (inserts t k v)) = (if abs t k = None then (abs t)(k \<mapsto> v) else abs t)"
      using Cons.prems inserts_new [of t k v "fst (inserts t k v)" "snd (inserts t k v)"]
        inserts_dup [of t k _ v]
      by (cases "abs t k") auto
    then show ?thesis using Insert Cons.IH [of "snd (inserts t k v)"] by simp
  next
    case (Remove k)
    have "inv (snd (removes t k)) \<and> abs (snd (removes t k)) = (abs t)(k := None)"
      using Cons.prems removes_inv [of t k "fst (removes t k)"] by simp
    then show ?thesis using Remove Cons.IH [of "snd (removes t k)"] by (simp add: fun_upd_def)
  qed
qed

lemma run_finds:
  "inv t \<Longrightarrow> finds (run_table inserts removes t ops) k =
    (case run_map (abs t) ops k of Some v \<Rightarrow> Inr v | None \<Rightarrow> Inl HASHNOTFOUND)"
  by (simp add: finds_eq run_refines)

end

subsection \<open>The table of buffered pages\<close>

text \<open>
  The arrays of chains are functions from indices; \<open>hash_index_bounds\<close> shows that the hash functions
  only produce indices of the arrays the program allocates.
\<close>

record hashBucket =
  hb_file :: int
  hb_pageNo :: int
  hb_frameNo :: nat

record BufHashTbl =
  bht_HTSIZE :: int
  bht_ht :: "int \<Rightarrow> hashBucket list"

definition BufHashTbl_hash :: "BufHashTbl \<Rightarrow> int \<Rightarrow> int \<Rightarrow> int" where
  "BufHashTbl_hash t file pageNo = c_rem (file + pageNo) (bht_HTSIZE t)"

definition BufHashTbl_init :: "int \<Rightarrow> BufHashTbl" where
  "BufHashTbl_init htSize = \<lparr>bht_HTSIZE = htSize, bht_ht = (\<lambda>_. [])\<rparr>"

definition bucket_is :: "int \<Rightarrow> int \<Rightarrow> hashBucket \<Rightarrow> bool" where
  "bucket_is file pageNo b \<longleftrightarrow> (hb_file b, hb_pageNo b) = (file, pageNo)"

definition BufHashTbl_insert :: "BufHashTbl \<Rightarrow> int \<Rightarrow> int \<Rightarrow> nat \<Rightarrow> Status \<times> BufHashTbl" where
  "BufHashTbl_insert t file pageNo frameNo =
     (let index = BufHashTbl_hash t file pageNo
      in case chain_find (bucket_is file pageNo) (bht_ht t index) of
           Some _ \<Rightarrow> (HASHTBLERROR, t)
         | None \<Rightarrow>
             (OK, t\<lparr>bht_ht := (bht_ht t)(index :=
                \<lparr>hb_file = file, hb_pageNo = pageNo, hb_frameNo = frameNo\<rparr> # bht_ht t index)\<rparr>))"

definition BufHashTbl_lookup :: "BufHashTbl \<Rightarrow> int \<Rightarrow> int \<Rightarrow> Status + nat" where
  "BufHashTbl_lookup t file pageNo =
     (let index = BufHashTbl_hash t file pageNo
      in case chain_find (bucket_is file pageNo) (bht_ht t index) of
           Some b \<Rightarrow> Inr (hb_frameNo b)
         | None \<Rightarrow> Inl HASHNOTFOUND)"

definition BufHashTbl_remove :: "BufHashTbl \<Rightarrow> int \<Rightarrow> int \<Rightarrow> Status \<times> BufHashTbl" where
  "BufHashTbl_remove t file pageNo =
     (let index = BufHashTbl_hash t file pageNo
      in case chain_remove (bucket_is file pageNo) (bht_ht t index) of
           Some bs \<Rightarrow> (OK, t\<lparr>bht_ht := (bht_ht t)(index := bs)\<rparr>)
         | None \<Rightarrow> (HASHTBLERROR, t))"

subsection \<open>The table of open files\<close>

record fileHashBucket =
  fb_fname :: string
  fb_file :: int

record OpenFileHashTbl =
  oft_HTSIZE :: int
  oft_ht :: "int \<Rightarrow> fileHashBucket list"

text \<open>The string hash: \<open>int\<close> arithmetic on signed characters, wrapping at 32 bits.\<close>

fun hash_chars :: "int \<Rightarrow> string \<Rightarrow> int" where
  "hash_chars v [] = v"
| "hash_chars v (c # cs) = hash_chars (swrap 32 (31 * v + swrap 8 (of_char c))) cs"

definition OpenFileHashTbl_hash :: "OpenFileHashTbl \<Rightarrow> string \<Rightarrow> int" where
  "OpenFileHashTbl_hash t fname = \<bar>c_rem (hash_chars 0 fname) (oft_HTSIZE t)\<bar>"

definition OpenFileHashTbl_init :: OpenFileHashTbl where
  "OpenFileHashTbl_init = \<lparr>oft_HTSIZE = 113, oft_ht = (\<lambda>_. [])\<rparr>"

definition fname_is :: "string \<Rightarrow> fileHashBucket \<Rightarrow> bool" where
  "fname_is fname b \<longleftrightarrow> fb_fname b = fname"

definition OpenFileHashTbl_insert :: "OpenFileHashTbl \<Rightarrow> string \<Rightarrow> int \<Rightarrow> Status \<times> OpenFileHashTbl" where
  "OpenFileHashTbl_insert t fname file =
     (let index = OpenFileHashTbl_hash t fname
      in case chain_find (fname_is fname) (oft_ht t index) of
           Some _ \<Rightarrow> (HASHTBLERROR, t)
         | None \<Rightarrow>
             (OK, t\<lparr>oft_ht := (oft_ht t)(index :=
                \<lparr>fb_fname = fname, fb_file = file\<rparr> # oft_ht t index)\<rparr>))"

definition OpenFileHashTbl_find :: "OpenFileHashTbl \<Rightarrow> string \<Rightarrow> Status + int" where
  "OpenFileHashTbl_find t fname =
     (let index = OpenFileHashTbl_hash t fname
      in case chain_find (fname_is fname) (oft_ht t index) of
           Some b \<Rightarrow> Inr (fb_file b)
         | None \<Rightarrow> Inl HASHNOTFOUND)"

definition OpenFileHashTbl_erase :: "OpenFileHashTbl \<Rightarrow> string \<Rightarrow> Status \<times> OpenFileHashTbl" where
  "OpenFileHashTbl_erase t fname =
     (let index = OpenFileHashTbl_hash t fname
      in case chain_remove (fname_is fname) (oft_ht t index) of
           Some bs \<Rightarrow> (OK, t\<lparr>oft_ht := (oft_ht t)(index := bs)\<rparr>)
         | None \<Rightarrow> (HASHTBLERROR, t))"

subsection \<open>The tables implement the contract\<close>

definition bht_inv :: "BufHashTbl \<Rightarrow> bool" where
  "bht_inv t \<longleftrightarrow> (\<forall>i. distinct (map (\<lambda>b. (hb_file b, hb_pageNo b)) (bht_ht t i)))"

definition bht_map :: "BufHashTbl \<Rightarrow> int \<times> int \<Rightarrow> nat option" where
  "bht_map t k = map_option hb_frameNo
     (chain_find (\<lambda>b. (hb_file b, hb_pageNo b) = k) (bht_ht t (BufHashTbl_hash t (fst k) (snd k))))"

definition oft_inv :: "OpenFileHashTbl \<Rightarrow> bool" where
  "oft_inv t \<longleftrightarrow> (\<forall>i. distinct (map fb_fname (oft_ht t i)) \<and> (\<forall>b \<in> set (oft_ht t i). OpenFileHashTbl_hash t (fb_fname b) = i))"

definition oft_map :: "OpenFileHashTbl \<Rightarrow> string \<Rightarrow> int option" where
  "oft_map t k = map_option fb_file
     (chain_find (\<lambda>b. fb_fname b = k) (oft_ht t (OpenFileHashTbl_hash t k)))"

lemma bucket_is_key: "bucket_is f p = (\<lambda>b. (hb_file b, hb_pageNo b) = (f, p))"
  by (simp add: fun_eq_iff bucket_is_def)

lemma fname_is_key: "fname_is f = (\<lambda>b. fb_fname b = f)"
  by (simp add: fun_eq_iff fname_is_def)

lemma bht_hash_upd [simp]: "BufHashTbl_hash (t\<lparr>bht_ht := h\<rparr>) f p = BufHashTbl_hash t f p"
  by (simp add: BufHashTbl_hash_def)

lemma oft_hash_upd [simp]: "OpenFileHashTbl_hash (t\<lparr>oft_ht := h\<rparr>) f = OpenFileHashTbl_hash t f"
  by (simp add: OpenFileHashTbl_hash_def)

interpretation bt: hash_table "\<lambda>t k. BufHashTbl_insert t (fst k) (snd k)"
  "\<lambda>t k. BufHashTbl_lookup t (fst k) (snd k)" "\<lambda>t k. BufHashTbl_remove t (fst k) (snd k)"
  bht_inv bht_map
proof (unfold_locales, goal_cases)
  case (1 t k)
  then show ?case
    by (simp add: BufHashTbl_lookup_def bht_map_def bucket_is_key Let_def split: option.splits)
next
  case (2 t k v s t')
  let ?c = "bht_ht t (BufHashTbl_hash t (fst k) (snd k))"
  have none: "chain_find (\<lambda>b. (hb_file b, hb_pageNo b) = k) ?c = None"
    using 2(2) by (simp add: bht_map_def)
  then have "k \<notin> (\<lambda>b. (hb_file b, hb_pageNo b)) ` set ?c"
    by (auto simp: chain_find_None)
  with none 2(1,3) show ?case
    by (auto simp: BufHashTbl_insert_def bht_map_def bht_inv_def bucket_is_key Let_def fun_eq_iff)
next
  case (3 t k w v)
  then show ?case
    by (auto simp: BufHashTbl_insert_def bht_map_def bucket_is_key Let_def)
next
  case (4 t k v s t')
  let ?i = "BufHashTbl_hash t (fst k) (snd k)"
  obtain bs where bs: "chain_remove (bucket_is (fst k) (snd k)) (bht_ht t ?i) = Some bs"
    using 4(2) chain_remove_None [of "bucket_is (fst k) (snd k)" "bht_ht t ?i"]
    by (auto simp: bht_map_def bucket_is_key)
  note R = chain_remove_Some [OF bs [unfolded bucket_is_key prod.collapse]]
  show ?case
    using R 4(1,3) bs
    by (auto simp: BufHashTbl_remove_def bht_map_def bht_inv_def Let_def fun_eq_iff)
next
  case (5 t k)
  then have "chain_remove (bucket_is (fst k) (snd k))
      (bht_ht t (BufHashTbl_hash t (fst k) (snd k))) = None"
    by (simp add: chain_remove_None bht_map_def bucket_is_key)
  then show ?case by (simp add: BufHashTbl_remove_def Let_def)
qed

interpretation ot: hash_table OpenFileHashTbl_insert OpenFileHashTbl_find OpenFileHashTbl_erase
  oft_inv oft_map
proof (unfold_locales, goal_cases)
  case (1 t k)
  then show ?case
    by (simp add: OpenFileHashTbl_find_def oft_map_def fname_is_key Let_def split: option.splits)
next
  case (2 t k v s t')
  let ?c = "oft_ht t (OpenFileHashTbl_hash t k)"
  have none: "chain_find (\<lambda>b. fb_fname b = k) ?c = None"
    using 2(2) by (simp add: oft_map_def)
  then have "k \<notin> fb_fname ` set ?c"
    by (auto simp: chain_find_None)
  with none 2(1,3) show ?case
    by (auto simp: OpenFileHashTbl_insert_def oft_map_def oft_inv_def fname_is_key Let_def fun_eq_iff split: if_splits)
next
  case (3 t k w v)
  then show ?case
    by (auto simp: OpenFileHashTbl_insert_def oft_map_def fname_is_key Let_def)
next
  case (4 t k v s t')
  let ?i = "OpenFileHashTbl_hash t k"
  obtain bs where bs: "chain_remove (fname_is k) (oft_ht t ?i) = Some bs"
    using 4(2) chain_remove_None [of "fname_is k" "oft_ht t ?i"]
    by (auto simp: oft_map_def fname_is_key)
  note R = chain_remove_Some [OF bs [unfolded fname_is_key]]
  have "\<forall>b \<in> set bs. OpenFileHashTbl_hash t (fb_fname b) = ?i" using R 4(1) unfolding oft_inv_def by (meson subsetD)
  then show ?case
    using R 4(1,3) bs
    by (auto simp: OpenFileHashTbl_erase_def oft_map_def oft_inv_def Let_def fun_eq_iff split: if_splits)
next
  case (5 t k)
  then have "chain_remove (fname_is k) (oft_ht t (OpenFileHashTbl_hash t k)) = None"
    by (simp add: chain_remove_None oft_map_def fname_is_key)
  then show ?case by (simp add: OpenFileHashTbl_erase_def Let_def)
qed

lemma bht_init: "bht_inv (BufHashTbl_init n)" "bht_map (BufHashTbl_init n) = Map.empty"
  by (auto simp: bht_inv_def bht_map_def BufHashTbl_init_def)

text \<open>Every bucket is in the chain of its name, so that the chains of an empty table are empty.\<close>

lemma oft_empty:
  assumes "oft_inv t" "oft_map t = Map.empty"
  shows "oft_ht t i = []"
proof (cases "oft_ht t i")
  case (Cons b bs)
  then have "OpenFileHashTbl_hash t (fb_fname b) = i" using assms(1) by (auto simp: oft_inv_def)
  then have "oft_map t (fb_fname b) \<noteq> None" using Cons by (simp add: oft_map_def)
  then show ?thesis using assms(2) by simp
qed

lemma oft_init: "oft_inv OpenFileHashTbl_init" "oft_map OpenFileHashTbl_init = Map.empty"
  by (auto simp: oft_inv_def oft_map_def OpenFileHashTbl_init_def)


subsection \<open>Properties\<close>

text \<open>
  C15. After any sequence of insertions and removals on a new buffer hash table \<open>lookup\<close>
  returns the frame that the finite map built by the same sequence gives for the (file, page)
  pair, and \<open>HASHNOTFOUND\<close> for every pair the map does not have. That the indices used lie inside
  of the array, which needs a positive size, is \<open>hash_index_bounds\<close> below.
\<close>

theorem BufHashTbl_refines_map:
  "BufHashTbl_lookup
     (run_table (\<lambda>t k. BufHashTbl_insert t (fst k) (snd k)) (\<lambda>t k. BufHashTbl_remove t (fst k) (snd k))
        (BufHashTbl_init htSize) ops) file pageNo =
   (case run_map Map.empty ops (file, pageNo) of Some fr \<Rightarrow> Inr fr | None \<Rightarrow> Inl HASHNOTFOUND)"
  using bt.run_finds [of "BufHashTbl_init htSize" ops "(file, pageNo)"] by (simp add: bht_init)

text \<open>
  After any sequence of insertions and removals on a new table of open files, \<open>find\<close>
  returns the file object the finite map built by the same sequence gives for the name, and
  \<open>HASHNOTFOUND\<close> for every other name.
\<close>

theorem OpenFileHashTbl_refines_map:
  "OpenFileHashTbl_find
     (run_table OpenFileHashTbl_insert OpenFileHashTbl_erase OpenFileHashTbl_init ops) fname =
   (case run_map Map.empty ops fname of Some f \<Rightarrow> Inr f | None \<Rightarrow> Inl HASHNOTFOUND)"
  by (simp add: ot.run_finds oft_init)

text \<open>
  C16. Both hash functions return an index inside the array: for the table of open files with
  every file name, whatever the overflow of the string hash and the sign of its characters;
  for the buffer table when the file address plus the page number is not negative, as it is
  for every address of a \<open>File\<close> object and page numbers from -1 on.
\<close>

theorem hash_index_bounds:
  assumes "0 < htSize" and "0 \<le> file + pageNo"
  shows "0 \<le> BufHashTbl_hash (BufHashTbl_init htSize) file pageNo \<and>
    BufHashTbl_hash (BufHashTbl_init htSize) file pageNo < htSize \<and>
    0 \<le> OpenFileHashTbl_hash OpenFileHashTbl_init fname \<and>
    OpenFileHashTbl_hash OpenFileHashTbl_init fname < 113"
proof -
  have "\<bar>c_rem (hash_chars 0 fname) 113\<bar> < 113"
    by (rule c_rem_bound) simp
  then show ?thesis
    using assms by (simp add: BufHashTbl_hash_def BufHashTbl_init_def OpenFileHashTbl_hash_def
        OpenFileHashTbl_init_def c_rem_nonneg)
qed

theorem hash_index_bounds_witness:
  "(0::int) < 121 \<and> (0::int) \<le> 4096 + (- 1) \<and>
   0 \<le> BufHashTbl_hash (BufHashTbl_init 121) 4096 (- 1) \<and>
   BufHashTbl_hash (BufHashTbl_init 121) 4096 (- 1) < 121 \<and>
   0 \<le> OpenFileHashTbl_hash OpenFileHashTbl_init ''relcat'' \<and>
   OpenFileHashTbl_hash OpenFileHashTbl_init ''relcat'' < 113"
  using hash_index_bounds [of 121 4096 "- 1" "''relcat''"] by simp

end
