(* ===== verification/Buf.thy ===== *)
theory Buf
  imports FileIO HashTables
begin

text \<open>
  The buffer manager of \<open>src/src/buf.h\<close> and \<open>src/src/buf.C\<close>: a pool of frames with one
  descriptor each, a hash table from (file, page number) to frame, and the clock algorithm
  that chooses the frame to reuse. A pointer into the pool (\<open>Page*\<close>) is the number of its
  frame; a \<open>File*\<close> is the address of a \<open>File\<close> object, 0 for the null pointer.
\<close>

subsection \<open>State\<close>

record BufDesc =
  bd_file :: int
  bd_pageNo :: int
  bd_frameNo :: int
  pinCnt :: int
  dirty :: bool
  valid :: bool
  refbit :: bool

record BufStats =
  accesses :: int
  diskreads :: int
  diskwrites :: int

record BufMgr =
  clockHand :: nat
  numBufs :: nat
  hashTable :: BufHashTbl
  bufTable :: "BufDesc list"
  bufStats :: BufStats
  bufPool :: "memory list"

record bsys = sys +
  bufMgr :: BufMgr

definition BufDesc_Clear :: "BufDesc \<Rightarrow> BufDesc" where
  "BufDesc_Clear d = d\<lparr>pinCnt := 0, bd_file := 0, bd_pageNo := - 1, dirty := False, valid := False\<rparr>"

definition BufDesc_Set :: "int \<Rightarrow> int \<Rightarrow> BufDesc \<Rightarrow> BufDesc" where
  "BufDesc_Set filePtr pageNum d =
     d\<lparr>bd_file := filePtr, bd_pageNo := pageNum, pinCnt := 1, dirty := False, valid := True,
       refbit := True\<rparr>"

definition BufStats_clear :: BufStats where
  "BufStats_clear = \<lparr>accesses = 0, diskreads = 0, diskwrites = 0\<rparr>"

text \<open>The descriptor \<open>bufTable[i]\<close>, and the table with that entry changed.\<close>

abbreviation desc :: "BufMgr \<Rightarrow> nat \<Rightarrow> BufDesc" where
  "desc b i \<equiv> bufTable b ! i"

definition upd_desc :: "nat \<Rightarrow> (BufDesc \<Rightarrow> BufDesc) \<Rightarrow> BufMgr \<Rightarrow> BufMgr" where
  "upd_desc i g b = b\<lparr>bufTable := (bufTable b)[i := g (bufTable b ! i)]\<rparr>"

definition set_frame :: "nat \<Rightarrow> memory \<Rightarrow> BufMgr \<Rightarrow> BufMgr" where
  "set_frame i pg b = b\<lparr>bufPool := (bufPool b)[i := pg]\<rparr>"

definition upd_stats :: "(BufStats \<Rightarrow> BufStats) \<Rightarrow> BufMgr \<Rightarrow> BufMgr" where
  "upd_stats g b = b\<lparr>bufStats := g (bufStats b)\<rparr>"

subsection \<open>Construction\<close>

text \<open>
  The constructor zeroes the descriptors and the pool. The size of the hash table is computed
  in the source through the product \<open>bufs * 1.2\<close>, truncated.
\<close>

definition BufMgr_init :: "nat \<Rightarrow> BufMgr" where
  "BufMgr_init bufs =
     (let htsize = (((int bufs * 12 div 10) * 2) div 2) + 1
      in \<lparr>clockHand = bufs - 1, numBufs = bufs, hashTable = BufHashTbl_init htsize,
          bufTable = map (\<lambda>i. \<lparr>bd_file = 0, bd_pageNo = 0, bd_frameNo = int i, pinCnt = 0,
                                dirty = False, valid = False, refbit = False\<rparr>) [0..<bufs],
          bufStats = BufStats_clear, bufPool = replicate bufs zero_mem\<rparr>)"

subsection \<open>The clock\<close>

definition advanceClock :: "BufMgr \<Rightarrow> BufMgr" where
  "advanceClock b = b\<lparr>clockHand := (clockHand b + 1) mod numBufs b\<rparr>"

lemma numBufs_simps [simp]:
  "numBufs (upd_desc i g b) = numBufs b" "numBufs (upd_stats h b) = numBufs b"
  "numBufs (set_frame i pg b) = numBufs b" "numBufs (advanceClock b) = numBufs b"
  by (simp_all add: upd_desc_def upd_stats_def set_frame_def advanceClock_def)

text \<open>
  The search loop of \<open>allocBuf\<close>. The result is the pool, \<open>numScanned\<close> and \<open>found\<close> when the
  loop is left.
\<close>

function clock_scan :: "BufMgr \<Rightarrow> nat \<Rightarrow> BufMgr \<times> nat \<times> bool" where
  "clock_scan b numScanned =
     (if numScanned < 2 * numBufs b then
        (let b = advanceClock b;
             numScanned = numScanned + 1;
             d = desc b (clockHand b)
         in if \<not> valid d then (b, numScanned, False)
            else if \<not> refbit d then
              (if pinCnt d = 0 then
                 (b\<lparr>hashTable := snd (BufHashTbl_remove (hashTable b) (bd_file d) (bd_pageNo d))\<rparr>,
                  numScanned, True)
               else clock_scan b numScanned)
            else
              clock_scan
                (upd_desc (clockHand b) (refbit_update (\<lambda>_. False))
                   (upd_stats (accesses_update (\<lambda>a. a + 1)) b)) numScanned)
      else (b, numScanned, False))"
  by pat_completeness auto

termination
  by (relation "measure (\<lambda>(b, n). 2 * numBufs b - n)") auto

declare clock_scan.simps [simp del]

definition BufMgr_allocBuf :: "'a bsys_scheme \<Rightarrow> (Status + nat) \<times> 'a bsys_scheme" where
  "BufMgr_allocBuf s =
     (case clock_scan (bufMgr s) 0 of (b, numScanned, found) \<Rightarrow>
        if \<not> found \<and> 2 * numBufs b \<le> numScanned then (Inl BUFFEREXCEEDED, s\<lparr>bufMgr := b\<rparr>)
        else
          (let d = desc b (clockHand b)
           in if dirty d then
                (case File_writePage
                   (s\<lparr>bufMgr := upd_stats (diskwrites_update (\<lambda>w. w + 1)) b\<rparr>)
                   (objs s (bd_file d)) (bd_pageNo d) (Some (bufPool b ! clockHand b)) of
                   (st, s') \<Rightarrow> (if st \<noteq> OK then Inl st else Inr (clockHand b), s'))
              else (Inr (clockHand b), s\<lparr>bufMgr := b\<rparr>)))"

subsection \<open>Operations\<close>

text \<open>Setting up a frame for a page: the descriptor and the entry of the hash table.\<close>

definition install :: "'a bsys_scheme \<Rightarrow> int \<Rightarrow> int \<Rightarrow> nat \<Rightarrow> (Status + nat) \<times> 'a bsys_scheme" where
  "install s file pageNo frameNo =
     (let b = upd_desc frameNo (BufDesc_Set file pageNo) (bufMgr s)
      in case BufHashTbl_insert (hashTable b) file pageNo frameNo of
           (st, h) \<Rightarrow> (if st \<noteq> OK then Inl st else Inr frameNo, s\<lparr>bufMgr := b\<lparr>hashTable := h\<rparr>\<rparr>))"

definition BufMgr_readPage ::
  "'a bsys_scheme \<Rightarrow> int \<Rightarrow> int \<Rightarrow> (Status + nat) \<times> 'a bsys_scheme" where
  "BufMgr_readPage s file pageNo =
     (case BufHashTbl_lookup (hashTable (bufMgr s)) file pageNo of
        Inr frameNo \<Rightarrow>
          (Inr frameNo,
           s\<lparr>bufMgr := upd_desc frameNo (\<lambda>d. d\<lparr>refbit := True, pinCnt := pinCnt d + 1\<rparr>) (bufMgr s)\<rparr>)
      | Inl _ \<Rightarrow>
          (case BufMgr_allocBuf s of
             (Inl st, s) \<Rightarrow> (Inl st, s)
           | (Inr frameNo, s) \<Rightarrow>
               (let b = upd_stats (diskreads_update (\<lambda>r. r + 1)) (bufMgr s);
                    s = s\<lparr>bufMgr := b\<rparr>
                in case File_readPage s (objs s file) pageNo (Some (bufPool b ! frameNo)) of
                     Inl st \<Rightarrow> (Inl st, s)
                   | Inr pg \<Rightarrow> install (s\<lparr>bufMgr := set_frame frameNo pg b\<rparr>) file pageNo frameNo)))"

definition BufMgr_unPinPage ::
  "'a bsys_scheme \<Rightarrow> int \<Rightarrow> int \<Rightarrow> bool \<Rightarrow> Status \<times> 'a bsys_scheme" where
  "BufMgr_unPinPage s file pageNo dirtyFlag =
     (case BufHashTbl_lookup (hashTable (bufMgr s)) file pageNo of
        Inl st \<Rightarrow> (st, s)
      | Inr frameNo \<Rightarrow>
          (let b = (if dirtyFlag then upd_desc frameNo (dirty_update (\<lambda>_. True)) (bufMgr s)
                    else bufMgr s)
           in if pinCnt (desc b frameNo) = 0 then (PAGENOTPINNED, s\<lparr>bufMgr := b\<rparr>)
              else (OK, s\<lparr>bufMgr := upd_desc frameNo (pinCnt_update (\<lambda>n. n - 1)) b\<rparr>)))"

definition BufMgr_allocPage ::
  "'a bsys_scheme \<Rightarrow> int \<Rightarrow> (Status + int \<times> nat) \<times> 'a bsys_scheme" where
  "BufMgr_allocPage s file =
     (case File_allocatePage s (objs s file) of
        (Inl st, s) \<Rightarrow> (Inl st, s)
      | (Inr pageNo, s) \<Rightarrow>
          (case BufMgr_allocBuf s of
             (Inl st, s) \<Rightarrow> (Inl st, s)
           | (Inr frameNo, s) \<Rightarrow>
               (case install s file pageNo frameNo of
                  (Inl st, s) \<Rightarrow> (Inl st, s)
                | (Inr fr, s) \<Rightarrow> (Inr (pageNo, fr), s))))"

definition BufMgr_disposePage :: "'a bsys_scheme \<Rightarrow> int \<Rightarrow> int \<Rightarrow> Status \<times> 'a bsys_scheme" where
  "BufMgr_disposePage s file pageNo =
     (let b = (case BufHashTbl_lookup (hashTable (bufMgr s)) file pageNo of
                 Inr frameNo \<Rightarrow> upd_desc frameNo BufDesc_Clear (bufMgr s)
               | Inl _ \<Rightarrow> bufMgr s);
          b = b\<lparr>hashTable := snd (BufHashTbl_remove (hashTable b) file pageNo)\<rparr>
      in File_disposePage (s\<lparr>bufMgr := b\<rparr>) (objs s file) pageNo)"

text \<open>
  \<open>flushFile\<close>: the loop over the frames from \<open>i\<close> on; the middle of its body, for a valid
  frame of the file that is not pinned, is \<open>flush_frame\<close>.
\<close>

definition drop_frame :: "int \<Rightarrow> nat \<Rightarrow> BufMgr \<Rightarrow> BufMgr" where
  "drop_frame file i b =
     upd_desc i (\<lambda>d. d\<lparr>bd_file := 0, bd_pageNo := - 1, valid := False\<rparr>)
       (b\<lparr>hashTable := snd (BufHashTbl_remove (hashTable b) file (bd_pageNo (desc b i)))\<rparr>)"

definition flush_frame :: "'a bsys_scheme \<Rightarrow> int \<Rightarrow> nat \<Rightarrow> Status \<times> 'a bsys_scheme" where
  "flush_frame s file i =
     (let d = desc (bufMgr s) i
      in if dirty d then
           (case File_writePage s (objs s (bd_file d)) (bd_pageNo d) (Some (bufPool (bufMgr s) ! i)) of
              (st, s) \<Rightarrow>
                if st \<noteq> OK then (st, s)
                else (OK, s\<lparr>bufMgr := drop_frame file i
                              (upd_desc i (dirty_update (\<lambda>_. False)) (bufMgr s))\<rparr>))
         else (OK, s\<lparr>bufMgr := drop_frame file i (bufMgr s)\<rparr>))"

fun flush_loop :: "'a bsys_scheme \<Rightarrow> int \<Rightarrow> nat list \<Rightarrow> Status \<times> 'a bsys_scheme" where
  "flush_loop s file [] = (OK, s)"
| "flush_loop s file (i # is) =
     (let d = desc (bufMgr s) i
      in if valid d \<and> bd_file d = file then
           (if 0 < pinCnt d then (PAGEPINNED, s)
            else
              (case flush_frame s file i of
                 (st, s) \<Rightarrow> if st \<noteq> OK then (st, s) else flush_loop s file is))
         else if \<not> valid d \<and> bd_file d = file then (BADBUFFER, s)
         else flush_loop s file is)"

definition BufMgr_flushFile :: "'a bsys_scheme \<Rightarrow> int \<Rightarrow> Status \<times> 'a bsys_scheme" where
  "BufMgr_flushFile s file = flush_loop s file [0..<numBufs (bufMgr s)]"

text \<open>The destructor writes every valid dirty frame and ignores the outcome of the writes.\<close>

fun write_back_loop :: "'a bsys_scheme \<Rightarrow> nat list \<Rightarrow> 'a bsys_scheme" where
  "write_back_loop s [] = s"
| "write_back_loop s (i # is) =
     (let d = desc (bufMgr s) i
      in if valid d \<and> dirty d then
           write_back_loop (snd (File_writePage s (objs s (bd_file d)) (bd_pageNo d)
              (Some (bufPool (bufMgr s) ! i)))) is
         else write_back_loop s is)"

definition BufMgr_destroy :: "'a bsys_scheme \<Rightarrow> 'a bsys_scheme" where
  "BufMgr_destroy s = write_back_loop s [0..<numBufs (bufMgr s)]"

definition BufMgr_getBufStats :: "'a bsys_scheme \<Rightarrow> BufStats" where
  "BufMgr_getBufStats s = bufStats (bufMgr s)"

definition BufMgr_clearBufStats :: "'a bsys_scheme \<Rightarrow> 'a bsys_scheme" where
  "BufMgr_clearBufStats s = s\<lparr>bufMgr := (bufMgr s)\<lparr>bufStats := BufStats_clear\<rparr>\<rparr>"

end
