(* ===== verification/DB.thy ===== *)
theory DB
  imports Buf
begin

text \<open>
  Opening and closing files: the parts of \<open>File\<close> that use the buffer manager, and the \<open>DB\<close>
  class (\<open>src/src/db.C\<close>), which keeps one \<open>File\<close> object per open file in a hash table and
  counts how often it was opened.

  \<open>new File\<close> takes an address from the allocator \<open>heap_new\<close>, \<open>delete\<close> gives it back. After
  \<open>::close\<close> the descriptor of a \<open>File\<close> object is not valid any more: it is \<open>None\<close> here, so that
  a later read or write through it fails.
\<close>

record dsys = bsys +
  bufMgr_null :: bool
  openFiles :: OpenFileHashTbl

definition set_obj :: "int \<Rightarrow> File \<Rightarrow> 'a sys_scheme \<Rightarrow> 'a sys_scheme" where
  "set_obj a f s = s\<lparr>objs := (objs s)(a := f)\<rparr>"

definition new_File :: "'a sys_scheme \<Rightarrow> string \<Rightarrow> int \<times> 'a sys_scheme" where
  "new_File s name =
     (let a = heap_new s (live s)
      in (a, set_obj a (File_init name) (s\<lparr>live := insert a (live s)\<rparr>)))"

definition delete_File :: "'a sys_scheme \<Rightarrow> int \<Rightarrow> 'a sys_scheme" where
  "delete_File s a = s\<lparr>live := live s - {a}\<rparr>"

subsection \<open>Closing a file object\<close>

definition File_close :: "'a dsys_scheme \<Rightarrow> int \<Rightarrow> Status \<times> 'a dsys_scheme" where
  "File_close s file =
     (let f = objs s file
      in if openCnt f \<le> 0 then (FILENOTOPEN, s)
         else
           (let f = f\<lparr>openCnt := openCnt f - 1\<rparr>;
                s = set_obj file f s
            in if openCnt f = 0 then
                 (let s = (if bufMgr_null s then s else snd (BufMgr_flushFile s file))
                  in if unixFile f = None then (UNIXERR, s)
                     else (OK, set_obj file (f\<lparr>unixFile := None\<rparr>) s))
               else (OK, s)))"

text \<open>The destructor, and \<open>delete\<close> on a pointer to a file object.\<close>

definition File_destruct :: "'a dsys_scheme \<Rightarrow> int \<Rightarrow> 'a dsys_scheme" where
  "File_destruct s file =
     (if openCnt (objs s file) = 0 then s
      else snd (File_close (set_obj file ((objs s file)\<lparr>openCnt := 1\<rparr>) s) file))"

definition File_delete :: "'a dsys_scheme \<Rightarrow> int \<Rightarrow> 'a dsys_scheme" where
  "File_delete s file = delete_File (File_destruct s file) file"

subsection \<open>The DB class\<close>

definition DB_createFile :: "'a dsys_scheme \<Rightarrow> string \<Rightarrow> Status \<times> 'a dsys_scheme" where
  "DB_createFile s name =
     (if name = [] then (BADFILE, s)
      else
        case OpenFileHashTbl_find (openFiles s) name of
          Inr _ \<Rightarrow> (FILEEXISTS, s)
        | Inl _ \<Rightarrow> File_create s name)"

definition DB_destroyFile :: "'a dsys_scheme \<Rightarrow> string \<Rightarrow> Status \<times> 'a dsys_scheme" where
  "DB_destroyFile s name =
     (if name = [] then (BADFILE, s)
      else
        case OpenFileHashTbl_find (openFiles s) name of
          Inr _ \<Rightarrow> (FILEOPEN, s)
        | Inl _ \<Rightarrow> File_destroy s name)"

definition DB_openFile :: "'a dsys_scheme \<Rightarrow> string \<Rightarrow> (Status + int) \<times> 'a dsys_scheme" where
  "DB_openFile s name =
     (if name = [] then (Inl BADFILE, s)
      else
        case OpenFileHashTbl_find (openFiles s) name of
          Inr file \<Rightarrow>
            (case File_open s (objs s file) of
               (st, f) \<Rightarrow> (if st = OK then Inr file else Inl st, set_obj file f s))
        | Inl _ \<Rightarrow>
            (case new_File s name of
               (file, s) \<Rightarrow>
                 (case File_open s (objs s file) of
                    (st, f) \<Rightarrow>
                      (let s = set_obj file f s
                       in if st \<noteq> OK then (Inl st, File_delete s file)
                          else
                            (case OpenFileHashTbl_insert (openFiles s) name file of
                               (st, t) \<Rightarrow>
                                 (if st = OK then Inr file else Inl st, s\<lparr>openFiles := t\<rparr>))))))"

definition DB_closeFile :: "'a dsys_scheme \<Rightarrow> int \<Rightarrow> Status \<times> 'a dsys_scheme" where
  "DB_closeFile s file =
     (if file = 0 then (BADFILEPTR, s)
      else
        (let s = snd (File_close s file)
         in if openCnt (objs s file) = 0 then
              (case OpenFileHashTbl_erase (openFiles s) (fileName (objs s file)) of
                 (st, t) \<Rightarrow>
                   (let s = s\<lparr>openFiles := t\<rparr>
                    in if st \<noteq> OK then (BADFILEPTR, s) else (OK, File_delete s file)))
            else (OK, s)))"

text \<open>
  The destructor of the table of open files deletes the objects that are still in it, chain
  by chain.
\<close>

fun delete_chain :: "'a dsys_scheme \<Rightarrow> fileHashBucket list \<Rightarrow> 'a dsys_scheme" where
  "delete_chain s [] = s"
| "delete_chain s (b # bs) =
     delete_chain (if fb_file b \<noteq> 0 then File_delete s (fb_file b) else s) bs"

definition OpenFileHashTbl_destroy :: "'a dsys_scheme \<Rightarrow> 'a dsys_scheme" where
  "OpenFileHashTbl_destroy s =
     fold (\<lambda>i s. (delete_chain s (oft_ht (openFiles s) (int i)))
             \<lparr>openFiles := (openFiles s)\<lparr>oft_ht := (oft_ht (openFiles s))(int i := [])\<rparr>\<rparr>)
       [0..<nat (oft_HTSIZE (openFiles s))] s"

end
