(* ===== verification/Buf_Clock.thy ===== *)
theory Buf_Clock
  imports Buf
begin

text \<open>
  The clock algorithm of \<open>allocBuf\<close>: what one search changes (only reference bits, and the
  hash entry of the victim), which frame it stops at, and that two rounds are enough: the
  search fails exactly when every frame is valid and pinned.
\<close>

named_theorems buf_simps \<open>fields of the buffer manager after an update\<close>

lemma upd_fields [buf_simps]:
  "bufTable (upd_desc i g b) = (bufTable b)[i := g (bufTable b ! i)]"
  "bufPool (upd_desc i g b) = bufPool b" "hashTable (upd_desc i g b) = hashTable b"
  "clockHand (upd_desc i g b) = clockHand b" "bufStats (upd_desc i g b) = bufStats b"
  "bufTable (upd_stats h b) = bufTable b" "bufPool (upd_stats h b) = bufPool b"
  "hashTable (upd_stats h b) = hashTable b" "clockHand (upd_stats h b) = clockHand b"
  "bufTable (set_frame i pg b) = bufTable b" "bufPool (set_frame i pg b) = (bufPool b)[i := pg]"
  "hashTable (set_frame i pg b) = hashTable b" "clockHand (set_frame i pg b) = clockHand b"
  "bufTable (advanceClock b) = bufTable b" "bufPool (advanceClock b) = bufPool b"
  "hashTable (advanceClock b) = hashTable b"
  by (simp_all add: upd_desc_def upd_stats_def set_frame_def advanceClock_def)

lemma advance_hand: "clockHand (advanceClock b) = (clockHand b + 1) mod numBufs b"
  by (simp add: advanceClock_def)

subsection \<open>What a search changes\<close>

text \<open>The pool apart from the clock hand, the statistics, reference bits and the hash table.\<close>

definition clock_rel :: "BufMgr \<Rightarrow> BufMgr \<Rightarrow> bool" where
  "clock_rel b b' \<longleftrightarrow> numBufs b' = numBufs b \<and> bufPool b' = bufPool b \<and>
     length (bufTable b') = length (bufTable b) \<and>
     (\<forall>i < length (bufTable b). desc b' i = desc b i \<or> desc b' i = (desc b i)\<lparr>refbit := False\<rparr>)"

lemma clock_rel_refl: "clock_rel b b"
  by (simp add: clock_rel_def)

lemma clock_rel_desc:
  assumes "clock_rel b b'" "i < length (bufTable b)"
  shows "bd_file (desc b' i) = bd_file (desc b i)" "bd_pageNo (desc b' i) = bd_pageNo (desc b i)"
    "pinCnt (desc b' i) = pinCnt (desc b i)" "dirty (desc b' i) = dirty (desc b i)"
    "valid (desc b' i) = valid (desc b i)"
proof -
  have "desc b' i = desc b i \<or> desc b' i = (desc b i)\<lparr>refbit := False\<rparr>"
    using assms by (simp add: clock_rel_def)
  then show "bd_file (desc b' i) = bd_file (desc b i)" "bd_pageNo (desc b' i) = bd_pageNo (desc b i)"
    "pinCnt (desc b' i) = pinCnt (desc b i)" "dirty (desc b' i) = dirty (desc b i)"
    "valid (desc b' i) = valid (desc b i)"
    by auto
qed

lemma clock_rel_trans: "clock_rel b c \<Longrightarrow> clock_rel c d \<Longrightarrow> clock_rel b d"
  unfolding clock_rel_def by (intro conjI allI impI; force)

text \<open>One round of the loop.\<close>

definition clear_ref :: "BufMgr \<Rightarrow> BufMgr" where
  "clear_ref b = upd_desc (clockHand b) (refbit_update (\<lambda>_. False))
     (upd_stats (accesses_update (\<lambda>a. a + 1)) b)"

lemma clear_ref_fields [buf_simps]:
  "bufTable (clear_ref b) = (bufTable b)[clockHand b := (desc b (clockHand b))\<lparr>refbit := False\<rparr>]"
  "bufPool (clear_ref b) = bufPool b" "hashTable (clear_ref b) = hashTable b"
  "clockHand (clear_ref b) = clockHand b" "numBufs (clear_ref b) = numBufs b"
  by (simp_all add: clear_ref_def buf_simps)

lemma clock_rel_steps: "clock_rel b (advanceClock b)" "clock_rel b (clear_ref b)"
  by (simp_all add: clock_rel_def buf_simps) (metis nth_list_update_eq nth_list_update_neq)

lemma clock_scan_step:
  assumes "numScanned < 2 * numBufs b"
  defines "c \<equiv> advanceClock b"
  defines "d \<equiv> desc c (clockHand c)"
  shows "clock_scan b numScanned =
    (if \<not> valid d then (c, numScanned + 1, False)
     else if refbit d then clock_scan (clear_ref c) (numScanned + 1)
     else if pinCnt d = 0 then
       (c\<lparr>hashTable := snd (BufHashTbl_remove (hashTable c) (bd_file d) (bd_pageNo d))\<rparr>,
        numScanned + 1, True)
     else clock_scan c (numScanned + 1))"
  using assms(1) by (subst clock_scan.simps) (simp add: c_def d_def Let_def clear_ref_def)

lemma clock_scan_end: "2 * numBufs b \<le> numScanned \<Longrightarrow> clock_scan b numScanned = (b, numScanned, False)"
  by (subst clock_scan.simps) simp

text \<open>An induction rule over the rounds, with the steps above in place of the body.\<close>

lemma clock_scan_induct [consumes 1, case_names stop invalid ref found pinned]:
  assumes run: "clock_scan b n = (b', n', found)"
    and stop: "\<And>b n. 2 * numBufs b \<le> n \<Longrightarrow> P b n b n False"
    and invalid: "\<And>b n. n < 2 * numBufs b \<Longrightarrow>
      \<not> valid (desc b (clockHand (advanceClock b))) \<Longrightarrow> P b n (advanceClock b) (n + 1) False"
    and ref: "\<And>b n b' n' found. n < 2 * numBufs b \<Longrightarrow>
      valid (desc b (clockHand (advanceClock b))) \<Longrightarrow> refbit (desc b (clockHand (advanceClock b))) \<Longrightarrow>
      P (clear_ref (advanceClock b)) (n + 1) b' n' found \<Longrightarrow> P b n b' n' found"
    and found: "\<And>b n d. n < 2 * numBufs b \<Longrightarrow> d = desc b (clockHand (advanceClock b)) \<Longrightarrow>
      valid d \<Longrightarrow> \<not> refbit d \<Longrightarrow> pinCnt d = 0 \<Longrightarrow>
      P b n ((advanceClock b)\<lparr>hashTable :=
        snd (BufHashTbl_remove (hashTable b) (bd_file d) (bd_pageNo d))\<rparr>) (n + 1) True"
    and pinned: "\<And>b n b' n' found. n < 2 * numBufs b \<Longrightarrow>
      valid (desc b (clockHand (advanceClock b))) \<Longrightarrow> \<not> refbit (desc b (clockHand (advanceClock b))) \<Longrightarrow>
      pinCnt (desc b (clockHand (advanceClock b))) \<noteq> 0 \<Longrightarrow>
      P (advanceClock b) (n + 1) b' n' found \<Longrightarrow> P b n b' n' found"
  shows "P b n b' n' found"
  using run
proof (induction "2 * numBufs b - n" arbitrary: b n rule: less_induct)
  case less
  let ?c = "advanceClock b"
  show ?case
  proof (cases "n < 2 * numBufs b")
    case False
    then show ?thesis using less.prems stop [of b n] by (simp add: clock_scan_end)
  next
    case True
    note S = clock_scan_step [OF True]
    have R: "clock_scan (clear_ref ?c) (n + 1) = (b', n', found) \<Longrightarrow> P (clear_ref ?c) (n + 1) b' n' found"
      "clock_scan ?c (n + 1) = (b', n', found) \<Longrightarrow> P ?c (n + 1) b' n' found"
      by (rule less.hyps; use True in \<open>simp add: buf_simps\<close>)+
    show ?thesis
      using less.prems S R True invalid [of n b] ref [of n b b' n' found] found [of n b]
        pinned [of n b b' n' found]
      by (auto simp: upd_fields split: if_splits)
  qed
qed

subsection \<open>Where a search stops\<close>

definition pool_ok :: "BufMgr \<Rightarrow> bool" where
  "pool_ok b \<longleftrightarrow> 0 < numBufs b \<and> length (bufTable b) = numBufs b \<and>
     length (bufPool b) = numBufs b \<and> clockHand b < numBufs b"

lemma pool_ok_steps [simp]:
  "pool_ok b \<Longrightarrow> pool_ok (advanceClock b)" "pool_ok b \<Longrightarrow> pool_ok (clear_ref b)"
  by (simp_all add: pool_ok_def buf_simps advance_hand)

definition hash_without :: "BufMgr \<Rightarrow> nat \<Rightarrow> BufHashTbl" where
  "hash_without b i =
     snd (BufHashTbl_remove (hashTable b) (bd_file (desc b i)) (bd_pageNo (desc b i)))"

lemma clock_scan_sound:
  assumes "clock_scan b n = (b', n', found)" "pool_ok b"
  shows "clock_rel b b' \<and> pool_ok b' \<and>
    (if found then valid (desc b' (clockHand b')) \<and> pinCnt (desc b' (clockHand b')) = 0 \<and>
       hashTable b' = hash_without b (clockHand b')
     else hashTable b' = hashTable b)"
  using assms
proof (induction rule: clock_scan_induct)
  case (stop b n)
  then show ?case by (simp add: clock_rel_refl)
next
  case (invalid b n)
  then show ?case by (simp add: clock_rel_steps upd_fields)
next
  case (ref b n b' n' found)
  let ?c = "clear_ref (advanceClock b)"
  have c: "clock_rel b ?c" "pool_ok ?c"
    using ref.prems clock_rel_steps clock_rel_trans by (blast, simp)
  have "hash_without ?c i = hash_without b i" if "i < numBufs b" for i
    using clock_rel_desc [OF c(1), of i] that ref.prems
    by (simp add: hash_without_def buf_simps pool_ok_def)
  with ref.IH [OF c(2)] show ?case
    using clock_rel_trans [OF c(1)] by (auto simp: buf_simps clock_rel_def [of ?c] pool_ok_def)
next
  case (found b n d)
  then show ?case
    using pool_ok_steps(1) [OF found.prems]
    by (auto simp: hash_without_def pool_ok_def upd_fields clock_rel_def)
next
  case (pinned b n b' n' found)
  have c: "clock_rel b (advanceClock b)" "pool_ok (advanceClock b)"
    using pinned.prems clock_rel_steps by simp_all
  have "hash_without (advanceClock b) i = hash_without b i" for i
    by (simp add: hash_without_def buf_simps)
  with pinned.IH [OF c(2)] show ?case
    using clock_rel_trans [OF c(1)] by (auto simp: buf_simps)
qed

text \<open>
  Two rounds are enough. The frame looked at in round \<open>t\<close> is \<open>(c0 + t) mod N\<close>; a frame that
  did not end the search has its reference bit clear afterwards, and when it is looked at
  again it must be pinned.
\<close>

definition scanned :: "nat \<Rightarrow> BufMgr \<Rightarrow> nat \<Rightarrow> bool" where
  "scanned c0 b n \<longleftrightarrow> clockHand b = (c0 + n) mod numBufs b \<and>
     (\<forall>t. 1 \<le> t \<longrightarrow> t \<le> n \<longrightarrow>
        (let d = desc b ((c0 + t) mod numBufs b)
         in valid d \<and> \<not> refbit d \<and> (numBufs b < t \<longrightarrow> pinCnt d \<noteq> 0)))"

lemma scannedD:
  assumes "scanned c0 b n" "1 \<le> t" "t \<le> n"
  shows "valid (desc b ((c0 + t) mod numBufs b))" "\<not> refbit (desc b ((c0 + t) mod numBufs b))"
    "numBufs b < t \<Longrightarrow> pinCnt (desc b ((c0 + t) mod numBufs b)) \<noteq> 0"
  using assms by (simp_all add: scanned_def Let_def)

lemma scanned_hand: "scanned c0 b n \<Longrightarrow> clockHand (advanceClock b) = (c0 + Suc n) mod numBufs b"
  by (simp add: scanned_def advance_hand mod_simps)

text \<open>In the second round the frame under the hand is one that was already looked at.\<close>

lemma scanned_again:
  assumes "scanned c0 b n" "numBufs b \<le> n" "0 < numBufs b"
  shows "valid (desc b (clockHand (advanceClock b)))" "\<not> refbit (desc b (clockHand (advanceClock b)))"
proof -
  have "c0 + Suc n = c0 + (Suc n - numBufs b) + numBufs b" using assms(2) by simp
  then have "(c0 + (Suc n - numBufs b)) mod numBufs b = (c0 + Suc n) mod numBufs b"
    by (simp only: mod_add_self2)
  then show "valid (desc b (clockHand (advanceClock b)))"
    "\<not> refbit (desc b (clockHand (advanceClock b)))"
    using scannedD(1,2) [OF assms(1), of "Suc n - numBufs b"] assms(2,3)
    by (simp_all add: scanned_hand [OF assms(1)])
qed

lemma scanned_ref:
  assumes "scanned c0 b n" "pool_ok b" "valid (desc b (clockHand (advanceClock b)))"
    and "refbit (desc b (clockHand (advanceClock b)))"
  shows "scanned c0 (clear_ref (advanceClock b)) (n + 1)"
proof -
  let ?h = "clockHand (advanceClock b)"
  have n: "n < numBufs b" using scanned_again(2) [OF assms(1)] assms(2,4)
    by (force simp: pool_ok_def)
  have h: "?h = (c0 + Suc n) mod numBufs b" by (rule scanned_hand [OF assms(1)])
  have len: "?h < length (bufTable b)" using assms(2) by (simp add: pool_ok_def h)
  have "valid ((bufTable b)[?h := (desc b ?h)\<lparr>refbit := False\<rparr>] ! ((c0 + t) mod numBufs b)) \<and>
      \<not> refbit ((bufTable b)[?h := (desc b ?h)\<lparr>refbit := False\<rparr>] ! ((c0 + t) mod numBufs b))"
    if "1 \<le> t" "t \<le> Suc n" for t
    using that scannedD(1,2) [OF assms(1), of t] assms(3) len h
    by (cases "t = Suc n") (auto simp: nth_list_update)
  then show ?thesis using n h by (auto simp: scanned_def buf_simps Let_def)
qed

lemma scanned_pinned:
  assumes "scanned c0 b n" "valid (desc b (clockHand (advanceClock b)))"
    and "\<not> refbit (desc b (clockHand (advanceClock b)))"
    and "pinCnt (desc b (clockHand (advanceClock b))) \<noteq> 0"
  shows "scanned c0 (advanceClock b) (n + 1)"
  using assms(2-4) scannedD [OF assms(1)] scanned_hand [OF assms(1)]
  by (auto simp: scanned_def buf_simps Let_def le_Suc_eq)

lemma scanned_all:
  assumes "scanned c0 b (2 * numBufs b)" "i < numBufs b" "c0 < numBufs b"
  shows "valid (desc b i) \<and> pinCnt (desc b i) \<noteq> 0"
proof -
  let ?N = "numBufs b"
  define t where "t = (if c0 < i then i - c0 + ?N else i + 2 * ?N - c0)"
  have t: "?N < t" "t \<le> 2 * ?N" using assms(2,3) by (auto simp: t_def)
  have "c0 + t = i + ?N \<or> c0 + t = i + ?N + ?N" using assms(3) by (auto simp: t_def)
  then have "(c0 + t) mod ?N = i" using assms(2) by (auto simp: mod_add_self2)
  then show ?thesis using scannedD [OF assms(1), of t] t by simp
qed

lemma clock_scan_complete:
  assumes "clock_scan b n = (b', n', found)" "pool_ok b" "scanned c0 b n" "c0 < numBufs b"
    and "n \<le> 2 * numBufs b" "\<not> found"
  shows "if 2 * numBufs b' \<le> n' then \<forall>i < numBufs b'. valid (desc b' i) \<and> pinCnt (desc b' i) \<noteq> 0
    else \<not> valid (desc b' (clockHand b'))"
  using assms
proof (induction rule: clock_scan_induct)
  case (stop b n)
  then show ?case using scanned_all [of c0 b] by auto
next
  case (invalid b n)
  have "n < numBufs b"
    using scanned_again(1) [OF invalid.prems(2)] invalid.hyps(2) invalid.prems(1)
    by (force simp: pool_ok_def)
  then show ?case using invalid by (auto simp: buf_simps)
next
  case (ref b n b' n' found)
  then show ?case using scanned_ref [of c0 b n] by (simp add: buf_simps)
next
  case (found b n d)
  then show ?case by simp
next
  case (pinned b n b' n' found)
  then show ?case using scanned_pinned [of c0 b n] by (simp add: buf_simps)
qed

lemma scanned_start: "pool_ok b \<Longrightarrow> scanned (clockHand b) b 0"
  by (simp add: scanned_def pool_ok_def)

end
