(* ===== verification/File_Spec.thy ===== *)
theory File_Spec
  imports FileIO
begin

text \<open>
  What the file layer promises: the pages of a file that are in use form a finite map from
  page numbers to page contents, and the operations of \<open>File\<close> implement allocation, disposal,
  reading and writing on that map. The invariant \<open>file_wf\<close> describes the header page and the
  list of free pages threaded through the free pages themselves. The locale \<open>paged_file\<close> is the
  contract, interpreted on the operations of \<open>FileIO\<close> for an arbitrary open file.
\<close>

subsection \<open>Header fields\<close>

lemmas header_defs = nextFree_def firstPage_def numPages_def set_nextFree_def set_firstPage_def
  set_numPages_def

lemma header_fields [simp]:
  "nextFree (set_nextFree v m) = swrap 32 v" "firstPage (set_nextFree v m) = firstPage m"
  "numPages (set_nextFree v m) = numPages m" "nextFree (set_firstPage v m) = nextFree m"
  "firstPage (set_firstPage v m) = swrap 32 v" "numPages (set_firstPage v m) = numPages m"
  "nextFree (set_numPages v m) = nextFree m" "firstPage (set_numPages v m) = firstPage m"
  "numPages (set_numPages v m) = swrap 32 v"
  by (simp_all add: header_defs mem_simps)

lemma header_init_fields:
  "nextFree header_init = - 1" "firstPage header_init = - 1" "numPages header_init = 1"
  by (simp_all add: header_init_def)

subsection \<open>Pages of an open file\<close>

definition file_pages :: "'a sys_scheme \<Rightarrow> File \<Rightarrow> memory list option" where
  "file_pages s f = (case unixFile f of None \<Rightarrow> None | Some fd \<Rightarrow> files s fd)"

definition with_pages :: "'a sys_scheme \<Rightarrow> File \<Rightarrow> memory list \<Rightarrow> 'a sys_scheme" where
  "with_pages s f ps = s\<lparr>files := (files s)(the (unixFile f) \<mapsto> ps)\<rparr>"

lemma file_pages_with [simp]:
  "file_pages s f = Some qs \<Longrightarrow> file_pages (with_pages s f ps) f = Some ps"
  by (auto simp: file_pages_def with_pages_def split: option.splits)

lemma with_pages_twice [simp]: "with_pages (with_pages s f ps) f qs = with_pages s f qs"
  by (simp add: with_pages_def)

lemma with_pages_quota [simp]: "quota (with_pages s f ps) = quota s"
  by (simp add: with_pages_def)

lemma intread_pages:
  "file_pages s f = Some ps \<Longrightarrow> File_intread s f p =
    (if 0 \<le> p \<and> p < int (length ps) then Inr (ps ! nat p) else Inl UNIXERR)"
  by (auto simp: File_intread_def file_pages_def split: option.splits)

lemma intwrite_pages:
  "file_pages s f = Some ps \<Longrightarrow> 0 \<le> p \<Longrightarrow> File_intwrite s f p pg =
    (if p < int (length ps) \<or> p < int (quota s)
     then (OK, with_pages s f (write_at ps (nat p) pg)) else (UNIXERR, s))"
  by (auto simp: File_intwrite_def file_pages_def with_pages_def split: option.splits)

lemma write_at_inside [simp]: "n < length ps \<Longrightarrow> write_at ps n pg = ps[n := pg]"
  by (simp add: write_at_def)

lemma write_at_end [simp]: "write_at ps (length ps) pg = ps @ [pg]"
  by (simp add: write_at_def)

subsection \<open>The free list\<close>

fun free_chain :: "memory list \<Rightarrow> int \<Rightarrow> int list \<Rightarrow> bool" where
  "free_chain ps p [] \<longleftrightarrow> p = - 1"
| "free_chain ps p (n # ns) \<longleftrightarrow>
     p = n \<and> 1 \<le> n \<and> n < int (length ps) \<and> free_chain ps (nextFree (ps ! nat n)) ns"

text \<open>The list followed from page \<open>p\<close> for at most \<open>k\<close> steps.\<close>

fun chase :: "memory list \<Rightarrow> int \<Rightarrow> nat \<Rightarrow> int list" where
  "chase ps p 0 = []"
| "chase ps p (Suc k) =
     (if 1 \<le> p \<and> p < int (length ps) then p # chase ps (nextFree (ps ! nat p)) k else [])"

definition free_list :: "memory list \<Rightarrow> int list" where
  "free_list ps = chase ps (nextFree (ps ! 0)) (length ps)"

definition file_wf :: "memory list \<Rightarrow> bool" where
  "file_wf ps \<longleftrightarrow> ps \<noteq> [] \<and> int (length ps) < 2147483648 \<and> numPages (ps ! 0) = int (length ps) \<and>
     firstPage (ps ! 0) = (if length ps = 1 then - 1 else 1) \<and>
     free_chain ps (nextFree (ps ! 0)) (free_list ps) \<and> distinct (free_list ps) \<and>
     1 \<notin> set (free_list ps)"

definition file_map :: "memory list \<Rightarrow> int \<Rightarrow> memory option" where
  "file_map ps q =
     (if 1 \<le> q \<and> q < int (length ps) \<and> q \<notin> set (free_list ps) then Some (ps ! nat q) else None)"

lemma chase_chain: "free_chain ps p ns \<Longrightarrow> length ns \<le> k \<Longrightarrow> chase ps p k = ns"
proof (induction ns arbitrary: p k)
  case Nil
  then show ?case by (cases k) auto
next
  case (Cons n ns)
  then show ?case by (cases k) auto
qed

lemma free_chain_range: "free_chain ps p ns \<Longrightarrow> set ns \<subseteq> {1..<int (length ps)}"
  by (induction ns arbitrary: p) auto

lemma free_list_eq:
  assumes "free_chain ps (nextFree (ps ! 0)) ns" "distinct ns"
  shows "free_list ps = ns"
proof -
  have "length ns = card (set ns)" using assms(2) by (simp add: distinct_card)
  also have "\<dots> \<le> card {1..<int (length ps)}"
    using free_chain_range [OF assms(1)] by (intro card_mono) auto
  finally show ?thesis
    unfolding free_list_def by (intro chase_chain [OF assms(1)]) auto
qed

text \<open>A chain survives every change of pages that are not on it.\<close>

lemma free_chain_cong:
  "free_chain ps p ns \<Longrightarrow> length ps \<le> length qs \<Longrightarrow>
    (\<And>n. n \<in> set ns \<Longrightarrow> nextFree (qs ! nat n) = nextFree (ps ! nat n)) \<Longrightarrow> free_chain qs p ns"
  by (induction ns arbitrary: p) auto

lemma file_wfI:
  assumes "ps \<noteq> []" "int (length ps) < 2147483648" "numPages (ps ! 0) = int (length ps)"
    and "firstPage (ps ! 0) = (if length ps = 1 then - 1 else 1)"
    and "free_chain ps (nextFree (ps ! 0)) ns" "distinct ns" "1 \<notin> set ns"
  shows "file_wf ps \<and> free_list ps = ns"
  using assms free_list_eq [OF assms(5,6)] by (simp add: file_wf_def)

lemma file_wfD:
  assumes "file_wf ps"
  shows "ps \<noteq> []" "int (length ps) < 2147483648" "numPages (ps ! 0) = int (length ps)"
    "firstPage (ps ! 0) = (if length ps = 1 then - 1 else 1)"
    "free_chain ps (nextFree (ps ! 0)) (free_list ps)" "distinct (free_list ps)"
    "1 \<notin> set (free_list ps)" "set (free_list ps) \<subseteq> {1..<int (length ps)}"
  using assms free_chain_range [of ps "nextFree (ps ! 0)" "free_list ps"]
  by (simp_all add: file_wf_def)

lemma file_map_Some:
  "file_map ps q = Some pg \<longleftrightarrow>
    1 \<le> q \<and> q < int (length ps) \<and> q \<notin> set (free_list ps) \<and> pg = ps ! nat q"
  by (auto simp: file_map_def)

subsection \<open>Effect of the operations on the pages\<close>

lemma allocate_from_free:
  assumes "file_pages s f = Some ps" "file_wf ps" "free_list ps = p # ns"
  defines "qs \<equiv> ps[0 := set_nextFree (nextFree (ps ! nat p)) (ps ! 0)]"
  shows "File_allocatePage s f = (Inr p, with_pages s f qs)"
    and "file_wf qs \<and> free_list qs = ns"
    and "file_map ps p = None" "file_map qs = (file_map ps)(p \<mapsto> ps ! nat p)"
proof -
  note W = file_wfD [OF assms(2)]
  from W(5) assms(3) have p: "nextFree (ps ! 0) = p" "1 \<le> p" "p < int (length ps)"
    and ns: "free_chain ps (nextFree (ps ! nat p)) ns" by simp_all
  show "File_allocatePage s f = (Inr p, with_pages s f qs)"
    using p W(1) assms(1)
    by (simp add: File_allocatePage_def intread_pages intwrite_pages qs_def)
  have sw: "swrap 32 (nextFree (ps ! nat p)) = nextFree (ps ! nat p)"
    using get_int_bounds [of "ps ! nat p" 0] by (simp add: nextFree_def)
  have len: "length qs = length ps" "qs \<noteq> []" using W(1) by (simp_all add: qs_def)
  have q0: "qs ! 0 = set_nextFree (nextFree (ps ! nat p)) (ps ! 0)"
    using W(1) by (simp add: qs_def)
  have chain: "free_chain qs (nextFree (qs ! 0)) ns"
    unfolding q0 header_fields sw
    by (rule free_chain_cong [OF ns]) (use W(8) assms(3) in \<open>auto simp: qs_def nth_list_update\<close>)
  show wf: "file_wf qs \<and> free_list qs = ns"
    using W assms(3) chain len by (intro file_wfI) (auto simp: q0)
  show "file_map ps p = None" by (simp add: file_map_def assms(3))
  show "file_map qs = (file_map ps)(p \<mapsto> ps ! nat p)"
    using wf W(6) assms(3) p(2,3)
    by (auto simp: file_map_def fun_eq_iff len qs_def nth_list_update)
qed

lemma allocate_extend:
  assumes "file_pages s f = Some ps" "file_wf ps" "free_list ps = []"
    and "length ps < quota s" "int (length ps) + 1 < 2147483648"
  shows "\<exists>qs. File_allocatePage s f = (Inr (int (length ps)), with_pages s f qs) \<and>
    file_wf qs \<and> free_list qs = [] \<and> length qs = length ps + 1 \<and>
    file_map ps (int (length ps)) = None \<and> file_map qs = (file_map ps)(int (length ps) \<mapsto> zero_mem)"
proof -
  note W = file_wfD [OF assms(2)]
  define h where "h = set_numPages (int (length ps) + 1) (ps ! 0)"
  define h' where "h' = (if firstPage h = - 1 then set_firstPage (int (length ps)) h else h)"
  define qs where "qs = (ps @ [zero_mem])[0 := h']"
  have nf: "nextFree (ps ! 0) = - 1" using W(5) assms(3) by simp
  have eq: "File_allocatePage s f = (Inr (int (length ps)), with_pages s f qs)"
    using nf W(1,3) assms(1,4)
    by (simp add: File_allocatePage_def intread_pages intwrite_pages qs_def h_def h'_def
        nth_append Let_def)
  have q: "length qs = length ps + 1" "qs ! 0 = h'" by (simp_all add: qs_def)
  have h': "nextFree h' = - 1" "numPages h' = int (length ps) + 1" "firstPage h' = 1"
    using nf W(1,2,4) assms(5) by (auto simp: h'_def h_def split: if_splits)
  have wf: "file_wf qs \<and> free_list qs = []"
    using W(1) q h' assms(5) by (intro file_wfI) auto
  have "file_map qs = (file_map ps)(int (length ps) \<mapsto> zero_mem)"
    using wf assms(3) q(1) W(1) 
    by (auto simp: file_map_def fun_eq_iff qs_def nth_list_update nth_append Suc_le_eq)
  then show ?thesis using eq wf q by (intro exI [of _ qs]) (simp add: file_map_def)
qed

lemma allocate_full:
  assumes "file_pages s f = Some ps" "file_wf ps" "free_list ps = []" "quota s \<le> length ps"
  shows "File_allocatePage s f = (Inl UNIXERR, s)"
  using assms file_wfD(1,3,5) [OF assms(2)]
  by (simp add: File_allocatePage_def intread_pages intwrite_pages)

lemma dispose_pages:
  assumes "file_pages s f = Some ps" "file_wf ps" "file_map ps p \<noteq> None" "p \<noteq> 1"
  defines "qs \<equiv> ps[nat p := set_nextFree (nextFree (ps ! 0)) zero_mem, 0 := set_nextFree p (ps ! 0)]"
  shows "File_disposePage s f p = (OK, with_pages s f qs)"
    and "file_wf qs \<and> free_list qs = p # free_list ps"
    and "file_map qs = (file_map ps)(p := None)"
proof -
  note W = file_wfD [OF assms(2)]
  from assms(3,4) have p: "1 < p" "p < int (length ps)" "p \<notin> set (free_list ps)"
    by (auto simp: file_map_def split: if_splits)
  show "File_disposePage s f p = (OK, with_pages s f qs)"
    using p W(1,3,4) assms(1)
    by (auto simp: File_disposePage_def intread_pages intwrite_pages qs_def split: if_splits)
  have len: "length qs = length ps" "qs \<noteq> []" using W(1) by (simp_all add: qs_def)
  have qn: "qs ! nat n = (if n = 0 then set_nextFree p (ps ! 0)
      else if n = p then set_nextFree (nextFree (ps ! 0)) zero_mem else ps ! nat n)"
    if "0 \<le> n" "n < int (length ps)" for n
    using that p by (auto simp: qs_def nth_list_update nat_eq_iff)
  have sw: "swrap 32 p = p" "swrap 32 (nextFree (ps ! 0)) = nextFree (ps ! 0)"
    using p(1,2) W(2) get_int_bounds [of "ps ! 0" 0] by (simp_all add: nextFree_def)
  have q0: "qs ! 0 = set_nextFree p (ps ! 0)" using qn [of 0] W(1) by simp
  have "free_chain qs (nextFree (ps ! 0)) (free_list ps)"
    by (rule free_chain_cong [OF W(5)]) (use W(8) p(3) in \<open>auto simp: len qn subset_iff\<close>)
  then have chain: "free_chain qs (nextFree (qs ! 0)) (p # free_list ps)"
    using p(1,2) by (simp add: q0 sw len qn)
  show wf: "file_wf qs \<and> free_list qs = p # free_list ps"
    using W p chain len by (intro file_wfI) (auto simp: q0)
  show "file_map qs = (file_map ps)(p := None)"
    using wf by (auto simp: file_map_def fun_eq_iff len qn)
qed

lemma write_pages:
  assumes "file_pages s f = Some ps" "file_wf ps" "file_map ps p \<noteq> None"
  shows "File_writePage s f p (Some pg) = (OK, with_pages s f (ps[nat p := pg]))"
    and "file_wf (ps[nat p := pg]) \<and> free_list (ps[nat p := pg]) = free_list ps"
    and "file_map (ps[nat p := pg]) = (file_map ps)(p \<mapsto> pg)"
proof -
  note W = file_wfD [OF assms(2)]
  from assms(3) have p: "1 \<le> p" "p < int (length ps)" "p \<notin> set (free_list ps)"
    by (auto simp: file_map_def split: if_splits)
  show "File_writePage s f p (Some pg) = (OK, with_pages s f (ps[nat p := pg]))"
    using p assms(1) by (simp add: File_writePage_def intwrite_pages)
  have q0: "ps[nat p := pg] ! 0 = ps ! 0" using p(1) by simp
  have "free_chain (ps[nat p := pg]) (nextFree (ps ! 0)) (free_list ps)"
  proof (rule free_chain_cong [OF W(5)])
    fix n assume "n \<in> set (free_list ps)"
    then have "nat n \<noteq> nat p" using W(8) p(1,3) by (auto simp: nat_eq_iff)
    then show "nextFree (ps[nat p := pg] ! nat n) = nextFree (ps ! nat n)" by simp
  qed simp
  then show wf: "file_wf (ps[nat p := pg]) \<and> free_list (ps[nat p := pg]) = free_list ps"
    using W by (intro file_wfI) (auto simp: q0)
  show "file_map (ps[nat p := pg]) = (file_map ps)(p \<mapsto> pg)"
    using wf p by (auto simp: file_map_def fun_eq_iff nth_list_update nat_eq_iff)
qed

lemma read_pages:
  "file_pages s f = Some ps \<Longrightarrow> file_map ps p = Some pg \<Longrightarrow> File_readPage s f p (Some b) = Inr pg"
  by (auto simp: File_readPage_def intread_pages file_map_Some)

end
