(* ===== verification/File_Refine.thy ===== *)
theory File_Refine
  imports File_Spec
begin

text \<open>
  The file layer as an implementation of a map from page numbers to pages, for clients that
  only write and dispose of pages they hold, and the behaviour of allocation and disposal on
  every branch.
\<close>

subsection \<open>The contract\<close>

locale paged_file =
  fixes alloc :: "'s \<Rightarrow> (Status + int) \<times> 's"
    and disp :: "'s \<Rightarrow> int \<Rightarrow> Status \<times> 's"
    and rd :: "'s \<Rightarrow> int \<Rightarrow> Status + memory"
    and wr :: "'s \<Rightarrow> int \<Rightarrow> memory \<Rightarrow> Status \<times> 's"
    and inv :: "'s \<Rightarrow> bool"
    and pages :: "'s \<Rightarrow> int \<Rightarrow> memory option"
  assumes alloc_Inr: "inv s \<Longrightarrow> alloc s = (Inr p, s') \<Longrightarrow>
      inv s' \<and> 1 \<le> p \<and> pages s p = None \<and> (\<exists>pg. pages s' = (pages s)(p \<mapsto> pg))"
    and alloc_Inl: "inv s \<Longrightarrow> alloc s = (Inl e, s') \<Longrightarrow> s' = s"
    and disp_used: "inv s \<Longrightarrow> pages s p \<noteq> None \<Longrightarrow> p \<noteq> 1 \<Longrightarrow> disp s p = (st, s') \<Longrightarrow>
      st = OK \<and> inv s' \<and> pages s' = (pages s)(p := None)"
    and disp_first: "inv s \<Longrightarrow> disp s 1 = (BADPAGENO, s)"
    and rd_used: "inv s \<Longrightarrow> pages s p = Some pg \<Longrightarrow> rd s p = Inr pg"
    and wr_used: "inv s \<Longrightarrow> pages s p \<noteq> None \<Longrightarrow> wr s p pg = (st, s') \<Longrightarrow>
      st = OK \<and> inv s' \<and> pages s' = (pages s)(p \<mapsto> pg)"
begin

lemma rd_after_wr:
  "inv s \<Longrightarrow> pages s p \<noteq> None \<Longrightarrow> wr s p pg = (st, s') \<Longrightarrow> rd s' p = Inr pg"
  using wr_used [of s p pg st s'] rd_used [of s' p pg] by simp

lemma rd_other_after_wr:
  "inv s \<Longrightarrow> pages s p \<noteq> None \<Longrightarrow> wr s p pg = (st, s') \<Longrightarrow> q \<noteq> p \<Longrightarrow> pages s q = Some pg' \<Longrightarrow>
    rd s' q = Inr pg'"
  using wr_used [of s p pg st s'] rd_used [of s' q pg'] by simp

lemma rd_after_alloc:
  "inv s \<Longrightarrow> alloc s = (Inr p, s') \<Longrightarrow> pages s q = Some pg \<Longrightarrow> q \<noteq> p \<and> rd s' q = Inr pg"
  using alloc_Inr [of s p s'] rd_used [of s' q pg] by (cases "q = p") auto

lemma rd_after_disp:
  "inv s \<Longrightarrow> pages s p \<noteq> None \<Longrightarrow> disp s p = (OK, s') \<Longrightarrow> q \<noteq> p \<Longrightarrow> pages s q = Some pg \<Longrightarrow>
    rd s' q = Inr pg"
  using disp_used [of s p OK s'] disp_first [of s] rd_used [of s' q pg]
  by (cases "p = 1") auto

end

subsection \<open>The file layer implements it\<close>

definition file_inv :: "File \<Rightarrow> 'a sys_scheme \<Rightarrow> bool" where
  "file_inv f s \<longleftrightarrow> int (quota s) < 2147483648 \<and>
     (case file_pages s f of Some ps \<Rightarrow> file_wf ps | None \<Rightarrow> False)"

definition used_pages :: "File \<Rightarrow> 'a sys_scheme \<Rightarrow> int \<Rightarrow> memory option" where
  "used_pages f s = (case file_pages s f of Some ps \<Rightarrow> file_map ps | None \<Rightarrow> Map.empty)"

lemma file_invE:
  assumes "file_inv f s"
  obtains ps where "file_pages s f = Some ps" "file_wf ps" "int (quota s) < 2147483648"
    "used_pages f s = file_map ps"
  using assms by (auto simp: file_inv_def used_pages_def split: option.splits)

lemma file_inv_with:
  "file_pages s f = Some ps \<Longrightarrow> int (quota s) < 2147483648 \<Longrightarrow>
    file_inv f (with_pages s f qs) = file_wf qs \<and> used_pages f (with_pages s f qs) = file_map qs"
  by (simp add: file_inv_def used_pages_def)

lemma allocate_cases:
  assumes "file_pages s f = Some ps" "file_wf ps" "int (quota s) < 2147483648"
  obtains (free) p ns qs where "free_list ps = p # ns" "1 \<le> p"
      "File_allocatePage s f = (Inr p, with_pages s f qs)"
      "file_wf qs" "free_list qs = ns" "file_map ps p = None" "\<exists>pg. file_map qs = (file_map ps)(p \<mapsto> pg)"
    | (extend) qs where "free_list ps = []" "length ps < quota s" "1 \<le> int (length ps)"
      "File_allocatePage s f = (Inr (int (length ps)), with_pages s f qs)"
      "file_wf qs" "file_map ps (int (length ps)) = None"
      "\<exists>pg. file_map qs = (file_map ps)(int (length ps) \<mapsto> pg)"
    | (full) "free_list ps = []" "quota s \<le> length ps" "File_allocatePage s f = (Inl UNIXERR, s)"
proof (cases "free_list ps")
  case (Cons p ns)
  have "1 \<le> p" using file_wfD(8) [OF assms(2)] Cons by simp
  then show ?thesis using allocate_from_free [OF assms(1,2) Cons] Cons by (intro free) auto
next
  case Nil
  show ?thesis
  proof (cases "length ps < quota s")
    case True
    have "1 \<le> int (length ps)" using file_wfD(1) [OF assms(2)] by (cases ps) auto
    then show ?thesis
      using allocate_extend [OF assms(1,2) Nil True] True assms(3) Nil by (auto intro: extend)
  next
    case False
    then show ?thesis using allocate_full [OF assms(1,2) Nil] Nil by (intro full) auto
  qed
qed

interpretation pf: paged_file "\<lambda>s. File_allocatePage s f" "\<lambda>s. File_disposePage s f"
  "\<lambda>s p. File_readPage s f p (Some zero_mem)" "\<lambda>s p pg. File_writePage s f p (Some pg)"
  "file_inv f" "used_pages f" for f :: File
proof (unfold_locales, goal_cases)
  case (1 s p s')
  then obtain ps where ps: "file_pages s f = Some ps" "file_wf ps" "int (quota s) < 2147483648"
    "used_pages f s = file_map ps" by (blast elim: file_invE)
  show ?case
    using 1(2) ps file_inv_with [OF ps(1,3)]
    by (cases rule: allocate_cases [OF ps(1-3)]) auto
next
  case (2 s e s')
  then obtain ps where ps: "file_pages s f = Some ps" "file_wf ps" "int (quota s) < 2147483648"
    by (blast elim: file_invE)
  show ?case using 2(2) by (cases rule: allocate_cases [OF ps]) auto
next
  case (3 s p st s')
  then obtain ps where ps: "file_pages s f = Some ps" "file_wf ps" "int (quota s) < 2147483648"
    "used_pages f s = file_map ps" by (blast elim: file_invE)
  then show ?case
    using 3 dispose_pages [OF ps(1,2), of p] file_inv_with [OF ps(1,3)] by auto
next
  case (4 s)
  then obtain ps where ps: "file_pages s f = Some ps" "file_wf ps" by (blast elim: file_invE)
  then show ?case
    using file_wfD(1,3,4) [OF ps(2)] by (cases ps) (auto simp: File_disposePage_def intread_pages)
next
  case (5 s p pg)
  then show ?case by (auto elim!: file_invE intro: read_pages)
next
  case (6 s p pg st s')
  then obtain ps where ps: "file_pages s f = Some ps" "file_wf ps" "int (quota s) < 2147483648"
    "used_pages f s = file_map ps" by (blast elim: file_invE)
  then show ?case
    using 6 write_pages [OF ps(1,2), of p pg] file_inv_with [OF ps(1,3)] by auto
qed

subsection \<open>Runs of file operations\<close>

text \<open>
  A file after \<open>File::create\<close> and \<open>open\<close>, and the map its client has built: pages it was
  given by \<open>allocatePage\<close> and has not disposed of, each with the last contents written to it.
  The client writes and disposes of pages that it holds. The code does not check this rule;
  \<open>File_double_dispose\<close> below shows a client that breaks it. Within the rule every operation
  may succeed or fail.
\<close>

inductive file_reach :: "File \<Rightarrow> 'a sys_scheme \<Rightarrow> (int \<Rightarrow> memory option) \<Rightarrow> bool" for f where
  file_new: "file_pages s f = Some [header_init] \<Longrightarrow> int (quota s) < 2147483648 \<Longrightarrow>
    file_reach f s Map.empty"
| file_alloc: "file_reach f s m \<Longrightarrow> File_allocatePage s f = (Inr p, s') \<Longrightarrow>
    File_readPage s' f p (Some zero_mem) = Inr pg \<Longrightarrow> file_reach f s' (m(p \<mapsto> pg))"
| file_alloc_fails: "file_reach f s m \<Longrightarrow> File_allocatePage s f = (Inl e, s') \<Longrightarrow> file_reach f s' m"
| file_dispose: "file_reach f s m \<Longrightarrow> m p \<noteq> None \<Longrightarrow> File_disposePage s f p = (st, s') \<Longrightarrow>
    file_reach f s' (if st = OK then m(p := None) else m)"
| file_write: "file_reach f s m \<Longrightarrow> m p \<noteq> None \<Longrightarrow> File_writePage s f p (Some pg) = (st, s') \<Longrightarrow>
    file_reach f s' (if st = OK then m(p \<mapsto> pg) else m)"

lemma new_file_wf: "file_wf [header_init] \<and> free_list [header_init] = []"
  by (rule file_wfI) (simp_all add: header_init_fields)

lemma new_file_inv:
  assumes "file_pages s f = Some [header_init]" "int (quota s) < 2147483648"
  shows "file_inv f s \<and> used_pages f s = Map.empty"
  using assms new_file_wf by (auto simp: file_inv_def used_pages_def file_map_def fun_eq_iff)

lemma file_reach_inv: "file_reach f s m \<Longrightarrow> file_inv f s \<and> used_pages f s = m"
proof (induction rule: file_reach.induct)
  case (file_new s)
  then show ?case using new_file_inv by blast
next
  case (file_alloc s m p s' pg)
  then obtain pg' where "file_inv f s'" "used_pages f s' = m(p \<mapsto> pg')"
    using pf.alloc_Inr [of f s p s'] by auto
  with file_alloc.hyps(3) show ?case using pf.rd_used [of f s' p pg'] by simp
next
  case (file_alloc_fails s m e s')
  then show ?case using pf.alloc_Inl [of f s e s'] by auto
next
  case (file_dispose s m p st s')
  then show ?case using pf.disp_first [of f s] pf.disp_used [of f s p st s'] by (cases "p = 1") auto
next
  case (file_write s m p pg st s')
  then show ?case using pf.wr_used [of f s p pg st s'] by auto
qed

lemma file_alloc_step:
  assumes "file_reach f s m" "fst (File_allocatePage s f) = Inr p"
  obtains pg where "file_reach f (snd (File_allocatePage s f)) (m(p \<mapsto> pg))"
proof -
  have a: "File_allocatePage s f = (Inr p, snd (File_allocatePage s f))" using assms(2) by (metis surjective_pairing)
  note R = file_reach_inv [OF assms(1)]
  then obtain pg where "File_readPage (snd (File_allocatePage s f)) f p (Some zero_mem) = Inr pg"
    using pf.alloc_Inr [OF _ a] pf.rd_used [of f "snd (File_allocatePage s f)" p] by fastforce
  then show ?thesis using that file_alloc [OF assms(1) a] by blast
qed

subsection \<open>Properties\<close>

text \<open>An open file of one header page and its file system, for the witnesses.\<close>

definition demo_file :: File where
  "demo_file = \<lparr>fileName = ''r'', openCnt = 1, unixFile = Some ''r''\<rparr>"

definition demo_sys :: "memory list \<Rightarrow> sys" where
  "demo_sys ps = \<lparr>files = [''r'' \<mapsto> ps], quota = 4, objs = (\<lambda>_. demo_file), live = {8},
     heap_new = (\<lambda>L. Max L + 8)\<rparr>"

definition demo_pages :: "memory list" where
  "demo_pages = [set_numPages 3 (set_firstPage 1 header_init), zero_mem, zero_mem]"

lemma demo_reach: "file_reach demo_file (demo_sys [header_init]) Map.empty"
  by (rule file_new) (simp_all add: demo_sys_def demo_file_def file_pages_def)

lemma demo_file_pages: "file_pages (demo_sys ps) demo_file = Some ps" "quota (demo_sys ps) = 4"
  by (simp_all add: demo_sys_def demo_file_def file_pages_def)

lemma demo_pages_wf: "file_wf demo_pages \<and> free_list demo_pages = []"
  by (rule file_wfI) (simp_all add: demo_pages_def header_init_fields)

lemma demo_pages_inv: "file_inv demo_file (demo_sys demo_pages)"
  "used_pages demo_file (demo_sys demo_pages) 2 = Some zero_mem"
  using demo_pages_wf
  by (simp_all add: file_inv_def used_pages_def file_map_def demo_file_pages) (simp_all add: demo_pages_def)

text \<open>
  C12. A client that writes and disposes of pages it holds, and of no others: whatever sequence of
  allocations, disposals and page writes it has made on a file since its creation, failing ones
  included, every page it holds reads back with the contents last written to it, and the next
  page \<open>allocatePage\<close> hands out is one it does not hold.
\<close>

theorem File_refines_map:
  assumes "file_reach f s m"
  shows "(\<forall>p pg. m p = Some pg \<longrightarrow> File_readPage s f p (Some zero_mem) = Inr pg) \<and>
    (\<forall>p s'. File_allocatePage s f = (Inr p, s') \<longrightarrow> 1 \<le> p \<and> m p = None)"
proof -
  note R = file_reach_inv [OF assms]
  show ?thesis
    using R pf.rd_used [of f s] pf.alloc_Inr [of f s] by auto
qed

text \<open>Two pages are allocated, the second one is written, and disposing of the first page of the file is refused.\<close>

definition demo_two :: sys where
  "demo_two = snd (File_allocatePage (snd (File_allocatePage (demo_sys [header_init]) demo_file)) demo_file)"

lemma demo_two_reach:
  obtains pg qg where "file_reach demo_file demo_two [1 \<mapsto> pg, 2 \<mapsto> qg]"
proof -
  let ?s = "demo_sys [header_init]"
  have 1: "fst (File_allocatePage ?s demo_file) = Inr 1" by code_simp
  have 2: "fst (File_allocatePage (snd (File_allocatePage ?s demo_file)) demo_file) = Inr 2" by code_simp
  obtain pg where "file_reach demo_file (snd (File_allocatePage ?s demo_file)) [1 \<mapsto> pg]" by (rule file_alloc_step [OF demo_reach 1])
  from file_alloc_step [OF this 2] show ?thesis using that by (metis demo_two_def)
qed

theorem File_refines_map_witness:
  "\<exists>t u. File_writePage demo_two demo_file 2 (Some (zero_mem(0 := 7))) = (OK, t) \<and> File_disposePage t demo_file 1 = (BADPAGENO, u) \<and>
     File_readPage u demo_file 2 (Some zero_mem) = Inr (zero_mem(0 := 7)) \<and> (\<forall>s'. File_allocatePage u demo_file \<noteq> (Inr 2, s'))"
proof -
  obtain pg qg where r: "file_reach demo_file demo_two [1 \<mapsto> pg, 2 \<mapsto> qg]" by (rule demo_two_reach)
  obtain st t where w: "File_writePage demo_two demo_file 2 (Some (zero_mem(0 := 7))) = (st, t)" by fastforce
  have st: "st = OK" using file_reach_inv [OF r] pf.wr_used [OF _ _ w] by simp
  from file_write [OF r _ w] have rt: "file_reach demo_file t [1 \<mapsto> pg, 2 \<mapsto> zero_mem(0 := 7)]" using st by simp
  have d: "File_disposePage t demo_file 1 = (BADPAGENO, t)" using file_reach_inv [OF rt] pf.disp_first by blast
  show ?thesis using File_refines_map [OF rt] w st d by fastforce
qed

text \<open>
  \<open>allocatePage\<close> on every branch: it takes the head of the free list, or else extends the
  file by one zeroed page when the system allows it, and otherwise reports \<open>UNIXERR\<close> and
  leaves everything as it was. A failing allocation never changes the file.
\<close>

theorem File_allocatePage_correct:
  assumes "file_pages s f = Some ps" "file_wf ps" "int (quota s) < 2147483648"
    and "File_allocatePage s f = (r, s')"
  shows "r = (case free_list ps of
        p # _ \<Rightarrow> Inr p
      | [] \<Rightarrow> if length ps < quota s then Inr (int (length ps)) else Inl UNIXERR) \<and>
    (case r of
       Inr p \<Rightarrow> file_map ps p = None \<and>
         (\<exists>pg qs. file_pages s' f = Some qs \<and> file_wf qs \<and> file_map qs = (file_map ps)(p \<mapsto> pg))
     | Inl _ \<Rightarrow> s' = s)"
  using assms(4) file_pages_with [OF assms(1)]
  by (cases rule: allocate_cases [OF assms(1-3)]) auto

theorem File_allocatePage_correct_witness:
  "\<exists>s' qs. File_allocatePage (demo_sys demo_pages) demo_file = (Inr 3, s') \<and>
     file_pages s' demo_file = Some qs \<and> file_wf qs"
proof -
  obtain r s' where r: "File_allocatePage (demo_sys demo_pages) demo_file = (r, s')"
    by (cases "File_allocatePage (demo_sys demo_pages) demo_file")
  show ?thesis
    using File_allocatePage_correct [OF demo_file_pages(1) _ _ r] demo_pages_wf r
    by (auto simp: demo_file_pages(2) demo_pages_def)
qed

text \<open>
  C13. Disposing of a page in use, other than the first page of the file, succeeds: the page
  leaves the file, every other page keeps its contents, and the next allocation hands out
  exactly that page and restores the set of pages in use.
\<close>

theorem File_dispose_allocate:
  assumes "file_pages s f = Some ps" "file_wf ps" "int (quota s) < 2147483648"
    and "file_map ps p \<noteq> None" "p \<noteq> 1"
  shows "\<exists>s' s'' qs qs' pg. File_disposePage s f p = (OK, s') \<and>
    file_pages s' f = Some qs \<and> file_map qs = (file_map ps)(p := None) \<and>
    File_allocatePage s' f = (Inr p, s'') \<and>
    file_pages s'' f = Some qs' \<and> file_map qs' = (file_map ps)(p \<mapsto> pg) \<and>
    free_list qs' = free_list ps"
proof -
  let ?qs = "ps[nat p := set_nextFree (nextFree (ps ! 0)) zero_mem, 0 := set_nextFree p (ps ! 0)]"
  note D = dispose_pages [OF assms(1,2,4,5)]
  have pages: "file_pages (with_pages s f ?qs) f = Some ?qs" using assms(1) by simp
  have A: "file_wf ?qs" "free_list ?qs = p # free_list ps" using D(2) by simp_all
  note AA = allocate_from_free [OF pages A]
  show ?thesis
    using D(1,3) AA(1,2,4) pages file_pages_with [OF pages] by (metis fun_upd_upd)
qed

theorem File_dispose_allocate_witness:
  "\<exists>s' s''. File_disposePage (demo_sys demo_pages) demo_file 2 = (OK, s') \<and>
     File_allocatePage s' demo_file = (Inr 2, s'')"
  using File_dispose_allocate [OF demo_file_pages(1), of demo_pages 2] demo_pages_wf demo_pages_inv(2)
  by (auto simp: demo_file_pages used_pages_def)

text \<open>
  The page numbers \<open>disposePage\<close> refuses: everything below 1, the first user page of the
  file, and everything from the end of the file on. The answer is \<open>BADPAGENO\<close> and nothing
  changes. Reading and writing refuse the header page in the same way.
\<close>

theorem File_bad_page:
  assumes "file_inv f s" "file_pages s f = Some ps" "p \<le> 1 \<or> int (length ps) \<le> p"
  shows "File_disposePage s f p = (BADPAGENO, s) \<and>
    (p < 1 \<longrightarrow> File_readPage s f p (Some b) = Inl BADPAGENO \<and>
      File_writePage s f p (Some b) = (BADPAGENO, s))"
proof -
  have wf: "file_wf ps" using assms(1,2) by (auto simp: file_inv_def)
  show ?thesis
    using assms(3) pf.disp_first [OF assms(1)] file_wfD(1,3) [OF wf] assms(2)
    by (cases "p = 1")
      (auto simp: File_disposePage_def File_readPage_def File_writePage_def intread_pages)
qed

theorem File_bad_page_witness:
  "File_disposePage (demo_sys demo_pages) demo_file 0 = (BADPAGENO, demo_sys demo_pages) \<and>
   File_readPage (demo_sys demo_pages) demo_file 0 (Some zero_mem) = Inl BADPAGENO"
  using File_bad_page [OF demo_pages_inv(1) demo_file_pages(1), of 0 zero_mem] by simp

text \<open>
  C14. Disposing of the same page twice is not detected. The second call also reports \<open>OK\<close>,
  links the page to itself, and from then on every allocation on the file returns that one
  page: two clients of the file are given the same page.
\<close>

theorem File_double_dispose:
  assumes "file_pages s f = Some ps" "file_wf ps" "file_map ps p \<noteq> None" "p \<noteq> 1"
  shows "\<exists>s' s''. File_disposePage s f p = (OK, s') \<and> File_disposePage s' f p = (OK, s'') \<and>
    File_allocatePage s'' f = (Inr p, s'')"
proof -
  note W = file_wfD [OF assms(2)]
  from assms(3,4) have p: "1 < p" "p < int (length ps)"
    by (auto simp: file_map_def split: if_splits)
  have sw: "swrap 32 p = p" using p W(2) by simp
  let ?h = "set_nextFree p (ps ! 0)"
  define qs where "qs = ps[nat p := set_nextFree (nextFree (ps ! 0)) zero_mem, 0 := ?h]"
  define rs where "rs = qs[nat p := set_nextFree p zero_mem, 0 := set_nextFree p ?h]"
  have D: "File_disposePage s f p = (OK, with_pages s f qs)"
    unfolding qs_def by (rule dispose_pages(1) [OF assms])
  have "length qs = length ps" "qs \<noteq> []" "qs ! 0 = ?h" using W(1) by (simp_all add: qs_def)
  then have D2: "File_disposePage (with_pages s f qs) f p = (OK, with_pages s f rs)"
    using p W(3,4) assms(1)
    by (auto simp: File_disposePage_def intread_pages intwrite_pages rs_def sw split: if_splits)
  have r: "length rs = length ps" "rs \<noteq> []" "rs ! 0 = set_nextFree p ?h"
    "rs ! nat p = set_nextFree p zero_mem"
    using W(1) p by (simp_all add: rs_def qs_def)
  have id: "set_nextFree p (set_nextFree p ?h) = set_nextFree p ?h"
    by (simp add: set_nextFree_def put_int_def numeral_nat fun_eq_iff)
  have "File_allocatePage (with_pages s f rs) f =
      (Inr p, with_pages s f (rs[0 := set_nextFree p (rs ! 0)]))"
    using p r W(1) assms(1) by (simp add: File_allocatePage_def intread_pages intwrite_pages sw)
  also have "rs[0 := set_nextFree p (rs ! 0)] = rs"
    using id r(3) list_update_id [of rs 0] by simp
  finally show ?thesis using D D2 by blast
qed

theorem File_double_dispose_witness:
  "\<exists>s' s''. File_disposePage (demo_sys demo_pages) demo_file 2 = (OK, s') \<and>
     File_disposePage s' demo_file 2 = (OK, s'') \<and>
     File_allocatePage s'' demo_file = (Inr 2, s'')"
  using File_double_dispose [OF demo_file_pages(1), of demo_pages 2] demo_pages_wf demo_pages_inv(2)
  by (auto simp: demo_file_pages used_pages_def)

end
