(* ===== verification/Buf_Spec.thy ===== *)
theory Buf_Spec
  imports Buf_Clock File_Refine
begin

text \<open>
  What the buffer manager promises. \<open>logical s file p\<close> is the contents of a page as its
  clients see it: the frame when the page is buffered, the file otherwise. The invariant
  \<open>buf_ok\<close> says that the hash table lists exactly the valid frames, that every buffered page is
  in use in its file, and that a frame which may be reused without being written is equal to
  its page on disk. It rests on the contracts of the hash table (\<open>bt\<close>) and of the file layer
  (\<open>pf\<close>), not on their definitions.
\<close>

subsection \<open>Steps of one file\<close>

definition file_step :: "File \<Rightarrow> 'a sys_scheme \<Rightarrow> 'a sys_scheme \<Rightarrow> bool" where
  "file_step f s s' \<longleftrightarrow> s' = s\<lparr>files := files s'\<rparr> \<and>
     (\<forall>n. unixFile f \<noteq> Some n \<longrightarrow> files s' n = files s n)"

lemma file_step_refl: "file_step f s s"
  by (simp add: file_step_def)

lemma file_step_trans: "file_step f s s' \<Longrightarrow> file_step f s' s'' \<Longrightarrow> file_step f s s''"
  unfolding file_step_def by (metis sys.surjective sys.update_convs(1))

lemma intwrite_step: "File_intwrite s f p pg = (st, s') \<Longrightarrow> file_step f s s'"
  by (auto simp: File_intwrite_def file_step_def split: option.splits if_splits)

lemma writePage_step: "File_writePage s f p pg = (st, s') \<Longrightarrow> file_step f s s'"
  by (auto simp: File_writePage_def file_step_refl intwrite_step split: option.splits if_splits)

lemma allocatePage_step: "File_allocatePage s f = (r, s') \<Longrightarrow> file_step f s s'"
  by (auto simp: File_allocatePage_def Let_def file_step_refl
      split: sum.splits prod.splits if_splits intro: intwrite_step file_step_trans)

lemma disposePage_step: "File_disposePage s f p = (st, s') \<Longrightarrow> file_step f s s'"
  by (auto simp: File_disposePage_def file_step_refl
      split: sum.splits prod.splits if_splits intro: intwrite_step file_step_trans)

lemma file_step_fields:
  assumes "file_step f s s'"
  shows "objs s' = objs s" "live s' = live s" "quota s' = quota s" "heap_new s' = heap_new s"
    "sys.more s' = sys.more s"
proof -
  have "s' = s\<lparr>files := files s'\<rparr>" using assms by (simp add: file_step_def)
  then show "objs s' = objs s" "live s' = live s" "quota s' = quota s" "heap_new s' = heap_new s"
    "sys.more s' = sys.more s"
    by (metis sys.select_convs(2-6) sys.surjective sys.update_convs(1))+
qed

lemma file_step_bufMgr:
  assumes "file_step f s s'"
  shows "bufMgr s' = bufMgr s"
proof -
  have "s' = s\<lparr>files := files s'\<rparr>" using assms by (simp add: file_step_def)
  from arg_cong [OF this, of bufMgr] show ?thesis by simp
qed

lemma file_step_other:
  assumes "file_step f s s'" "unixFile g \<noteq> unixFile f"
  shows "file_inv g s' = file_inv g s" "used_pages g s' = used_pages g s"
proof -
  have "file_pages s' g = file_pages s g"
    using assms by (auto simp: file_pages_def file_step_def split: option.splits)
  then show "file_inv g s' = file_inv g s" "used_pages g s' = used_pages g s"
    using file_step_fields(3) [OF assms(1)] by (simp_all add: file_inv_def used_pages_def)
qed

lemma file_inv_bufMgr [simp]:
  "file_inv f (s\<lparr>bufMgr := b\<rparr>) = file_inv f s" "used_pages f (s\<lparr>bufMgr := b\<rparr>) = used_pages f s"
  by (cases "unixFile f"; simp add: file_inv_def used_pages_def file_pages_def)+

subsection \<open>The open files\<close>

abbreviation disk_page :: "'a sys_scheme \<Rightarrow> int \<Rightarrow> int \<Rightarrow> memory option" where
  "disk_page s file p \<equiv> used_pages (objs s file) s p"

definition files_ok :: "'a sys_scheme \<Rightarrow> bool" where
  "files_ok s \<longleftrightarrow> 0 \<notin> live s \<and> (\<forall>f \<in> live s. file_inv (objs s f) s) \<and>
     (\<forall>f \<in> live s. \<forall>g \<in> live s. f \<noteq> g \<longrightarrow> unixFile (objs s f) \<noteq> unixFile (objs s g))"

lemma files_ok_bufMgr [simp]: "files_ok (s\<lparr>bufMgr := b\<rparr>) = files_ok s"
  by (simp add: files_ok_def)

lemma files_ok_step:
  assumes "files_ok s" "f \<in> live s" "file_step (objs s f) s s'" "file_inv (objs s f) s'"
  shows "files_ok s'" "\<And>g p. g \<in> live s \<Longrightarrow> g \<noteq> f \<Longrightarrow> disk_page s' g p = disk_page s g p"
proof -
  note F = file_step_fields [OF assms(3)]
  have O: "unixFile (objs s g) \<noteq> unixFile (objs s f)" if "g \<in> live s" "g \<noteq> f" for g
    using assms(1,2) that by (auto simp: files_ok_def)
  show "\<And>g p. g \<in> live s \<Longrightarrow> g \<noteq> f \<Longrightarrow> disk_page s' g p = disk_page s g p"
    using file_step_other(2) [OF assms(3) O] by (simp add: F)
  have "file_inv (objs s g) s'" if "g \<in> live s" for g
    using file_step_other(1) [OF assms(3) O [OF that]] assms(1,4) that
    by (cases "g = f") (auto simp: files_ok_def)
  then show "files_ok s'" using assms(1) by (simp add: files_ok_def F)
qed

text \<open>Writing a page that is in use succeeds and changes that page only.\<close>

lemma disk_write:
  assumes "files_ok s" "f \<in> live s" "disk_page s f p \<noteq> None"
    and "File_writePage s (objs s f) p (Some pg) = (st, s')"
  shows "st = OK" "file_step (objs s f) s s'" "files_ok s'"
    "\<And>g q. g \<in> live s \<Longrightarrow> disk_page s' g q = (if (g, q) = (f, p) then Some pg else disk_page s g q)"
proof -
  note F = writePage_step [OF assms(4)]
  have inv: "file_inv (objs s f) s" using assms(1,2) by (simp add: files_ok_def)
  note W = pf.wr_used [OF inv assms(3,4)]
  show "st = OK" "file_step (objs s f) s s'" using W F by simp_all
  show "files_ok s'" using files_ok_step(1) [OF assms(1,2) F] W by blast
  show "disk_page s' g q = (if (g, q) = (f, p) then Some pg else disk_page s g q)"
    if "g \<in> live s" for g q
    using W files_ok_step(2) [OF assms(1,2) F, of g q] that
    by (cases "g = f") (simp_all add: file_step_fields [OF F])
qed

subsection \<open>The invariant\<close>

definition frame_ok :: "'a sys_scheme \<Rightarrow> BufDesc \<Rightarrow> memory \<Rightarrow> bool" where
  "frame_ok s d pg \<longleftrightarrow> 0 \<le> pinCnt d \<and>
     (if valid d then bd_file d \<in> live s \<and> disk_page s (bd_file d) (bd_pageNo d) \<noteq> None \<and>
        (\<not> dirty d \<and> pinCnt d = 0 \<longrightarrow> disk_page s (bd_file d) (bd_pageNo d) = Some pg)
      else \<not> dirty d \<and> pinCnt d = 0 \<and> bd_file d = 0)"

abbreviation key :: "BufDesc \<Rightarrow> int \<times> int" where
  "key d \<equiv> (bd_file d, bd_pageNo d)"

text \<open>\<open>X\<close> is the set of frames that are being set up for a new page.\<close>

definition frames_ok :: "'a bsys_scheme \<Rightarrow> nat set \<Rightarrow> bool" where
  "frames_ok s X \<longleftrightarrow> files_ok s \<and> pool_ok (bufMgr s) \<and> bht_inv (hashTable (bufMgr s)) \<and>
     (\<forall>k f. bht_map (hashTable (bufMgr s)) k = Some f \<longleftrightarrow>
        f < numBufs (bufMgr s) \<and> f \<notin> X \<and> valid (desc (bufMgr s) f) \<and> key (desc (bufMgr s) f) = k) \<and>
     (\<forall>i < numBufs (bufMgr s). i \<notin> X \<longrightarrow> frame_ok s (desc (bufMgr s) i) (bufPool (bufMgr s) ! i))"

abbreviation buf_ok :: "'a bsys_scheme \<Rightarrow> bool" where
  "buf_ok s \<equiv> frames_ok s {}"

definition buffered :: "'a bsys_scheme \<Rightarrow> int \<Rightarrow> int \<Rightarrow> nat option" where
  "buffered s file p = bht_map (hashTable (bufMgr s)) (file, p)"

definition logical :: "'a bsys_scheme \<Rightarrow> int \<Rightarrow> int \<Rightarrow> memory option" where
  "logical s file p =
     (case buffered s file p of Some f \<Rightarrow> Some (bufPool (bufMgr s) ! f) | None \<Rightarrow> disk_page s file p)"

text \<open>Two states show the same pages of the open files.\<close>

definition same_view :: "'a bsys_scheme \<Rightarrow> 'a bsys_scheme \<Rightarrow> bool" where
  "same_view s s' \<longleftrightarrow> objs s' = objs s \<and> live s' = live s \<and>
     (\<forall>g \<in> live s. \<forall>q. logical s' g q = logical s g q)"

lemma framesD:
  assumes "frames_ok s X"
  shows "files_ok s" "pool_ok (bufMgr s)" "bht_inv (hashTable (bufMgr s))"
    "length (bufTable (bufMgr s)) = numBufs (bufMgr s)" "length (bufPool (bufMgr s)) = numBufs (bufMgr s)"
    "\<And>i. i < numBufs (bufMgr s) \<Longrightarrow> i \<notin> X \<Longrightarrow> frame_ok s (desc (bufMgr s) i) (bufPool (bufMgr s) ! i)"
  using assms by (simp_all add: frames_ok_def pool_ok_def)

lemma frames_map:
  assumes "frames_ok s X"
  shows "bht_map (hashTable (bufMgr s)) k = Some f \<longleftrightarrow>
    f < numBufs (bufMgr s) \<and> f \<notin> X \<and> valid (desc (bufMgr s) f) \<and> key (desc (bufMgr s) f) = k"
  using assms unfolding frames_ok_def by blast

lemma frames_map_None:
  assumes "frames_ok s X"
  shows "bht_map (hashTable (bufMgr s)) k = None \<longleftrightarrow>
    (\<forall>f < numBufs (bufMgr s). f \<notin> X \<longrightarrow> valid (desc (bufMgr s) f) \<longrightarrow> key (desc (bufMgr s) f) \<noteq> k)"
  using frames_map [OF assms, of k] by (cases "bht_map (hashTable (bufMgr s)) k") auto

text \<open>Two valid frames never hold the same page.\<close>

lemma frames_key_inj:
  assumes "frames_ok s X" "i < numBufs (bufMgr s)" "i \<notin> X" "valid (desc (bufMgr s) i)"
    and "j < numBufs (bufMgr s)" "j \<notin> X" "valid (desc (bufMgr s) j)"
    and "key (desc (bufMgr s) i) = key (desc (bufMgr s) j)"
  shows "i = j"
  using frames_map [OF assms(1), of "key (desc (bufMgr s) i)"] assms(2-) by (metis option.inject)

lemma lookup_eq:
  "BufHashTbl_lookup (hashTable (bufMgr s)) file p =
    (case buffered s file p of Some f \<Rightarrow> Inr f | None \<Rightarrow> Inl HASHNOTFOUND)"
  using bt.finds_eq [of "hashTable (bufMgr s)" "(file, p)"] by (simp add: buffered_def)

end
