(* ===== verification/Buf_Ops.thy ===== *)
theory Buf_Ops
  imports Buf_Spec
begin

text \<open>
  The operations of the buffer manager keep the invariant \<open>buf_ok\<close> and the logical contents
  of every page: choosing and writing back a victim, installing a page in a frame, pinning
  and unpinning, and flushing.
\<close>

subsection \<open>Frames and pages under small changes\<close>

lemma frame_ok_bufMgr [simp]: "frame_ok (s\<lparr>bufMgr := b\<rparr>) d pg = frame_ok s d pg"
  by (simp add: frame_ok_def)

lemma frame_ok_clock:
  "clock_rel b b' \<Longrightarrow> i < length (bufTable b) \<Longrightarrow> frame_ok s (desc b' i) pg = frame_ok s (desc b i) pg"
  using clock_rel_desc [of b b' i] by (simp add: frame_ok_def)

lemma logical_bufMgr:
  "logical (s\<lparr>bufMgr := b\<rparr>) g q =
    (case bht_map (hashTable b) (g, q) of Some f \<Rightarrow> Some (bufPool b ! f) | None \<Rightarrow> disk_page s g q)"
  by (simp add: logical_def buffered_def split: option.split)

lemma hash_without_map:
  "bht_inv (hashTable b) \<Longrightarrow> bht_inv (hash_without b i) \<and>
    bht_map (hash_without b i) = (bht_map (hashTable b))(key (desc b i) := None)"
  using bt.removes_inv [of "hashTable b" "key (desc b i)"]
  by (cases "BufHashTbl_remove (hashTable b) (bd_file (desc b i)) (bd_pageNo (desc b i))")
    (simp add: hash_without_def)

text \<open>A search of the clock, which may leave a hole at the chosen frame.\<close>

lemma frames_clock:
  assumes "buf_ok s" "clock_rel (bufMgr s) b" "pool_ok b" "bht_inv (hashTable b)"
    and "\<And>k. bht_map (hashTable b) k = (case bht_map (hashTable (bufMgr s)) k of
      Some f \<Rightarrow> if f \<in> X then None else Some f | None \<Rightarrow> None)"
  shows "frames_ok (s\<lparr>bufMgr := b\<rparr>) X"
proof -
  let ?b = "bufMgr s"
  note D = framesD [OF assms(1)]
  have N: "numBufs b = numBufs ?b" "bufPool b = bufPool ?b" using assms(2) by (simp_all add: clock_rel_def)
  have R: "valid (desc b i) = valid (desc ?b i)" "key (desc b i) = key (desc ?b i)"
    "frame_ok s (desc b i) pg = frame_ok s (desc ?b i) pg" if "i < numBufs ?b" for i pg
    using that clock_rel_desc [OF assms(2), of i] frame_ok_clock [OF assms(2), of i] by (simp_all add: D(4))
  have "bht_map (hashTable b) k = Some f \<longleftrightarrow>
      f < numBufs b \<and> f \<notin> X \<and> valid (desc b f) \<and> key (desc b f) = k" for k f
    using frames_map [OF assms(1), of k f] R [of f] unfolding assms(5) N(1)
    by (auto split: option.splits)
  then show ?thesis
    using D(1,6) assms(3,4) R by (simp add: frames_ok_def N)
qed

text \<open>A step of one file that changes one page, which no frame holds.\<close>

lemma frames_file_step:
  assumes "frames_ok s X" "f \<in> live s" "file_step (objs s f) s s'" "file_inv (objs s f) s'"
    and "\<And>q. q \<noteq> p \<Longrightarrow> disk_page s' f q = disk_page s f q" "buffered s f p = None"
  shows "frames_ok s' X" "bufMgr s' = bufMgr s" "objs s' = objs s" "live s' = live s"
    "\<And>g q. g \<in> live s \<Longrightarrow> logical s' g q = (if (g, q) = (f, p) then disk_page s' f p else logical s g q)"
    "\<And>g q. g \<in> live s \<Longrightarrow> (g, q) \<noteq> (f, p) \<Longrightarrow> disk_page s' g q = disk_page s g q"
proof -
  note D = framesD [OF assms(1)] and O = files_ok_step [OF framesD(1) [OF assms(1)] assms(2-4)]
  note F = file_step_fields(1,2) [OF assms(3)] file_step_bufMgr [OF assms(3)]
  show "bufMgr s' = bufMgr s" "objs s' = objs s" "live s' = live s" by (simp_all add: F)
  show P: "disk_page s' g q = disk_page s g q" if "g \<in> live s" "(g, q) \<noteq> (f, p)" for g q
    using O(2) [OF that(1)] assms(5) [of q] that(2) by (cases "g = f") auto
  have N: "key (desc (bufMgr s) i) \<noteq> (f, p)"
    if "i < numBufs (bufMgr s)" "i \<notin> X" "valid (desc (bufMgr s) i)" for i
    using assms(6) that frames_map_None [OF assms(1), of "(f, p)"] by (auto simp: buffered_def)
  have "frame_ok s' (desc (bufMgr s) i) (bufPool (bufMgr s) ! i)"
    if "i < numBufs (bufMgr s)" "i \<notin> X" for i
    using D(6) [OF that] N [OF that] P [of "bd_file (desc (bufMgr s) i)" "bd_pageNo (desc (bufMgr s) i)"]
    by (auto simp: frame_ok_def F split: if_splits)
  then show "frames_ok s' X"
    using assms(1) O(1) F by (simp add: frames_ok_def)
  show "logical s' g q = (if (g, q) = (f, p) then disk_page s' f p else logical s g q)"
    if "g \<in> live s" for g q
    using P [OF that, of q] assms(6) by (auto simp: logical_def buffered_def F split: option.splits)
qed

lemma frames_write:
  assumes "frames_ok s X" "f \<in> live s" "disk_page s f p \<noteq> None" "buffered s f p = None"
    and "File_writePage s (objs s f) p (Some pg) = (st, s')"
  shows "st = OK" "frames_ok s' X" "bufMgr s' = bufMgr s" "objs s' = objs s" "live s' = live s"
    "\<And>g q. g \<in> live s \<Longrightarrow> logical s' g q = (if (g, q) = (f, p) then Some pg else logical s g q)"
proof -
  note W = disk_write [OF framesD(1) [OF assms(1)] assms(2,3,5)]
  have F: "file_inv (objs s f) s'" "\<And>q. q \<noteq> p \<Longrightarrow> disk_page s' f q = disk_page s f q"
    using W(3) file_step_fields(1,2) [OF W(2)] assms(2) W(4) [OF assms(2)] by (auto simp: files_ok_def)
  note S = frames_file_step [OF assms(1,2) W(2) F assms(4)]
  show "st = OK" "frames_ok s' X" "bufMgr s' = bufMgr s" "objs s' = objs s" "live s' = live s"
    using W(1) S(1-4) by simp_all
  show "\<And>g q. g \<in> live s \<Longrightarrow> logical s' g q = (if (g, q) = (f, p) then Some pg else logical s g q)"
    using S(5) W(4) [OF assms(2), of p] by simp
qed

subsection \<open>Allocating a frame\<close>

text \<open>The pool is exhausted when every frame is valid and pinned.\<close>

definition all_pinned :: "BufMgr \<Rightarrow> bool" where
  "all_pinned b \<longleftrightarrow> (\<forall>i < numBufs b. valid (desc b i) \<and> 0 < pinCnt (desc b i))"

text \<open>What the chosen frame \<open>fr\<close> and the other frames look like after \<open>allocBuf\<close>.\<close>

definition frame_freed :: "'a bsys_scheme \<Rightarrow> nat \<Rightarrow> 'a bsys_scheme \<Rightarrow> bool" where
  "frame_freed s fr s' \<longleftrightarrow> frames_ok s' {fr} \<and> fr < numBufs (bufMgr s) \<and>
     pinCnt (desc (bufMgr s) fr) = 0 \<and> same_view s s' \<and> clock_rel (bufMgr s) (bufMgr s') \<and>
     (\<forall>g q. buffered s g q = None \<longrightarrow> buffered s' g q = None)"

lemma same_view_refl: "same_view s s"
  by (simp add: same_view_def)

lemma same_view_trans: "same_view s s' \<Longrightarrow> same_view s' s'' \<Longrightarrow> same_view s s''"
  by (simp add: same_view_def)

lemma clock_rel_pinned:
  assumes "clock_rel b b'" "length (bufTable b) = numBufs b"
  shows "all_pinned b' = all_pinned b"
proof -
  have "numBufs b' = numBufs b" using assms(1) by (simp add: clock_rel_def)
  then show ?thesis
    using clock_rel_desc(3,5) [OF assms(1)] assms(2) by (simp add: all_pinned_def)
qed

lemma clock_view:
  assumes "clock_rel (bufMgr s) b" "hashTable b = hashTable (bufMgr s)"
  shows "same_view s (s\<lparr>bufMgr := b\<rparr>)"
proof -
  have "bufPool b = bufPool (bufMgr s)" using assms(1) by (simp add: clock_rel_def)
  then show ?thesis
    unfolding same_view_def logical_bufMgr assms(2)
    by (simp add: logical_def buffered_def split: option.split)
qed

text \<open>The victim of the search, before it is written back.\<close>

lemma clock_victim:
  assumes "buf_ok s" "clock_scan (bufMgr s) 0 = (b, n, found)" "found \<or> n < 2 * numBufs b"
  defines "i \<equiv> clockHand b"
  shows "frames_ok (s\<lparr>bufMgr := b\<rparr>) {i}" "i < numBufs (bufMgr s)"
    "pinCnt (desc (bufMgr s) i) = 0" "valid (desc (bufMgr s) i) = found"
    "\<And>k. bht_map (hashTable b) k =
      (if found \<and> k = key (desc (bufMgr s) i) then None else bht_map (hashTable (bufMgr s)) k)"
proof -
  let ?b = "bufMgr s"
  note D = framesD [OF assms(1)]
  note S = clock_scan_sound [OF assms(2) D(2)]
  have C: "\<not> found \<Longrightarrow> \<not> valid (desc b i)"
    using clock_scan_complete [OF assms(2) D(2) scanned_start [OF D(2)]] D(2) assms(3)
    by (auto simp: pool_ok_def i_def)
  show i: "i < numBufs ?b" using S by (auto simp: pool_ok_def clock_rel_def i_def)
  have R: "valid (desc ?b i) = valid (desc b i)" "pinCnt (desc ?b i) = pinCnt (desc b i)"
    using clock_rel_desc [of ?b b i] S i D(4) by auto
  show v: "valid (desc ?b i) = found" using C S R by (auto simp: i_def split: if_splits)
  show "pinCnt (desc ?b i) = 0"
    using D(6) [OF i] v R S by (cases found) (auto simp: frame_ok_def i_def)
  show M: "bht_map (hashTable b) k =
      (if found \<and> k = key (desc ?b i) then None else bht_map (hashTable ?b) k)" for k
    using S hash_without_map [OF D(3), of i] by (cases found) (simp_all add: i_def)
  have H: "bht_inv (hashTable b)"
    using S hash_without_map [OF D(3), of i] D(3) by (cases found) (simp_all add: i_def)
  have "bht_map (hashTable b) k = (case bht_map (hashTable ?b) k of
      Some f \<Rightarrow> if f \<in> {i} then None else Some f | None \<Rightarrow> None)" for k
  proof (cases "bht_map (hashTable ?b) k")
    case (Some f)
    have "valid (desc ?b f)" "key (desc ?b f) = k"
      using Some frames_map [OF assms(1), of k f] by simp_all
    moreover have "found \<Longrightarrow> bht_map (hashTable ?b) (key (desc ?b i)) = Some i"
      using frames_map [OF assms(1), of "key (desc ?b i)" i] v i by simp
    ultimately show ?thesis using M [of k] Some v by (cases "f = i") auto
  qed (simp add: M)
  then show "frames_ok (s\<lparr>bufMgr := b\<rparr>) {i}"
    using frames_clock [OF assms(1) _ _ H] S by blast
qed

lemma allocBuf_exceeded:
  assumes "buf_ok s" "clock_scan (bufMgr s) 0 = (b, n, False)" "2 * numBufs b \<le> n"
  shows "BufMgr_allocBuf s = (Inl BUFFEREXCEEDED, s\<lparr>bufMgr := b\<rparr>)"
    "all_pinned (bufMgr s)" "buf_ok (s\<lparr>bufMgr := b\<rparr>)" "same_view s (s\<lparr>bufMgr := b\<rparr>)"
    "clock_rel (bufMgr s) b"
proof -
  note D = framesD [OF assms(1)]
  have hash: "hashTable b = hashTable (bufMgr s)" and R: "clock_rel (bufMgr s) b" "pool_ok b"
    using clock_scan_sound [OF assms(2) D(2)] by simp_all
  show "BufMgr_allocBuf s = (Inl BUFFEREXCEEDED, s\<lparr>bufMgr := b\<rparr>)"
    using assms(2,3) by (simp add: BufMgr_allocBuf_def)
  show "clock_rel (bufMgr s) b" "same_view s (s\<lparr>bufMgr := b\<rparr>)"
    using R(1) clock_view [OF R(1) hash] by simp_all
  show ok: "buf_ok (s\<lparr>bufMgr := b\<rparr>)"
    by (rule frames_clock [OF assms(1) R]) (simp_all add: hash D(3) split: option.split)
  have "\<forall>i < numBufs b. valid (desc b i) \<and> pinCnt (desc b i) \<noteq> 0"
    using clock_scan_complete [OF assms(2) D(2) scanned_start [OF D(2)]] D(2) assms(3)
    by (auto simp: pool_ok_def)
  then have "all_pinned b"
    using framesD(6) [OF ok] by (fastforce simp: all_pinned_def frame_ok_def)
  then show "all_pinned (bufMgr s)" using clock_rel_pinned [OF R(1) D(4)] by simp
qed

text \<open>The view after the search: the victim's page is read from disk again.\<close>

lemma victim_view:
  assumes "buf_ok s" "clock_scan (bufMgr s) 0 = (b, n, found)" "found \<or> n < 2 * numBufs b"
  defines "d \<equiv> desc (bufMgr s) (clockHand b)"
  shows "buffered (s\<lparr>bufMgr := b\<rparr>) g q = (if found \<and> (g, q) = key d then None else buffered s g q)"
    "logical (s\<lparr>bufMgr := b\<rparr>) g q =
      (if found \<and> (g, q) = key d then disk_page s g q else logical s g q)"
    "found \<Longrightarrow> logical s (bd_file d) (bd_pageNo d) = Some (bufPool (bufMgr s) ! clockHand b)"
proof -
  note V = clock_victim [OF assms(1-3)]
  have pool: "bufPool b = bufPool (bufMgr s)"
    using clock_scan_sound [OF assms(2) framesD(2) [OF assms(1)]] by (simp add: clock_rel_def)
  show B: "buffered (s\<lparr>bufMgr := b\<rparr>) g q = (if found \<and> (g, q) = key d then None else buffered s g q)"
    using V(5) [of "(g, q)"] by (simp add: buffered_def d_def)
  show "logical (s\<lparr>bufMgr := b\<rparr>) g q =
      (if found \<and> (g, q) = key d then disk_page s g q else logical s g q)"
    unfolding logical_def B by (simp add: pool split: option.split)
  show "found \<Longrightarrow> logical s (bd_file d) (bd_pageNo d) = Some (bufPool (bufMgr s) ! clockHand b)"
    using frames_map [OF assms(1), of "key d" "clockHand b"] V(2,4)
    by (simp add: logical_def buffered_def d_def)
qed

lemma allocBuf_clean:
  assumes "buf_ok s" "clock_scan (bufMgr s) 0 = (b, n, found)" "found \<or> n < 2 * numBufs b"
    and "\<not> dirty (desc (bufMgr s) (clockHand b))"
  shows "BufMgr_allocBuf s = (Inr (clockHand b), s\<lparr>bufMgr := b\<rparr>)"
    "frame_freed s (clockHand b) (s\<lparr>bufMgr := b\<rparr>)"
proof -
  note D = framesD [OF assms(1)] and V = clock_victim [OF assms(1-3)]
    and L = victim_view [OF assms(1-3)]
  have R: "clock_rel (bufMgr s) b" using clock_scan_sound [OF assms(2) D(2)] by simp
  show "BufMgr_allocBuf s = (Inr (clockHand b), s\<lparr>bufMgr := b\<rparr>)"
    using assms(2-4) clock_rel_desc(4) [OF R V(2) [folded D(4)]]
    by (auto simp: BufMgr_allocBuf_def Let_def)
  have "same_view s (s\<lparr>bufMgr := b\<rparr>)"
    using L(2,3) assms(4) D(6) [OF V(2)] V(3,4) by (auto simp: same_view_def frame_ok_def)
  then show "frame_freed s (clockHand b) (s\<lparr>bufMgr := b\<rparr>)"
    using V R L(1) by (simp add: frame_freed_def)
qed

lemma allocBuf_dirty:
  assumes "buf_ok s" "clock_scan (bufMgr s) 0 = (b, n, found)" "found \<or> n < 2 * numBufs b"
    and "dirty (desc (bufMgr s) (clockHand b))"
  shows "\<exists>u. BufMgr_allocBuf s = (Inr (clockHand b), u) \<and> frame_freed s (clockHand b) u"
proof -
  let ?b = "bufMgr s" and ?i = "clockHand b"
  let ?d = "desc ?b ?i" and ?u = "s\<lparr>bufMgr := upd_stats (diskwrites_update (\<lambda>w. w + 1)) b\<rparr>"
  note D = framesD [OF assms(1)] and V = clock_victim [OF assms(1-3)]
    and L = victim_view [OF assms(1-3)]
  have R: "clock_rel ?b b" using clock_scan_sound [OF assms(2) D(2)] by simp
  note Rd = clock_rel_desc [OF R V(2) [folded D(4)]]
  have fo: "frame_ok s ?d (bufPool ?b ! ?i)" using D(6) [OF V(2)] by simp
  then have found using assms(4) V(4) by (auto simp: frame_ok_def)
  obtain st u where W: "File_writePage ?u (objs s (bd_file ?d)) (bd_pageNo ?d)
      (Some (bufPool ?b ! ?i)) = (st, u)" by fastforce
  have f: "bd_file ?d \<in> live s" "disk_page s (bd_file ?d) (bd_pageNo ?d) \<noteq> None"
    using fo V(4) \<open>found\<close> by (auto simp: frame_ok_def)
  have u: "frames_ok ?u {?i}"
    using V(1) by (simp add: frames_ok_def buf_simps pool_ok_def)
  have Lu: "logical ?u g q = logical (s\<lparr>bufMgr := b\<rparr>) g q"
    "buffered ?u g q = buffered (s\<lparr>bufMgr := b\<rparr>) g q" for g q
    by (simp_all add: logical_bufMgr buffered_def buf_simps split: option.split)
  note FW = frames_write [OF u, of "bd_file ?d" "bd_pageNo ?d" "bufPool ?b ! ?i" st u]
  have FW: "st = OK" "frames_ok u {?i}" "bufMgr u = bufMgr ?u" "objs u = objs s" "live u = live s"
    "\<And>g q. g \<in> live s \<Longrightarrow> logical u g q = logical s g q"
    using FW f W L \<open>found\<close> by (auto simp: Lu)
  have "BufMgr_allocBuf s = (Inr ?i, u)"
    using assms(2-4) Rd W FW(1) R by (auto simp: BufMgr_allocBuf_def Let_def clock_rel_def)
  moreover have "frame_freed s ?i u"
    using V FW R L(1) by (auto simp: frame_freed_def same_view_def clock_rel_def buf_simps buffered_def)
  ultimately show ?thesis by blast
qed

lemma allocBuf_spec:
  assumes "buf_ok s" "BufMgr_allocBuf s = (r, s')"
  shows "case r of
      Inl e \<Rightarrow> e = BUFFEREXCEEDED \<and> all_pinned (bufMgr s) \<and> buf_ok s' \<and> same_view s s' \<and>
        clock_rel (bufMgr s) (bufMgr s')
    | Inr fr \<Rightarrow> frame_freed s fr s'"
proof -
  obtain b n found where scan: "clock_scan (bufMgr s) 0 = (b, n, found)" by (metis prod_cases3)
  consider "\<not> found" "2 * numBufs b \<le> n"
    | "found \<or> n < 2 * numBufs b" "\<not> dirty (desc (bufMgr s) (clockHand b))"
    | "found \<or> n < 2 * numBufs b" "dirty (desc (bufMgr s) (clockHand b))"
    by linarith
  then show ?thesis
  proof cases
    case 1
    then show ?thesis using allocBuf_exceeded [OF assms(1), of b n] scan assms(2) by simp
  next
    case 2
    then show ?thesis using allocBuf_clean [OF assms(1) scan] assms(2) by simp
  next
    case 3
    then show ?thesis using allocBuf_dirty [OF assms(1) scan] assms(2) by auto
  qed
qed

subsection \<open>Installing a page in a frame\<close>

text \<open>A page that a client holds: it sits in a frame and is pinned.\<close>

definition holds :: "'a bsys_scheme \<Rightarrow> int \<Rightarrow> int \<Rightarrow> nat \<Rightarrow> bool" where
  "holds s file p fr \<longleftrightarrow> buffered s file p = Some fr \<and> 0 < pinCnt (desc (bufMgr s) fr)"

definition pins_kept :: "'a bsys_scheme \<Rightarrow> 'a bsys_scheme \<Rightarrow> bool" where
  "pins_kept s s' \<longleftrightarrow> (\<forall>g q fr. holds s g q fr \<longrightarrow> holds s' g q fr)"

lemma install_spec:
  assumes "frames_ok s {fr}" "fr < numBufs (bufMgr s)" "file \<in> live s"
    and "disk_page s file p \<noteq> None" "buffered s file p = None" "install s file p fr = (r, s')"
  shows "r = Inr fr" "buf_ok s'" "holds s' file p fr" "objs s' = objs s" "live s' = live s"
    "bufPool (bufMgr s') = bufPool (bufMgr s)" "pins_kept s s'"
    "\<And>g q. g \<in> live s \<Longrightarrow> logical s' g q =
      (if (g, q) = (file, p) then Some (bufPool (bufMgr s) ! fr) else logical s g q)"
proof -
  let ?b = "bufMgr s"
  note D = framesD [OF assms(1)]
  obtain st h where I: "BufHashTbl_insert (hashTable ?b) file p fr = (st, h)" by fastforce
  have H: "st = OK" "bht_inv h" "bht_map h = (bht_map (hashTable ?b))((file, p) \<mapsto> fr)"
    using bt.inserts_new [OF D(3), of "(file, p)" fr st h] I assms(5) by (simp_all add: buffered_def)
  define b where "b = (upd_desc fr (BufDesc_Set file p) ?b)\<lparr>hashTable := h\<rparr>"
  have b: "bufTable b = (bufTable ?b)[fr := BufDesc_Set file p (desc ?b fr)]" "bufPool b = bufPool ?b"
    "hashTable b = h" "numBufs b = numBufs ?b" "clockHand b = clockHand ?b"
    by (simp_all add: b_def buf_simps)
  have s': "r = Inr fr" "s' = s\<lparr>bufMgr := b\<rparr>"
    using assms(6) H(1) I by (auto simp: install_def b_def Let_def buf_simps)
  show "r = Inr fr" "objs s' = objs s" "live s' = live s" "bufPool (bufMgr s') = bufPool ?b"
    by (simp_all add: s' b)
  have d: "desc b i = (if i = fr then BufDesc_Set file p (desc ?b fr) else desc ?b i)" for i
    using assms(2) D(4) by (simp add: b nth_list_update)
  have none: "bht_map (hashTable ?b) (file, p) = None" using assms(5) by (simp add: buffered_def)
  have "bht_map h k = Some f \<longleftrightarrow> f < numBufs b \<and> valid (desc b f) \<and> key (desc b f) = k" for k f
    using frames_map [OF assms(1), of k f] none assms(2)
    by (cases "f = fr"; cases "k = (file, p)") (auto simp: H(3) d b(2-5) BufDesc_Set_def)
  moreover have "frame_ok s (desc b i) (bufPool b ! i)" if "i < numBufs b" for i
    using D(6) [of i] that assms(3,4) by (auto simp: d b(2-5) BufDesc_Set_def frame_ok_def)
  ultimately show "buf_ok s'"
    using D(1,2,5) H(2) by (simp add: s' frames_ok_def b pool_ok_def)
  have B: "buffered s' g q = (if (g, q) = (file, p) then Some fr else buffered s g q)" for g q
    by (simp add: buffered_def s' b H(3))
  show "holds s' file p fr" by (simp add: holds_def B) (simp add: s' d BufDesc_Set_def)
  show "pins_kept s s'"
    using frames_map [OF assms(1)] assms(5)
    by (auto simp: pins_kept_def holds_def B) (auto simp: s' d buffered_def)
  show "logical s' g q = (if (g, q) = (file, p) then Some (bufPool ?b ! fr) else logical s g q)"
    if "g \<in> live s" for g q
    unfolding logical_def B by (simp add: s' b split: option.split)
qed

subsection \<open>Changing one frame in place\<close>

lemma frames_upd:
  assumes "buf_ok s" "i < numBufs (bufMgr s)"
    and "b = (bufMgr s)\<lparr>bufTable := (bufTable (bufMgr s))[i := d], bufPool := (bufPool (bufMgr s))[i := pg]\<rparr>"
    and "valid d = valid (desc (bufMgr s) i)" "key d = key (desc (bufMgr s) i)" "frame_ok s d pg"
  shows "buf_ok (s\<lparr>bufMgr := b\<rparr>)" "buffered (s\<lparr>bufMgr := b\<rparr>) = buffered s"
    "desc b j = (if j = i then d else desc (bufMgr s) j)"
    "valid d \<Longrightarrow> logical (s\<lparr>bufMgr := b\<rparr>) g q = (if (g, q) = key d then Some pg else logical s g q)"
proof -
  note D = framesD [OF assms(1)]
  show dj: "desc b j = (if j = i then d else desc (bufMgr s) j)" for j
    using assms(2) D(4) by (simp add: assms(3) nth_list_update)
  have pj: "bufPool b ! j = (if j = i then pg else bufPool (bufMgr s) ! j)" for j
    using assms(2) D(5) by (simp add: assms(3) nth_list_update)
  have b: "numBufs b = numBufs (bufMgr s)" "hashTable b = hashTable (bufMgr s)"
    "clockHand b = clockHand (bufMgr s)" by (simp_all add: assms(3))
  have "bht_map (hashTable (bufMgr s)) k = Some f \<longleftrightarrow>
      f < numBufs (bufMgr s) \<and> valid (desc b f) \<and> key (desc b f) = k" for k f
    using frames_map [OF assms(1), of k f] assms(4,5) by (simp add: dj)
  moreover have "frame_ok s (desc b j) (bufPool b ! j)" if "j < numBufs (bufMgr s)" for j
    using D(6) [OF that] assms(6) by (simp add: dj pj)
  moreover have "pool_ok b" using D(2) by (simp add: assms(3) pool_ok_def)
  ultimately show "buf_ok (s\<lparr>bufMgr := b\<rparr>)"
    using D(1,3) by (simp add: frames_ok_def b)
  show B: "buffered (s\<lparr>bufMgr := b\<rparr>) = buffered s" by (simp add: buffered_def fun_eq_iff b)
  have K: "buffered s g q = Some i \<longleftrightarrow> valid d \<and> (g, q) = key d"
    using frames_map [OF assms(1), of "(g, q)" i] assms(2,4,5) by (auto simp: buffered_def)
  then show "valid d \<Longrightarrow> logical (s\<lparr>bufMgr := b\<rparr>) g q = (if (g, q) = key d then Some pg else logical s g q)"
    unfolding logical_def B by (auto simp: pj split: option.split)
qed

end
