(* ===== verification/Buf_Refine.thy ===== *)
theory Buf_Refine
  imports Buf_Ops
begin

text \<open>
  The operations of the buffer manager against the logical contents of the open files, and
  the refinement theorem: under every sequence of operations, with pages changed only through
  pinned frames and reported dirty when they were changed, the pool is invisible. Clients see
  a plain map from (file, page) to contents.
\<close>

subsection \<open>Reading and pinning\<close>

lemma pins_kept_trans: "pins_kept s s' \<Longrightarrow> pins_kept s' s'' \<Longrightarrow> pins_kept s s''"
  by (simp add: pins_kept_def)

lemma holds_frame:
  assumes "buf_ok s" "buffered s file p = Some fr"
  shows "fr < numBufs (bufMgr s)" "valid (desc (bufMgr s) fr)" "key (desc (bufMgr s) fr) = (file, p)"
    "frame_ok s (desc (bufMgr s) fr) (bufPool (bufMgr s) ! fr)"
proof -
  show *: "fr < numBufs (bufMgr s)" "valid (desc (bufMgr s) fr)" "key (desc (bufMgr s) fr) = (file, p)"
    using frames_map [OF assms(1), of "(file, p)" fr] assms(2) by (simp_all add: buffered_def)
  show "frame_ok s (desc (bufMgr s) fr) (bufPool (bufMgr s) ! fr)" using framesD(6) [OF assms(1) *(1)] by simp
qed

lemma upd_desc_frames:
  assumes "buf_ok s" "i < numBufs (bufMgr s)"
    and "valid (g (desc (bufMgr s) i)) = valid (desc (bufMgr s) i)"
    and "key (g (desc (bufMgr s) i)) = key (desc (bufMgr s) i)"
    and "frame_ok s (g (desc (bufMgr s) i)) (bufPool (bufMgr s) ! i)"
  defines "t \<equiv> s\<lparr>bufMgr := upd_desc i g (bufMgr s)\<rparr>"
  shows "buf_ok t" "same_view s t" "buffered t = buffered s"
    "desc (bufMgr t) j = (if j = i then g (desc (bufMgr s) i) else desc (bufMgr s) j)"
proof -
  have b: "upd_desc i g (bufMgr s) = (bufMgr s)\<lparr>bufTable := (bufTable (bufMgr s))[i := g (desc (bufMgr s) i)],
      bufPool := (bufPool (bufMgr s))[i := bufPool (bufMgr s) ! i]\<rparr>"
    by (simp add: upd_desc_def)
  note U = frames_upd [OF assms(1,2) b assms(3-5)]
  show "buf_ok t" "buffered t = buffered s" unfolding t_def by (rule U)+
  show "desc (bufMgr t) j = (if j = i then g (desc (bufMgr s) i) else desc (bufMgr s) j)"
    using U(3) by (simp add: t_def)
  have "bufPool (upd_desc i g (bufMgr s)) = bufPool (bufMgr s)" by (simp add: buf_simps)
  then show "same_view s t"
    unfolding same_view_def logical_def U(2) [folded t_def] by (simp add: t_def split: option.split)
qed

lemma clock_keeps:
  assumes "buf_ok s" "clock_rel (bufMgr s) (bufMgr s')" "frames_ok s' X"
    and "\<And>i. i \<in> X \<Longrightarrow> pinCnt (desc (bufMgr s) i) = 0"
  shows "pins_kept s s'"
  unfolding pins_kept_def
proof (intro allI impI)
  fix g q f
  assume h: "holds s g q f"
  then have f: "buffered s g q = Some f" "f \<notin> X" using assms(4) by (auto simp: holds_def)
  note H = holds_frame [OF assms(1) f(1)]
  have "f < length (bufTable (bufMgr s))" using H(1) framesD(4) [OF assms(1)] by simp
  note R = clock_rel_desc [OF assms(2) this]
  have "numBufs (bufMgr s') = numBufs (bufMgr s)" using assms(2) by (simp add: clock_rel_def)
  then have "buffered s' g q = Some f"
    using frames_map [OF assms(3), of "(g, q)" f] H R f(2) by (simp add: buffered_def)
  then show "holds s' g q f" using h R by (simp add: holds_def)
qed

lemma frame_freed_keeps: "buf_ok s \<Longrightarrow> frame_freed s fr s' \<Longrightarrow> pins_kept s s'"
  by (rule clock_keeps [of _ _ "{fr}"]) (simp_all add: frame_freed_def)

text \<open>The outcome of \<open>readPage\<close> for a page that is in use.\<close>

definition read_result :: "'a bsys_scheme \<Rightarrow> int \<Rightarrow> int \<Rightarrow> memory \<Rightarrow> Status + nat \<Rightarrow> 'a bsys_scheme \<Rightarrow> bool" where
  "read_result s file p pg r s' \<longleftrightarrow> buf_ok s' \<and> same_view s s' \<and> pins_kept s s' \<and>
     (case r of
        Inr fr \<Rightarrow> holds s' file p fr \<and> bufPool (bufMgr s') ! fr = pg
      | Inl e \<Rightarrow> e = BUFFEREXCEEDED \<and> buffered s file p = None \<and> all_pinned (bufMgr s))"

lemma readPage_hit:
  assumes "buf_ok s" "buffered s file p = Some fr" "logical s file p = Some pg"
    and "BufMgr_readPage s file p = (r, s')"
  shows "read_result s file p pg r s'"
proof -
  let ?g = "\<lambda>d. d\<lparr>refbit := True, pinCnt := pinCnt d + 1\<rparr>"
  note H = holds_frame [OF assms(1,2)]
  have r: "r = Inr fr" "s' = s\<lparr>bufMgr := upd_desc fr ?g (bufMgr s)\<rparr>"
    using assms(2,4) by (simp_all add: BufMgr_readPage_def lookup_eq)
  have "frame_ok s (?g (desc (bufMgr s) fr)) (bufPool (bufMgr s) ! fr)"
    using H(4) by (auto simp: frame_ok_def H(2))
  then have U: "buf_ok s'" "same_view s s'" "buffered s' = buffered s"
    "\<And>j. desc (bufMgr s') j = (if j = fr then ?g (desc (bufMgr s) fr) else desc (bufMgr s) j)"
    unfolding r(2) using upd_desc_frames [OF assms(1) H(1), of ?g] by simp_all
  have "0 \<le> pinCnt (desc (bufMgr s) fr)" using H(4) by (simp add: frame_ok_def)
  moreover have "bufPool (bufMgr s) ! fr = pg" using assms(2,3) by (simp add: logical_def)
  ultimately show ?thesis
    using U(1,2) assms(2) by (auto simp: read_result_def r(1) holds_def pins_kept_def U(3,4))
      (simp add: r(2) buf_simps)
qed

text \<open>The page is read into a frame that no page owns: nothing else notices.\<close>

lemma frames_hole:
  fixes pg :: memory and h :: "BufStats \<Rightarrow> BufStats"
  assumes "frames_ok t {fr}" "fr < numBufs (bufMgr t)"
  defines "u \<equiv> t\<lparr>bufMgr := set_frame fr pg (upd_stats h (bufMgr t))\<rparr>"
  shows "frames_ok u {fr}" "buffered u = buffered t" "bufPool (bufMgr u) ! fr = pg"
    "logical u g q = logical t g q" "holds u = holds t"
proof -
  note D = framesD [OF assms(1)]
  have b: "bufTable (bufMgr u) = bufTable (bufMgr t)" "hashTable (bufMgr u) = hashTable (bufMgr t)"
    "numBufs (bufMgr u) = numBufs (bufMgr t)" "clockHand (bufMgr u) = clockHand (bufMgr t)"
    "bufPool (bufMgr u) = (bufPool (bufMgr t))[fr := pg]"
    by (simp_all add: u_def buf_simps)
  have f: "files_ok u" "\<And>d x. frame_ok u d x = frame_ok t d x" "\<And>g q. disk_page u g q = disk_page t g q"
    using D(1) by (simp_all add: u_def)
  show "frames_ok u {fr}"
    using assms(1) f(1) unfolding frames_ok_def b f(2) pool_ok_def by (auto simp: nth_list_update)
  show B: "buffered u = buffered t" by (simp add: buffered_def fun_eq_iff b)
  show "bufPool (bufMgr u) ! fr = pg" using assms(2) D(5) by (simp add: b)
  show "holds u = holds t" by (simp add: holds_def fun_eq_iff B b)
  have "buffered t g q \<noteq> Some fr"
    using frames_map [OF assms(1), of "(g, q)" fr] by (simp add: buffered_def)
  then show "logical u g q = logical t g q"
    unfolding logical_def B f(3) b by (auto split: option.split)
qed

lemma readPage_miss:
  assumes "buf_ok s" "buffered s file p = None" "logical s file p = Some pg" "file \<in> live s"
    and "BufMgr_readPage s file p = (r, s')"
  shows "read_result s file p pg r s'"
proof -
  obtain ra t where A: "BufMgr_allocBuf s = (ra, t)" by fastforce
  note S = allocBuf_spec [OF assms(1) A]
  show ?thesis
  proof (cases ra)
    case (Inl e)
    then have "r = Inl e" "s' = t" using assms(2,5) A by (simp_all add: BufMgr_readPage_def lookup_eq)
    moreover have "pins_kept s t"
      using S Inl by (intro clock_keeps [OF assms(1), of _ "{}"]) simp_all
    ultimately show ?thesis using S Inl assms(2) by (simp add: read_result_def)
  next
    case (Inr fr)
    with S have ff: "frame_freed s fr t" by simp
    then have T: "frames_ok t {fr}" "same_view s t" "fr < numBufs (bufMgr t)" "buffered t file p = None"
      using assms(2) by (simp_all add: frame_freed_def clock_rel_def)
    then have lv: "live t = live s" "objs t = objs s" and pt: "logical t file p = Some pg"
      using assms(3,4) by (simp_all add: same_view_def)
    then have disk: "disk_page t file p = Some pg" using T(4) by (simp add: logical_def)
    have fi: "file_inv (objs t file) t" using framesD(1) [OF T(1)] assms(4) lv by (simp add: files_ok_def)
    let ?b = "upd_stats (diskreads_update (\<lambda>r. r + 1)) (bufMgr t)"
    let ?u = "t\<lparr>bufMgr := set_frame fr pg ?b\<rparr>"
    have rd: "File_readPage (t\<lparr>bufMgr := ?b\<rparr>) (objs t file) p (Some x) = Inr pg" for x
      using pf.rd_used [of "objs t file" "t\<lparr>bufMgr := ?b\<rparr>" p pg] fi disk
      by (simp add: File_readPage_def)
    have I: "install ?u file p fr = (r, s')"
      using assms(2,5) A Inr rd by (simp add: BufMgr_readPage_def lookup_eq Let_def)
    note u = frames_hole [OF T(1,3), where pg = pg and h = "diskreads_update (\<lambda>r. r + 1)"]
    have "pins_kept s ?u"
      using frame_freed_keeps [OF assms(1) ff] by (simp add: pins_kept_def u(5))
    moreover have "r = Inr fr \<and> buf_ok s' \<and> holds s' file p fr \<and>
        objs s' = objs t \<and> live s' = live t \<and> bufPool (bufMgr s') ! fr = pg \<and> pins_kept ?u s' \<and>
        (\<forall>g \<in> live t. \<forall>q. logical s' g q = (if (g, q) = (file, p) then Some pg else logical t g q))"
      using install_spec [OF u(1) _ _ _ _ I] T(3,4) u(2-4) disk lv assms(4) by simp
    ultimately show ?thesis
      using T(2) lv pt pins_kept_trans by (auto simp: read_result_def same_view_def)
  qed
qed

lemma readPage_spec:
  assumes "buf_ok s" "file \<in> live s" "logical s file p = Some pg" "BufMgr_readPage s file p = (r, s')"
  shows "read_result s file p pg r s'"
  using readPage_hit [OF assms(1) _ assms(3,4)] readPage_miss [OF assms(1) _ assms(3,2,4)]
  by (cases "buffered s file p") auto

subsection \<open>Unpinning, and writing through a pinned frame\<close>

lemma unPinPage_spec:
  assumes "buf_ok s" "BufMgr_unPinPage s file p dt = (st, s')"
    and "\<And>fr. buffered s file p = Some fr \<Longrightarrow>
      dt \<or> dirty (desc (bufMgr s) fr) \<or> 1 < pinCnt (desc (bufMgr s) fr) \<or>
      disk_page s file p = logical s file p"
  shows "buf_ok s'" "same_view s s'" "buffered s' = buffered s"
    "st = (case buffered s file p of None \<Rightarrow> HASHNOTFOUND
           | Some fr \<Rightarrow> if pinCnt (desc (bufMgr s) fr) = 0 then PAGENOTPINNED else OK)"
proof -
  have "buf_ok s' \<and> same_view s s' \<and> buffered s' = buffered s \<and>
    st = (case buffered s file p of None \<Rightarrow> HASHNOTFOUND
          | Some fr \<Rightarrow> if pinCnt (desc (bufMgr s) fr) = 0 then PAGENOTPINNED else OK)"
  proof (cases "buffered s file p")
    case None
    then show ?thesis using assms(1,2) by (auto simp: BufMgr_unPinPage_def lookup_eq same_view_refl)
  next
    case (Some fr)
    let ?d = "desc (bufMgr s) fr"
    let ?g = "\<lambda>d. d\<lparr>dirty := dirty d \<or> dt, pinCnt := if pinCnt d = 0 then 0 else pinCnt d - 1\<rparr>"
    note H = holds_frame [OF assms(1) Some]
    have R: "pinCnt_update (\<lambda>n. n - 1) x = x\<lparr>pinCnt := pinCnt x - 1\<rparr>"
      "x\<lparr>dirty := dirty x\<rparr> = x" "pinCnt x = 0 \<Longrightarrow> x\<lparr>pinCnt := 0\<rparr> = x" for x :: BufDesc
      by (cases x; simp)+
    have st: "st = (if pinCnt ?d = 0 then PAGENOTPINNED else OK)"
      "s' = s\<lparr>bufMgr := upd_desc fr ?g (bufMgr s)\<rparr>"
      using assms(2) Some H(1) framesD(4) [OF assms(1)]
      by (auto simp: BufMgr_unPinPage_def lookup_eq Let_def upd_desc_def R split: if_splits)
    have "logical s file p = Some (bufPool (bufMgr s) ! fr)" using Some by (simp add: logical_def)
    then have "frame_ok s (?g ?d) (bufPool (bufMgr s) ! fr)"
      using H assms(3) [OF Some] by (auto simp: frame_ok_def)
    then show ?thesis
      using upd_desc_frames [OF assms(1) H(1), of ?g] st Some by simp
  qed
  then show "buf_ok s'" "same_view s s'" "buffered s' = buffered s"
    "st = (case buffered s file p of None \<Rightarrow> HASHNOTFOUND
           | Some fr \<Rightarrow> if pinCnt (desc (bufMgr s) fr) = 0 then PAGENOTPINNED else OK)"
    by simp_all
qed

lemma write_frame_spec:
  fixes pg :: memory
  assumes "buf_ok s" "holds s file p fr"
  defines "t \<equiv> s\<lparr>bufMgr := set_frame fr pg (bufMgr s)\<rparr>"
  shows "buf_ok t" "objs t = objs s" "live t = live s" "buffered t = buffered s"
    "logical t g q = (if (g, q) = (file, p) then Some pg else logical s g q)"
proof -
  have B: "buffered s file p = Some fr" using assms(2) by (simp add: holds_def)
  note H = holds_frame [OF assms(1) B]
  have b: "set_frame fr pg (bufMgr s) = (bufMgr s)\<lparr>bufTable := (bufTable (bufMgr s))[fr := desc (bufMgr s) fr],
      bufPool := (bufPool (bufMgr s))[fr := pg]\<rparr>"
    by (simp add: set_frame_def)
  have "frame_ok s (desc (bufMgr s) fr) pg"
    using H(4) assms(2) by (auto simp: frame_ok_def holds_def)
  note U = frames_upd [OF assms(1) H(1) b refl refl this]
  show "buf_ok t" "objs t = objs s" "live t = live s" "buffered t = buffered s"
    using U(1,2) by (simp_all add: t_def)
  show "logical t g q = (if (g, q) = (file, p) then Some pg else logical s g q)"
    using U(4) [OF H(2), of g q] H(3) by (simp add: t_def)
qed

subsection \<open>Giving frames back\<close>

lemma frames_drop:
  assumes "buf_ok s" "buffered s file p = Some i" "bht_inv h"
    and "bht_map h = (bht_map (hashTable (bufMgr s)))((file, p) := None)"
    and "b = (bufMgr s)\<lparr>bufTable := (bufTable (bufMgr s))[i := d], hashTable := h\<rparr>"
    and "\<not> valid d" "\<not> dirty d" "pinCnt d = 0" "bd_file d = 0"
  shows "buf_ok (s\<lparr>bufMgr := b\<rparr>)"
    "buffered (s\<lparr>bufMgr := b\<rparr>) g q = (if (g, q) = (file, p) then None else buffered s g q)"
    "desc b j = (if j = i then d else desc (bufMgr s) j)"
    "logical (s\<lparr>bufMgr := b\<rparr>) g q = (if (g, q) = (file, p) then disk_page s file p else logical s g q)"
proof -
  note D = framesD [OF assms(1)] and H = holds_frame [OF assms(1,2)]
  show dj: "desc b j = (if j = i then d else desc (bufMgr s) j)" for j
    using H(1) D(4) by (simp add: assms(5) nth_list_update)
  have b: "numBufs b = numBufs (bufMgr s)" "hashTable b = h" "clockHand b = clockHand (bufMgr s)"
    "bufPool b = bufPool (bufMgr s)" by (simp_all add: assms(5))
  have "bht_map h k = Some f \<longleftrightarrow> f < numBufs (bufMgr s) \<and> valid (desc b f) \<and> key (desc b f) = k" for k f
    using frames_map [OF assms(1), of k f] assms(2,6) H
    by (cases "k = (file, p)") (auto simp: assms(4) dj buffered_def)
  moreover have "frame_ok s (desc b j) (bufPool b ! j)" if "j < numBufs (bufMgr s)" for j
    using D(6) [OF that] assms(6-9) by (auto simp: dj b frame_ok_def)
  moreover have "pool_ok b" using D(2) by (simp add: assms(5) pool_ok_def)
  ultimately show "buf_ok (s\<lparr>bufMgr := b\<rparr>)" using D(1) assms(3) by (simp add: frames_ok_def b)
  show B: "buffered (s\<lparr>bufMgr := b\<rparr>) g q = (if (g, q) = (file, p) then None else buffered s g q)"
    by (simp add: buffered_def b assms(4))
  show "logical (s\<lparr>bufMgr := b\<rparr>) g q =
      (if (g, q) = (file, p) then disk_page s file p else logical s g q)"
    unfolding logical_def B by (simp add: b split: option.split)
qed

text \<open>Writing a frame to its own page, as a flush does before it drops the frame.\<close>

lemma frames_sync:
  assumes "buf_ok s" "buffered s f p = Some i"
    and "File_writePage s (objs s f) p (Some (bufPool (bufMgr s) ! i)) = (st, s')"
  shows "st = OK" "buf_ok s'" "same_view s s'" "bufMgr s' = bufMgr s"
    "disk_page s' f p = Some (bufPool (bufMgr s) ! i)"
proof -
  note D = framesD [OF assms(1)] and H = holds_frame [OF assms(1,2)]
  have f: "f \<in> live s" "disk_page s f p \<noteq> None" using H(2-4) by (auto simp: frame_ok_def)
  note W = disk_write [OF D(1) f assms(3)]
  note F = file_step_fields(1,2) [OF W(2)] file_step_bufMgr [OF W(2)]
  show "st = OK" "bufMgr s' = bufMgr s" "disk_page s' f p = Some (bufPool (bufMgr s) ! i)"
    using W(1) F W(4) [OF f(1), of p] by simp_all
  have K: "j = i" if "j < numBufs (bufMgr s)" "valid (desc (bufMgr s) j)" "key (desc (bufMgr s) j) = (f, p)" for j
    using frames_key_inj [OF assms(1)] H that by simp
  have "frame_ok s' (desc (bufMgr s) j) (bufPool (bufMgr s) ! j)" if "j < numBufs (bufMgr s)" for j
    using D(6) [OF that] K [OF that] W(4) [of "bd_file (desc (bufMgr s) j)" "bd_pageNo (desc (bufMgr s) j)"]
    by (auto simp: frame_ok_def F split: if_splits)
  then show "buf_ok s'" using assms(1) W(3) F by (simp add: frames_ok_def)
  have "buffered s' = buffered s" by (simp add: buffered_def fun_eq_iff F)
  then show "same_view s s'"
    using W(4) assms(2) by (auto simp: same_view_def logical_def F split: option.split)
qed

end
