(* ===== verification/Buf_Props.thy ===== *)
theory Buf_Props
  imports Buf_Refine
begin

text \<open>
  Flushing, allocating and disposing of pages through the buffer manager, runs of buffer
  operations, and the properties of the buffer manager.
\<close>

subsection \<open>Flushing a file\<close>

lemma drop_frame_spec:
  assumes "buf_ok s" "buffered s file p = Some i" "pinCnt (desc (bufMgr s) i) = 0"
    and "disk_page s file p = Some (bufPool (bufMgr s) ! i)"
  defines "g \<equiv> (\<lambda>d. d\<lparr>dirty := False\<rparr>)"
  defines "t \<equiv> s\<lparr>bufMgr := drop_frame file i (upd_desc i g (bufMgr s))\<rparr>"
  shows "buf_ok t" "same_view s t" "\<not> valid (desc (bufMgr t) i)"
    "\<And>j. j \<noteq> i \<Longrightarrow> desc (bufMgr t) j = desc (bufMgr s) j" "numBufs (bufMgr t) = numBufs (bufMgr s)"
proof -
  note D = framesD [OF assms(1)] and H = holds_frame [OF assms(1,2)]
  let ?b = "bufMgr s" and ?h = "hash_without (bufMgr s) i"
  let ?d = "(desc ?b i)\<lparr>dirty := False, bd_file := 0, bd_pageNo := - 1, valid := False\<rparr>"
  have h: "bht_inv ?h" "bht_map ?h = (bht_map (hashTable ?b))((file, p) := None)"
    using hash_without_map [OF D(3), of i] H(3) by simp_all
  have b: "drop_frame file i (upd_desc i g ?b) = ?b\<lparr>bufTable := (bufTable ?b)[i := ?d], hashTable := ?h\<rparr>"
    using H(1,3) D(4) by (simp add: drop_frame_def upd_desc_def hash_without_def g_def)
  note F = frames_drop [OF assms(1,2) h b]
  show "buf_ok t" "\<And>j. j \<noteq> i \<Longrightarrow> desc (bufMgr t) j = desc ?b j" "\<not> valid (desc (bufMgr t) i)"
    "numBufs (bufMgr t) = numBufs ?b"
    using F(1,3) assms(3) by (simp_all add: t_def b)
  have "logical t g q = logical s g q" for g q
    using F(4) [of g q] assms(2-4) by (auto simp: t_def logical_def [of s])
  then show "same_view s t" by (simp add: same_view_def t_def)
qed

lemma flush_frame_spec:
  assumes "buf_ok s" "i < numBufs (bufMgr s)" "valid (desc (bufMgr s) i)"
    and "bd_file (desc (bufMgr s) i) = file" "pinCnt (desc (bufMgr s) i) = 0"
    and "flush_frame s file i = (st, t)"
  shows "st = OK" "buf_ok t" "same_view s t" "\<not> valid (desc (bufMgr t) i)"
    "\<And>j. j \<noteq> i \<Longrightarrow> desc (bufMgr t) j = desc (bufMgr s) j" "numBufs (bufMgr t) = numBufs (bufMgr s)"
proof -
  let ?b = "bufMgr s" and ?p = "bd_pageNo (desc (bufMgr s) i)"
  have B: "buffered s file ?p = Some i"
    using frames_map [OF assms(1), of "(file, ?p)" i] assms(2-4) by (simp add: buffered_def)
  have fo: "frame_ok s (desc ?b i) (bufPool ?b ! i)" using framesD(6) [OF assms(1,2)] by simp
  have "st = OK \<and> buf_ok t \<and> same_view s t \<and> \<not> valid (desc (bufMgr t) i) \<and>
      (\<forall>j. j \<noteq> i \<longrightarrow> desc (bufMgr t) j = desc ?b j) \<and> numBufs (bufMgr t) = numBufs ?b"
  proof (cases "dirty (desc ?b i)")
    case True
    obtain st' u where W: "File_writePage s (objs s file) ?p (Some (bufPool ?b ! i)) = (st', u)"
      by fastforce
    note Y = frames_sync [OF assms(1) B W]
    have Bu: "buffered u file ?p = Some i" using B Y(4) by (simp add: buffered_def)
    have "flush_frame s file i = (OK, u\<lparr>bufMgr := drop_frame file i (upd_desc i (\<lambda>d. d\<lparr>dirty := False\<rparr>) (bufMgr u))\<rparr>)"
      using True W Y(1,4) assms(4) by (simp add: flush_frame_def Let_def)
    then show ?thesis
      using drop_frame_spec [OF Y(2) Bu] Y assms(5,6) same_view_trans by auto
  next
    case False
    have "(desc ?b i)\<lparr>dirty := False\<rparr> = desc ?b i" using False by (cases "desc ?b i") simp
    then have "upd_desc i (\<lambda>d. d\<lparr>dirty := False\<rparr>) ?b = ?b" by (simp add: upd_desc_def)
    then have "flush_frame s file i = (OK, s\<lparr>bufMgr := drop_frame file i (upd_desc i (\<lambda>d. d\<lparr>dirty := False\<rparr>) ?b)\<rparr>)"
      using False by (simp add: flush_frame_def)
    moreover have "disk_page s file ?p = Some (bufPool ?b ! i)"
      using fo False assms(3-5) by (simp add: frame_ok_def)
    ultimately show ?thesis
      using drop_frame_spec [OF assms(1) B assms(5)] assms(6) by auto
  qed
  then show "st = OK" "buf_ok t" "same_view s t" "\<not> valid (desc (bufMgr t) i)"
    "\<And>j. j \<noteq> i \<Longrightarrow> desc (bufMgr t) j = desc ?b j" "numBufs (bufMgr t) = numBufs ?b"
    by simp_all
qed

definition file_pinned :: "BufMgr \<Rightarrow> int \<Rightarrow> nat list \<Rightarrow> bool" where
  "file_pinned b file is \<longleftrightarrow>
     (\<exists>i \<in> set is. valid (desc b i) \<and> bd_file (desc b i) = file \<and> 0 < pinCnt (desc b i))"

lemma flush_loop_spec:
  "buf_ok s \<Longrightarrow> file \<in> live s \<Longrightarrow> set is \<subseteq> {..<numBufs (bufMgr s)} \<Longrightarrow> distinct is \<Longrightarrow>
    flush_loop s file is = (st, t) \<Longrightarrow>
    buf_ok t \<and> same_view s t \<and> (\<forall>j. j \<notin> set is \<longrightarrow> desc (bufMgr t) j = desc (bufMgr s) j) \<and>
    numBufs (bufMgr t) = numBufs (bufMgr s) \<and>
    st = (if file_pinned (bufMgr s) file is then PAGEPINNED else OK) \<and>
    (st = OK \<longrightarrow> (\<forall>i \<in> set is. \<not> (valid (desc (bufMgr t) i) \<and> bd_file (desc (bufMgr t) i) = file)))"
proof (induction "is" arbitrary: s)
  case Nil
  then show ?case by (simp add: same_view_refl file_pinned_def)
next
  case (Cons i js)
  let ?d = "desc (bufMgr s) i"
  have i: "i < numBufs (bufMgr s)" "i \<notin> set js" using Cons.prems(3,4) by simp_all
  have fo: "frame_ok s ?d (bufPool (bufMgr s) ! i)" using framesD(6) [OF Cons.prems(1) i(1)] by simp
  have f0: "file \<noteq> 0" using framesD(1) [OF Cons.prems(1)] Cons.prems(2) by (auto simp: files_ok_def)
  consider "valid ?d" "bd_file ?d = file" "0 < pinCnt ?d" | "valid ?d" "bd_file ?d = file" "pinCnt ?d = 0"
    | "\<not> (valid ?d \<and> bd_file ?d = file)" "\<not> (\<not> valid ?d \<and> bd_file ?d = file)"
    using fo f0 by (fastforce simp: frame_ok_def split: if_splits)
  then show ?case
  proof cases
    case 1
    then show ?thesis using Cons.prems by (auto simp: same_view_refl file_pinned_def Let_def)
  next
    case 2
    obtain st' u where F: "flush_frame s file i = (st', u)" by fastforce
    note S = flush_frame_spec [OF Cons.prems(1) i(1) 2 F]
    have "flush_loop u file js = (st, t)" using Cons.prems(5) 2 F S(1) by (simp add: Let_def)
    moreover have "file \<in> live u" using S(3) Cons.prems(2) by (simp add: same_view_def)
    moreover have "file_pinned (bufMgr s) file (i # js) = file_pinned (bufMgr u) file js"
    proof -
      have "\<forall>j \<in> set js. desc (bufMgr u) j = desc (bufMgr s) j" using S(5) i(2) by metis
      then show ?thesis using 2 by (simp add: file_pinned_def)
    qed
    ultimately show ?thesis
      using Cons.IH [OF S(2)] Cons.prems(3,4) S i(2) same_view_trans [OF S(3)] by auto
  next
    case 3
    then have "flush_loop s file js = (st, t)" using Cons.prems(5) by (auto simp: Let_def)
    moreover have "file_pinned (bufMgr s) file (i # js) = file_pinned (bufMgr s) file js"
      using 3 by (auto simp: file_pinned_def)
    ultimately show ?thesis
      using Cons.IH [OF Cons.prems(1,2)] Cons.prems(3,4) 3 i(2) by auto
  qed
qed

lemma flushFile_spec:
  assumes "buf_ok s" "file \<in> live s" "BufMgr_flushFile s file = (st, t)"
  shows "buf_ok t" "same_view s t"
    "st = (if \<exists>p fr. holds s file p fr then PAGEPINNED else OK)"
    "st = OK \<Longrightarrow> buffered t file p = None" "st = OK \<Longrightarrow> disk_page t file p = logical s file p"
proof -
  let ?is = "[0..<numBufs (bufMgr s)]"
  have "set ?is \<subseteq> {..<numBufs (bufMgr s)}" by auto
  note L = flush_loop_spec [OF assms(1,2) this distinct_upt assms(3) [unfolded BufMgr_flushFile_def]]
  have F: "buf_ok t" "same_view s t" "numBufs (bufMgr t) = numBufs (bufMgr s)"
    "st = (if file_pinned (bufMgr s) file ?is then PAGEPINNED else OK)"
    "st = OK \<longrightarrow> (\<forall>i \<in> set ?is. \<not> (valid (desc (bufMgr t) i) \<and> bd_file (desc (bufMgr t) i) = file))"
    using L by blast+
  show "buf_ok t" "same_view s t" by (rule F)+
  have "file_pinned (bufMgr s) file ?is \<longleftrightarrow> (\<exists>p fr. holds s file p fr)"
    using frames_map [OF assms(1)] by (auto simp: file_pinned_def holds_def buffered_def)
  then show "st = (if \<exists>p fr. holds s file p fr then PAGEPINNED else OK)" using F(4) by simp
  show B: "st = OK \<Longrightarrow> buffered t file p = None"
    using F(3,5) frames_map_None [OF F(1), of "(file, p)"] by (auto simp: buffered_def)
  have "logical t file p = logical s file p" using F(2) assms(2) by (simp add: same_view_def)
  then show "st = OK \<Longrightarrow> disk_page t file p = logical s file p"
    using B by (simp add: logical_def [of t])
qed

subsection \<open>Allocating and disposing of pages\<close>

lemma buffered_in_use:
  assumes "buf_ok s" "buffered s file p = Some fr"
  shows "file \<in> live s" "disk_page s file p \<noteq> None"
  using holds_frame [OF assms] by (auto simp: frame_ok_def)

lemma allocPage_spec:
  assumes "buf_ok s" "file \<in> live s" "BufMgr_allocPage s file = (r, s')"
  shows "buf_ok s' \<and> objs s' = objs s \<and> live s' = live s \<and> pins_kept s s' \<and>
    (case r of
       Inr (p, fr) \<Rightarrow> 1 \<le> p \<and> logical s file p = None \<and> holds s' file p fr \<and> fr < numBufs (bufMgr s) \<and>
         (\<forall>g \<in> live s. \<forall>q. (g, q) \<noteq> (file, p) \<longrightarrow> logical s' g q = logical s g q)
     | Inl e \<Rightarrow> (e = BUFFEREXCEEDED \<or> same_view s s') \<and>
         (\<forall>g \<in> live s. \<forall>q. logical s g q \<noteq> None \<longrightarrow> logical s' g q = logical s g q))"
proof -
  have fi: "file_inv (objs s file) s" using framesD(1) [OF assms(1)] assms(2) by (simp add: files_ok_def)
  obtain ra t where A: "File_allocatePage s (objs s file) = (ra, t)" by fastforce
  show ?thesis
  proof (cases ra)
    case (Inl e)
    then have "t = s" using pf.alloc_Inl [OF fi] A by blast
    then show ?thesis
      using assms(1,3) A Inl by (auto simp: BufMgr_allocPage_def same_view_refl pins_kept_def)
  next
    case (Inr p)
    obtain pg where P: "file_inv (objs s file) t" "1 \<le> p" "disk_page s file p = None"
      "used_pages (objs s file) t = (used_pages (objs s file) s)(p \<mapsto> pg)"
      using pf.alloc_Inr [OF fi, of p t] A Inr by auto
    note st = allocatePage_step [OF A]
    have none: "buffered s file p = None" 
      using P(3) by (cases "buffered s file p") (auto dest!: buffered_in_use(2) [OF assms(1)])
    have "q \<noteq> p \<Longrightarrow> disk_page t file q = disk_page s file q" for q
      using P(4) file_step_fields(1) [OF st] by simp
    note F = frames_file_step [OF assms(1,2) st P(1) this none]
    have nt: "buffered t file p = None" "holds t = holds s" "disk_page t file p \<noteq> None"
      using none P(4) by (simp_all add: buffered_def holds_def fun_eq_iff F(2,3))
    have ls: "logical s file p = None" using none P(3) by (simp add: logical_def)
    obtain rb u where B: "BufMgr_allocBuf t = (rb, u)" by fastforce
    note S = allocBuf_spec [OF F(1) B]
    show ?thesis
    proof (cases rb)
      case (Inl e)
      then have "pins_kept t u" using S by (intro clock_keeps [OF F(1), of _ "{}"]) simp_all
      then show ?thesis
        using assms(3) A Inr B Inl S F(3-5) nt(2) ls
        by (auto simp: BufMgr_allocPage_def same_view_def pins_kept_def)
    next
      case fr: (Inr fr)
      with S have ff: "frame_freed t fr u" by simp
      then have U: "frames_ok u {fr}" "same_view t u" "fr < numBufs (bufMgr u)" "buffered u file p = None"
        using nt(1) by (simp_all add: frame_freed_def clock_rel_def)
      then have lu: "live u = live s" "objs u = objs s" "logical u file p = logical t file p"
        using F(3,4) assms(2) by (simp_all add: same_view_def)
      then have du: "disk_page u file p \<noteq> None" using U(4) nt by (simp add: logical_def)
      obtain rc w where I: "install u file p fr = (rc, w)" by fastforce
      note IS = install_spec [OF U(1,3) _ du U(4) I]
      have "pins_kept s w"
        using frame_freed_keeps [OF F(1) ff] IS(7) lu assms(2) nt(2) by (simp add: pins_kept_def)
      then show ?thesis
        using assms(2,3) A Inr B fr I IS lu F U(2) ff ls P(2)
        by (auto simp: BufMgr_allocPage_def same_view_def frame_freed_def)
    qed
  qed
qed

lemma disposePage_spec:
  assumes "buf_ok s" "file \<in> live s" "logical s file p \<noteq> None" "p \<noteq> 1"
    and "BufMgr_disposePage s file p = (st, s')"
  shows "st = OK" "buf_ok s'" "objs s' = objs s" "live s' = live s"
    "\<And>g q. g \<in> live s \<Longrightarrow> logical s' g q = (if (g, q) = (file, p) then None else logical s g q)"
proof -
  note D = framesD [OF assms(1)]
  let ?b = "case buffered s file p of Some fr \<Rightarrow> upd_desc fr BufDesc_Clear (bufMgr s) | None \<Rightarrow> bufMgr s"
  define h where "h = snd (BufHashTbl_remove (hashTable (bufMgr s)) file p)"
  define b where "b = ?b\<lparr>hashTable := h\<rparr>"
  let ?t = "s\<lparr>bufMgr := b\<rparr>"
  have h: "bht_inv h" "bht_map h = (bht_map (hashTable (bufMgr s)))((file, p) := None)"
    using bt.removes_inv [OF D(3), of "(file, p)" _ h]
    by (cases "BufHashTbl_remove (hashTable (bufMgr s)) file p"; simp add: h_def)+
  have T: "buf_ok ?t \<and> buffered ?t file p = None \<and>
      (\<forall>g q. logical ?t g q = (if (g, q) = (file, p) then disk_page s file p else logical s g q))"
  proof (cases "buffered s file p")
    case None
    then have b: "bht_map h = bht_map (hashTable (bufMgr s))" "b = (bufMgr s)\<lparr>hashTable := h\<rparr>"
      using h(2) by (auto simp: buffered_def fun_upd_idem b_def)
    have "logical ?t g q = logical s g q" for g q
      by (simp add: logical_bufMgr b logical_def [of s] buffered_def split: option.split)
    moreover have "logical s file p = disk_page s file p" using None by (simp add: logical_def)
    moreover have "buf_ok ?t" using assms(1) h(1) by (simp add: frames_ok_def pool_ok_def b)
    ultimately show ?thesis using None by (simp add: buffered_def b)
  next
    case (Some fr)
    have b: "b = (bufMgr s)\<lparr>bufTable := (bufTable (bufMgr s))[fr := BufDesc_Clear (desc (bufMgr s) fr)],
        hashTable := h\<rparr>"
      using Some by (simp add: b_def upd_desc_def)
    note FD = frames_drop [OF assms(1) Some h b]
    show ?thesis using FD(1,2,4) by (simp add: BufDesc_Clear_def)
  qed
  have E: "File_disposePage ?t (objs s file) p = (st, s')"
    using assms(5) by (simp add: BufMgr_disposePage_def lookup_eq Let_def b_def h_def
        upd_desc_def split: option.splits)
  have du: "disk_page s file p \<noteq> None"
    using assms(3) by (auto simp: logical_def split: option.splits dest!: buffered_in_use(2) [OF assms(1)])
  have fi: "file_inv (objs s file) ?t" using D(1) assms(2) by (simp add: files_ok_def)
  have P: "st = OK" "file_inv (objs s file) s'"
    "used_pages (objs s file) s' = (used_pages (objs s file) s)(p := None)"
    using pf.disp_used [OF fi _ assms(4) E] du by simp_all
  have stp: "file_step (objs ?t file) ?t s'" using disposePage_step [OF E] by simp
  have "q \<noteq> p \<Longrightarrow> disk_page s' file q = disk_page ?t file q" for q
    using P(3) file_step_fields(1) [OF stp] by simp
  moreover have "file \<in> live ?t" "file_inv (objs ?t file) s'" "buf_ok ?t" "buffered ?t file p = None"
    using assms(2) P(2) T by simp_all
  ultimately have F: "buf_ok s'" "objs s' = objs ?t" "live s' = live ?t" "\<And>g q. g \<in> live ?t \<Longrightarrow>
      logical s' g q = (if (g, q) = (file, p) then disk_page s' file p else logical ?t g q)"
    using frames_file_step [of ?t "{}" "file" s' p] stp by blast+
  show "st = OK" "buf_ok s'" "objs s' = objs s" "live s' = live s" using P(1) F(1-3) by simp_all
  then show "logical s' g q = (if (g, q) = (file, p) then None else logical s g q)" if "g \<in> live s" for g q
    using F(4) [of g q] P(3) T that by simp
qed

lemma BufMgr_init_ok:
  assumes "files_ok s" "0 < n" "bufMgr s = BufMgr_init n"
  shows "buf_ok s" "logical s = disk_page s"
proof -
  have b: "numBufs (bufMgr s) = n" "pool_ok (bufMgr s)" "bht_inv (hashTable (bufMgr s))"
    "bht_map (hashTable (bufMgr s)) = Map.empty"
    using assms(2) by (simp_all add: assms(3) BufMgr_init_def Let_def pool_ok_def bht_init)
  have d: "\<not> valid (desc (bufMgr s) i) \<and> frame_ok s (desc (bufMgr s) i) pg" if "i < n" for i pg
    using that by (simp add: assms(3) BufMgr_init_def Let_def frame_ok_def)
  show "buf_ok s" using assms(1) b d by (auto simp: frames_ok_def)
  show "logical s = disk_page s" using b by (simp add: logical_def buffered_def fun_eq_iff)
qed

subsection \<open>Runs of buffer operations\<close>

text \<open>
  A pool after construction and the operations of its clients, with the contents they expect
  of every page. The clients keep to four rules, which the code does not check: they read pages
  that are in use, write through frames they have pinned, pass \<open>dirty = true\<close> to \<open>unPinPage\<close> unless
  the page still equals the disk, was already reported dirty, or is pinned by someone else too,
  and dispose of pages in use other than the first page of a file. Within these rules every
  operation may succeed or fail; after a failed allocation the file may have one page more, with
  whatever contents it has on disk.
\<close>

inductive buf_reach :: "'a bsys_scheme \<Rightarrow> (int \<times> int \<Rightarrow> memory option) \<Rightarrow> bool" where
  br_init: "files_ok s \<Longrightarrow> 0 < n \<Longrightarrow> bufMgr s = BufMgr_init n \<Longrightarrow>
    buf_reach s (\<lambda>(f, p). disk_page s f p)"
| br_read: "buf_reach s m \<Longrightarrow> file \<in> live s \<Longrightarrow> m (file, p) \<noteq> None \<Longrightarrow>
    BufMgr_readPage s file p = (r, s') \<Longrightarrow> buf_reach s' m"
| br_write: "buf_reach s m \<Longrightarrow> holds s file p fr \<Longrightarrow>
    buf_reach (s\<lparr>bufMgr := set_frame fr pg (bufMgr s)\<rparr>) (m((file, p) \<mapsto> pg))"
| br_unpin: "buf_reach s m \<Longrightarrow> BufMgr_unPinPage s file p dt = (st, s') \<Longrightarrow>
    (\<And>fr. buffered s file p = Some fr \<Longrightarrow>
      dt \<or> dirty (desc (bufMgr s) fr) \<or> 1 < pinCnt (desc (bufMgr s) fr) \<or>
      disk_page s file p = logical s file p) \<Longrightarrow> buf_reach s' m"
| br_alloc: "buf_reach s m \<Longrightarrow> file \<in> live s \<Longrightarrow> BufMgr_allocPage s file = (Inr (p, fr), s') \<Longrightarrow>
    buf_reach s' (m((file, p) \<mapsto> bufPool (bufMgr s') ! fr))"
| br_alloc_fails: "buf_reach s m \<Longrightarrow> file \<in> live s \<Longrightarrow> BufMgr_allocPage s file = (Inl e, s') \<Longrightarrow>
    buf_reach s' (\<lambda>(f, p). case m (f, p) of Some pg \<Rightarrow> Some pg | None \<Rightarrow> logical s' f p)"
| br_dispose: "buf_reach s m \<Longrightarrow> file \<in> live s \<Longrightarrow> m (file, p) \<noteq> None \<Longrightarrow> p \<noteq> 1 \<Longrightarrow>
    BufMgr_disposePage s file p = (st, s') \<Longrightarrow> buf_reach s' (m((file, p) := None))"
| br_flush: "buf_reach s m \<Longrightarrow> file \<in> live s \<Longrightarrow> BufMgr_flushFile s file = (st, s') \<Longrightarrow>
    buf_reach s' m"

definition represents :: "'a bsys_scheme \<Rightarrow> (int \<times> int \<Rightarrow> memory option) \<Rightarrow> bool" where
  "represents s m \<longleftrightarrow> buf_ok s \<and> (\<forall>f \<in> live s. \<forall>p. logical s f p = m (f, p))"

lemma represents_view: "represents s m \<Longrightarrow> buf_ok s' \<Longrightarrow> same_view s s' \<Longrightarrow> represents s' m"
  by (simp add: represents_def same_view_def)

lemma buf_reach_represents: "buf_reach s m \<Longrightarrow> represents s m"
proof (induction rule: buf_reach.induct)
  case (br_init s n)
  then show ?case using BufMgr_init_ok [of s n] by (simp add: represents_def)
next
  case (br_read s m fl p r s')
  then obtain pg where "read_result s fl p pg r s'"
    using readPage_spec [of s fl p _ r s'] by (auto simp: represents_def)
  then show ?case using br_read.IH by (auto simp: read_result_def intro: represents_view)
next
  case (br_write s m fl p fr pg)
  then show ?case using write_frame_spec [of s fl p fr] by (simp add: represents_def)
next
  case (br_unpin s m fl p dt st s')
  then have "buf_ok s" by (simp add: represents_def)
  then show ?case
    using unPinPage_spec(1,2) [OF _ br_unpin.hyps(2,3)] br_unpin.IH represents_view by blast
next
  case (br_alloc s m fl p fr s')
  then have "buf_ok s" by (simp add: represents_def)
  note A = allocPage_spec [OF this br_alloc.hyps(2,3)]
  have "logical s' fl p = Some (bufPool (bufMgr s') ! fr)"
    using A by (simp add: logical_def holds_def)
  then show ?case using A br_alloc.IH by (auto simp: represents_def)
next
  case (br_alloc_fails s m fl e s')
  then have "buf_ok s" "\<forall>f \<in> live s. \<forall>p. logical s f p = m (f, p)" by (simp_all add: represents_def)
  then show ?case
    using allocPage_spec [OF _ br_alloc_fails.hyps(2,3)] by (auto simp: represents_def split: option.splits)
next
  case (br_dispose s m fl p st s')
  then show ?case
    using disposePage_spec [of s fl p st s'] by (auto simp: represents_def)
next
  case (br_flush s m fl st s')
  then have "buf_ok s" by (simp add: represents_def)
  then show ?case
    using flushFile_spec(1,2) [OF _ br_flush.hyps(2,3)] br_flush.IH represents_view by blast
qed

text \<open>A read that fails after a victim was chosen.\<close>

lemma install_total:
  assumes "bht_inv (hashTable (bufMgr s))" "buffered s fl p = None"
  shows "\<exists>s'. install s fl p fr = (Inr fr, s')"
  using bt.inserts_new [OF assms(1), of "(fl, p)" fr] assms(2)
  by (cases "BufHashTbl_insert (hashTable (bufMgr s)) fl p fr")
    (auto simp: install_def Let_def buf_simps buffered_def)

lemma readPage_failed:
  assumes "buf_ok s" "BufMgr_readPage s fl p = (Inl e, s')" "e \<noteq> BUFFEREXCEEDED"
  obtains fr t where "frame_freed s fr t"
    "s' = t\<lparr>bufMgr := upd_stats (diskreads_update (\<lambda>r. r + 1)) (bufMgr t)\<rparr>"
proof -
  have B: "buffered s fl p = None"
    using assms(2) by (cases "buffered s fl p") (simp_all add: BufMgr_readPage_def lookup_eq)
  obtain ra t where A: "BufMgr_allocBuf s = (ra, t)" by fastforce
  note S = allocBuf_spec [OF assms(1) A]
  obtain fr where fr: "ra = Inr fr" using S assms(2,3) A B
    by (cases ra) (simp_all add: BufMgr_readPage_def lookup_eq)
  with S have ff: "frame_freed s fr t" by simp
  let ?b = "upd_stats (diskreads_update (\<lambda>r. r + 1)) (bufMgr t)"
  have "bht_inv (hashTable (bufMgr t))" "buffered t fl p = None"
    using ff B by (simp_all add: frame_freed_def frames_ok_def)
  then have I: "fst (install (t\<lparr>bufMgr := set_frame fr pg ?b\<rparr>) fl p fr) = Inr fr" for pg
    using install_total [of "t\<lparr>bufMgr := set_frame fr pg ?b\<rparr>" fl p fr]
    by (auto simp: buffered_def buf_simps)
  have "s' = t\<lparr>bufMgr := ?b\<rparr>"
    using assms(2) A B fr I
    by (auto simp: BufMgr_readPage_def lookup_eq Let_def split: sum.splits) (metis fst_conv sum.distinct(1))
  then show ?thesis using ff that by blast
qed

subsection \<open>Properties\<close>

text \<open>A pool of one frame over an open file of two user pages, for the witnesses.\<close>

definition demo_bsys :: bsys where
  "demo_bsys = \<lparr>files = [''r'' \<mapsto> demo_pages], quota = 4, objs = (\<lambda>_. demo_file), live = {8},
     heap_new = (\<lambda>L. Max L + 8), bufMgr = BufMgr_init 1\<rparr>"

definition demo_page1 :: bsys where
  "demo_page1 = snd (BufMgr_unPinPage (snd (BufMgr_readPage demo_bsys 8 1)) 8 1 True)"

lemma demo_bsys_files: "files_ok demo_bsys" "live demo_bsys = {8}"
  "disk_page demo_bsys 8 1 = Some zero_mem" "disk_page demo_bsys 8 2 = Some zero_mem"
proof -
  have p: "file_pages demo_bsys demo_file = Some demo_pages"
    by (simp add: file_pages_def demo_bsys_def demo_file_def)
  show "live demo_bsys = {8}" by (simp add: demo_bsys_def)
  show "files_ok demo_bsys"
    using p demo_pages_wf by (simp add: files_ok_def file_inv_def) (simp add: demo_bsys_def)
  have "used_pages demo_file demo_bsys = file_map demo_pages" by (simp add: used_pages_def p)
  then show "disk_page demo_bsys 8 1 = Some zero_mem" "disk_page demo_bsys 8 2 = Some zero_mem"
    using demo_pages_wf by (simp_all add: demo_bsys_def file_map_def) (simp_all add: demo_pages_def)
qed

lemma demo_bsys_reach: "buf_reach demo_bsys (\<lambda>(f, p). disk_page demo_bsys f p)"
  by (rule br_init [where n = 1]) (simp_all add: demo_bsys_files, simp add: demo_bsys_def)

lemma demo_page1_reach: "buf_reach demo_page1 (\<lambda>(f, p). disk_page demo_bsys f p)"
  unfolding demo_page1_def
  by (rule br_unpin [OF br_read [OF demo_bsys_reach, of 8 1, OF _ _ surjective_pairing [of "BufMgr_readPage demo_bsys 8 1"]]
        surjective_pairing]) (simp_all add: demo_bsys_files)

lemma demo_page1_ok: "buf_ok demo_page1" "live demo_page1 = {8}"
  "logical demo_page1 8 1 = Some zero_mem" "logical demo_page1 8 2 = Some zero_mem"
proof -
  note R = buf_reach_represents [OF demo_page1_reach]
  show l: "live demo_page1 = {8}" by code_simp
  show "buf_ok demo_page1" using R by (simp add: represents_def)
  show "logical demo_page1 8 1 = Some zero_mem" "logical demo_page1 8 2 = Some zero_mem"
    using R l by (simp_all add: represents_def demo_bsys_files)
qed

text \<open>
  C7. The buffer pool is transparent to clients that keep to the rules of \<open>buf_reach\<close>. After any
  sequence of reads of pages in use, writes through pinned frames, unpins that report changed
  pages as dirty, allocations, disposals of pages other than the first, and flushes, with
  evictions in between, \<open>readPage\<close> of a page in use pins a frame that holds exactly the contents
  last written to that page. It fails in one case only, with \<open>BUFFEREXCEEDED\<close>, when every frame is
  pinned. Pages that clients hold stay in their frames, and no page of an open file changes.
\<close>

theorem BufMgr_transparent:
  assumes "buf_reach s m" "file \<in> live s" "m (file, p) = Some pg"
    and "BufMgr_readPage s file p = (r, s')"
  shows "(case r of
      Inr fr \<Rightarrow> holds s' file p fr \<and> bufPool (bufMgr s') ! fr = pg
    | Inl e \<Rightarrow> e = BUFFEREXCEEDED \<and> all_pinned (bufMgr s)) \<and>
    pins_kept s s' \<and> (\<forall>f \<in> live s'. \<forall>q. logical s' f q = m (f, q))"
proof -
  note R = buf_reach_represents [OF assms(1)]
  then have "read_result s file p pg r s'"
    using readPage_spec [OF _ assms(2) _ assms(4)] assms(2,3) by (simp add: represents_def)
  then show ?thesis
    using R by (auto simp: read_result_def represents_def same_view_def split: sum.splits)
qed

theorem BufMgr_transparent_witness:
  "\<exists>fr. holds (snd (BufMgr_readPage demo_page1 8 2)) 8 2 fr \<and>
     bufPool (bufMgr (snd (BufMgr_readPage demo_page1 8 2))) ! fr = zero_mem"
proof -
  have r: "\<not> all_pinned (bufMgr demo_page1)" by code_simp
  show ?thesis
    using BufMgr_transparent [OF demo_page1_reach _ _ surjective_pairing, of 8 2 zero_mem] r
    by (auto simp: demo_page1_ok demo_bsys_files split: sum.splits)
qed

text \<open>
  C8. The clock algorithm always ends within two turns of the hand, and \<open>allocBuf\<close> reports
  \<open>BUFFEREXCEEDED\<close> exactly when every frame is valid and pinned; in every other case it
  returns an unpinned frame, having written back the page it held, so that no page of an
  open file changes.
\<close>

theorem allocBuf_exceeded_iff:
  assumes "buf_ok s" "BufMgr_allocBuf s = (r, s')"
  shows "(r = Inl BUFFEREXCEEDED \<longleftrightarrow> all_pinned (bufMgr s)) \<and>
    (\<not> all_pinned (bufMgr s) \<longrightarrow> (\<exists>fr < numBufs (bufMgr s). r = Inr fr \<and> pinCnt (desc (bufMgr s) fr) = 0)) \<and>
    (\<forall>f \<in> live s. \<forall>p. logical s' f p = logical s f p)"
  using allocBuf_spec [OF assms]
  by (cases r) (auto simp: frame_freed_def all_pinned_def same_view_def)

theorem allocBuf_exceeded_iff_witness:
  "\<exists>fr < numBufs (bufMgr demo_page1). fst (BufMgr_allocBuf demo_page1) = Inr fr"
proof -
  have "\<not> all_pinned (bufMgr demo_page1)" by code_simp
  then show ?thesis
    using allocBuf_exceeded_iff [OF demo_page1_ok(1) surjective_pairing] by blast
qed

text \<open>
  C9. \<open>flushFile\<close> reports \<open>PAGEPINNED\<close> exactly when some page of the file is pinned. Otherwise it
  succeeds, the file has no page left in the pool, and every page of the file on disk is what
  its clients last saw; the pages of other files do not change either.
\<close>

theorem flushFile_writes_back:
  assumes "buf_ok s" "file \<in> live s" "BufMgr_flushFile s file = (st, s')"
  shows "st = (if \<exists>p fr. holds s file p fr then PAGEPINNED else OK) \<and> buf_ok s' \<and>
    (st = OK \<longrightarrow> (\<forall>p. buffered s' file p = None \<and> disk_page s' file p = logical s file p)) \<and>
    (\<forall>f \<in> live s. \<forall>p. logical s' f p = logical s f p)"
  using flushFile_spec [OF assms] by (auto simp: same_view_def)

theorem flushFile_writes_back_witness:
  "fst (BufMgr_flushFile demo_page1 8) = OK \<and>
   disk_page (snd (BufMgr_flushFile demo_page1 8)) 8 1 = Some zero_mem"
proof -
  have "fst (BufMgr_flushFile demo_page1 8) = OK" by code_simp
  then show ?thesis
    using flushFile_writes_back [OF demo_page1_ok(1) _ surjective_pairing, of 8]
    by (simp add: demo_page1_ok)
qed

text \<open>
  \<open>unPinPage\<close> on every branch: \<open>HASHNOTFOUND\<close> for a page that is not in the pool,
  \<open>PAGENOTPINNED\<close> for one that nobody holds, \<open>OK\<close> otherwise. It never changes the contents of
  a page, and keeps the invariant provided a changed page is reported dirty.
\<close>

theorem unPinPage_correct:
  assumes "buf_ok s" "BufMgr_unPinPage s file p dt = (st, s')"
    and "\<And>fr. buffered s file p = Some fr \<Longrightarrow>
      dt \<or> dirty (desc (bufMgr s) fr) \<or> 1 < pinCnt (desc (bufMgr s) fr) \<or>
      disk_page s file p = logical s file p"
  shows "st = (case buffered s file p of None \<Rightarrow> HASHNOTFOUND
      | Some fr \<Rightarrow> if pinCnt (desc (bufMgr s) fr) = 0 then PAGENOTPINNED else OK) \<and>
    buf_ok s' \<and> buffered s' = buffered s \<and> (\<forall>f \<in> live s. \<forall>q. logical s' f q = logical s f q)"
  using unPinPage_spec [OF assms] by (simp add: same_view_def)

theorem unPinPage_correct_witness:
  "fst (BufMgr_unPinPage demo_page1 8 1 True) = PAGENOTPINNED \<and>
   buf_ok (snd (BufMgr_unPinPage demo_page1 8 1 True))"
proof -
  have "fst (BufMgr_unPinPage demo_page1 8 1 True) = PAGENOTPINNED" by code_simp
  then show ?thesis
    using unPinPage_correct [OF demo_page1_ok(1) surjective_pairing, of 8 1 True] by simp
qed

text \<open>
  C10. \<open>allocPage\<close> gives its caller a page number that was not in use, pinned in a frame,
  without touching any other page or any pinned frame. When it fails for want of a frame the
  pool is intact, but the page has been taken from the file: it stays allocated and nobody
  knows its number.
\<close>

theorem allocPage_fresh:
  assumes "buf_ok s" "file \<in> live s" "BufMgr_allocPage s file = (r, s')"
  shows "buf_ok s' \<and> pins_kept s s' \<and>
    (case r of
       Inr (p, fr) \<Rightarrow> 1 \<le> p \<and> logical s file p = None \<and> holds s' file p fr \<and>
         (\<forall>g \<in> live s. \<forall>q. (g, q) \<noteq> (file, p) \<longrightarrow> logical s' g q = logical s g q)
     | Inl e \<Rightarrow> \<forall>g \<in> live s. \<forall>q. logical s g q \<noteq> None \<longrightarrow> logical s' g q = logical s g q)"
  using allocPage_spec [OF assms] by (auto simp: same_view_def split: sum.splits)

theorem allocPage_fresh_witness:
  "fst (BufMgr_allocPage demo_page1 8) = Inr (3, 0) \<and>
   holds (snd (BufMgr_allocPage demo_page1 8)) 8 3 0 \<and> logical demo_page1 8 3 = None"
proof -
  have "fst (BufMgr_allocPage demo_page1 8) = Inr (3, 0)" by code_simp
  then show ?thesis
    using allocPage_fresh [OF demo_page1_ok(1) _ surjective_pairing, of 8]
    by (simp add: demo_page1_ok)
qed

text \<open>
  C11. When \<open>readPage\<close> fails because the page cannot be read from the file (a bad page number,
  a page beyond the end of the file), the frame chosen for it is left half set up: with all
  frames in use before the call, the page that was evicted is still recorded in its valid
  frame but has lost its entry in the hash table. The invariant of the pool is broken from
  then on, although the caller only sees an error for its own page.
\<close>

theorem readPage_failure_orphans_frame:
  assumes "buf_ok s" "BufMgr_readPage s file p = (Inl e, s')" "e \<noteq> BUFFEREXCEEDED"
    and "\<forall>i < numBufs (bufMgr s). valid (desc (bufMgr s) i)"
  shows "\<not> buf_ok s' \<and> (\<exists>i < numBufs (bufMgr s'). valid (desc (bufMgr s') i) \<and>
    buffered s' (bd_file (desc (bufMgr s') i)) (bd_pageNo (desc (bufMgr s') i)) = None)"
proof -
  obtain fr t where F: "frame_freed s fr t"
    "s' = t\<lparr>bufMgr := upd_stats (diskreads_update (\<lambda>r. r + 1)) (bufMgr t)\<rparr>"
    by (rule readPage_failed [OF assms(1-3)])
  have R: "clock_rel (bufMgr s) (bufMgr t)" "fr < numBufs (bufMgr s)" "frames_ok t {fr}"
    using F(1) by (simp_all add: frame_freed_def)
  have N: "numBufs (bufMgr t) = numBufs (bufMgr s)" using R(1) by (simp add: clock_rel_def)
  note RD = clock_rel_desc [OF R(1), unfolded framesD(4) [OF assms(1)]]
  have "f = fr" if "f < numBufs (bufMgr s)" "key (desc (bufMgr t) f) = key (desc (bufMgr t) fr)" for f
    using frames_key_inj [OF assms(1) that(1) _ _ R(2)] assms(4) that RD R(2) by simp
  then have "bht_map (hashTable (bufMgr t)) (key (desc (bufMgr t) fr)) = None"
    using frames_map_None [OF R(3)] N by auto
  then have B: "buffered s' (bd_file (desc (bufMgr s') fr)) (bd_pageNo (desc (bufMgr s') fr)) = None"
    "valid (desc (bufMgr s') fr)" "fr < numBufs (bufMgr s')"
    using R(2) N assms(4) RD(5) by (simp_all add: F(2) buffered_def buf_simps)
  then show ?thesis
    using frames_map [of s' "{}" "key (desc (bufMgr s') fr)" fr] by (auto simp: buffered_def)
qed

theorem readPage_failure_orphans_frame_witness:
  "fst (BufMgr_readPage demo_page1 8 0) = Inl BADPAGENO \<and>
   \<not> buf_ok (snd (BufMgr_readPage demo_page1 8 0))"
proof -
  have r: "fst (BufMgr_readPage demo_page1 8 0) = Inl BADPAGENO" by code_simp
  then have e: "BufMgr_readPage demo_page1 8 0 = (Inl BADPAGENO, snd (BufMgr_readPage demo_page1 8 0))"
    by (metis surjective_pairing)
  have "\<forall>i < numBufs (bufMgr demo_page1). valid (desc (bufMgr demo_page1) i)" by code_simp
  then show ?thesis
    using readPage_failure_orphans_frame [OF demo_page1_ok(1) e] r by simp
qed

end
