(* ===== verification/DB_Props.thy ===== *)
theory DB_Props
  imports DB Buf_Props
begin

text \<open>
  Opening and closing files through \<open>DB\<close>: the table of open files, the open counts and the
  buffer pool stay consistent, closing a file makes its contents durable, and opening it
  again shows them. The invariant \<open>db_inv\<close> extends \<open>buf_ok\<close>; what the code needs of the memory
  allocator is the named hypothesis \<open>allocator_ok\<close>.
\<close>

definition allocator_ok :: "(int set \<Rightarrow> int) \<Rightarrow> bool" where
  "allocator_ok new \<longleftrightarrow> (\<forall>L. finite L \<longrightarrow> new L \<notin> L \<and> 0 < new L)"

definition db_inv :: "'a dsys_scheme \<Rightarrow> bool" where
  "db_inv s \<longleftrightarrow> buf_ok s \<and> \<not> bufMgr_null s \<and> oft_inv (openFiles s) \<and> finite (live s) \<and>
     int (quota s) < 2147483648 \<and>
     (\<forall>n a. oft_map (openFiles s) n = Some a \<longleftrightarrow> a \<in> live s \<and> fileName (objs s a) = n) \<and>
     (\<forall>a \<in> live s. 1 \<le> openCnt (objs s a) \<and> unixFile (objs s a) = Some (fileName (objs s a))) \<and>
     (\<forall>n ps. files s n = Some ps \<longrightarrow> oft_map (openFiles s) n = None \<longrightarrow> file_wf ps)"

lemma db_invD:
  assumes "db_inv s"
  shows "buf_ok s" "\<not> bufMgr_null s" "oft_inv (openFiles s)" "finite (live s)"
    "int (quota s) < 2147483648"
    "\<And>n a. oft_map (openFiles s) n = Some a \<longleftrightarrow> a \<in> live s \<and> fileName (objs s a) = n"
    "\<And>a. a \<in> live s \<Longrightarrow> 1 \<le> openCnt (objs s a)"
    "\<And>a. a \<in> live s \<Longrightarrow> unixFile (objs s a) = Some (fileName (objs s a))"
    "\<And>n ps. files s n = Some ps \<Longrightarrow> oft_map (openFiles s) n = None \<Longrightarrow> file_wf ps"
  using assms unfolding db_inv_def by simp_all

lemma find_eq: "OpenFileHashTbl_find t n =
    (case oft_map t n of Some a \<Rightarrow> Inr a | None \<Rightarrow> Inl HASHNOTFOUND)"
  by (rule ot.finds_eq)

subsection \<open>Views that agree on the live files\<close>

text \<open>
  The invariant of the pool only looks at the descriptors of the live file objects: it does
  not change when open counts or dead objects do.
\<close>

definition agree :: "int set \<Rightarrow> 'a bsys_scheme \<Rightarrow> 'a bsys_scheme \<Rightarrow> bool" where
  "agree L s s' \<longleftrightarrow> bufMgr s' = bufMgr s \<and> files s' = files s \<and> quota s' = quota s \<and>
     (\<forall>a \<in> L. unixFile (objs s' a) = unixFile (objs s a))"

lemma agree_file:
  assumes "agree L s s'" "a \<in> L"
  shows "file_inv (objs s' a) s' = file_inv (objs s a) s" "disk_page s' a = disk_page s a"
    "logical s' a p = logical s a p"
proof -
  have "file_pages s' (objs s' a) = file_pages s (objs s a)"
    using assms by (simp add: agree_def file_pages_def split: option.split)
  then show "file_inv (objs s' a) s' = file_inv (objs s a) s" "disk_page s' a = disk_page s a"
    using assms by (simp_all add: file_inv_def used_pages_def agree_def)
  then show "logical s' a p = logical s a p"
    using assms(1) by (simp add: logical_def buffered_def agree_def split: option.split)
qed

lemma agree_buf_ok:
  assumes "buf_ok s" "agree (live s') s s'" "files_ok s'"
    and "\<And>i. i < numBufs (bufMgr s) \<Longrightarrow> valid (desc (bufMgr s) i) \<Longrightarrow> bd_file (desc (bufMgr s) i) \<in> live s'"
  shows "buf_ok s'"
proof -
  have b: "bufMgr s' = bufMgr s" using assms(2) by (simp add: agree_def)
  have "frame_ok s' (desc (bufMgr s) i) (bufPool (bufMgr s) ! i)" if "i < numBufs (bufMgr s)" for i
    using framesD(6) [OF assms(1) that] assms(4) [OF that] agree_file(2) [OF assms(2)]
    by (auto simp: frame_ok_def)
  then show ?thesis using assms(1,3) by (simp add: frames_ok_def b)
qed

lemma files_ok_agree:
  assumes "files_ok s" "agree (live s') s s'" "live s' \<subseteq> live s"
  shows "files_ok s'"
proof -
  have "file_inv (objs s' a) s'" if "a \<in> live s'" for a
    using agree_file(1) [OF assms(2) that] assms(1,3) that by (auto simp: files_ok_def)
  moreover have "unixFile (objs s' a) = unixFile (objs s a)" if "a \<in> live s'" for a
    using assms(2) that by (simp add: agree_def)
  ultimately show ?thesis using assms(1,3) unfolding files_ok_def by (metis subset_iff)
qed

subsection \<open>Flushing one file\<close>

lemma flush_frame_files:
  assumes "flush_frame s fl i = (st, t)" "bd_file (desc (bufMgr s) i) = fl"
  shows "objs t = objs s \<and> live t = live s \<and> quota t = quota s \<and> heap_new t = heap_new s \<and>
    bsys.more t = bsys.more s \<and> (\<forall>n. unixFile (objs s fl) \<noteq> Some n \<longrightarrow> files t n = files s n)"
proof (cases "dirty (desc (bufMgr s) i)")
  case False
  then show ?thesis using assms(1) by (auto simp: flush_frame_def Let_def)
next
  case True
  obtain st' u where W: "File_writePage s (objs s fl) (bd_pageNo (desc (bufMgr s) i))
      (Some (bufPool (bufMgr s) ! i)) = (st', u)" by fastforce
  note F = writePage_step [OF W]
  have e: "u = s\<lparr>files := files u\<rparr>" using F by (simp add: file_step_def)
  have "bsys.more u = bsys.more s" using arg_cong [OF e, of bsys.more] by simp
  then show ?thesis
    using assms True W F file_step_fields [OF F]
    by (auto simp: flush_frame_def Let_def file_step_def split: if_splits)
qed

lemma flush_loop_files:
  "flush_loop s fl is = (st, t) \<Longrightarrow>
    objs t = objs s \<and> live t = live s \<and> quota t = quota s \<and> heap_new t = heap_new s \<and>
    bsys.more t = bsys.more s \<and> (\<forall>n. unixFile (objs s fl) \<noteq> Some n \<longrightarrow> files t n = files s n)"
proof (induction "is" arbitrary: s)
  case (Cons i js)
  obtain st' u where F: "flush_frame s fl i = (st', u)" by fastforce
  show ?case
  proof (cases "valid (desc (bufMgr s) i) \<and> bd_file (desc (bufMgr s) i) = fl")
    case True
    then show ?thesis
      using Cons.prems Cons.IH [of u] F flush_frame_files [OF F]
      by (auto simp: Let_def split: if_splits)
  next
    case False
    then show ?thesis using Cons.prems Cons.IH [of s] by (auto simp: Let_def split: if_splits)
  qed
qed simp

lemma flushFile_files:
  assumes "BufMgr_flushFile s fl = (st, t)"
  shows "objs t = objs s" "live t = live s" "quota t = quota s" "heap_new t = heap_new s"
    "bsys.more t = bsys.more s" "\<And>n. unixFile (objs s fl) \<noteq> Some n \<Longrightarrow> files t n = files s n"
  using flush_loop_files [OF assms [unfolded BufMgr_flushFile_def]] by simp_all

lemma flushFile_dsys:
  fixes s :: "'a dsys_scheme"
  assumes "BufMgr_flushFile s fl = (st, t)"
  shows "openFiles t = openFiles s" "bufMgr_null t = bufMgr_null s"
proof -
  have "bsys.more t = bsys.more s" by (rule flushFile_files(5) [OF assms])
  then show "openFiles t = openFiles s" "bufMgr_null t = bufMgr_null s"
    by (cases s; cases t; simp)+
qed

lemma flush_loop_pinned:
  "flush_loop s fl is = (st, t) \<Longrightarrow> 0 < pinCnt (desc (bufMgr s) j) \<Longrightarrow> buf_ok s \<Longrightarrow>
    set is \<subseteq> {..<numBufs (bufMgr s)} \<Longrightarrow> desc (bufMgr t) j = desc (bufMgr s) j"
proof (induction "is" arbitrary: s)
  case (Cons i js)
  let ?d = "desc (bufMgr s) i"
  have i: "i < numBufs (bufMgr s)" using Cons.prems(4) by simp
  show ?case
  proof (cases "valid ?d \<and> bd_file ?d = fl \<and> \<not> 0 < pinCnt ?d")
    case True
    then have p0: "pinCnt ?d = 0" using framesD(6) [OF Cons.prems(3) i] by (simp add: frame_ok_def)
    obtain st' u where F: "flush_frame s fl i = (st', u)" by fastforce
    have "j \<noteq> i" using Cons.prems(2) p0 by auto
    then have S: "st' = OK" "buf_ok u" "desc (bufMgr u) j = desc (bufMgr s) j"
      "numBufs (bufMgr u) = numBufs (bufMgr s)"
      using flush_frame_spec [OF Cons.prems(3) i _ _ p0 F] True by auto
    have "flush_loop u fl js = (st, t)" using Cons.prems(1) True F S(1) by (simp add: Let_def)
    then show ?thesis using Cons.IH [of u] S Cons.prems(2,4) by simp
  next
    case False
    then show ?thesis using Cons.prems Cons.IH [of s] by (auto simp: Let_def split: if_splits)
  qed
qed simp

lemma flush_loop_desc:
  "flush_loop s fl is = (st, t) \<Longrightarrow> buf_ok s \<Longrightarrow> set is \<subseteq> {..<numBufs (bufMgr s)} \<Longrightarrow>
    numBufs (bufMgr t) = numBufs (bufMgr s) \<and>
    (desc (bufMgr t) j = desc (bufMgr s) j \<or> \<not> valid (desc (bufMgr t) j))"
proof (induction "is" arbitrary: s)
  case (Cons i js)
  let ?d = "desc (bufMgr s) i"
  have i: "i < numBufs (bufMgr s)" using Cons.prems(3) by simp
  show ?case
  proof (cases "valid ?d \<and> bd_file ?d = fl \<and> \<not> 0 < pinCnt ?d")
    case True
    then have p0: "pinCnt ?d = 0" using framesD(6) [OF Cons.prems(2) i] by (simp add: frame_ok_def)
    obtain st' u where F: "flush_frame s fl i = (st', u)" by fastforce
    note S = flush_frame_spec [OF Cons.prems(2) i _ _ p0 F]
    have "flush_loop u fl js = (st, t)" using Cons.prems(1) True F S(1) by (simp add: Let_def)
    then have I: "numBufs (bufMgr t) = numBufs (bufMgr u)"
      "desc (bufMgr t) j = desc (bufMgr u) j \<or> \<not> valid (desc (bufMgr t) j)"
      using Cons.IH [of u] S(2,6) Cons.prems(3) True by auto
    then show ?thesis using S(4-6) True by (cases "j = i") auto
  next
    case False
    then show ?thesis using Cons.prems Cons.IH [of s] by (auto simp: Let_def split: if_splits)
  qed
qed simp

text \<open>Flushing a file changes no pin.\<close>

lemma flushFile_pins:
  assumes "buf_ok s" "fl \<in> live s" "BufMgr_flushFile s fl = (st, t)"
  shows "numBufs (bufMgr t) = numBufs (bufMgr s)" "holds t = holds s"
    "\<And>j. 0 < pinCnt (desc (bufMgr s) j) \<Longrightarrow> desc (bufMgr t) j = desc (bufMgr s) j"
proof -
  let ?is = "[0..<numBufs (bufMgr s)]"
  have sub: "set ?is \<subseteq> {..<numBufs (bufMgr s)}" by auto
  note L = assms(3) [unfolded BufMgr_flushFile_def]
  note P = flush_loop_pinned [OF L _ assms(1) sub] and E = flush_loop_desc [OF L assms(1) sub]
  show n: "numBufs (bufMgr t) = numBufs (bufMgr s)" using E by blast
  show "\<And>j. 0 < pinCnt (desc (bufMgr s) j) \<Longrightarrow> desc (bufMgr t) j = desc (bufMgr s) j" by (rule P)
  have ok: "buf_ok t" using flushFile_spec [OF assms] by simp
  have "holds t g q f = holds s g q f" for g q f
    unfolding holds_def buffered_def frames_map [OF assms(1)] frames_map [OF ok] n
    using P [of f] E [of f] by auto
  then show "holds t = holds s" by (simp add: fun_eq_iff)
qed

subsection \<open>What the buffer operations leave alone\<close>

text \<open>Only the pool and the files of live objects change.\<close>

definition buf_frame :: "'a bsys_scheme \<Rightarrow> 'a bsys_scheme \<Rightarrow> bool" where
  "buf_frame s s' \<longleftrightarrow> objs s' = objs s \<and> live s' = live s \<and> quota s' = quota s \<and>
     heap_new s' = heap_new s \<and> bsys.more s' = bsys.more s \<and>
     (\<forall>n. (\<forall>a \<in> live s. unixFile (objs s a) \<noteq> Some n) \<longrightarrow> files s' n = files s n)"

lemma buf_frame_refl: "buf_frame s s"
  by (simp add: buf_frame_def)

lemma buf_frame_trans: "buf_frame s s' \<Longrightarrow> buf_frame s' s'' \<Longrightarrow> buf_frame s s''"
  by (simp add: buf_frame_def)

lemma buf_frame_bufMgr: "buf_frame s (s\<lparr>bufMgr := b\<rparr>)"
  by (simp add: buf_frame_def)

lemma buf_frame_bufMgr_iff [simp]: "buf_frame s (t\<lparr>bufMgr := b\<rparr>) = buf_frame s t"
  "buf_frame (s\<lparr>bufMgr := b\<rparr>) t = buf_frame s t"
  by (simp_all add: buf_frame_def)

lemma buf_frame_step:
  assumes "file_step (objs s a) s s'" "a \<in> live s"
  shows "buf_frame s s'"
proof -
  have e: "s' = s\<lparr>files := files s'\<rparr>" using assms(1) by (simp add: file_step_def)
  have "bsys.more s' = bsys.more s" using arg_cong [OF e, of bsys.more] by simp
  then show ?thesis
    using file_step_fields [OF assms(1)] assms by (auto simp: buf_frame_def file_step_def)
qed

lemma buf_frame_dsys:
  fixes s :: "'a dsys_scheme"
  assumes "buf_frame s t"
  shows "openFiles t = openFiles s" "bufMgr_null t = bufMgr_null s"
proof -
  have "bsys.more t = bsys.more s" using assms by (simp add: buf_frame_def)
  then show "openFiles t = openFiles s" "bufMgr_null t = bufMgr_null s"
    by (cases s; cases t; simp)+
qed

lemma buf_frame_db_inv:
  assumes "db_inv s" "buf_frame s t" "buf_ok t"
  shows "db_inv t"
proof -
  note D = db_invD [OF assms(1)]
  have F: "objs t = objs s" "live t = live s" "quota t = quota s"
    "\<And>n. (\<forall>a \<in> live s. unixFile (objs s a) \<noteq> Some n) \<Longrightarrow> files t n = files s n"
    using assms(2) by (simp_all add: buf_frame_def)
  have "files t n = files s n" if "oft_map (openFiles s) n = None" for n
    using F(4) [of n] D(6) [of n] D(8) that by auto
  then show ?thesis
    using D assms(3) by (auto simp: db_inv_def F buf_frame_dsys [OF assms(2)])
qed

lemma allocBuf_frame:
  assumes "buf_ok s" "BufMgr_allocBuf s = (r, s')"
  shows "buf_frame s s'"
proof -
  obtain b n found where scan: "clock_scan (bufMgr s) 0 = (b, n, found)" by (metis prod_cases3)
  let ?d = "desc b (clockHand b)"
  note D = framesD [OF assms(1)]
  have R: "clock_rel (bufMgr s) b" "clockHand b < numBufs (bufMgr s)"
    using clock_scan_sound [OF scan D(2)] by (auto simp: pool_ok_def clock_rel_def)
  note Rd = clock_rel_desc [OF R(1), of "clockHand b"]
  show ?thesis
  proof (cases "dirty ?d \<and> \<not> (\<not> found \<and> 2 * numBufs b \<le> n)")
    case False
    then show ?thesis
      using assms(2) scan by (auto simp: BufMgr_allocBuf_def Let_def buf_frame_refl split: if_splits)
  next
    case True
    let ?u = "s\<lparr>bufMgr := upd_stats (diskwrites_update (\<lambda>w. w + 1)) b\<rparr>"
    obtain st t where W: "File_writePage ?u (objs s (bd_file ?d)) (bd_pageNo ?d)
        (Some (bufPool b ! clockHand b)) = (st, t)" by fastforce
    have "bd_file ?d \<in> live s"
      using D(4) D(6) [OF R(2)] R(2) Rd True by (auto simp: frame_ok_def split: if_splits)
    then have "buf_frame ?u t" using buf_frame_step [of ?u "bd_file ?d" t] writePage_step [OF W] by simp
    then show ?thesis using assms(2) scan True W by (auto simp: BufMgr_allocBuf_def Let_def)
  qed
qed

lemma readPage_frame:
  assumes "buf_ok s" "BufMgr_readPage s fl p = (r, s')"
  shows "buf_frame s s'"
proof (cases "buffered s fl p")
  case (Some fr)
  then show ?thesis using assms(2) by (auto simp: BufMgr_readPage_def lookup_eq buf_frame_refl)
next
  case None
  obtain ra t where A: "BufMgr_allocBuf s = (ra, t)" by fastforce
  have "buf_frame s t" by (rule allocBuf_frame [OF assms(1) A])
  then show ?thesis
    using assms(2) None A
    by (auto simp: BufMgr_readPage_def lookup_eq Let_def install_def split: sum.splits prod.splits)
qed

lemma unPinPage_frame: "BufMgr_unPinPage s fl p dt = (st, s') \<Longrightarrow> buf_frame s s'"
  by (auto simp: BufMgr_unPinPage_def Let_def buf_frame_refl split: sum.splits if_splits)

lemma allocPage_frame:
  assumes "buf_ok s" "fl \<in> live s" "BufMgr_allocPage s fl = (r, s')"
    and "\<And>ra t. File_allocatePage s (objs s fl) = (ra, t) \<Longrightarrow> buf_ok t"
  shows "buf_frame s s'"
proof -
  obtain ra t where A: "File_allocatePage s (objs s fl) = (ra, t)" by fastforce
  have f: "buf_frame s t" by (rule buf_frame_step [OF allocatePage_step [OF A] assms(2)])
  obtain rb u where B: "BufMgr_allocBuf t = (rb, u)" by fastforce
  have "buf_frame t u" by (rule allocBuf_frame [OF assms(4) [OF A] B])
  then have "buf_frame s u" using f buf_frame_trans by blast
  then show ?thesis
    using assms(3) A B f
    by (auto simp: BufMgr_allocPage_def Let_def install_def split: sum.splits prod.splits)
qed

subsection \<open>Opening\<close>

lemma set_obj_fields [simp]:
  "objs (set_obj a f s) = (objs s)(a := f)" "live (set_obj a f s) = live s"
  "files (set_obj a f s) = files s" "quota (set_obj a f s) = quota s"
  "heap_new (set_obj a f s) = heap_new s"
  by (simp_all add: set_obj_def)

lemma set_obj_more [simp]:
  "bufMgr (set_obj a f (t :: 'b bsys_scheme)) = bufMgr t"
  "openFiles (set_obj a f (s :: 'a dsys_scheme)) = openFiles s"
  "bufMgr_null (set_obj a f s) = bufMgr_null s"
  by (simp_all add: set_obj_def)

text \<open>A file that is open already: only its open count changes.\<close>

lemma frame_live:
  assumes "buf_ok s" "i < numBufs (bufMgr s)" "valid (desc (bufMgr s) i)"
  shows "bd_file (desc (bufMgr s) i) \<in> live s"
  using framesD(6) [OF assms(1,2)] assms(3) by (simp add: frame_ok_def)

lemma count_buf_ok:
  assumes "buf_ok s" "t = set_obj a ((objs s a)\<lparr>openCnt := c\<rparr>) s"
  shows "buf_ok t" "agree L s t"
proof -
  have ag: "agree L s t" for L by (simp add: agree_def assms(2))
  then show "agree L s t" .
  have "files_ok t"
    using files_ok_agree [of s t] framesD(1) [OF assms(1)] ag by (simp add: assms(2))
  then show "buf_ok t"
    using agree_buf_ok [OF assms(1) ag] frame_live [OF assms(1)] by (simp add: assms(2))
qed

lemma count_change:
  assumes "db_inv s" "a \<in> live s" "1 \<le> c" "t = set_obj a ((objs s a)\<lparr>openCnt := c\<rparr>) s"
  shows "db_inv t" "\<And>g p. g \<in> live s \<Longrightarrow> logical t g p = logical s g p"
proof -
  note D = db_invD [OF assms(1)] and B = count_buf_ok [OF db_invD(1) [OF assms(1)] assms(4)]
  show "db_inv t" using D B(1) assms(2,3) by (auto simp: db_inv_def assms(4))
  show "\<And>g p. g \<in> live s \<Longrightarrow> logical t g p = logical s g p" by (rule agree_file(3) [OF B(2)])
qed

lemma openFile_again:
  assumes "db_inv s" "name \<noteq> []" "oft_map (openFiles s) name = Some a"
  shows "DB_openFile s name = (Inr a, set_obj a ((objs s a)\<lparr>openCnt := openCnt (objs s a) + 1\<rparr>) s)"
proof -
  have "a \<in> live s" using db_invD(6) [OF assms(1)] assms(3) by blast
  then have "1 \<le> openCnt (objs s a)" by (rule db_invD(7) [OF assms(1)])
  then show ?thesis using assms(2,3) by (simp add: DB_openFile_def find_eq File_open_def)
qed

text \<open>A file that is not open: a new object, unless the file does not exist.\<close>

lemma openFile_absent:
  assumes "db_inv s" "allocator_ok (heap_new s)" "name \<noteq> []" "oft_map (openFiles s) name = None"
    and "files s name = None" "DB_openFile s name = (r, t)"
  shows "r = Inl UNIXERR" "live t = live s" "files t = files s" "bufMgr t = bufMgr s"
    "openFiles t = openFiles s" "\<And>a. a \<in> live s \<Longrightarrow> objs t a = objs s a"
proof -
  have "heap_new s (live s) \<notin> live s"
    using assms(2) db_invD(4) [OF assms(1)] by (simp add: allocator_ok_def)
  then show "r = Inl UNIXERR" "live t = live s" "files t = files s" "bufMgr t = bufMgr s"
    "openFiles t = openFiles s" "\<And>a. a \<in> live s \<Longrightarrow> objs t a = objs s a"
    using assms(3-6)
    by (auto simp: DB_openFile_def find_eq new_File_def Let_def File_open_def File_init_def
        File_delete_def File_destruct_def delete_File_def)
qed

lemma openFile_new:
  assumes "db_inv s" "allocator_ok (heap_new s)" "name \<noteq> []" "oft_map (openFiles s) name = None"
    and "files s name = Some ps" "DB_openFile s name = (r, t)"
  defines "a \<equiv> heap_new s (live s)"
  shows "r = Inr a" "db_inv t" "oft_map (openFiles t) name = Some a" "live t = insert a (live s)"
    "a \<notin> live s" "openCnt (objs t a) = 1" "\<And>g p. g \<in> live s \<Longrightarrow> logical t g p = logical s g p"
    "logical t a = file_map ps" "heap_new t = heap_new s"
    "bufMgr t = bufMgr s" "files t = files s" "fileName (objs t a) = name"
    "oft_map (openFiles t) = (oft_map (openFiles s))(name \<mapsto> a)" "\<And>g. g \<noteq> a \<Longrightarrow> objs t g = objs s g"
    "quota t = quota s"
proof -
  note D = db_invD [OF assms(1)]
  show a: "a \<notin> live s" using assms(2) D(4) by (simp add: allocator_ok_def a_def)
  have a0: "0 < a" using assms(2) D(4) by (simp add: allocator_ok_def a_def)
  define f where "f = \<lparr>fileName = name, openCnt = 1, unixFile = Some name\<rparr>"
  obtain st h where I: "OpenFileHashTbl_insert (openFiles s) name a = (st, h)" by fastforce
  have H: "st = OK" "oft_inv h" "oft_map h = (oft_map (openFiles s))(name \<mapsto> a)"
    using ot.inserts_new [OF D(3) assms(4) I] by simp_all
  have E: "DB_openFile s name =
      (Inr a, (set_obj a f (s\<lparr>live := insert a (live s)\<rparr>))\<lparr>openFiles := h\<rparr>)"
    using assms(3-5) I H(1)
    by (simp add: DB_openFile_def find_eq new_File_def Let_def File_open_def File_init_def f_def
        set_obj_def a_def [symmetric])
  then have t: "r = Inr a" "t = (set_obj a f (s\<lparr>live := insert a (live s)\<rparr>))\<lparr>openFiles := h\<rparr>"
    using assms(6) by simp_all
  show "r = Inr a" "oft_map (openFiles t) name = Some a" "live t = insert a (live s)"
    "openCnt (objs t a) = 1" "heap_new t = heap_new s"
    "bufMgr t = bufMgr s" "files t = files s" "fileName (objs t a) = name"
    "oft_map (openFiles t) = (oft_map (openFiles s))(name \<mapsto> a)" "\<And>g. g \<noteq> a \<Longrightarrow> objs t g = objs s g"
    "quota t = quota s"
    using t H by (simp_all add: f_def)
  have ag: "agree (live s) s t" using a by (auto simp: agree_def t(2))
  show "\<And>g p. g \<in> live s \<Longrightarrow> logical t g p = logical s g p" by (rule agree_file(3) [OF ag])
  have pt: "file_pages t (objs t a) = Some ps" by (simp add: t(2) file_pages_def f_def assms(5))
  have wf: "file_wf ps" using D(9) [OF assms(5,4)] .
  have fi: "file_inv (objs t a) t" using D(5) pt wf by (simp add: file_inv_def) (simp add: t(2))
  have "unixFile (objs s g) \<noteq> Some name" if "g \<in> live s" for g
    using D(6) [of name g] D(8) [OF that] assms(4) that by auto
  then have other: "\<forall>g \<in> live s. unixFile (objs s g) \<noteq> Some name \<and> Some name \<noteq> unixFile (objs s g)"
    by metis
  have live_ok: "file_inv (objs t g) t" if "g \<in> live s" for g
    using agree_file(1) [OF ag that] framesD(1) [OF D(1)] that by (simp add: files_ok_def)
  have fo: "files_ok t"
    using framesD(1) [OF D(1)] fi live_ok other a a0
    by (auto simp: files_ok_def t(2) f_def split: if_splits)
  note fr = frame_live [OF D(1)]
  have fok: "frame_ok t (desc (bufMgr s) i) (bufPool (bufMgr s) ! i)" if "i < numBufs (bufMgr s)" for i
    using framesD(6) [OF D(1) that] fr [of i] agree_file(2) [OF ag]
    by (auto simp: frame_ok_def t(2))
  have bm: "bufMgr t = bufMgr s" by (simp add: t(2))
  have bok: "buf_ok t" using D(1) fo fok by (simp add: frames_ok_def bm)
  have "buffered t a p = None" for p
    using frames_map_None [OF bok, of "(a, p)"] fr a by (auto simp: buffered_def bm)
  then show "logical t a = file_map ps" by (simp add: logical_def fun_eq_iff used_pages_def pt)
  have "\<forall>g \<in> live s. fileName (objs s g) \<noteq> name" using D(6) [of name] assms(4) by auto
  then show "db_inv t"
    using D a H(2,3) bok by (auto simp: db_inv_def t(2) f_def split: if_splits)
qed

subsection \<open>Closing\<close>

lemma closeFile_shared:
  assumes "db_inv s" "a \<in> live s" "1 < openCnt (objs s a)"
  shows "DB_closeFile s a = (OK, set_obj a ((objs s a)\<lparr>openCnt := openCnt (objs s a) - 1\<rparr>) s)"
proof -
  have "a \<noteq> 0" using framesD(1) [OF db_invD(1) [OF assms(1)]] assms(2) by (auto simp: files_ok_def)
  then show ?thesis using assms(3) by (simp add: DB_closeFile_def File_close_def Let_def)
qed

text \<open>The states a last close goes through.\<close>

lemma closeFile_last:
  assumes "db_inv s" "a \<in> live s" "openCnt (objs s a) = 1"
  defines "s1 \<equiv> set_obj a ((objs s a)\<lparr>openCnt := 0\<rparr>) s"
  obtains fs u h where "BufMgr_flushFile s1 a = (fs, u)"
    "oft_inv h" "oft_map h = (oft_map (openFiles s))(fileName (objs s a) := None)"
    "DB_closeFile s a = (OK, delete_File
      ((set_obj a ((objs s a)\<lparr>openCnt := 0, unixFile := None\<rparr>) u)\<lparr>openFiles := h\<rparr>) a)"
proof -
  note D = db_invD [OF assms(1)]
  have a0: "a \<noteq> 0" using framesD(1) [OF D(1)] assms(2) by (auto simp: files_ok_def)
  obtain fs u where F: "BufMgr_flushFile s1 a = (fs, u)" by fastforce
  have U: "openFiles u = openFiles s" "objs u = objs s1" "\<not> bufMgr_null s1"
    using flushFile_dsys [OF F] flushFile_files(1) [OF F] D(2) by (simp_all add: s1_def)
  obtain st h where E: "OpenFileHashTbl_erase (openFiles s) (fileName (objs s a)) = (st, h)" by fastforce
  have "oft_map (openFiles s) (fileName (objs s a)) = Some a" using D(6) assms(2) by simp
  then have H: "st = OK" "oft_inv h" "oft_map h = (oft_map (openFiles s))(fileName (objs s a) := None)"
    using ot.removes_Some [OF D(3) _ E] by auto
  have "File_close s a = (OK, set_obj a ((objs s a)\<lparr>openCnt := 0, unixFile := None\<rparr>) u)"
    using assms(3) F U(3) D(8) [OF assms(2)] by (simp add: File_close_def Let_def s1_def)
  then have "DB_closeFile s a = (OK, delete_File
      ((set_obj a ((objs s a)\<lparr>openCnt := 0, unixFile := None\<rparr>) u)\<lparr>openFiles := h\<rparr>) a)"
    using a0 E H(1) U(1) by (simp add: DB_closeFile_def Let_def File_delete_def File_destruct_def)
  with F H(2,3) show ?thesis by (rule that)
qed

lemma closeFile_unpinned:
  assumes "db_inv s" "a \<in> live s" "openCnt (objs s a) = 1" "\<And>p fr. \<not> holds s a p fr"
    and "DB_closeFile s a = (st, t)"
  shows "st = OK" "db_inv t" "live t = live s - {a}" "heap_new t = heap_new s"
    "oft_map (openFiles t) (fileName (objs s a)) = None"
    "\<And>g p. g \<in> live t \<Longrightarrow> logical t g p = logical s g p"
    "\<exists>ps. files t (fileName (objs s a)) = Some ps \<and> file_map ps = logical s a"
    "oft_map (openFiles t) = (oft_map (openFiles s))(fileName (objs s a) := None)"
    "\<And>g. g \<noteq> a \<Longrightarrow> objs t g = objs s g" "\<And>n. n \<noteq> fileName (objs s a) \<Longrightarrow> files t n = files s n"
    "numBufs (bufMgr t) = numBufs (bufMgr s)" "holds t = holds s"
    "\<And>j. 0 < pinCnt (desc (bufMgr s) j) \<Longrightarrow> desc (bufMgr t) j = desc (bufMgr s) j"
    "\<And>g. g \<in> live t \<Longrightarrow> disk_page t g = disk_page s g" "quota t = quota s"
proof -
  note D = db_invD [OF assms(1)]
  let ?n = "fileName (objs s a)"
  define s1 where "s1 = set_obj a ((objs s a)\<lparr>openCnt := 0\<rparr>) s"
  note B1 = count_buf_ok [OF D(1) s1_def]
  obtain fs u h where F: "BufMgr_flushFile s1 a = (fs, u)" and H: "oft_inv h"
    "oft_map h = (oft_map (openFiles s))(?n := None)" and C: "DB_closeFile s a = (OK, delete_File
      ((set_obj a ((objs s a)\<lparr>openCnt := 0, unixFile := None\<rparr>) u)\<lparr>openFiles := h\<rparr>) a)"
    unfolding s1_def by (rule closeFile_last [OF assms(1-3)])
  note X = flushFile_files [OF F] and Y = flushFile_dsys [OF F]
  have a1: "a \<in> live s1" using assms(2) by (simp add: s1_def)
  have "holds s1 = holds s" by (simp add: holds_def buffered_def fun_eq_iff s1_def)
  then have U: "buf_ok u" "same_view s1 u" "\<And>p. buffered u a p = None"
    "\<And>p. disk_page u a p = logical s1 a p"
    using flushFile_spec [OF B1(1) a1 F] assms(4) by auto
  have t: "st = OK" "t = delete_File
      ((set_obj a ((objs s a)\<lparr>openCnt := 0, unixFile := None\<rparr>) u)\<lparr>openFiles := h\<rparr>) a"
    using assms(5) C by simp_all
  show "st = OK" "live t = live s - {a}" "heap_new t = heap_new s" "oft_map (openFiles t) ?n = None" "quota t = quota s"
    using X(2-4) H by (simp_all add: t delete_File_def s1_def)
  have ag: "agree (live s - {a}) u t" by (auto simp: agree_def t delete_File_def)
  have lt: "live t = live s - {a}" "live u = live s" using X(2) by (simp_all add: t delete_File_def s1_def)
  have fo: "files_ok t" using files_ok_agree [of u t] framesD(1) [OF U(1)] ag lt by auto
  have "bd_file (desc (bufMgr u) i) \<noteq> a" if "i < numBufs (bufMgr u)" "valid (desc (bufMgr u) i)" for i
    using frames_map [OF U(1), of "key (desc (bufMgr u) i)" i] U(3) that by (auto simp: buffered_def)
  then have bok: "buf_ok t"
    using agree_buf_ok [OF U(1) _ fo] ag frame_live [OF U(1)] lt by auto
  have vu: "\<And>g p. g \<in> live s \<Longrightarrow> logical u g p = logical s g p"
    using U(2) agree_file(3) [OF B1(2)] by (simp add: same_view_def s1_def)
  then show "\<And>g p. g \<in> live t \<Longrightarrow> logical t g p = logical s g p"
    using agree_file(3) [OF ag] lt by simp
  have obj: "objs u a = (objs s a)\<lparr>openCnt := 0\<rparr>" using X(1) by (simp add: s1_def)
  have "file_inv (objs u a) u" using framesD(1) [OF U(1)] assms(2) lt by (simp add: files_ok_def)
  then obtain ps where ps: "files u ?n = Some ps" "file_wf ps"
    using D(8) [OF assms(2)] obj by (auto simp: file_inv_def file_pages_def split: option.splits)
  then have "file_map ps = disk_page u a"
    using D(8) [OF assms(2)] obj by (simp add: used_pages_def file_pages_def)
  also have "\<dots> = logical s a" using U(4) agree_file(3) [OF B1(2)] by (auto simp: fun_eq_iff)
  finally show "\<exists>ps. files t ?n = Some ps \<and> file_map ps = logical s a"
    using ps(1) by (simp add: t delete_File_def)
  show nf: "files t n = files s n" if "n \<noteq> ?n" for n
    using X(6) [of n] that D(8) [OF assms(2)] by (simp add: t delete_File_def s1_def)
  show "disk_page t g = disk_page s g" if "g \<in> live t" for g
  proof -
    have g: "g \<in> live s" "g \<noteq> a" using that lt by auto
    have "objs t g = objs s g" using X(1) g(2) by (simp add: t delete_File_def s1_def)
    moreover have "fileName (objs s g) \<noteq> ?n"
      using D(6) [of "fileName (objs s g)" g] D(6) [of "fileName (objs s g)" a] g assms(2) by auto
    ultimately show ?thesis
      using nf [of "fileName (objs s g)"] D(8) [OF g(1)] by (simp add: used_pages_def file_pages_def fun_eq_iff)
  qed
  show "oft_map (openFiles t) = (oft_map (openFiles s))(?n := None)"
    "\<And>g. g \<noteq> a \<Longrightarrow> objs t g = objs s g"
    using H(2) X(1) by (simp_all add: t delete_File_def s1_def)
  have "bufMgr t = bufMgr u" "bufMgr s1 = bufMgr s" by (simp_all add: t delete_File_def s1_def)
  then show "numBufs (bufMgr t) = numBufs (bufMgr s)" "holds t = holds s"
    "\<And>j. 0 < pinCnt (desc (bufMgr s) j) \<Longrightarrow> desc (bufMgr t) j = desc (bufMgr s) j"
    using flushFile_pins [OF B1(1) a1 F] by (simp_all add: holds_def buffered_def fun_eq_iff)
  have "oft_map h n = Some b \<longleftrightarrow> b \<in> live s - {a} \<and> fileName (objs s b) = n" for n b
    using D(6) [of n b] D(6) [of ?n a] assms(2) by (auto simp: H(2))
  moreover have "file_wf qs" if "files t n = Some qs" "oft_map h n = None" for n qs
    using that nf [of n] ps D(9) [of n qs] H(2) by (cases "n = ?n") (auto simp: t delete_File_def)
  ultimately show "db_inv t"
    using bok H(1) D lt X Y by (auto simp: db_inv_def t delete_File_def s1_def)
qed

subsection \<open>Properties\<close>

text \<open>One open file over an empty pool, for the witnesses.\<close>

definition demo_alloc :: "int set \<Rightarrow> int" where
  "demo_alloc L = Max (insert 0 L) + 8"

definition demo_dsys :: dsys where
  "demo_dsys = \<lparr>files = [''r'' \<mapsto> demo_pages], quota = 4, objs = (\<lambda>_. demo_file), live = {8},
     heap_new = demo_alloc, bufMgr = BufMgr_init 1, bufMgr_null = False,
     openFiles = snd (OpenFileHashTbl_insert OpenFileHashTbl_init ''r'' 8)\<rparr>"

lemma demo_alloc_ok: "allocator_ok demo_alloc"
proof -
  have "demo_alloc L \<notin> L \<and> 0 < demo_alloc L" if "finite L" for L
  proof -
    have "x \<le> Max (insert 0 L)" if "x \<in> insert 0 L" for x
      using that \<open>finite L\<close> by (intro Max_ge) auto
    from this [of 0] this [of "demo_alloc L"] show ?thesis by (auto simp: demo_alloc_def)
  qed
  then show ?thesis by (simp add: allocator_ok_def)
qed

lemma demo_dsys_inv: "db_inv demo_dsys"
proof -
  have p: "file_pages demo_dsys demo_file = Some demo_pages"
    by (simp add: file_pages_def demo_dsys_def demo_file_def)
  have "files_ok demo_dsys"
    using p demo_pages_wf by (simp add: files_ok_def file_inv_def) (simp add: demo_dsys_def)
  then have "buf_ok demo_dsys"
    by (rule BufMgr_init_ok(1) [where n = 1]) (simp_all add: demo_dsys_def)
  moreover have "oft_inv (openFiles demo_dsys) \<and> oft_map (openFiles demo_dsys) = [''r'' \<mapsto> 8]"
    using ot.inserts_new [of OpenFileHashTbl_init "''r''" 8 _ "openFiles demo_dsys"] oft_init
    by (cases "OpenFileHashTbl_insert OpenFileHashTbl_init ''r'' 8") (simp add: demo_dsys_def)
  ultimately show ?thesis
    using demo_pages_wf by (auto simp: db_inv_def) (auto simp: demo_dsys_def demo_file_def split: if_splits)
qed

lemma demo_dsys_fields: "8 \<in> live demo_dsys" "objs demo_dsys 8 = demo_file"
  "heap_new demo_dsys = demo_alloc" "\<not> holds demo_dsys 8 p fr"
  by (simp_all add: demo_dsys_def holds_def buffered_def BufMgr_init_def Let_def bht_init)

text \<open>
  C23. Closing a file is durable. When the last user of a file closes it and holds none of its
  pages, \<open>closeFile\<close> succeeds and forgets the file object, and opening the file again, with a
  new object and an empty set of buffered pages, shows every page with the contents it had;
  the pages of the other open files do not change.
\<close>

theorem close_open_durable:
  assumes "db_inv s" "allocator_ok (heap_new s)" "a \<in> live s" "openCnt (objs s a) = 1"
    and "fileName (objs s a) \<noteq> []" "\<And>p fr. \<not> holds s a p fr"
  shows "\<exists>t u b. DB_closeFile s a = (OK, t) \<and> db_inv t \<and> a \<notin> live t \<and>
    DB_openFile t (fileName (objs s a)) = (Inr b, u) \<and> db_inv u \<and>
    (\<forall>p. logical u b p = logical s a p) \<and>
    (\<forall>g \<in> live s - {a}. \<forall>p. logical u g p = logical s g p)"
proof -
  obtain st t where C: "DB_closeFile s a = (st, t)" by fastforce
  note X = closeFile_unpinned [OF assms(1,3,4,6) C]
  obtain ps where ps: "files t (fileName (objs s a)) = Some ps" "file_map ps = logical s a"
    using X(7) by blast
  obtain r u where O: "DB_openFile t (fileName (objs s a)) = (r, u)" by fastforce
  have al: "allocator_ok (heap_new t)" using assms(2) X(4) by simp
  note Y = openFile_new [OF X(2) al assms(5) X(5) ps(1) O]
  show ?thesis
    using C O X Y(1,2,7,8) ps(2) by auto
qed

theorem close_open_durable_witness:
  "\<exists>t u b. DB_closeFile demo_dsys 8 = (OK, t) \<and> DB_openFile t ''r'' = (Inr b, u) \<and>
     logical u b 2 = logical demo_dsys 8 2"
  using close_open_durable [OF demo_dsys_inv, of 8]
  by (auto simp: demo_dsys_fields demo_alloc_ok demo_file_def)

text \<open>
  Opening a file that is open already returns the object it has and only counts the use;
  the matching \<open>closeFile\<close> takes the system back to exactly the state before, whatever pages
  of the file are in the pool or pinned.
\<close>

theorem open_again_close:
  assumes "db_inv s" "oft_map (openFiles s) name = Some a" "name \<noteq> []"
  shows "\<exists>t. DB_openFile s name = (Inr a, t) \<and> db_inv t \<and>
    openCnt (objs t a) = openCnt (objs s a) + 1 \<and> DB_closeFile t a = (OK, s)"
proof -
  let ?c = "openCnt (objs s a)"
  define t where "t = set_obj a ((objs s a)\<lparr>openCnt := ?c + 1\<rparr>) s"
  have a: "a \<in> live s" using db_invD(6) [OF assms(1)] assms(2) by blast
  have c: "1 \<le> ?c" by (rule db_invD(7) [OF assms(1) a])
  have O: "DB_openFile s name = (Inr a, t)"
    unfolding t_def by (rule openFile_again [OF assms(1,3,2)])
  have t: "db_inv t" using count_change(1) [OF assms(1) a _ t_def] c by simp
  have id: "(objs s a)\<lparr>openCnt := ?c\<rparr> = objs s a" by (cases "objs s a") simp
  have "DB_closeFile t a = (OK, set_obj a ((objs t a)\<lparr>openCnt := ?c\<rparr>) t)"
    using closeFile_shared [OF t, of a] a c by (simp add: t_def)
  also have "set_obj a ((objs t a)\<lparr>openCnt := ?c\<rparr>) t = s"
    by (simp add: t_def id) (simp add: set_obj_def)
  finally show ?thesis using O t by (simp add: t_def)
qed

theorem open_again_close_witness:
  "\<exists>t. DB_openFile demo_dsys ''r'' = (Inr 8, t) \<and> openCnt (objs t 8) = 2 \<and>
     DB_closeFile t 8 = (OK, demo_dsys)"
proof -
  have "oft_map (openFiles demo_dsys) ''r'' = Some 8"
    using db_invD(6) [OF demo_dsys_inv] by (simp add: demo_dsys_fields demo_file_def)
  then show ?thesis
    using open_again_close [OF demo_dsys_inv, of "''r''" 8] by (auto simp: demo_dsys_fields demo_file_def)
qed

text \<open>
  C24. Closing a file for the last time while one of its pages is still pinned goes unnoticed:
  \<open>File::close\<close> drops the \<open>PAGEPINNED\<close> of \<open>flushFile\<close>, \<open>closeFile\<close> reports \<open>OK\<close> and deletes the
  file object, and the pinned frame keeps a pointer to the deleted object, through which a
  later eviction would write.
\<close>

theorem close_pinned_dangles:
  assumes "db_inv s" "a \<in> live s" "openCnt (objs s a) = 1" "holds s a p fr"
  shows "\<exists>t. DB_closeFile s a = (OK, t) \<and> a \<notin> live t \<and> valid (desc (bufMgr t) fr) \<and>
    bd_file (desc (bufMgr t) fr) = a \<and> \<not> buf_ok t"
proof -
  note D = db_invD [OF assms(1)]
  define s1 where "s1 = set_obj a ((objs s a)\<lparr>openCnt := 0\<rparr>) s"
  have b1: "buf_ok s1" "bufMgr s1 = bufMgr s" using count_buf_ok(1) [OF D(1) s1_def] by (simp_all add: s1_def)
  obtain fs u h where F: "BufMgr_flushFile s1 a = (fs, u)" and C: "DB_closeFile s a = (OK, delete_File
      ((set_obj a ((objs s a)\<lparr>openCnt := 0, unixFile := None\<rparr>) u)\<lparr>openFiles := h\<rparr>) a)"
    unfolding s1_def by (rule closeFile_last [OF assms(1-3)])
  have B: "buffered s a p = Some fr" "0 < pinCnt (desc (bufMgr s) fr)" using assms(4) by (simp_all add: holds_def)
  note H = holds_frame [OF D(1) B(1)]
  have sub: "set [0..<numBufs (bufMgr s1)] \<subseteq> {..<numBufs (bufMgr s1)}" by auto
  have d: "desc (bufMgr u) fr = desc (bufMgr s) fr"
    using flush_loop_pinned [OF F [unfolded BufMgr_flushFile_def] _ b1(1) sub] B(2) b1(2) by simp
  have "a \<in> live s1" using assms(2) by (simp add: s1_def)
  note L = flush_loop_spec [OF b1(1) this sub distinct_upt F [unfolded BufMgr_flushFile_def]]
  then have n: "numBufs (bufMgr u) = numBufs (bufMgr s)" using b1(2) by simp
  let ?t = "delete_File ((set_obj a ((objs s a)\<lparr>openCnt := 0, unixFile := None\<rparr>) u)\<lparr>openFiles := h\<rparr>) a"
  have t: "a \<notin> live ?t" "bufMgr ?t = bufMgr u" by (simp_all add: delete_File_def)
  have "\<not> buf_ok ?t"
    using frame_live [of ?t fr] t d n H by auto
  then show ?thesis using C t d H by auto
qed

definition demo_pinned :: dsys where
  "demo_pinned = snd (BufMgr_readPage demo_dsys 8 1)"


lemma demo_pinned: "db_inv demo_pinned" "8 \<in> live demo_pinned" "openCnt (objs demo_pinned 8) = 1"
  "holds demo_pinned 8 1 0"
proof -
  have ok: "buf_ok demo_dsys" by (rule db_invD(1) [OF demo_dsys_inv])
  have "logical demo_dsys 8 1 = Some zero_mem"
    using demo_pages_wf
    by (simp add: logical_def buffered_def demo_dsys_def BufMgr_init_def Let_def bht_init
        used_pages_def file_pages_def demo_file_def file_map_def) (simp add: demo_pages_def)
  note R = readPage_spec [OF ok _ this surjective_pairing, folded demo_pinned_def]
  have "fst (BufMgr_readPage demo_dsys 8 1) = Inr 0" by code_simp
  then have r: "buf_ok demo_pinned" "holds demo_pinned 8 1 0"
    using R by (simp_all add: read_result_def demo_dsys_fields)
  note F = readPage_frame [OF ok surjective_pairing, of 8 1, folded demo_pinned_def]
  show "db_inv demo_pinned" by (rule buf_frame_db_inv [OF demo_dsys_inv F r(1)])
  show "8 \<in> live demo_pinned" "openCnt (objs demo_pinned 8) = 1" "holds demo_pinned 8 1 0"
    using F r(2) by (simp_all add: buf_frame_def demo_dsys_fields demo_file_def)
qed

theorem close_pinned_dangles_witness:
  "\<exists>t. DB_closeFile demo_pinned 8 = (OK, t) \<and> 8 \<notin> live t \<and> bd_file (desc (bufMgr t) 0) = 8"
  using close_pinned_dangles [OF demo_pinned] by auto

text \<open>Adding or removing a file that is not open is invisible to the open files.\<close>

lemma closed_file_change:
  assumes "db_inv s" "oft_map (openFiles s) name = None" "t = s\<lparr>files := (files s)(name := v)\<rparr>"
    and "\<And>ps. v = Some ps \<Longrightarrow> file_wf ps"
  shows "db_inv t" "\<And>g p. g \<in> live s \<Longrightarrow> logical t g p = logical s g p"
proof -
  note D = db_invD [OF assms(1)]
  have "unixFile (objs s g) \<noteq> Some name" if "g \<in> live s" for g
    using D(6) [of name g] D(8) [OF that] assms(2) that by auto
  then have P: "file_pages t (objs t g) = file_pages s (objs s g)" if "g \<in> live s" for g
    using that by (auto simp: file_pages_def assms(3) split: option.split)
  have Q: "file_inv (objs t g) t = file_inv (objs s g) s" "disk_page t g = disk_page s g"
    if "g \<in> live s" for g
    using P [OF that] by (simp_all add: file_inv_def used_pages_def) (simp_all add: assms(3))
  have f: "objs t = objs s" "live t = live s" "bufMgr t = bufMgr s" by (simp_all add: assms(3))
  show "\<And>g p. g \<in> live s \<Longrightarrow> logical t g p = logical s g p"
    using Q(2) by (simp add: logical_def buffered_def f split: option.split)
  have "files_ok t" using framesD(1) [OF D(1)] Q(1) f by (auto simp: files_ok_def)
  moreover have "frame_ok t (desc (bufMgr s) i) (bufPool (bufMgr s) ! i)" if "i < numBufs (bufMgr s)" for i
    using framesD(6) [OF D(1) that] Q(2) f by (auto simp: frame_ok_def)
  ultimately have "buf_ok t" using D(1) by (simp add: frames_ok_def f)
  then show "db_inv t" using D assms(4) by (auto simp: db_inv_def assms(3) split: if_splits)
qed

text \<open>
  \<open>createFile\<close> makes a well-formed file without user pages under a name that is neither
  open nor in use, and answers \<open>FILEEXISTS\<close> otherwise; \<open>destroyFile\<close> removes a closed file,
  answers \<open>FILEOPEN\<close> for an open one and \<open>UNIXERR\<close> for a missing one. Neither changes a page
  of an open file, and a refused call changes nothing.
\<close>

theorem DB_create_destroy:
  assumes "db_inv s" "name \<noteq> []" "0 < quota s"
    and "DB_createFile s name = (st, t)" "DB_destroyFile s name = (st', t')"
  shows "st = (if oft_map (openFiles s) name = None \<and> files s name = None then OK else FILEEXISTS) \<and>
    (if st = OK then files t = (files s)(name \<mapsto> [header_init]) \<and> file_map [header_init] = Map.empty
     else t = s) \<and>
    st' = (if oft_map (openFiles s) name \<noteq> None then FILEOPEN
           else if files s name = None then UNIXERR else OK) \<and>
    (if st' = OK then files t' = (files s)(name := None) else t' = s) \<and>
    db_inv t \<and> db_inv t' \<and>
    (\<forall>g \<in> live s. \<forall>p. logical t g p = logical s g p \<and> logical t' g p = logical s g p)"
proof -
  have e: "file_map [header_init] = Map.empty"
    using new_file_wf by (auto simp: file_map_def fun_eq_iff)
  show ?thesis
  proof (cases "oft_map (openFiles s) name")
    case None
    note C = closed_file_change [OF assms(1) None]
    show ?thesis
    proof (cases "files s name")
      case N: None
      then have "st = OK" "t = s\<lparr>files := (files s)(name := Some [header_init])\<rparr>" "st' = UNIXERR" "t' = s"
        using assms(2-5) None
        by (auto simp: DB_createFile_def DB_destroyFile_def find_eq File_create_def File_destroy_def)
      then show ?thesis using C [of t "Some [header_init]"] new_file_wf None N e assms(1) by simp
    next
      case (Some ps)
      then have "st = FILEEXISTS" "t = s" "st' = OK" "t' = s\<lparr>files := (files s)(name := None)\<rparr>"
        using assms(2-5) None
        by (auto simp: DB_createFile_def DB_destroyFile_def find_eq File_create_def File_destroy_def)
      then show ?thesis using C [of t' None] None Some assms(1) by simp
    qed
  next
    case (Some a)
    then show ?thesis
      using assms by (auto simp: DB_createFile_def DB_destroyFile_def find_eq)
  qed
qed

theorem DB_create_destroy_witness:
  "fst (DB_createFile demo_dsys ''new'') = OK \<and> fst (DB_destroyFile demo_dsys ''r'') = FILEOPEN \<and>
   db_inv (snd (DB_createFile demo_dsys ''new''))"
proof -
  have q: "0 < quota demo_dsys" by (simp add: demo_dsys_def)
  have "fst (DB_createFile demo_dsys ''new'') = OK" "fst (DB_destroyFile demo_dsys ''r'') = FILEOPEN"
    by code_simp+
  then show ?thesis
    using DB_create_destroy [OF demo_dsys_inv _ q surjective_pairing surjective_pairing, of "''new''"]
    by simp
qed

end
