(* ===== verification/HeapFile.thy ===== *)
theory HeapFile
  imports DB
begin

text \<open>
  Heap files (\<open>src/src/heapfile.h\<close>, \<open>src/src/heapfile.C\<close>): a file whose first user page is a
  header page and whose data pages are slotted pages linked by their forward pointers. A
  \<open>HeapFile\<close> object keeps its header page and one data page pinned; \<open>HeapFileScan\<close> walks over
  the records that satisfy a filter, \<open>InsertFileScan\<close> appends records.

  Page pointers of an object are null, a frame of the pool, or \<open>Wild\<close> where the code leaves
  them uninitialised; a wild pointer is taken to differ from null. Following a pointer that is not a frame has no defined behaviour; an
  operation that does so, or a scan that never ends, has the result \<open>None\<close>. Operations return
  the object and the system they leave behind.
\<close>

subsection \<open>Header page\<close>

datatype Datatype = STRING | INTEGER | FLOAT
datatype Operator = LT | LTE | EQ | GTE | GT | NE

definition MAXNAMESIZE :: nat where "MAXNAMESIZE = 50"

text \<open>\<open>fileName\<close> occupies bytes 0 to 49; the integers follow on the next multiple of four.\<close>

definition hdr_firstPage :: "memory \<Rightarrow> int" where "hdr_firstPage m = get_int m 52"
definition hdr_lastPage :: "memory \<Rightarrow> int" where "hdr_lastPage m = get_int m 56"
definition hdr_pageCnt :: "memory \<Rightarrow> int" where "hdr_pageCnt m = get_int m 60"
definition hdr_recCnt :: "memory \<Rightarrow> int" where "hdr_recCnt m = get_int m 64"

definition set_hdr_firstPage :: "int \<Rightarrow> memory \<Rightarrow> memory" where
  "set_hdr_firstPage v m = put_int m 52 v"
definition set_hdr_lastPage :: "int \<Rightarrow> memory \<Rightarrow> memory" where
  "set_hdr_lastPage v m = put_int m 56 v"
definition set_hdr_pageCnt :: "int \<Rightarrow> memory \<Rightarrow> memory" where
  "set_hdr_pageCnt v m = put_int m 60 v"
definition set_hdr_recCnt :: "int \<Rightarrow> memory \<Rightarrow> memory" where
  "set_hdr_recCnt v m = put_int m 64 v"

text \<open>\<open>strncpy\<close> of a C string into a field of \<open>n\<close> bytes: cut off or filled with zeros.\<close>

definition strncpy_bytes :: "nat \<Rightarrow> string \<Rightarrow> byte list" where
  "strncpy_bytes n name =
     (let bs = map of_char (takeWhile (\<lambda>c. c \<noteq> CHR 0x00) name)
      in take n (bs @ replicate n 0))"

definition set_hdr_fileName :: "string \<Rightarrow> memory \<Rightarrow> memory" where
  "set_hdr_fileName name m = write_bytes m 0 (strncpy_bytes MAXNAMESIZE name)"

subsection \<open>Pages behind pointers\<close>

datatype page_ptr = Null | Wild | Frame nat

record HeapFile =
  hf_filePtr :: int
  hf_headerPage :: page_ptr
  hf_headerPageNo :: int
  hf_hdrDirtyFlag :: bool
  hf_curPage :: page_ptr
  hf_curPageNo :: int
  hf_curDirtyFlag :: bool
  hf_curRec :: RID

fun deref :: "'a bsys_scheme \<Rightarrow> page_ptr \<Rightarrow> memory option" where
  "deref s (Frame f) = Some (bufPool (bufMgr s) ! f)"
| "deref s Null = None"
| "deref s Wild = None"

fun store :: "'a bsys_scheme \<Rightarrow> page_ptr \<Rightarrow> memory \<Rightarrow> 'a bsys_scheme" where
  "store s (Frame f) pg = s\<lparr>bufMgr := set_frame f pg (bufMgr s)\<rparr>"
| "store s Null pg = s"
| "store s Wild pg = s"

subsection \<open>Creating and destroying\<close>

definition createHeapFile :: "'a dsys_scheme \<Rightarrow> string \<Rightarrow> Status \<times> 'a dsys_scheme" where
  "createHeapFile s name =
     (case DB_openFile s name of
        (Inr _, s) \<Rightarrow> (FILEEXISTS, s)
      | (Inl _, s) \<Rightarrow>
     (case DB_createFile s name of (st, s) \<Rightarrow> if st \<noteq> OK then (st, s) else
     (case DB_openFile s name of
        (Inl st, s) \<Rightarrow> (st, s)
      | (Inr file, s) \<Rightarrow>
     (case BufMgr_allocPage s file of
        (Inl st, s) \<Rightarrow> (st, s)
      | (Inr (hdrPageNo, hdrPage), s) \<Rightarrow>
     (let s = store s (Frame hdrPage) (set_hdr_fileName name (bufPool (bufMgr s) ! hdrPage))
      in case BufMgr_allocPage s file of
        (Inl st, s) \<Rightarrow> (st, s)
      | (Inr (newPageNo, newPage), s) \<Rightarrow>
     (let s = store s (Frame newPage)
                (snd (Page_setNextPage (Page_init (bufPool (bufMgr s) ! newPage) newPageNo) (- 1)));
          s = store s (Frame hdrPage)
                (set_hdr_firstPage newPageNo (set_hdr_lastPage newPageNo
                  (set_hdr_pageCnt 1 (set_hdr_recCnt 0 (bufPool (bufMgr s) ! hdrPage)))))
      in case BufMgr_unPinPage s file newPageNo True of (st, s) \<Rightarrow> if st \<noteq> OK then (st, s) else
     (case BufMgr_unPinPage s file hdrPageNo True of (st, s) \<Rightarrow> if st \<noteq> OK then (st, s) else
     (case BufMgr_flushFile s file of (st, s) \<Rightarrow> if st \<noteq> OK then (st, s) else
      DB_closeFile s file))))))))"

definition destroyHeapFile :: "'a dsys_scheme \<Rightarrow> string \<Rightarrow> Status \<times> 'a dsys_scheme" where
  "destroyHeapFile s name = DB_destroyFile s name"

subsection \<open>Opening and closing\<close>

text \<open>
  The constructor. \<open>Inl st\<close> is a failed open, after which no field of the object is set. A
  failed read of the header page leaves a wild pointer, which the constructor follows at
  once; a failed read of the data page leaves \<open>curPage\<close> wild, and the status is \<open>OK\<close>.
\<close>

definition HeapFile_init ::
  "'a dsys_scheme \<Rightarrow> string \<Rightarrow> ((Status + HeapFile) \<times> 'a dsys_scheme) option" where
  "HeapFile_init s name =
     (case DB_openFile s name of
        (Inl st, s) \<Rightarrow> Some (Inl st, s)
      | (Inr file, s) \<Rightarrow>
          (case File_getFirstPage s (objs s file) of
             Inl _ \<Rightarrow> None
           | Inr hdrNo \<Rightarrow>
               (case BufMgr_readPage s file hdrNo of
                  (Inl _, s) \<Rightarrow> None
                | (Inr hdr, s) \<Rightarrow>
                    (let curNo = hdr_firstPage (bufPool (bufMgr s) ! hdr)
                     in case BufMgr_readPage s file curNo of
                          (r, s) \<Rightarrow>
                            Some (Inr \<lparr>hf_filePtr = file, hf_headerPage = Frame hdr,
                              hf_headerPageNo = hdrNo, hf_hdrDirtyFlag = False,
                              hf_curPage = (case r of Inr f \<Rightarrow> Frame f | Inl _ \<Rightarrow> Wild),
                              hf_curPageNo = curNo, hf_curDirtyFlag = False, hf_curRec = NULLRID\<rparr>, s)))))"

text \<open>The destructor; errors of its calls are printed and otherwise ignored.\<close>

definition HeapFile_destroy :: "'a dsys_scheme \<Rightarrow> 'h HeapFile_scheme \<Rightarrow> 'a dsys_scheme" where
  "HeapFile_destroy s h =
     (let s = (if hf_curPage h \<noteq> Null
               then snd (BufMgr_unPinPage s (hf_filePtr h) (hf_curPageNo h) (hf_curDirtyFlag h))
               else s);
          s = snd (BufMgr_unPinPage s (hf_filePtr h) (hf_headerPageNo h) (hf_hdrDirtyFlag h))
      in snd (DB_closeFile s (hf_filePtr h)))"

definition HeapFile_getRecCnt :: "'a bsys_scheme \<Rightarrow> 'h HeapFile_scheme \<Rightarrow> int option" where
  "HeapFile_getRecCnt s h = map_option hdr_recCnt (deref s (hf_headerPage h))"

text \<open>Looking up a record by its identifier, changing the pinned page when needed.\<close>

definition HeapFile_getRecord :: "'a bsys_scheme \<Rightarrow> 'h HeapFile_scheme \<Rightarrow> RID \<Rightarrow>
    ((Status + byte list) \<times> 'h HeapFile_scheme \<times> 'a bsys_scheme) option" where
  "HeapFile_getRecord s h rid =
     (if hf_curPage h \<noteq> Null \<and> rid_pageNo rid = hf_curPageNo h then
        (case deref s (hf_curPage h) of
           None \<Rightarrow> None
         | Some pg \<Rightarrow> Some (Page_getRecord pg rid, h\<lparr>hf_curRec := rid\<rparr>, s))
      else
        (case (if hf_curPage h \<noteq> Null
               then BufMgr_unPinPage s (hf_filePtr h) (hf_curPageNo h) (hf_curDirtyFlag h)
               else (OK, s)) of
           (st, s) \<Rightarrow>
             if st \<noteq> OK
             then Some (Inl st, h\<lparr>hf_curPage := Null, hf_curPageNo := 0, hf_curDirtyFlag := False\<rparr>, s)
             else
               (case BufMgr_readPage s (hf_filePtr h) (rid_pageNo rid) of
                  (Inl st, s) \<Rightarrow> Some (Inl st, h, s)
                | (Inr f, s) \<Rightarrow>
                    Some (Page_getRecord (bufPool (bufMgr s) ! f) rid,
                      h\<lparr>hf_curPage := Frame f, hf_curPageNo := rid_pageNo rid,
                        hf_curDirtyFlag := False, hf_curRec := rid\<rparr>, s))))"

subsection \<open>Filters\<close>

text \<open>
  The filter of a scan: the bytes compared with, and where in the record the attribute is.
  The fields are set together by \<open>startScan\<close>; without a filter they are not read.
\<close>

record scan_filter =
  sf_offset :: int
  sf_length :: int
  sf_type :: Datatype
  sf_filter :: "byte list"
  sf_op :: Operator

record HeapFileScan = HeapFile +
  hs_filter :: "scan_filter option"
  hs_marked :: "(int \<times> RID) option"

definition startScan :: "int \<Rightarrow> int \<Rightarrow> Datatype \<Rightarrow> byte list option \<Rightarrow> Operator \<Rightarrow>
    HeapFileScan \<Rightarrow> Status \<times> HeapFileScan" where
  "startScan off len ty fltr op h =
     (case fltr of
        None \<Rightarrow> (OK, h\<lparr>hs_filter := None\<rparr>)
      | Some bs \<Rightarrow>
          if off < 0 \<or> len < 1 \<or> (ty = INTEGER \<and> len \<noteq> 4) \<or> (ty = FLOAT \<and> len \<noteq> 4)
          then (BADSCANPARM, h)
          else (OK, h\<lparr>hs_filter := Some \<lparr>sf_offset = off, sf_length = len, sf_type = ty,
                                          sf_filter = bs, sf_op = op\<rparr>\<rparr>))"

text \<open>
  A single-precision number read from its four bytes, as a multiple of the smallest
  positive one, \<open>2 ^ -149\<close>; infinities and not-a-number apart.
\<close>

datatype float_val = FNaN | FInf bool | FNum int

definition bytes_le :: "byte list \<Rightarrow> nat \<Rightarrow> int" where
  "bytes_le bs n = get_le (\<lambda>i. if 0 \<le> i \<and> nat i < length bs then bs ! nat i else 0) 0 n"

definition float_of_bytes :: "byte list \<Rightarrow> float_val" where
  "float_of_bytes bs =
     (let w = bytes_le bs 4;
          neg = (w div 2 ^ 31 = 1);
          e = nat (w div 2 ^ 23 mod 256);
          frac = w mod 2 ^ 23;
          mag = (if e = 0 then frac else (2 ^ 23 + frac) * 2 ^ (e - 1))
      in if e = 255 then (if frac = 0 then FInf neg else FNaN)
         else FNum (if neg then - mag else mag))"

text \<open>The sign of the difference of two numbers; \<open>None\<close> when it is not a number.\<close>

fun float_diff :: "float_val \<Rightarrow> float_val \<Rightarrow> int option" where
  "float_diff (FNum a) (FNum b) = Some (sgn (a - b))"
| "float_diff (FInf n) (FNum _) = Some (if n then - 1 else 1)"
| "float_diff (FNum _) (FInf n) = Some (if n then 1 else - 1)"
| "float_diff (FInf n) (FInf m) = (if n = m then None else Some (if n then - 1 else 1))"
| "float_diff _ _ = None"

text \<open>\<open>strncmp\<close> on the bytes behind two pointers; what is not there counts as zero.\<close>

fun strncmp :: "nat \<Rightarrow> byte list \<Rightarrow> byte list \<Rightarrow> int" where
  "strncmp 0 a b = 0"
| "strncmp (Suc n) a b =
     (let x = (case a of [] \<Rightarrow> 0 | c # _ \<Rightarrow> uint c);
          y = (case b of [] \<Rightarrow> 0 | c # _ \<Rightarrow> uint c)
      in if x \<noteq> y then x - y else if x = 0 then 0 else strncmp n (tl a) (tl b))"

fun op_holds :: "Operator \<Rightarrow> int option \<Rightarrow> bool" where
  "op_holds op None = (op = NE)"
| "op_holds op (Some d) =
     (case op of LT \<Rightarrow> d < 0 | LTE \<Rightarrow> d \<le> 0 | EQ \<Rightarrow> d = 0 | GTE \<Rightarrow> 0 \<le> d | GT \<Rightarrow> 0 < d | NE \<Rightarrow> d \<noteq> 0)"

text \<open>
  \<open>matchRec\<close>. The difference of two integers is computed in \<open>int\<close> and wraps; its conversion
  to \<open>float\<close> keeps the sign.
\<close>

definition matchRec :: "scan_filter option \<Rightarrow> byte list \<Rightarrow> bool" where
  "matchRec flt rec =
     (case flt of
        None \<Rightarrow> True
      | Some f \<Rightarrow>
          if int (length rec) \<le> sf_offset f + sf_length f - 1 then False
          else
            (let attr = drop (nat (sf_offset f)) rec;
                 diff = (case sf_type f of
                   INTEGER \<Rightarrow> Some (swrap 32 (swrap 32 (bytes_le attr 4) - swrap 32 (bytes_le (sf_filter f) 4)))
                 | FLOAT \<Rightarrow> float_diff (float_of_bytes attr) (float_of_bytes (sf_filter f))
                 | STRING \<Rightarrow> Some (strncmp (nat (sf_length f)) attr (sf_filter f)))
             in op_holds (sf_op f) diff))"

subsection \<open>Scans\<close>

definition scan_of :: "HeapFile \<Rightarrow> HeapFileScan" where
  "scan_of h = \<lparr>hf_filePtr = hf_filePtr h, hf_headerPage = hf_headerPage h,
     hf_headerPageNo = hf_headerPageNo h, hf_hdrDirtyFlag = hf_hdrDirtyFlag h,
     hf_curPage = hf_curPage h, hf_curPageNo = hf_curPageNo h, hf_curDirtyFlag = hf_curDirtyFlag h,
     hf_curRec = hf_curRec h, hs_filter = None, hs_marked = None\<rparr>"

definition HeapFileScan_init ::
  "'a dsys_scheme \<Rightarrow> string \<Rightarrow> ((Status + HeapFileScan) \<times> 'a dsys_scheme) option" where
  "HeapFileScan_init s name =
     map_option (\<lambda>(r, s). (map_sum id scan_of r, s))
       (HeapFile_init s name)"

definition endScan :: "'a bsys_scheme \<Rightarrow> 'h HeapFile_scheme \<Rightarrow> Status \<times> 'h HeapFile_scheme \<times> 'a bsys_scheme" where
  "endScan s h =
     (if hf_curPage h \<noteq> Null then
        (case BufMgr_unPinPage s (hf_filePtr h) (hf_curPageNo h) (hf_curDirtyFlag h) of
           (st, s) \<Rightarrow> (st, h\<lparr>hf_curPage := Null, hf_curPageNo := 0, hf_curDirtyFlag := False\<rparr>, s))
      else (OK, h, s))"

definition HeapFileScan_destroy :: "'a dsys_scheme \<Rightarrow> HeapFileScan \<Rightarrow> 'a dsys_scheme" where
  "HeapFileScan_destroy s h = (case endScan s h of (_, h, s) \<Rightarrow> HeapFile_destroy s h)"

definition markScan :: "HeapFileScan \<Rightarrow> Status \<times> HeapFileScan" where
  "markScan h = (OK, h\<lparr>hs_marked := Some (hf_curPageNo h, hf_curRec h)\<rparr>)"

definition resetScan :: "'a bsys_scheme \<Rightarrow> HeapFileScan \<Rightarrow> (Status \<times> HeapFileScan \<times> 'a bsys_scheme) option" where
  "resetScan s h =
     (case hs_marked h of
        None \<Rightarrow> None
      | Some (markedPageNo, markedRec) \<Rightarrow>
          if markedPageNo \<noteq> hf_curPageNo h then
            (case (if hf_curPage h \<noteq> Null
                   then BufMgr_unPinPage s (hf_filePtr h) (hf_curPageNo h) (hf_curDirtyFlag h)
                   else (OK, s)) of
               (st, s) \<Rightarrow>
                 if st \<noteq> OK then Some (st, h, s)
                 else
                   (let h = h\<lparr>hf_curPageNo := markedPageNo, hf_curRec := markedRec\<rparr>
                    in case BufMgr_readPage s (hf_filePtr h) markedPageNo of
                         (Inl st, s) \<Rightarrow> Some (st, h, s)
                       | (Inr f, s) \<Rightarrow> Some (OK, h\<lparr>hf_curPage := Frame f, hf_curDirtyFlag := False\<rparr>, s)))
          else Some (OK, h\<lparr>hf_curRec := markedRec\<rparr>, s))"

text \<open>
  \<open>scanNext\<close>. The inner loop, entered when the current page has no more records, moves to the
  next page that has one.
\<close>

partial_function (option) scan_pages :: "'a bsys_scheme \<Rightarrow> HeapFileScan \<Rightarrow>
    (Status \<times> HeapFileScan \<times> 'a bsys_scheme) option" where
  "scan_pages s h =
     (case deref s (hf_curPage h) of
        None \<Rightarrow> None
      | Some pg \<Rightarrow>
          (let nextPageNo = snd (Page_getNextPage pg)
           in if nextPageNo = - 1 then Some (FILEEOF, h, s)
              else
                (case BufMgr_unPinPage s (hf_filePtr h) (hf_curPageNo h) (hf_curDirtyFlag h) of
                   (st, s) \<Rightarrow>
                     if st \<noteq> OK then Some (st, h\<lparr>hf_curPage := Null, hf_curPageNo := - 1\<rparr>, s)
                     else
                       (let h = h\<lparr>hf_curPage := Null, hf_curPageNo := nextPageNo, hf_curDirtyFlag := False\<rparr>
                        in case BufMgr_readPage s (hf_filePtr h) nextPageNo of
                             (Inl st, s) \<Rightarrow> Some (st, h, s)
                           | (Inr f, s) \<Rightarrow>
                               (case Page_firstRecord (bufPool (bufMgr s) ! f) of
                                  Inr rid \<Rightarrow> Some (OK, h\<lparr>hf_curPage := Frame f, hf_curRec := rid\<rparr>, s)
                                | Inl _ \<Rightarrow> scan_pages s (h\<lparr>hf_curPage := Frame f\<rparr>))))))"

partial_function (option) scan_loop :: "'a bsys_scheme \<Rightarrow> HeapFileScan \<Rightarrow>
    ((Status + RID) \<times> HeapFileScan \<times> 'a bsys_scheme) option" where
  "scan_loop s h =
     (case deref s (hf_curPage h) of
        None \<Rightarrow> None
      | Some pg \<Rightarrow>
          Option.bind
            (case Page_nextRecord pg (hf_curRec h) of
               Inr rid \<Rightarrow> Some (OK, h\<lparr>hf_curRec := rid\<rparr>, s)
             | Inl _ \<Rightarrow> scan_pages s h)
            (\<lambda>(st, h, s).
               if st \<noteq> OK then Some (Inl st, h, s)
               else
                 (case deref s (hf_curPage h) of
                    None \<Rightarrow> None
                  | Some pg \<Rightarrow>
                      (case Page_getRecord pg (hf_curRec h) of
                         Inl st \<Rightarrow> Some (Inl st, h, s)
                       | Inr rec \<Rightarrow>
                           if matchRec (hs_filter h) rec then Some (Inr (hf_curRec h), h, s)
                           else scan_loop s h))))"

definition scanNext :: "'a bsys_scheme \<Rightarrow> HeapFileScan \<Rightarrow>
    ((Status + RID) \<times> HeapFileScan \<times> 'a bsys_scheme) option" where
  "scanNext s h =
     (if hf_curPageNo h < 0 then Some (Inl FILEEOF, h, s)
      else if hf_curPage h = Null then
        (case deref s (hf_headerPage h) of
           None \<Rightarrow> None
         | Some hdr \<Rightarrow>
             (let h = h\<lparr>hf_curPageNo := hdr_firstPage hdr\<rparr>
              in if hf_curPageNo h = - 1 then Some (Inl FILEEOF, h, s)
                 else
                   (case BufMgr_readPage s (hf_filePtr h) (hf_curPageNo h) of
                      (Inl st, s) \<Rightarrow>
                        Some (Inl st, h\<lparr>hf_curDirtyFlag := False, hf_curRec := NULLRID\<rparr>, s)
                    | (Inr f, s) \<Rightarrow>
                        (let pg = bufPool (bufMgr s) ! f;
                             h = h\<lparr>hf_curPage := Frame f, hf_curDirtyFlag := False\<rparr>
                         in case Page_firstRecord pg of
                              Inl _ \<Rightarrow>
                                (case BufMgr_unPinPage s (hf_filePtr h) (hf_curPageNo h) False of
                                   (st, s) \<Rightarrow>
                                     if st \<noteq> OK then Some (Inl st, h, s)
                                     else Some (Inl FILEEOF, h\<lparr>hf_curPageNo := - 1, hf_curPage := Null\<rparr>, s))
                            | Inr rid \<Rightarrow>
                                (let h = h\<lparr>hf_curRec := rid\<rparr>
                                 in case Page_getRecord pg rid of
                                      Inl st \<Rightarrow> Some (Inl st, h, s)
                                    | Inr rec \<Rightarrow>
                                        if matchRec (hs_filter h) rec then Some (Inr rid, h, s)
                                        else scan_loop s h)))))
      else scan_loop s h)"

definition HeapFileScan_getRecord :: "'a bsys_scheme \<Rightarrow> 'h HeapFile_scheme \<Rightarrow> (Status + byte list) option" where
  "HeapFileScan_getRecord s h =
     map_option (\<lambda>pg. Page_getRecord pg (hf_curRec h)) (deref s (hf_curPage h))"

definition HeapFileScan_deleteRecord :: "'a bsys_scheme \<Rightarrow> 'h HeapFile_scheme \<Rightarrow>
    (Status \<times> 'h HeapFile_scheme \<times> 'a bsys_scheme) option" where
  "HeapFileScan_deleteRecord s h =
     (case deref s (hf_curPage h) of
        None \<Rightarrow> None
      | Some pg \<Rightarrow>
          (case Page_deleteRecord pg (hf_curRec h) of
             (st, pg) \<Rightarrow>
               (let s = store s (hf_curPage h) pg
                in case deref s (hf_headerPage h) of
                     None \<Rightarrow> None
                   | Some hdr \<Rightarrow>
                       Some (st, h\<lparr>hf_curDirtyFlag := True, hf_hdrDirtyFlag := True\<rparr>,
                         store s (hf_headerPage h) (set_hdr_recCnt (hdr_recCnt hdr - 1) hdr)))))"

definition markDirty :: "'h HeapFile_scheme \<Rightarrow> Status \<times> 'h HeapFile_scheme" where
  "markDirty h = (OK, h\<lparr>hf_curDirtyFlag := True\<rparr>)"

subsection \<open>Insertion\<close>

text \<open>
  The constructor moves from the first data page to the last one; failures are printed and
  the status of the last call is reported. A failed read leaves the pointer to the page that
  was just unpinned. After a failed open the constructor goes on to look at fields that the
  base class has not set, which has no defined behaviour.
\<close>

definition InsertFileScan_init ::
  "'a dsys_scheme \<Rightarrow> string \<Rightarrow> ((Status \<times> HeapFile) \<times> 'a dsys_scheme) option" where
  "InsertFileScan_init s name =
     (case HeapFile_init s name of
        None \<Rightarrow> None
      | Some (Inl _, s) \<Rightarrow> None
      | Some (Inr h, s) \<Rightarrow>
          (case deref s (hf_headerPage h) of
             None \<Rightarrow> None
           | Some hdr \<Rightarrow>
               if hf_curPage h \<noteq> Null \<and> hf_curPageNo h \<noteq> hdr_lastPage hdr then
                 (case BufMgr_unPinPage s (hf_filePtr h) (hf_curPageNo h) (hf_curDirtyFlag h) of
                    (_, s) \<Rightarrow>
                      (case deref s (hf_headerPage h) of
                         None \<Rightarrow> None
                       | Some hdr \<Rightarrow>
                           (let h = h\<lparr>hf_curPageNo := hdr_lastPage hdr, hf_curDirtyFlag := False\<rparr>
                            in case BufMgr_readPage s (hf_filePtr h) (hf_curPageNo h) of
                                 (Inl st, s) \<Rightarrow> Some ((st, h), s)
                               | (Inr f, s) \<Rightarrow> Some ((OK, h\<lparr>hf_curPage := Frame f\<rparr>), s))))
               else Some ((OK, h), s)))"

definition InsertFileScan_destroy :: "'a dsys_scheme \<Rightarrow> HeapFile \<Rightarrow> 'a dsys_scheme" where
  "InsertFileScan_destroy s h =
     (if hf_curPage h \<noteq> Null then
        (case BufMgr_unPinPage s (hf_filePtr h) (hf_curPageNo h) True of
           (_, s) \<Rightarrow> HeapFile_destroy s (h\<lparr>hf_curPage := Null, hf_curPageNo := 0\<rparr>))
      else HeapFile_destroy s h)"

text \<open>A record that went into the current page: the header counts it.\<close>

definition record_added :: "'a bsys_scheme \<Rightarrow> HeapFile \<Rightarrow> memory \<Rightarrow> (HeapFile \<times> 'a bsys_scheme) option" where
  "record_added s h pg =
     (let s = store s (hf_curPage h) pg
      in case deref s (hf_headerPage h) of
           None \<Rightarrow> None
         | Some hdr \<Rightarrow>
             Some (h\<lparr>hf_hdrDirtyFlag := True, hf_curDirtyFlag := True\<rparr>,
               store s (hf_headerPage h) (set_hdr_recCnt (hdr_recCnt hdr + 1) hdr)))"

text \<open>A full last page: a new page is linked behind it and becomes the current one.\<close>

definition insert_new_page :: "'a bsys_scheme \<Rightarrow> HeapFile \<Rightarrow> byte list \<Rightarrow>
    ((Status + RID) \<times> HeapFile \<times> 'a bsys_scheme) option" where
  "insert_new_page s h rec =
     (case BufMgr_allocPage s (hf_filePtr h) of
        (Inl st, s) \<Rightarrow> Some (Inl st, h, s)
      | (Inr (newPageNo, newPage), s) \<Rightarrow>
          (let s = store s (Frame newPage)
                     (snd (Page_setNextPage (Page_init (bufPool (bufMgr s) ! newPage) newPageNo) (- 1)))
           in case deref s (hf_headerPage h) of
                None \<Rightarrow> None
              | Some hdr \<Rightarrow>
                  (let s = store s (hf_headerPage h)
                             (set_hdr_pageCnt (hdr_pageCnt hdr + 1) (set_hdr_lastPage newPageNo hdr));
                       h = h\<lparr>hf_hdrDirtyFlag := True\<rparr>
                   in case deref s (hf_curPage h) of
                        None \<Rightarrow> None
                      | Some cur \<Rightarrow>
                          (let s = store s (hf_curPage h) (snd (Page_setNextPage cur newPageNo))
                           in case BufMgr_unPinPage s (hf_filePtr h) (hf_curPageNo h) True of
                                (st, s) \<Rightarrow>
                                  if st \<noteq> OK then
                                    (case BufMgr_unPinPage s (hf_filePtr h) newPageNo True of
                                       (st, s) \<Rightarrow>
                                         Some (Inl st, h\<lparr>hf_curPage := Null, hf_curPageNo := - 1,
                                                        hf_curDirtyFlag := False\<rparr>, s))
                                  else
                                    (let h = h\<lparr>hf_curPage := Frame newPage, hf_curPageNo := newPageNo\<rparr>
                                     in case Page_insertRecord (bufPool (bufMgr s) ! newPage) rec of
                                          (Inl st, pg) \<Rightarrow> Some (Inl st, h, store s (hf_curPage h) pg)
                                        | (Inr rid, pg) \<Rightarrow>
                                            map_option (\<lambda>(h, s). (Inr rid, h, s)) (record_added s h pg))))))"

definition insertRecord :: "'a bsys_scheme \<Rightarrow> HeapFile \<Rightarrow> byte list \<Rightarrow>
    ((Status + RID) \<times> HeapFile \<times> 'a bsys_scheme) option" where
  "insertRecord s h rec =
     (if int (length rec) > PAGESIZE - DPFIXED then Some (Inl INVALIDRECLEN, h, s)
      else
        case (if hf_curPage h = Null then
                (case deref s (hf_headerPage h) of
                   None \<Rightarrow> None
                 | Some hdr \<Rightarrow>
                     (let h = h\<lparr>hf_curPageNo := hdr_lastPage hdr\<rparr>
                      in case BufMgr_readPage s (hf_filePtr h) (hf_curPageNo h) of
                           (Inl st, s) \<Rightarrow> Some (st, h, s)
                         | (Inr f, s) \<Rightarrow> Some (OK, h\<lparr>hf_curPage := Frame f\<rparr>, s)))
              else Some (OK, h, s)) of
          None \<Rightarrow> None
        | Some (st, h, s) \<Rightarrow>
            if st \<noteq> OK then Some (Inl st, h, s)
            else
              (case deref s (hf_curPage h) of
                 None \<Rightarrow> None
               | Some cur \<Rightarrow>
                   (case Page_insertRecord cur rec of
                      (Inr rid, pg) \<Rightarrow>
                        map_option (\<lambda>(h, s). (Inr rid, h, s)) (record_added s h pg)
                    | (Inl _, pg) \<Rightarrow> insert_new_page (store s (hf_curPage h) pg) h rec)))"

end
