(* ===== verification/Heap_Spec.thy ===== *)
theory Heap_Spec
  imports HeapFile DB_Props Page_Refine
begin

text \<open>
  The contents of a heap file as a map from record identifiers to records, and what storing a
  record in a page and linking a new page do to it. A heap file lives in the map from page
  numbers to pages that the buffer manager presents (\<open>logical\<close>).
\<close>

subsection \<open>Header fields\<close>

lemmas hdr_defs = hdr_firstPage_def hdr_lastPage_def hdr_pageCnt_def hdr_recCnt_def
  set_hdr_firstPage_def set_hdr_lastPage_def set_hdr_pageCnt_def set_hdr_recCnt_def

lemma hdr_fields [simp]:
  "hdr_firstPage (set_hdr_lastPage v m) = hdr_firstPage m" "hdr_firstPage (set_hdr_pageCnt v m) = hdr_firstPage m"
  "hdr_firstPage (set_hdr_recCnt v m) = hdr_firstPage m" "hdr_firstPage (set_hdr_firstPage v m) = swrap 32 v"
  "hdr_lastPage (set_hdr_firstPage v m) = hdr_lastPage m" "hdr_lastPage (set_hdr_pageCnt v m) = hdr_lastPage m"
  "hdr_lastPage (set_hdr_recCnt v m) = hdr_lastPage m" "hdr_lastPage (set_hdr_lastPage v m) = swrap 32 v"
  "hdr_pageCnt (set_hdr_firstPage v m) = hdr_pageCnt m" "hdr_pageCnt (set_hdr_lastPage v m) = hdr_pageCnt m"
  "hdr_pageCnt (set_hdr_recCnt v m) = hdr_pageCnt m" "hdr_pageCnt (set_hdr_pageCnt v m) = swrap 32 v"
  "hdr_recCnt (set_hdr_firstPage v m) = hdr_recCnt m" "hdr_recCnt (set_hdr_lastPage v m) = hdr_recCnt m"
  "hdr_recCnt (set_hdr_pageCnt v m) = hdr_recCnt m" "hdr_recCnt (set_hdr_recCnt v m) = swrap 32 v"
  by (simp_all add: hdr_defs mem_simps)

lemma swrap_add: "swrap w (swrap w a + b) = swrap w (a + b)" "swrap w (b + swrap w a) = swrap w (b + a)"
  by (simp_all add: swrap_def mod_simps algebra_simps)

subsection \<open>Chains of pages\<close>

fun page_chain :: "(int \<Rightarrow> memory option) \<Rightarrow> int \<Rightarrow> int list \<Rightarrow> bool" where
  "page_chain m p [] \<longleftrightarrow> p = - 1"
| "page_chain m p (n # ns) \<longleftrightarrow> p = n \<and> 0 < n \<and>
     (case m n of
        None \<Rightarrow> False
      | Some pg \<Rightarrow> page_inv pg \<and> curPage pg = n \<and> page_chain m (nextPage pg) ns)"

definition rec_count :: "(int \<Rightarrow> memory option) \<Rightarrow> int list \<Rightarrow> int" where
  "rec_count m ns = sum_list (map (\<lambda>n. int (card (dom (contents (the (m n)))))) ns)"

definition heap_wf :: "(int \<Rightarrow> memory option) \<Rightarrow> int \<Rightarrow> int list \<Rightarrow> bool" where
  "heap_wf m hdrNo ns \<longleftrightarrow> ns \<noteq> [] \<and> distinct ns \<and> hdrNo \<notin> set ns \<and>
     (case m hdrNo of
        None \<Rightarrow> False
      | Some hdr \<Rightarrow> page_chain m (hdr_firstPage hdr) ns \<and> hdr_lastPage hdr = last ns \<and>
          hdr_pageCnt hdr = swrap 32 (int (length ns)) \<and> hdr_recCnt hdr = swrap 32 (rec_count m ns))"

definition heap_recs :: "(int \<Rightarrow> memory option) \<Rightarrow> int list \<Rightarrow> RID \<Rightarrow> byte list option" where
  "heap_recs m ns rid =
     (if rid_pageNo rid \<in> set ns then contents (the (m (rid_pageNo rid))) (rid_slotNo rid) else None)"

lemma heap_wfE:
  assumes "heap_wf m hdrNo ns"
  obtains hdr where "m hdrNo = Some hdr" "page_chain m (hdr_firstPage hdr) ns" "hdr_lastPage hdr = last ns"
    "hdr_pageCnt hdr = swrap 32 (int (length ns))" "hdr_recCnt hdr = swrap 32 (rec_count m ns)"
    "ns \<noteq> []" "distinct ns" "hdrNo \<notin> set ns"
  using assms by (auto simp: heap_wf_def split: option.splits)

lemma chain_page:
  assumes "page_chain m p ns" "n \<in> set ns"
  obtains pg where "m n = Some pg" "page_inv pg" "curPage pg = n" "0 < n"
proof -
  have "page_chain m p ns \<Longrightarrow> n \<in> set ns \<Longrightarrow> \<exists>pg. m n = Some pg \<and> page_inv pg \<and> curPage pg = n \<and> 0 < n"
    by (induction ns arbitrary: p) (auto split: option.splits)
  with assms that show ?thesis by blast
qed

lemma chain_cong: "page_chain m p ns \<Longrightarrow> (\<And>n. n \<in> set ns \<Longrightarrow> m' n = m n) \<Longrightarrow> page_chain m' p ns"
  by (induction ns arbitrary: p) (auto split: option.splits)

text \<open>Changing one page without its links, and linking a page behind the last one.\<close>

lemma chain_update:
  "page_chain m p ns \<Longrightarrow> m n = Some pg \<Longrightarrow> page_inv pg' \<Longrightarrow> curPage pg' = curPage pg \<Longrightarrow>
    nextPage pg' = nextPage pg \<Longrightarrow> page_chain (m(n \<mapsto> pg')) p ns"
  by (induction ns arbitrary: p) (auto split: option.splits)

lemma chain_append:
  assumes "page_chain m p ns" "ns \<noteq> []" "distinct ns" "new \<notin> set ns" "0 < new"
    and "m (last ns) = Some pg" "page_inv pg'" "curPage pg' = curPage pg" "nextPage pg' = new"
    and "page_inv fresh" "curPage fresh = new" "nextPage fresh = - 1"
  shows "page_chain (m(new \<mapsto> fresh, last ns \<mapsto> pg')) p (ns @ [new])"
  using assms(1-4,6)
proof (induction ns arbitrary: p)
  case (Cons n ns)
  obtain q where q: "m n = Some q" "page_inv q" "curPage q = n" "page_chain m (nextPage q) ns" "p = n" "0 < n"
    using Cons.prems(1) by (auto split: option.splits)
  show ?case
  proof (cases "ns = []")
    case True
    then show ?thesis using q Cons.prems assms(5,7-12) by auto
  next
    case False
    then have l: "last (n # ns) = last ns" "last ns \<noteq> n" using Cons.prems(3) by auto
    then show ?thesis
      using Cons.IH [OF q(4) False] Cons.prems q by (auto simp del: last.simps)
  qed
qed simp

lemma chain_last_next:
  "page_chain m p ns \<Longrightarrow> ns \<noteq> [] \<Longrightarrow> m (last ns) = Some pg \<Longrightarrow> nextPage pg = - 1"
  by (induction ns arbitrary: p) (auto split: option.splits if_splits)

lemma rec_count_cong: "(\<And>n. n \<in> set ns \<Longrightarrow> m' n = m n) \<Longrightarrow> rec_count m' ns = rec_count m ns"
  unfolding rec_count_def by (rule arg_cong [where f = sum_list], rule map_cong) auto

lemma rec_count_update:
  assumes "distinct ns" "n \<in> set ns"
  shows "rec_count (m(n \<mapsto> pg')) ns = rec_count m ns
    - int (card (dom (contents (the (m n))))) + int (card (dom (contents pg')))"
  using assms
proof (induction ns)
  case (Cons k ns)
  show ?case
  proof (cases "k = n")
    case True
    then have "rec_count (m(n \<mapsto> pg')) ns = rec_count m ns" using Cons.prems by (intro rec_count_cong) auto
    then show ?thesis using True by (simp add: rec_count_def)
  next
    case False
    then show ?thesis using Cons by (simp add: rec_count_def)
  qed
qed simp

subsection \<open>Records\<close>

lemma finite_contents: "finite (dom (contents p))"
proof -
  have "dom (contents p) \<subseteq> uminus ` {i. in_use p i}"
    using contents_dom [of p] by (force simp: image_iff)
  then show ?thesis by (rule finite_subset) simp
qed

text \<open>A record that goes into one of the pages of the file.\<close>

lemma heap_insert:
  assumes "heap_wf m hdrNo ns" "n \<in> set ns" "m n = Some pg" "m hdrNo = Some hdr"
    and "Page_insertRecord pg rec = (Inr rid, pg')" "rec \<noteq> []"
  defines "m' \<equiv> m(n \<mapsto> pg', hdrNo \<mapsto> set_hdr_recCnt (hdr_recCnt hdr + 1) hdr)"
  shows "heap_wf m' hdrNo ns" "heap_recs m' ns = (heap_recs m ns)(rid \<mapsto> rec)"
    "heap_recs m ns rid = None" "rid_pageNo rid = n"
proof -
  obtain "page_chain m (hdr_firstPage hdr) ns" "hdr_lastPage hdr = last ns"
    "hdr_pageCnt hdr = swrap 32 (int (length ns))" "hdr_recCnt hdr = swrap 32 (rec_count m ns)"
    "ns \<noteq> []" "distinct ns" "hdrNo \<notin> set ns"
    using assms(1,4) by (auto elim: heap_wfE)
  note W = this
  obtain "page_inv pg" "curPage pg = n" using chain_page [OF W(1) assms(2)] assms(3) by auto
  note fits = Page_insert_Inr_fits [OF assms(5)]
  note E = insert_effect(1,5,6) [OF \<open>page_inv pg\<close> fits assms(5)]
  note I = pg.ins_Inr [OF \<open>page_inv pg\<close> assms(6,5)]
  show r: "rid_pageNo rid = n" using E(1) \<open>curPage pg = n\<close> by simp
  show "heap_recs m ns rid = None" using I assms(2,3) r by (simp add: heap_recs_def)
  have "page_chain (m(n \<mapsto> pg')) (hdr_firstPage hdr) ns"
    by (rule chain_update [OF W(1) assms(3)]) (use I E in simp_all)
  then have c: "page_chain m' (hdr_firstPage hdr) ns"
    by (rule chain_cong) (use W(7) in \<open>auto simp: m'_def\<close>)
  have "dom (contents pg') = insert (rid_slotNo rid) (dom (contents pg))" using I by auto
  then have "card (dom (contents pg')) = Suc (card (dom (contents pg)))"
    using I finite_contents [of pg] by (simp add: domIff)
  moreover have "rec_count m' ns = rec_count (m(n \<mapsto> pg')) ns"
    by (rule rec_count_cong) (use W(7) in \<open>auto simp: m'_def\<close>)
  ultimately have "rec_count m' ns = rec_count m ns + 1"
    using rec_count_update [OF W(6) assms(2), of m pg'] assms(3) by simp
  then show "heap_wf m' hdrNo ns"
    using c W by (simp add: heap_wf_def m'_def swrap_add)
  show "heap_recs m' ns = (heap_recs m ns)(rid \<mapsto> rec)"
    using I assms(2,3) r W(7) by (auto simp: heap_recs_def m'_def fun_eq_iff RID.expand)
qed

text \<open>A record removed from one of the pages of the file.\<close>

lemma heap_delete:
  assumes "heap_wf m hdrNo ns" "n \<in> set ns" "m n = Some pg" "m hdrNo = Some hdr"
    and "contents pg (rid_slotNo rid) = Some rec" "Page_deleteRecord pg rid = (st, pg')"
  defines "m' \<equiv> m(n \<mapsto> pg', hdrNo \<mapsto> set_hdr_recCnt (hdr_recCnt hdr - 1) hdr)"
  shows "st = OK" "heap_wf m' hdrNo ns"
    "heap_recs m' ns = (heap_recs m ns)(RID n (rid_slotNo rid) := None)"
proof -
  obtain "page_chain m (hdr_firstPage hdr) ns" "hdr_lastPage hdr = last ns"
    "hdr_pageCnt hdr = swrap 32 (int (length ns))" "hdr_recCnt hdr = swrap 32 (rec_count m ns)"
    "ns \<noteq> []" "distinct ns" "hdrNo \<notin> set ns"
    using assms(1,4) by (auto elim: heap_wfE)
  note W = this
  obtain "page_inv pg" "curPage pg = n" using chain_page [OF W(1) assms(2)] assms(3) by auto
  have u: "in_use pg (- rid_slotNo rid)" using assms(5) contents_dom [of pg "rid_slotNo rid"] by simp
  note E = delete_effect(7,8) [OF \<open>page_inv pg\<close> u _ assms(6)]
  note I = pg.del_Some [OF \<open>page_inv pg\<close> assms(5,6)]
  show "st = OK" using I by simp
  have "page_chain (m(n \<mapsto> pg')) (hdr_firstPage hdr) ns"
    by (rule chain_update [OF W(1) assms(3)]) (use I E in simp_all)
  then have c: "page_chain m' (hdr_firstPage hdr) ns"
    by (rule chain_cong) (use W(7) in \<open>auto simp: m'_def\<close>)
  have "card (dom (contents pg)) = Suc (card (dom (contents pg')))"
    using I assms(5) card_Suc_Diff1 [OF finite_contents, of "rid_slotNo rid" pg] by (auto simp: domIff)
  moreover have "rec_count m' ns = rec_count (m(n \<mapsto> pg')) ns"
    by (rule rec_count_cong) (use W(7) in \<open>auto simp: m'_def\<close>)
  ultimately have "rec_count m' ns = rec_count m ns - 1"
    using rec_count_update [OF W(6) assms(2), of m pg'] assms(3) by simp
  then show "heap_wf m' hdrNo ns"
    using c W swrap_add(1) [of 32 "rec_count m ns" "- 1"] by (simp add: heap_wf_def m'_def)
  show "heap_recs m' ns = (heap_recs m ns)(RID n (rid_slotNo rid) := None)"
    using I assms(2,3) W(7) by (auto simp: heap_recs_def m'_def fun_eq_iff RID.expand)
qed

text \<open>A fresh page linked behind the last one.\<close>

lemma heap_append:
  fixes x :: memory
  assumes "heap_wf m hdrNo ns" "m new = None" "0 < new" "new < 2147483648"
    and "m (last ns) = Some pg" "m hdrNo = Some hdr"
  defines "m' \<equiv> m(new \<mapsto> set_nextPage (Page_init x new) (- 1),
      hdrNo \<mapsto> set_hdr_pageCnt (hdr_pageCnt hdr + 1) (set_hdr_lastPage new hdr),
      last ns \<mapsto> set_nextPage pg new)"
  shows "heap_wf m' hdrNo (ns @ [new])" "heap_recs m' (ns @ [new]) = heap_recs m ns"
proof -
  obtain "page_chain m (hdr_firstPage hdr) ns" "hdr_lastPage hdr = last ns"
    "hdr_pageCnt hdr = swrap 32 (int (length ns))" "hdr_recCnt hdr = swrap 32 (rec_count m ns)"
    "ns \<noteq> []" "distinct ns" "hdrNo \<notin> set ns"
    using assms(1,6) by (auto elim: heap_wfE)
  note W = this
  have l: "last ns \<in> set ns" using W(5) by simp
  obtain "page_inv pg" "curPage pg = last ns" using chain_page [OF W(1) l] assms(5) by auto
  note P = this
  have new: "new \<notin> set ns" "new \<noteq> hdrNo" using chain_page [OF W(1)] assms(2,6) by force+
  let ?f = "set_nextPage (Page_init x new) (- 1)" and ?p = "set_nextPage pg new"
  have f: "page_inv ?f" "curPage ?f = new" "nextPage ?f = - 1" "contents ?f = Map.empty"
    using Page_init_inv [of x new] assms(3,4)
    by (simp_all add: setNextPage_inv setNextPage_contents Page_init_contents slot_simps Page_init_fields)
  have p: "page_inv ?p" "curPage ?p = curPage pg" "nextPage ?p = new" "contents ?p = contents pg"
    using P assms(3,4) by (simp_all add: setNextPage_inv setNextPage_contents slot_simps)
  have "page_chain (m(new \<mapsto> ?f, last ns \<mapsto> ?p)) (hdr_firstPage hdr) (ns @ [new])"
    by (rule chain_append [OF W(1,5,6) new(1) assms(3,5) p(1-3) f(1-3)])
  then have c: "page_chain m' (hdr_firstPage hdr) (ns @ [new])"
    by (rule chain_cong) (use W(7) new in \<open>auto simp: m'_def\<close>)
  have old: "contents (the (m' n)) = contents (the (m n))" if "n \<in> set ns" for n
    using that W(7) new p(4) assms(5) by (auto simp: m'_def)
  have e: "contents (the (m' new)) = Map.empty" using f(4) new l by (auto simp: m'_def)
  have "map (\<lambda>n. int (card (dom (contents (the (m' n)))))) ns =
      map (\<lambda>n. int (card (dom (contents (the (m n)))))) ns"
    using old by simp
  from arg_cong [OF this, of sum_list] have "rec_count m' (ns @ [new]) = rec_count m ns"
    by (simp add: rec_count_def e)
  moreover have "m' hdrNo = Some (set_hdr_pageCnt (hdr_pageCnt hdr + 1) (set_hdr_lastPage new hdr))"
    using l W(7) by (auto simp: m'_def)
  ultimately show "heap_wf m' hdrNo (ns @ [new])"
    using c W new assms(3,4) by (simp add: heap_wf_def swrap_add add.commute)
  show "heap_recs m' (ns @ [new]) = heap_recs m ns"
    using old e new by (auto simp: heap_recs_def fun_eq_iff)
qed

end
