(* ===== verification/Heap_Pool.thy ===== *)
theory Heap_Pool
  imports Heap_Spec
begin

text \<open>
  What the heap file code needs of the buffer pool: pages that an object holds, dirty flags
  that cover the changes the pool does not know of, and the number of pins on a page.
\<close>

subsection \<open>Pinned pages\<close>

lemma holds_logical: "holds s fl p f \<Longrightarrow> logical s fl p = Some (bufPool (bufMgr s) ! f)"
  by (simp add: holds_def logical_def)

lemma holds_deref: "holds s fl p f \<Longrightarrow> deref s (Frame f) = logical s fl p"
  by (simp add: holds_logical)

lemma holds_inj: "buf_ok s \<Longrightarrow> holds s g q f \<Longrightarrow> holds s g' q' f \<Longrightarrow> g = g' \<and> q = q'"
  using holds_frame(3) [of s g q f] holds_frame(3) [of s g' q' f] by (simp add: holds_def)

lemma store_held:
  assumes "buf_ok s" "holds s fl p f"
  shows "buf_ok (store s (Frame f) pg)" "logical (store s (Frame f) pg) fl = (logical s fl)(p \<mapsto> pg)"
    "holds (store s (Frame f) pg) = holds s" "live (store s (Frame f) pg) = live s"
    "objs (store s (Frame f) pg) = objs s" "disk_page (store s (Frame f) pg) g = disk_page s g"
    "desc (bufMgr (store s (Frame f) pg)) i = desc (bufMgr s) i"
    "\<And>g. g \<noteq> fl \<Longrightarrow> logical (store s (Frame f) pg) g = logical s g"
proof -
  note W = write_frame_spec [OF assms, where pg = pg]
  show "buf_ok (store s (Frame f) pg)" "live (store s (Frame f) pg) = live s"
    "objs (store s (Frame f) pg) = objs s" "disk_page (store s (Frame f) pg) g = disk_page s g"
    "desc (bufMgr (store s (Frame f) pg)) i = desc (bufMgr s) i"
    using W(1) by (simp_all add: buf_simps)
  show "logical (store s (Frame f) pg) fl = (logical s fl)(p \<mapsto> pg)"
    "\<And>g. g \<noteq> fl \<Longrightarrow> logical (store s (Frame f) pg) g = logical s g"
    using W(5) by (simp_all add: fun_eq_iff)
  show "holds (store s (Frame f) pg) = holds s" using W(4) by (simp add: holds_def fun_eq_iff buf_simps)
qed

definition flag_ok :: "'a bsys_scheme \<Rightarrow> int \<Rightarrow> int \<Rightarrow> bool \<Rightarrow> nat \<Rightarrow> bool" where
  "flag_ok s fl p flag f \<longleftrightarrow> flag \<or> dirty (desc (bufMgr s) f) \<or> disk_page s fl p = logical s fl p"

lemma unPin_held:
  assumes "buf_ok s" "holds s fl p f" "flag_ok s fl p dt f" "BufMgr_unPinPage s fl p dt = (st, t)"
  shows "st = OK" "buf_ok t" "same_view s t" "disk_page t g = disk_page s g"
    "\<And>g q f'. (g, q) \<noteq> (fl, p) \<Longrightarrow> holds s g q f' \<Longrightarrow> holds t g q f'"
    "\<And>i. i \<noteq> f \<Longrightarrow> desc (bufMgr t) i = desc (bufMgr s) i"
    "\<And>g q f'. holds t g q f' \<Longrightarrow> holds s g q f'"
proof -
  have B: "buffered s fl p = Some f" "0 < pinCnt (desc (bufMgr s) f)" using assms(2) by (simp_all add: holds_def)
  have "dt \<or> dirty (desc (bufMgr s) fr) \<or> 1 < pinCnt (desc (bufMgr s) fr) \<or> disk_page s fl p = logical s fl p"
    if "buffered s fl p = Some fr" for fr
    using assms(3) B(1) that by (auto simp: flag_ok_def)
  note U = unPinPage_spec [OF assms(1,4) this]
  show "st = OK" "buf_ok t" "same_view s t" using U B by simp_all
  note H = holds_frame(1) [OF assms(1) B(1)]
  show "disk_page t g = disk_page s g"
    using assms(4) B by (auto simp: BufMgr_unPinPage_def lookup_eq Let_def split: if_splits)
  show D: "\<And>i. i \<noteq> f \<Longrightarrow> desc (bufMgr t) i = desc (bufMgr s) i"
    using assms(4) B by (auto simp: BufMgr_unPinPage_def lookup_eq Let_def buf_simps split: if_splits)
  show "holds t g q f'" if "(g, q) \<noteq> (fl, p)" "holds s g q f'" for g q f'
  proof -
    have "f' \<noteq> f" using holds_inj [OF assms(1) that(2), of fl p] assms(2) that(1) by auto
    then show ?thesis using that(2) D [of f'] U(3) by (simp add: holds_def)
  qed
  show "holds s g q f'" if "holds t g q f'" for g q f'
    using that D [of f'] U(3) B(2) by (cases "f' = f") (auto simp: holds_def)
qed

text \<open>Evictions do not touch the disk copy or the flags of a pinned page.\<close>

lemma allocBuf_held:
  assumes "buf_ok s" "BufMgr_allocBuf s = (r, s')" "holds s g q f"
  shows "disk_page s' g q = disk_page s g q" "dirty (desc (bufMgr s') f) = dirty (desc (bufMgr s) f)"
proof -
  obtain b n found where scan: "clock_scan (bufMgr s) 0 = (b, n, found)" by (metis prod_cases3)
  let ?i = "clockHand b"
  note D = framesD [OF assms(1)]
  have R: "clock_rel (bufMgr s) b" "?i < numBufs (bufMgr s)"
    using clock_scan_sound [OF scan D(2)] by (auto simp: pool_ok_def clock_rel_def)
  note Rd = clock_rel_desc [OF R(1), of ?i]
  have B: "buffered s g q = Some f" "0 < pinCnt (desc (bufMgr s) f)" using assms(3) by (simp_all add: holds_def)
  note H = holds_frame [OF assms(1) B(1)]
  have rel: "clock_rel (bufMgr s) (bufMgr s')"
    using allocBuf_spec [OF assms(1,2)] by (cases r) (auto simp: frame_freed_def)
  show "dirty (desc (bufMgr s') f) = dirty (desc (bufMgr s) f)"
    using clock_rel_desc(4) [OF rel, of f] H(1) D(4) by simp
  show "disk_page s' g q = disk_page s g q"
  proof (cases "dirty (desc b ?i) \<and> \<not> (\<not> found \<and> 2 * numBufs b \<le> n)")
    case False
    then show ?thesis
      using assms(2) scan by (auto simp: BufMgr_allocBuf_def Let_def split: if_splits)
  next
    case True
    let ?u = "s\<lparr>bufMgr := upd_stats (diskwrites_update (\<lambda>w. w + 1)) b\<rparr>"
    obtain st t where W: "File_writePage ?u (objs s (bd_file (desc b ?i))) (bd_pageNo (desc b ?i))
        (Some (bufPool b ! ?i)) = (st, t)" by fastforce
    have v: "valid (desc (bufMgr s) ?i)" "bd_file (desc b ?i) \<in> live s"
      "disk_page s (bd_file (desc b ?i)) (bd_pageNo (desc b ?i)) \<noteq> None"
      using D(4) D(6) [OF R(2)] R(2) Rd True by (auto simp: frame_ok_def split: if_splits)
    have ends: "found \<or> n < 2 * numBufs b" using True by auto
    have "pinCnt (desc (bufMgr s) ?i) = 0" using clock_victim(3) [OF assms(1) scan ends] .
    then have "f \<noteq> ?i" using B(2) by auto
    then have k: "(g, q) \<noteq> key (desc b ?i)"
      using frames_key_inj [OF assms(1), of f ?i] H R(2) v(1) Rd D(4) by auto
    have gl: "g \<in> live s" using buffered_in_use(1) [OF assms(1) B(1)] .
    have "disk_page t g q = disk_page s g q"
      using disk_write(4) [of ?u "bd_file (desc b ?i)" "bd_pageNo (desc b ?i)" "bufPool b ! ?i" st t g q]
        W v gl k D(1) by auto
    then show ?thesis using assms(2) scan True W by (auto simp: BufMgr_allocBuf_def Let_def)
  qed
qed

lemma readPage_held:
  assumes "buf_ok s" "BufMgr_readPage s fl p = (r, s')" "holds s g q f" "(g, q) \<noteq> (fl, p)"
  shows "disk_page s' g q = disk_page s g q" "dirty (desc (bufMgr s') f) = dirty (desc (bufMgr s) f)"
proof -
  have "disk_page s' g q = disk_page s g q \<and> dirty (desc (bufMgr s') f) = dirty (desc (bufMgr s) f)"
  proof (cases "buffered s fl p")
    case (Some fr)
    have "f \<noteq> fr" using holds_frame(3) [OF assms(1) Some] holds_frame(3) [OF assms(1), of g q f] assms(3,4)
      by (auto simp: holds_def)
    then show ?thesis using assms(2) Some by (auto simp: BufMgr_readPage_def lookup_eq buf_simps)
  next
    case None
    obtain ra t where A: "BufMgr_allocBuf s = (ra, t)" by fastforce
    note H = allocBuf_held [OF assms(1) A assms(3)]
    show ?thesis
    proof (cases ra)
      case (Inl e)
      then show ?thesis using assms(2) None A H by (auto simp: BufMgr_readPage_def lookup_eq)
    next
      case (Inr fr)
      have ff: "frame_freed s fr t" using allocBuf_spec [OF assms(1) A] Inr by simp
      then have "f \<noteq> fr" using assms(3) by (auto simp: frame_freed_def holds_def)
      then show ?thesis
        using assms(2) None A Inr H
        by (auto simp: BufMgr_readPage_def lookup_eq Let_def install_def buf_simps
            split: sum.splits prod.splits)
    qed
  qed
  then show "disk_page s' g q = disk_page s g q" "dirty (desc (bufMgr s') f) = dirty (desc (bufMgr s) f)"
    by simp_all
qed

text \<open>Reading a page pins that page only.\<close>

lemma readPage_desc:
  assumes "buf_ok s" "BufMgr_readPage s fl p = (r, s')" "r \<noteq> Inr f" "f < numBufs (bufMgr s)"
    and "read_result s fl p pg r s'"
  shows "pinCnt (desc (bufMgr s') f) = pinCnt (desc (bufMgr s) f) \<and>
    valid (desc (bufMgr s') f) = valid (desc (bufMgr s) f) \<and>
    key (desc (bufMgr s') f) = key (desc (bufMgr s) f)"
    (is "?same s'")
proof (cases "buffered s fl p")
  case (Some fr)
  then show ?thesis using assms(2,3) by (auto simp: BufMgr_readPage_def lookup_eq buf_simps)
next
  case None
  obtain ra t where A: "BufMgr_allocBuf s = (ra, t)" by fastforce
  have "clock_rel (bufMgr s) (bufMgr t)"
    using allocBuf_spec [OF assms(1) A] by (cases ra) (auto simp: frame_freed_def)
  then have t: "?same t"
    using clock_rel_desc [of "bufMgr s" "bufMgr t" f] framesD(4) [OF assms(1)] assms(4) by simp
  show ?thesis
  proof (cases ra)
    case (Inl e)
    then show ?thesis using assms(2) None A t by (auto simp: BufMgr_readPage_def lookup_eq)
  next
    case (Inr fr)
    show ?thesis
    proof (cases "fr = f")
      case True
      then have "\<not> all_pinned (bufMgr s)"
        using allocBuf_spec [OF assms(1) A] Inr by (auto simp: frame_freed_def all_pinned_def)
      then have "\<exists>x. r = Inr x" using assms(5) by (cases r) (simp_all add: read_result_def)
      then have False
        using assms(2,3) None A Inr True
        by (auto simp: BufMgr_readPage_def lookup_eq Let_def install_def split: sum.splits prod.splits if_splits)
      then show ?thesis ..
    next
      case False
      then show ?thesis
        using assms(2) None A Inr t
        by (auto simp: BufMgr_readPage_def lookup_eq Let_def install_def buf_simps
            split: sum.splits prod.splits)
    qed
  qed
qed

lemma readPage_numBufs:
  assumes "buf_ok s" "BufMgr_readPage s fl p = (r, s')"
  shows "numBufs (bufMgr s') = numBufs (bufMgr s)"
proof (cases "buffered s fl p")
  case (Some fr)
  then show ?thesis using assms(2) by (auto simp: BufMgr_readPage_def lookup_eq buf_simps)
next
  case None
  obtain ra t where A: "BufMgr_allocBuf s = (ra, t)" by fastforce
  have "numBufs (bufMgr t) = numBufs (bufMgr s)"
    using allocBuf_spec [OF assms(1) A] by (cases ra) (auto simp: frame_freed_def clock_rel_def)
  then show ?thesis
    using assms(2) None A
    by (auto simp: BufMgr_readPage_def lookup_eq Let_def install_def buf_simps split: sum.splits prod.splits)
qed

lemma readPage_holds:
  assumes "buf_ok s" "fl \<in> live s" "logical s fl p = Some pg"
    and "BufMgr_readPage s fl p = (r, s')" "holds s' g q f"
  shows "holds s g q f \<or> (g, q) = (fl, p)"
proof (cases "r = Inr f")
  case True
  then show ?thesis
    using readPage_spec [OF assms(1-4)] holds_inj [of s' g q f fl p] assms(5) by (simp add: read_result_def)
next
  case False
  note R = readPage_spec [OF assms(1-4)]
  have ok: "buf_ok s'" using R by (simp add: read_result_def)
  have n: "numBufs (bufMgr s') = numBufs (bufMgr s)" by (rule readPage_numBufs [OF assms(1,4)])
  have B: "buffered s' g q = Some f" "0 < pinCnt (desc (bufMgr s') f)" using assms(5) by (simp_all add: holds_def)
  note H = holds_frame [OF ok B(1)]
  show ?thesis
    using readPage_desc [OF assms(1,4) False _ R] H n B(2) frames_map [OF assms(1), of "(g, q)" f]
    by (simp add: holds_def buffered_def)
qed

text \<open>
  A page of which everybody who holds it has reported the changes. A page that nobody holds
  is settled, and reading a page or unpinning another one leaves settled pages settled.
\<close>

definition settled :: "'a bsys_scheme \<Rightarrow> int \<Rightarrow> int \<Rightarrow> bool" where
  "settled s fl p \<longleftrightarrow> (\<forall>f. holds s fl p f \<longrightarrow> flag_ok s fl p False f)"

lemma readPage_flag:
  assumes "buf_ok s" "fl \<in> live s" "logical s fl p = Some pg" "settled s fl p"
    and "BufMgr_readPage s fl p = (Inr fr, s')"
  shows "flag_ok s' fl p False fr"
proof -
  note R = readPage_spec [OF assms(1-3,5)]
  have lg: "logical s' fl p = Some pg" using R assms(2,3) by (simp add: read_result_def same_view_def)
  show ?thesis
  proof (cases "buffered s fl p")
    case (Some f)
    note H = holds_frame [OF assms(1) Some]
    have "flag_ok s fl p False f" if "\<not> holds s fl p f"
      using H(2-4) Some that by (auto simp: flag_ok_def frame_ok_def logical_def holds_def)
    then have "dirty (desc (bufMgr s) f) \<or> disk_page s fl p = logical s fl p"
      using assms(4) by (cases "holds s fl p f") (auto simp: settled_def flag_ok_def)
    moreover have "fr = f" "s' = s\<lparr>bufMgr := upd_desc f (\<lambda>d. d\<lparr>refbit := True, pinCnt := pinCnt d + 1\<rparr>) (bufMgr s)\<rparr>"
      using assms(5) Some by (auto simp: BufMgr_readPage_def lookup_eq)
    ultimately show ?thesis
      using lg assms(3) H(1) framesD(4) [OF assms(1)] by (simp add: flag_ok_def buf_simps)
  next
    case None
    obtain ra t where A: "BufMgr_allocBuf s = (ra, t)" by fastforce
    obtain f where f: "ra = Inr f" using assms(5) None A by (cases ra) (auto simp: BufMgr_readPage_def lookup_eq)
    then have T: "same_view s t" "buffered t fl p = None"
      using allocBuf_spec [OF assms(1) A] None by (simp_all add: frame_freed_def)
    then have "logical t fl p = Some pg" using assms(2,3) by (simp add: same_view_def)
    then have "disk_page t fl p = Some pg" using T(2) by (simp add: logical_def)
    moreover have "disk_page s' fl p = disk_page t fl p"
      using assms(5) None A f
      by (auto simp: BufMgr_readPage_def lookup_eq Let_def install_def split: sum.splits prod.splits)
    ultimately show ?thesis using lg by (simp add: flag_ok_def)
  qed
qed

lemma holds_live: "buf_ok s \<Longrightarrow> holds s g q f \<Longrightarrow> g \<in> live s"
  using holds_frame [of s g q f] by (auto simp: holds_def frame_ok_def)

text \<open>What keeps a page settled.\<close>

lemma settled_keep:
  assumes "\<And>f. holds s' g q f \<Longrightarrow> holds s g q f \<and> dirty (desc (bufMgr s') f) = dirty (desc (bufMgr s) f) \<and>
      disk_page s' g q = disk_page s g q \<and> logical s' g q = logical s g q"
    and "settled s g q"
  shows "settled s' g q"
  using assms unfolding settled_def flag_ok_def by metis

lemma readPage_settled:
  assumes "buf_ok s" "fl \<in> live s" "logical s fl p = Some pg" "BufMgr_readPage s fl p = (r, s')"
    and "settled s fl q" "q \<noteq> p"
  shows "settled s' fl q"
proof -
  have "flag_ok s' fl q False f" if "holds s' fl q f" for f
  proof -
    have h: "holds s fl q f" using readPage_holds [OF assms(1-4) that] assms(6) by auto
    then have "flag_ok s fl q False f" using assms(5) by (simp add: settled_def)
    then show ?thesis
      using readPage_held [OF assms(1,4) h] readPage_spec [OF assms(1-4)] assms(2,6)
      by (simp add: flag_ok_def read_result_def same_view_def)
  qed
  then show ?thesis by (simp add: settled_def)
qed

lemma unPin_settled:
  assumes "buf_ok s" "holds s fl p f" "flag_ok s fl p dt f" "BufMgr_unPinPage s fl p dt = (st, t)" "fl \<in> live s"
  shows "settled t fl p" "\<And>q. q \<noteq> p \<Longrightarrow> settled s fl q \<Longrightarrow> settled t fl q"
proof -
  note U = unPin_held [OF assms(1-4)]
  have lg: "logical t fl q = logical s fl q" "objs t = objs s" for q using U(3) assms(5) by (auto simp: same_view_def)
  have bf: "buffered s fl p = Some f" "f < length (bufTable (bufMgr s))"
    using assms(2) holds_frame(1) [OF assms(1), of fl p f] framesD(4) [OF assms(1)] by (simp_all add: holds_def)
  have "dirty (desc (bufMgr t) f) \<longleftrightarrow> dirty (desc (bufMgr s) f) \<or> dt"
    using assms(2,4) bf
    by (auto simp: BufMgr_unPinPage_def lookup_eq Let_def holds_def buf_simps split: if_splits)
  then have "flag_ok t fl p False f" using assms(3) U(4) [of fl] lg(1) unfolding flag_ok_def by auto
  then show "settled t fl p"
    using U(7) [of fl p] bf(1) by (auto simp: settled_def holds_def [of s])
  show "settled t fl q" if "q \<noteq> p" "settled s fl q" for q
  proof -
    have "flag_ok t fl q False k" if h: "holds t fl q k" for k
    proof -
      have s: "holds s fl q k" by (rule U(7) [OF h])
      then have "k \<noteq> f" using holds_inj [OF assms(1) s, of fl p] assms(2) \<open>q \<noteq> p\<close> by auto
      moreover have "flag_ok s fl q False k" using s \<open>settled s fl q\<close> by (simp add: settled_def)
      ultimately show ?thesis using U(4) [of fl] U(6) [of k] lg by (simp add: flag_ok_def)
    qed
    then show ?thesis by (simp add: settled_def)
  qed
qed

text \<open>
  Steps on behalf of one file: file objects and the pages of the other files stay as they
  are. A quiet step shows all pages as before.
\<close>

definition steady :: "int \<Rightarrow> 'a bsys_scheme \<Rightarrow> 'a bsys_scheme \<Rightarrow> bool" where
  "steady fl s s' \<longleftrightarrow> buf_frame s s' \<and> numBufs (bufMgr s') = numBufs (bufMgr s) \<and>
     (\<forall>g \<in> live s. g \<noteq> fl \<longrightarrow> logical s' g = logical s g \<and> (\<forall>q. settled s g q \<longrightarrow> settled s' g q))"

definition quiet :: "int \<Rightarrow> 'a bsys_scheme \<Rightarrow> 'a bsys_scheme \<Rightarrow> bool" where
  "quiet fl s s' \<longleftrightarrow> steady fl s s' \<and> same_view s s'"

lemma steady_refl: "steady fl s s"
  by (simp add: steady_def buf_frame_refl)

lemma steady_live: "steady fl s s' \<Longrightarrow> live s' = live s" "steady fl s s' \<Longrightarrow> objs s' = objs s"
  by (simp_all add: steady_def buf_frame_def)

lemma steady_trans:
  assumes "steady fl s s'" "steady fl s' s''"
  shows "steady fl s s''"
  using assms steady_live(1) [OF assms(1)] buf_frame_trans [of s s' s''] unfolding steady_def by simp

lemma quiet_refl: "quiet fl s s"
  by (simp add: quiet_def same_view_refl steady_refl)

lemma quiet_trans: "quiet fl s s' \<Longrightarrow> quiet fl s' s'' \<Longrightarrow> quiet fl s s''"
  unfolding quiet_def using same_view_trans steady_trans by blast

lemma quiet_logical: "quiet g s s' \<Longrightarrow> fl \<in> live s \<Longrightarrow> logical s' fl = logical s fl"
  by (auto simp: quiet_def same_view_def)

lemma unPin_quiet:
  assumes "buf_ok s" "holds s fl p f" "flag_ok s fl p dt f" "BufMgr_unPinPage s fl p dt = (st, t)"
  shows "quiet fl s t"
proof -
  note U = unPin_held [OF assms]
  have "numBufs (bufMgr t) = numBufs (bufMgr s)"
    using assms(4) by (auto simp: BufMgr_unPinPage_def Let_def buf_simps split: sum.splits if_splits)
  moreover have "logical t g = logical s g" if "g \<in> live s" for g
    using U(3) that by (auto simp: same_view_def)
  moreover have "settled t g q" if "g \<in> live s" "g \<noteq> fl" "settled s g q" for g q
  proof (rule settled_keep [OF _ that(3)])
    fix f' assume h: "holds t g q f'"
    then have "f' \<noteq> f" using holds_inj [OF assms(1) U(7) [OF h], of fl p] assms(2) that(2) by auto
    then show "holds s g q f' \<and> dirty (desc (bufMgr t) f') = dirty (desc (bufMgr s) f') \<and>
        disk_page t g q = disk_page s g q \<and> logical t g q = logical s g q"
      using U(7) [OF h] U(6) U(4) U(3) that(1) by (simp add: same_view_def)
  qed
  ultimately show ?thesis using U(3) unPinPage_frame [OF assms(4)] by (simp add: quiet_def steady_def)
qed

lemma readPage_quiet:
  assumes "buf_ok s" "fl \<in> live s" "logical s fl p = Some pg" "BufMgr_readPage s fl p = (r, s')"
  shows "quiet fl s s'"
proof -
  note R = readPage_spec [OF assms]
  have lg: "logical s' g = logical s g" if "g \<in> live s" for g
    using R that by (auto simp: same_view_def read_result_def)
  have "settled s' g q" if "g \<in> live s" "g \<noteq> fl" "settled s g q" for g q
  proof (rule settled_keep [OF _ that(3)])
    fix f assume "holds s' g q f"
    then have "holds s g q f" using readPage_holds [OF assms] that(2) by auto
    then show "holds s g q f \<and> dirty (desc (bufMgr s') f) = dirty (desc (bufMgr s) f) \<and>
        disk_page s' g q = disk_page s g q \<and> logical s' g q = logical s g q"
      using readPage_held [OF assms(1,4)] lg that(1,2) by simp
  qed
  then show ?thesis
    using lg R readPage_numBufs [OF assms(1,4)] readPage_frame [OF assms(1,4)]
    by (simp add: quiet_def steady_def read_result_def)
qed

lemma store_steady:
  assumes "buf_ok s" "holds s fl p f"
  shows "steady fl s (store s (Frame f) pg)"
proof -
  note S = store_held [OF assms, where pg = pg]
  have "settled (store s (Frame f) pg) g q" if "g \<noteq> fl" "settled s g q" for g q
    using S(3,6,7) S(8) [OF that(1)] that(2) by (simp add: settled_def flag_ok_def)
  then show ?thesis using S by (simp add: steady_def buf_simps buf_frame_refl)
qed

subsection \<open>Counting pins\<close>

definition pins :: "'a bsys_scheme \<Rightarrow> int \<Rightarrow> int \<Rightarrow> int" where
  "pins s g q = (case buffered s g q of None \<Rightarrow> 0 | Some f \<Rightarrow> pinCnt (desc (bufMgr s) f))"

lemma pins_nonneg: "buf_ok s \<Longrightarrow> 0 \<le> pins s g q"
  using holds_frame(4) [of s g q] by (auto simp: pins_def frame_ok_def split: option.split)

lemma pins_holds: "0 < pins s g q \<longleftrightarrow> (\<exists>f. holds s g q f)"
  by (auto simp: pins_def holds_def split: option.split)

lemma holds_pins: "holds s g q f \<Longrightarrow> pins s g q = pinCnt (desc (bufMgr s) f)"
  by (simp add: pins_def holds_def)

lemma pins_zero: "buf_ok s \<Longrightarrow> (\<And>f. \<not> holds s g q f) \<Longrightarrow> pins s g q = 0"
  using pins_nonneg [of s g q] pins_holds [of s g q] by force

lemma pool_same:
  assumes "bufMgr t = bufMgr s"
  shows "pins t = pins s" "holds t = holds s"
  by (simp_all add: pins_def holds_def buffered_def fun_eq_iff assms split: option.split)

lemma unPin_pins:
  assumes "buf_ok s" "holds s fl p f" "flag_ok s fl p dt f" "BufMgr_unPinPage s fl p dt = (st, t)"
  shows "pins t g q = pins s g q - (if (g, q) = (fl, p) then 1 else 0)"
    "pins base g q \<le> pins t g q \<Longrightarrow> holds base g q k \<Longrightarrow> holds s g q k \<Longrightarrow> holds t g q k"
proof -
  note U = unPin_held [OF assms]
  have B: "buffered t = buffered s"
    using assms(4) by (auto simp: BufMgr_unPinPage_def Let_def buffered_def fun_eq_iff buf_simps split: sum.splits if_splits)
  have f: "f < length (bufTable (bufMgr s))" "buffered s fl p = Some f" "0 < pinCnt (desc (bufMgr s) f)"
    using assms(2) holds_frame(1) [OF assms(1), of fl p f] framesD(4) [OF assms(1)] by (simp_all add: holds_def)
  have one: "pinCnt (desc (bufMgr t) f) = pinCnt (desc (bufMgr s) f) - 1"
    using assms(4) f by (auto simp: BufMgr_unPinPage_def lookup_eq Let_def buf_simps split: if_splits)
  have "k \<noteq> f" if "buffered s g q = Some k" "(g, q) \<noteq> (fl, p)" for k
    using holds_frame(3) [OF assms(1) that(1)] holds_frame(3) [OF assms(1) f(2)] that(2) by auto
  then show P: "pins t g q = pins s g q - (if (g, q) = (fl, p) then 1 else 0)"
    using one f(2) U(6) by (auto simp: pins_def B split: option.split)
  show "holds t g q k" if "pins base g q \<le> pins t g q" "holds base g q k" "holds s g q k"
  proof -
    have "0 < pins t g q" using that(1,2) pins_holds [of base g q] by force
    then show ?thesis using that(3) B by (simp add: pins_def holds_def)
  qed
qed

lemma readPage_pins:
  assumes "buf_ok s" "fl \<in> live s" "logical s fl p = Some pg" "BufMgr_readPage s fl p = (Inr fr, s')"
  shows "pins s' g q = pins s g q + (if (g, q) = (fl, p) then 1 else 0)"
proof -
  note R = readPage_spec [OF assms]
  have ok: "buf_ok s'" "holds s' fl p fr" "pins_kept s s'" using R by (simp_all add: read_result_def)
  show ?thesis
  proof (cases "(g, q) = (fl, p)")
    case True
    have "pinCnt (desc (bufMgr s') fr) = pins s fl p + 1"
    proof (cases "buffered s fl p")
      case (Some f)
      then have "fr = f" "s' = s\<lparr>bufMgr := upd_desc f (\<lambda>d. d\<lparr>refbit := True, pinCnt := pinCnt d + 1\<rparr>) (bufMgr s)\<rparr>"
        using assms(4) by (auto simp: BufMgr_readPage_def lookup_eq)
      then show ?thesis
        using Some holds_frame(1) [OF assms(1) Some] framesD(4) [OF assms(1)] by (simp add: pins_def buf_simps)
    next
      case None
      obtain ra t where A: "BufMgr_allocBuf s = (ra, t)" by fastforce
      obtain f where f: "ra = Inr f" using assms(4) None A by (cases ra) (auto simp: BufMgr_readPage_def lookup_eq)
      then have "f < length (bufTable (bufMgr t))"
        using allocBuf_spec [OF assms(1) A] framesD(4) [OF assms(1)] by (simp add: frame_freed_def clock_rel_def)
      then show ?thesis
        using assms(4) None A f
        by (auto simp: pins_def BufMgr_readPage_def lookup_eq Let_def install_def buf_simps BufDesc_Set_def
            split: sum.splits prod.splits if_splits)
    qed
    then show ?thesis using True ok(2) by (simp add: holds_pins)
  next
    case False
    show ?thesis
    proof (cases "\<exists>f. holds s g q f")
      case True
      then obtain f where f: "holds s g q f" "holds s' g q f" using ok(3) by (auto simp: pins_kept_def)
      have "f \<noteq> fr" using holds_inj [OF ok(1) f(2), of fl p] ok(2) False by auto
      then have "pinCnt (desc (bufMgr s') f) = pinCnt (desc (bufMgr s) f)"
        using readPage_desc [OF assms(1,4) _ _ R, of f] holds_frame(1) [OF assms(1), of g q f] f(1)
        by (simp add: holds_def)
      then show ?thesis using f False by (simp add: holds_pins)
    next
      case none: False
      then have "\<not> holds s' g q f" for f using readPage_holds [OF assms, of g q f] False by auto
      then show ?thesis using pins_zero [OF ok(1)] pins_zero [OF assms(1)] none False by auto
    qed
  qed
qed

lemma store_settled:
  assumes "buf_ok s" "holds s fl p f"
  shows "pins (store s (Frame f) pg) = pins s"
    "\<And>q k d. q \<noteq> p \<Longrightarrow> flag_ok s fl q d k \<Longrightarrow> flag_ok (store s (Frame f) pg) fl q d k"
    "\<And>q. q \<noteq> p \<Longrightarrow> settled s fl q \<Longrightarrow> settled (store s (Frame f) pg) fl q"
proof -
  note S = store_held [OF assms, where pg = pg]
  have "buffered (store s (Frame f) pg) = buffered s" by (simp add: buffered_def fun_eq_iff buf_simps)
  then show "pins (store s (Frame f) pg) = pins s" using S(7) by (simp add: pins_def fun_eq_iff split: option.split)
  show F: "flag_ok (store s (Frame f) pg) fl q d k" if "q \<noteq> p" "flag_ok s fl q d k" for q k d
    using that S(2,6,7) by (simp add: flag_ok_def)
  show "\<And>q. q \<noteq> p \<Longrightarrow> settled s fl q \<Longrightarrow> settled (store s (Frame f) pg) fl q"
    using F S(3) by (simp add: settled_def)
qed

subsection \<open>Allocating a page\<close>

text \<open>The states a successful \<open>allocPage\<close> goes through.\<close>

lemma allocPage_steps:
  assumes "buf_ok s" "fl \<in> live s" "BufMgr_allocPage s fl = (Inr (p, fr), s')"
  obtains t u where "bufMgr t = bufMgr s" "buf_ok t" "objs t = objs s" "buf_frame s t"
    "\<forall>g \<in> live s. \<forall>q. (g, q) \<noteq> (fl, p) \<longrightarrow> disk_page t g q = disk_page s g q" "disk_page s fl p = None"
    "BufMgr_allocBuf t = (Inr fr, u)" "install u fl p fr = (Inr fr, s')"
proof -
  have fi: "file_inv (objs s fl) s" using framesD(1) [OF assms(1)] assms(2) by (simp add: files_ok_def)
  obtain ra t where A: "File_allocatePage s (objs s fl) = (ra, t)" by fastforce
  have r: "ra = Inr p" using assms(3) A
    by (cases ra) (auto simp: BufMgr_allocPage_def split: sum.splits prod.splits)
  obtain pg where P: "file_inv (objs s fl) t" "disk_page s fl p = None"
    "used_pages (objs s fl) t = (used_pages (objs s fl) s)(p \<mapsto> pg)"
    using pf.alloc_Inr [OF fi, of p t] A r by auto
  note st = allocatePage_step [OF A]
  have none: "buffered s fl p = None"
    using P(2) by (cases "buffered s fl p") (auto dest!: buffered_in_use(2) [OF assms(1)])
  have d: "q \<noteq> p \<Longrightarrow> disk_page t fl q = disk_page s fl q" for q
    using P(3) file_step_fields(1) [OF st] by simp
  note F = frames_file_step [OF assms(1,2) st P(1) d none]
  have e: "\<forall>g \<in> live s. \<forall>q. (g, q) \<noteq> (fl, p) \<longrightarrow> disk_page t g q = disk_page s g q" using F(6) by blast
  obtain rb u where B: "BufMgr_allocBuf t = (rb, u)" by fastforce
  obtain k where k: "rb = Inr k" using assms(3) A r B
    by (cases rb) (auto simp: BufMgr_allocPage_def)
  obtain rc w where I: "install u fl p k = (rc, w)" by fastforce
  then have "rc = Inr k \<or> (\<exists>e. rc = Inl e)" by (auto simp: install_def Let_def split: prod.splits if_splits)
  then have "k = fr" "install u fl p fr = (Inr fr, s')"
    using assms(3) A r B k I by (auto simp: BufMgr_allocPage_def)
  then show ?thesis
    using that [of t u] F(1-3) e P(2) B k buf_frame_step [OF st assms(2)] file_step_fields(1) [OF st] by simp
qed

lemma allocPage_pins:
  assumes "buf_ok s" "fl \<in> live s" "BufMgr_allocPage s fl = (Inr (p, fr), s')"
  shows "pins s' g q = pins s g q + (if (g, q) = (fl, p) then 1 else 0)"
    "numBufs (bufMgr s') = numBufs (bufMgr s)" "buf_frame s s'"
    "\<And>g q k. holds s g q k \<Longrightarrow> disk_page s' g q = disk_page s g q \<and> dirty (desc (bufMgr s') k) = dirty (desc (bufMgr s) k)"
proof -
  obtain t u where T: "bufMgr t = bufMgr s" "buf_ok t" "objs t = objs s" "buf_frame s t"
    "\<forall>g \<in> live s. \<forall>q. (g, q) \<noteq> (fl, p) \<longrightarrow> disk_page t g q = disk_page s g q" "disk_page s fl p = None"
    "BufMgr_allocBuf t = (Inr fr, u)" "install u fl p fr = (Inr fr, s')"
    by (rule allocPage_steps [OF assms])
  note A = allocPage_spec [OF assms]
  have ok: "buf_ok s'" "pins_kept s s'" "holds s' fl p fr" using A by simp_all
  have ff: "frame_freed t fr u" using allocBuf_spec [OF T(2,7)] by simp
  have fr0: "pinCnt (desc (bufMgr s) fr) = 0" "fr < length (bufTable (bufMgr u))" "clock_rel (bufMgr s) (bufMgr u)"
    using ff T(1) framesD(4) [OF assms(1)] by (simp_all add: frame_freed_def clock_rel_def)
  have I: "desc (bufMgr s') k = (if k = fr then BufDesc_Set fl p (desc (bufMgr u) fr) else desc (bufMgr u) k)"
    "numBufs (bufMgr s') = numBufs (bufMgr u)" "buf_frame u s'" "disk_page s' g = disk_page u g" for k g
    using T(8) fr0(2) by (auto simp: install_def Let_def buf_simps buf_frame_refl split: prod.splits if_splits)
  show n: "numBufs (bufMgr s') = numBufs (bufMgr s)" using I(2) fr0(3) by (simp add: clock_rel_def)
  show "buf_frame s s'" using buf_frame_trans [OF T(4) buf_frame_trans [OF allocBuf_frame [OF T(2,7)] I(3)]] .
  have K: "pinCnt (desc (bufMgr s') k) = pinCnt (desc (bufMgr s) k)"
    "valid (desc (bufMgr s') k) = valid (desc (bufMgr s) k)" "key (desc (bufMgr s') k) = key (desc (bufMgr s) k)"
    if "k \<noteq> fr" "k < numBufs (bufMgr s)" for k
    using I(1) [of k] that clock_rel_desc [OF fr0(3), of k] framesD(4) [OF assms(1)] by simp_all
  show "disk_page s' g q = disk_page s g q \<and> dirty (desc (bufMgr s') k) = dirty (desc (bufMgr s) k)"
    if h: "holds s g q k" for g q k
  proof -
    have ht: "holds t g q k" using h pool_same(2) [OF T(1)] by simp
    have "disk_page s g q \<noteq> None" using buffered_in_use(2) [OF assms(1), of g q k] h by (simp add: holds_def)
    then have "(g, q) \<noteq> (fl, p)" using T(6) by auto
    moreover have "k \<noteq> fr" using h fr0(1) by (auto simp: holds_def)
    ultimately show ?thesis
      using allocBuf_held [OF T(2,7) ht] T(1,5) I(1) [of k] I(4) [of g] holds_live [OF assms(1) h] by simp
  qed
  have none: "pins s fl p = 0"
    using buffered_in_use(2) [OF assms(1), of fl p] T(6) by (auto simp: pins_def split: option.split)
  have one: "pins s' fl p = 1" using ok(3) I(1) [of fr] by (simp add: holds_pins BufDesc_Set_def)
  show "pins s' g q = pins s g q + (if (g, q) = (fl, p) then 1 else 0)"
  proof (cases "(g, q) = (fl, p)")
    case False
    show ?thesis
    proof (cases "\<exists>f. holds s g q f")
      case True
      then obtain f where f: "holds s g q f" "holds s' g q f" using ok(2) by (auto simp: pins_kept_def)
      have "f \<noteq> fr" using f(1) fr0(1) by (auto simp: holds_def)
      then show ?thesis
        using K(1) [of f] holds_frame(1) [OF assms(1), of g q f] f False by (auto simp: pins_def holds_def)
    next
      case none: False
      have "\<not> holds s' g q f" for f
      proof
        assume h: "holds s' g q f"
        then have B: "buffered s' g q = Some f" "0 < pinCnt (desc (bufMgr s') f)" by (simp_all add: holds_def)
        note H = holds_frame [OF ok(1) B(1)]
        have "f \<noteq> fr" using holds_inj [OF ok(1) h, of fl p] ok(3) False by auto
        then have "holds s g q f"
          using K [of f] H(1-3) B(2) n frames_map [OF assms(1), of "(g, q)" f] by (simp add: holds_def buffered_def)
        then show False using none by blast
      qed
      then show ?thesis using pins_zero [OF ok(1)] pins_zero [OF assms(1)] none False by auto
    qed
  qed (use none one in simp)
qed

lemma allocPage_steady:
  assumes "buf_ok s" "fl \<in> live s" "BufMgr_allocPage s fl = (Inr (p, fr), s')"
  shows "steady fl s s'" "\<And>q. q \<noteq> p \<Longrightarrow> settled s fl q \<Longrightarrow> settled s' fl q"
    "\<And>q k dt. holds s fl q k \<Longrightarrow> flag_ok s fl q dt k \<Longrightarrow> holds s' fl q k \<and> flag_ok s' fl q dt k"
proof -
  note A = allocPage_spec [OF assms] and P = allocPage_pins [OF assms]
  have A: "buf_ok s'" "pins_kept s s'" "objs s' = objs s" "live s' = live s" "logical s fl p = None"
    "\<And>g q. g \<in> live s \<Longrightarrow> (g, q) \<noteq> (fl, p) \<Longrightarrow> logical s' g q = logical s g q" using A by simp_all
  have "settled s' g q" if g: "g \<in> live s" "g \<noteq> fl" "settled s g q" for g q
  proof (rule settled_keep [OF _ g(3)])
    fix k assume h: "holds s' g q k"
    then have "0 < pins s g q" using P(1) [of g q] g(2) pins_holds [of s' g q] by auto
    then obtain k' where k': "holds s g q k'" by (auto simp: pins_holds)
    moreover from this have "k' = k" using A(2) h by (auto simp: pins_kept_def holds_def)
    ultimately show "holds s g q k \<and> dirty (desc (bufMgr s') k) = dirty (desc (bufMgr s) k) \<and>
        disk_page s' g q = disk_page s g q \<and> logical s' g q = logical s g q"
      using P(4) A(6) g(1,2) by auto
  qed
  then show "steady fl s s'" using P(2,3) A(6) by (auto simp: steady_def fun_eq_iff)
  have F: "holds s' fl q k \<and> flag_ok s' fl q dt k" if "holds s fl q k" "flag_ok s fl q dt k" for q k dt
  proof -
    have "logical s fl q \<noteq> None" using that(1) by (simp add: holds_logical)
    then have "q \<noteq> p" using A(5) by auto
    then show ?thesis using that A(2,3,6) P(4) [OF that(1)] assms(2) by (simp add: flag_ok_def pins_kept_def)
  qed
  then show "\<And>q k dt. holds s fl q k \<Longrightarrow> flag_ok s fl q dt k \<Longrightarrow> holds s' fl q k \<and> flag_ok s' fl q dt k" .
  show "settled s' fl q" if q: "q \<noteq> p" "settled s fl q" for q
  proof -
    have "flag_ok s' fl q False k" if h: "holds s' fl q k" for k
    proof -
      have "0 < pins s fl q" using P(1) [of fl q] q(1) h pins_holds [of s' fl q] by auto
      then obtain k' where k': "holds s fl q k'" by (auto simp: pins_holds)
      then have "holds s' fl q k' \<and> flag_ok s' fl q False k'" using F [OF k', of False] k' q(2) by (simp add: settled_def)
      then show ?thesis using h by (auto simp: holds_def)
    qed
    then show ?thesis by (simp add: settled_def)
  qed
qed

lemma clock_pins:
  assumes "buf_ok s" "buf_ok t" "clock_rel (bufMgr s) (bufMgr t)"
  shows "holds t = holds s" "pins t = pins s"
proof -
  have n: "numBufs (bufMgr t) = numBufs (bufMgr s)" using assms(3) by (simp add: clock_rel_def)
  note C = clock_rel_desc [OF assms(3)] and L = framesD(4) [OF assms(1)]
  have H: "holds t g q f = holds s g q f" for g q f
    unfolding holds_def buffered_def frames_map [OF assms(1)] frames_map [OF assms(2)] n
    using C [of f] L by auto
  then show "holds t = holds s" by (simp add: fun_eq_iff)
  have "pins t g q = pins s g q" for g q
  proof (cases "\<exists>f. holds s g q f")
    case True
    then obtain f where f: "holds s g q f" "holds t g q f" using H by blast
    then have "f < length (bufTable (bufMgr s))" using holds_frame(1) [OF assms(1), of g q f] L by (simp add: holds_def)
    then show ?thesis using f C(3) [of f] by (simp add: holds_pins)
  next
    case False
    then show ?thesis using pins_zero [OF assms(1)] pins_zero [OF assms(2)] H by auto
  qed
  then show "pins t = pins s" by (simp add: fun_eq_iff)
qed

text \<open>A failed \<open>allocPage\<close> may leave a page behind in the file, and changes nothing else.\<close>

lemma allocPage_fails:
  assumes "buf_ok s" "fl \<in> live s" "BufMgr_allocPage s fl = (Inl e, s')"
  shows "steady fl s s'" "pins s' = pins s" "\<And>q. settled s fl q \<Longrightarrow> settled s' fl q"
    "\<And>q k dt. holds s fl q k \<Longrightarrow> flag_ok s fl q dt k \<Longrightarrow> flag_ok s' fl q dt k" "holds s' = holds s"
    "\<And>q. logical s fl q \<noteq> None \<Longrightarrow> logical s' fl q = logical s fl q"
    "(\<exists>e. fst (File_allocatePage s (objs s fl)) = Inl e) \<or> all_pinned (bufMgr s)"
proof -
  have fi: "file_inv (objs s fl) s" using framesD(1) [OF assms(1)] assms(2) by (simp add: files_ok_def)
  obtain ra t where A: "File_allocatePage s (objs s fl) = (ra, t)" by fastforce
  have *: "steady fl s s' \<and> pins s' = pins s \<and> holds s' = holds s \<and> objs s' = objs s \<and>
    ((\<exists>e. fst (File_allocatePage s (objs s fl)) = Inl e) \<or> all_pinned (bufMgr s)) \<and>
    (\<forall>q k. holds s fl q k \<longrightarrow> disk_page s' fl q = disk_page s fl q \<and>
       dirty (desc (bufMgr s') k) = dirty (desc (bufMgr s) k)) \<and>
    (\<forall>q. logical s fl q \<noteq> None \<longrightarrow> logical s' fl q = logical s fl q)"
  proof (cases ra)
    case (Inl e)
    then have "s' = s" using pf.alloc_Inl [OF fi] A assms(3) by (auto simp: BufMgr_allocPage_def)
    then show ?thesis using A Inl by (simp add: steady_refl)
  next
    case (Inr p)
    obtain pg where P: "file_inv (objs s fl) t" "disk_page s fl p = None"
      "used_pages (objs s fl) t = (used_pages (objs s fl) s)(p \<mapsto> pg)"
      using pf.alloc_Inr [OF fi, of p t] A Inr by auto
    note st = allocatePage_step [OF A]
    have none: "buffered s fl p = None"
      using P(2) by (cases "buffered s fl p") (auto dest!: buffered_in_use(2) [OF assms(1)])
    have d: "q \<noteq> p \<Longrightarrow> disk_page t fl q = disk_page s fl q" for q
      using P(3) file_step_fields(1) [OF st] by simp
    note F = frames_file_step [OF assms(1,2) st P(1) d none]
    have dt: "disk_page t fl p \<noteq> None" "buffered t fl p = None" using P(3) F(2,3) none by (simp_all add: buffered_def)
    obtain rb u where B: "BufMgr_allocBuf t = (rb, u)" by fastforce
    note S = allocBuf_spec [OF F(1) B]
    have "\<exists>e. rb = Inl e"
    proof (cases rb)
      case (Inr k)
      with S have ff: "frame_freed t k u" by simp
      then have U: "frames_ok u {k}" "same_view t u" "k < numBufs (bufMgr u)" "buffered u fl p = None"
        using dt(2) by (simp_all add: frame_freed_def clock_rel_def)
      have lu: "fl \<in> live u" "logical u fl p = logical t fl p" using U(2) F(4) assms(2) by (simp_all add: same_view_def)
      then have du: "disk_page u fl p \<noteq> None" using U(4) dt by (simp add: logical_def)
      obtain rc w where I: "install u fl p k = (rc, w)" by fastforce
      have "rc = Inr k" using install_spec [OF U(1,3) lu(1) du U(4) I] by simp
      then show ?thesis using assms(3) A \<open>ra = Inr p\<close> B Inr I by (simp add: BufMgr_allocPage_def)
    qed simp
    then obtain e' where e': "rb = Inl e'" ..
    then have s': "s' = u" using assms(3) A Inr B by (simp add: BufMgr_allocPage_def)
    have U: "buf_ok u" "clock_rel (bufMgr t) (bufMgr u)" "same_view t u" "all_pinned (bufMgr s)"
      using S e' F(2) by simp_all
    note C = clock_pins [OF F(1) U(1,2)] and T = pool_same [OF F(2)]
    have H: "disk_page u g q = disk_page s g q" "dirty (desc (bufMgr u) k) = dirty (desc (bufMgr s) k)"
      if h: "holds s g q k" for g q k
    proof -
      have "disk_page s g q \<noteq> None" using buffered_in_use(2) [OF assms(1), of g q k] h by (simp add: holds_def)
      then have "(g, q) \<noteq> (fl, p)" using P(2) by auto
      moreover have "holds t g q k" using h T by simp
      ultimately show "disk_page u g q = disk_page s g q" "dirty (desc (bufMgr u) k) = dirty (desc (bufMgr s) k)"
        using allocBuf_held [OF F(1) B, of g q k] F(6) [of g q] F(2) holds_live [OF assms(1) h] by simp_all
    qed
    have "logical s fl p = None" using none P(2) by (simp add: logical_def)
    then have "logical u fl q = logical s fl q" if "logical s fl q \<noteq> None" for q
      using U(3) F(4,5) assms(2) that by (auto simp: same_view_def)
    moreover have lg: "logical u g = logical s g" if "g \<in> live s" "g \<noteq> fl" for g
      using U(3) F(4,5) that by (auto simp: same_view_def)
    moreover have "settled u g q" if g: "g \<in> live s" "g \<noteq> fl" "settled s g q" for g q
      by (rule settled_keep [OF _ g(3)]) (use H C(1) T(2) lg g in auto)
    moreover have "buf_frame s u"
      using buf_frame_trans [OF buf_frame_step [OF st assms(2)] allocBuf_frame [OF F(1) B]] .
    moreover have "numBufs (bufMgr u) = numBufs (bufMgr s)" using U(2) F(2) by (simp add: clock_rel_def)
    ultimately show ?thesis
      using s' C T H U(3,4) F(3) by (simp add: steady_def same_view_def)
  qed
  show "steady fl s s'" "pins s' = pins s" "holds s' = holds s"
    "(\<exists>e. fst (File_allocatePage s (objs s fl)) = Inl e) \<or> all_pinned (bufMgr s)"
    "\<And>q. logical s fl q \<noteq> None \<Longrightarrow> logical s' fl q = logical s fl q" using * by simp_all
  show F: "\<And>q k dt. holds s fl q k \<Longrightarrow> flag_ok s fl q dt k \<Longrightarrow> flag_ok s' fl q dt k"
    using * unfolding flag_ok_def by (metis holds_logical option.distinct(1))
  show "\<And>q. settled s fl q \<Longrightarrow> settled s' fl q" using * F by (auto simp: settled_def)
qed

text \<open>Two frames that nobody has pinned: what a heap file object needs.\<close>

definition two_free :: "BufMgr \<Rightarrow> bool" where
  "two_free b \<longleftrightarrow> (\<exists>i j. i < j \<and> j < numBufs b \<and> pinCnt (desc b i) = 0 \<and> pinCnt (desc b j) = 0)"

lemma frame_free:
  assumes "buf_ok s" "pins_kept base s" "numBufs (bufMgr s) = numBufs (bufMgr base)" "two_free (bufMgr base)"
    and "\<And>g q. 0 < pins s g q \<Longrightarrow> 0 < pins base g q \<or> (g, q) = x"
  shows "\<not> all_pinned (bufMgr s)"
proof
  assume a: "all_pinned (bufMgr s)"
  obtain i j where ij: "i < j" "j < numBufs (bufMgr s)" "pinCnt (desc (bufMgr base) i) = 0" "pinCnt (desc (bufMgr base) j) = 0"
    using assms(3,4) by (auto simp: two_free_def)
  have k: "key (desc (bufMgr s) k) = x" if "k < numBufs (bufMgr s)" "pinCnt (desc (bufMgr base) k) = 0" for k
  proof -
    let ?g = "bd_file (desc (bufMgr s) k)" and ?q = "bd_pageNo (desc (bufMgr s) k)"
    have h: "holds s ?g ?q k"
      using a that(1) frames_map [OF assms(1), of "(?g, ?q)" k] by (auto simp: all_pinned_def holds_def buffered_def)
    have "\<not> 0 < pins base ?g ?q"
    proof
      assume "0 < pins base ?g ?q"
      then obtain f where f: "holds base ?g ?q f" by (auto simp: pins_holds)
      then have "holds s ?g ?q f" using assms(2) by (simp add: pins_kept_def)
      then have "f = k" using h by (simp add: holds_def)
      then show False using f that(2) by (simp add: holds_def)
    qed
    then show ?thesis using assms(5) [of ?g ?q] h pins_holds by blast
  qed
  have v: "valid (desc (bufMgr s) k)" if "k < numBufs (bufMgr s)" for k using a that by (simp add: all_pinned_def)
  have "key (desc (bufMgr s) i) = key (desc (bufMgr s) j)" using k [of i] k [of j] ij by simp
  then have "i = j" using frames_key_inj [OF assms(1), of i j] v ij by simp
  then show False using ij(1) by simp
qed

end
