(* ===== verification/Heap_Ops.thy ===== *)
theory Heap_Ops
  imports Heap_Pool
begin

text \<open>
  Heap file operations on top of the buffer manager. \<open>hf_ok\<close> is the invariant of an open
  \<open>HeapFile\<close> object: it holds its header page and its current page, its dirty flags cover every
  change that the pool does not know of, and the pages of the file form a well-formed heap.
\<close>

subsection \<open>The object invariant\<close>

definition hf_core :: "'a bsys_scheme \<Rightarrow> 'h HeapFile_scheme \<Rightarrow> int list \<Rightarrow> nat \<Rightarrow> nat \<Rightarrow> bool" where
  "hf_core s h ns fh fc \<longleftrightarrow> buf_ok s \<and> hf_filePtr h \<in> live s \<and> hf_curPageNo h \<in> set ns \<and>
     heap_wf (logical s (hf_filePtr h)) (hf_headerPageNo h) ns \<and>
     hf_headerPage h = Frame fh \<and> hf_curPage h = Frame fc \<and>
     holds s (hf_filePtr h) (hf_headerPageNo h) fh \<and> holds s (hf_filePtr h) (hf_curPageNo h) fc"

definition hf_ok :: "'a bsys_scheme \<Rightarrow> 'h HeapFile_scheme \<Rightarrow> int list \<Rightarrow> bool" where
  "hf_ok s h ns \<longleftrightarrow> (\<exists>fh fc. hf_core s h ns fh fc \<and>
     flag_ok s (hf_filePtr h) (hf_headerPageNo h) (hf_hdrDirtyFlag h) fh \<and>
     flag_ok s (hf_filePtr h) (hf_curPageNo h) (hf_curDirtyFlag h) fc)"

abbreviation recs :: "'a bsys_scheme \<Rightarrow> 'h HeapFile_scheme \<Rightarrow> int list \<Rightarrow> RID \<Rightarrow> byte list option" where
  "recs s h ns \<equiv> heap_recs (logical s (hf_filePtr h)) ns"

lemma hf_okE:
  assumes "hf_ok s h ns"
  obtains fh fc where "hf_core s h ns fh fc"
    "flag_ok s (hf_filePtr h) (hf_headerPageNo h) (hf_hdrDirtyFlag h) fh"
    "flag_ok s (hf_filePtr h) (hf_curPageNo h) (hf_curDirtyFlag h) fc"
  using assms by (auto simp: hf_ok_def)

lemma hf_coreD:
  assumes "hf_core s h ns fh fc"
  shows "buf_ok s" "hf_filePtr h \<in> live s" "hf_curPageNo h \<in> set ns"
    "heap_wf (logical s (hf_filePtr h)) (hf_headerPageNo h) ns"
    "hf_headerPage h = Frame fh" "hf_curPage h = Frame fc"
    "holds s (hf_filePtr h) (hf_headerPageNo h) fh" "holds s (hf_filePtr h) (hf_curPageNo h) fc"
    "deref s (hf_headerPage h) = logical s (hf_filePtr h) (hf_headerPageNo h)"
    "deref s (hf_curPage h) = logical s (hf_filePtr h) (hf_curPageNo h)"
    "hf_curPageNo h \<noteq> hf_headerPageNo h"
proof -
  show *: "buf_ok s" "hf_filePtr h \<in> live s" "hf_curPageNo h \<in> set ns"
    "heap_wf (logical s (hf_filePtr h)) (hf_headerPageNo h) ns"
    "hf_headerPage h = Frame fh" "hf_curPage h = Frame fc"
    "holds s (hf_filePtr h) (hf_headerPageNo h) fh" "holds s (hf_filePtr h) (hf_curPageNo h) fc"
    using assms by (simp_all add: hf_core_def)
  show "deref s (hf_headerPage h) = logical s (hf_filePtr h) (hf_headerPageNo h)"
    "deref s (hf_curPage h) = logical s (hf_filePtr h) (hf_curPageNo h)"
    using holds_deref *(5-8) by simp_all
  show "hf_curPageNo h \<noteq> hf_headerPageNo h" using *(3,4) by (auto elim: heap_wfE)
qed

text \<open>The current page is a well-formed page of the file.\<close>

lemma hf_cur_page:
  assumes "hf_core s h ns fh fc"
  obtains pg hdr where "logical s (hf_filePtr h) (hf_curPageNo h) = Some pg" "page_inv pg"
    "curPage pg = hf_curPageNo h" "logical s (hf_filePtr h) (hf_headerPageNo h) = Some hdr"
proof -
  note D = hf_coreD [OF assms]
  obtain hdr where hdr: "logical s (hf_filePtr h) (hf_headerPageNo h) = Some hdr"
    and c: "page_chain (logical s (hf_filePtr h)) (hdr_firstPage hdr) ns"
    using D(4) by (auto elim: heap_wfE)
  show ?thesis using chain_page [OF c D(3)] that hdr by metis
qed

subsection \<open>Changing the two pages\<close>

text \<open>Changing the current page and then the header page.\<close>

lemma store_cur:
  assumes "hf_core s h ns fh fc" "logical s (hf_filePtr h) (hf_headerPageNo h) = Some hdr"
  shows "deref (store s (Frame fc) pg') (Frame fh) = Some hdr"
proof -
  note D = hf_coreD [OF assms(1)]
  note S1 = store_held [OF D(1,8), where pg = pg']
  show ?thesis using holds_deref [of "store s (Frame fc) pg'"] D(7,11) S1(2,3) assms(2) by simp
qed

lemma store_both:
  fixes pg' hdr' :: memory
  assumes "hf_core s h ns fh fc"
  defines "s2 \<equiv> store (store s (Frame fc) pg') (Frame fh) hdr'"
  shows "logical s2 (hf_filePtr h) = (logical s (hf_filePtr h))(hf_curPageNo h \<mapsto> pg', hf_headerPageNo h \<mapsto> hdr')"
    "buf_ok s2" "holds s2 = holds s" "live s2 = live s" "desc (bufMgr s2) i = desc (bufMgr s) i"
    "steady (hf_filePtr h) s s2" "disk_page s2 g = disk_page s g" "objs s2 = objs s" "buffered s2 = buffered s"
proof -
  let ?fl = "hf_filePtr h" and ?H = "hf_headerPageNo h"
  note D = hf_coreD [OF assms(1)]
  define s1 where "s1 = store s (Frame fc) pg'"
  note S1 = store_held [OF D(1,8), where pg = pg', folded s1_def]
  have h1: "holds s1 ?fl ?H fh" using D(7) S1(3) by simp
  have e: "s2 = store s1 (Frame fh) hdr'" by (simp add: s2_def s1_def)
  note S2 = store_held [OF S1(1) h1, where pg = hdr', folded e]
  show "logical s2 ?fl = (logical s ?fl)(hf_curPageNo h \<mapsto> pg', ?H \<mapsto> hdr')" using S1(2) S2(2) by simp
  show "buf_ok s2" "holds s2 = holds s" "live s2 = live s" "desc (bufMgr s2) i = desc (bufMgr s) i" "objs s2 = objs s"
    using S2(1,3,4,5,7) S1(3,4,5,7) by simp_all
  show "disk_page s2 g = disk_page s g" "buffered s2 = buffered s"
    by (simp_all add: s2_def buffered_def fun_eq_iff buf_simps)
  show "steady ?fl s s2"
    using steady_trans [OF store_steady [OF D(1,8), where pg = pg', folded s1_def] store_steady [OF S1(1) h1]]
    by (simp add: e)
qed

subsection \<open>Fetching a record\<close>

lemma heap_page:
  assumes "heap_wf m hdrNo ns" "n \<in> set ns"
  obtains pg where "m n = Some pg" "page_inv pg" "curPage pg = n" "0 < n" "n \<noteq> hdrNo"
  using assms by (metis chain_page heap_wfE)

text \<open>The object gives up its current page and pins another page of the file.\<close>

lemma move_page:
  assumes "hf_core s h ns fh fc" "flag_ok s (hf_filePtr h) (hf_headerPageNo h) (hf_hdrDirtyFlag h) fh"
    and "flag_ok s (hf_filePtr h) (hf_curPageNo h) (hf_curDirtyFlag h) fc"
    and "n \<in> set ns" "n \<noteq> hf_curPageNo h" "settled s (hf_filePtr h) n"
    and "BufMgr_unPinPage s (hf_filePtr h) (hf_curPageNo h) (hf_curDirtyFlag h) = (st, t)"
    and "BufMgr_readPage t (hf_filePtr h) n = (r, s')"
  shows "st = OK" "quiet (hf_filePtr h) s s'" "buf_ok s'" "logical t (hf_filePtr h) = logical s (hf_filePtr h)"
    "\<And>f. r = Inr f \<Longrightarrow> logical s' (hf_filePtr h) n = Some (bufPool (bufMgr s') ! f)"
    "\<And>f. r = Inr f \<Longrightarrow> hf_ok s' (h\<lparr>hf_curPage := Frame f, hf_curPageNo := n, hf_curDirtyFlag := False\<rparr>) ns"
    "\<And>e. r = Inl e \<Longrightarrow> e = BUFFEREXCEEDED"
proof -
  let ?fl = "hf_filePtr h" and ?H = "hf_headerPageNo h" and ?C = "hf_curPageNo h"
  note D = hf_coreD [OF assms(1)]
  note U = unPin_held [OF D(1,8) assms(3,7)]
  show "st = OK" by (rule U(1))
  have T: "?fl \<in> live t" "logical t ?fl = logical s ?fl" using U(3) D(2) by (auto simp: same_view_def)
  show "logical t ?fl = logical s ?fl" by (rule T(2))
  obtain pg where pg: "logical s ?fl n = Some pg" "n \<noteq> ?H" using heap_page [OF D(4) assms(4)] by metis
  have pgt: "logical t ?fl n = Some pg" using T(2) pg by simp
  note R = readPage_spec [OF U(2) T(1) pgt assms(8)]
  show q: "quiet ?fl s s'"
    using quiet_trans [OF unPin_quiet [OF D(1,8) assms(3,7)] readPage_quiet [OF U(2) T(1) pgt assms(8)]] .
  then have sv: "same_view s s'" by (simp add: quiet_def)
  show ok: "buf_ok s'" using R by (simp add: read_result_def)
  have hh: "holds t ?fl ?H fh" using U(5) [of ?fl ?H] D(7,11) by auto
  have nh: "settled t ?fl n" using unPin_settled(2) [OF D(1,8) assms(3,7) D(2)] assms(5,6) by simp
  show "\<And>e. r = Inl e \<Longrightarrow> e = BUFFEREXCEEDED" using R by (simp add: read_result_def)
  show "\<And>f. r = Inr f \<Longrightarrow> logical s' (hf_filePtr h) n = Some (bufPool (bufMgr s') ! f)"
    using R holds_logical by (auto simp: read_result_def)
  show "hf_ok s' (h\<lparr>hf_curPage := Frame f, hf_curPageNo := n, hf_curDirtyFlag := False\<rparr>) ns" if "r = Inr f" for f
  proof -
    have R': "holds s' ?fl n f" "pins_kept t s'" using R that by (simp_all add: read_result_def)
    note K = readPage_held [OF U(2) assms(8) hh]
    have "i \<noteq> fc \<Longrightarrow> desc (bufMgr t) i = desc (bufMgr s) i" for i by (rule U(6))
    moreover have "fh \<noteq> fc" using holds_inj [OF D(1,7)] D(8,11) by auto
    ultimately have "flag_ok s' ?fl ?H (hf_hdrDirtyFlag h) fh"
      using assms(2) K U(4) sv D(2) pg(2) by (simp add: flag_ok_def same_view_def)
    moreover have "flag_ok s' ?fl n False f"
      using readPage_flag [OF U(2) T(1) pgt nh assms(8) [unfolded that]] .
    moreover have "holds s' ?fl ?H fh" using R'(2) hh by (simp add: pins_kept_def)
    moreover have "logical s' ?fl = logical s ?fl" "?fl \<in> live s'" using sv D(2) by (auto simp: same_view_def)
    ultimately show ?thesis
      unfolding hf_ok_def using ok D(4,5) R'(1) assms(4)
      by (intro exI [of _ fh] exI [of _ f]) (simp add: hf_core_def)
  qed
qed

subsection \<open>Owning the current page\<close>

text \<open>
  \<open>base\<close> is the system before the object was made: on top of the pins that were there, the
  object holds its header page and its current page once each. All other pages of the file
  are settled.
\<close>

definition own :: "'h HeapFile_scheme \<Rightarrow> int \<Rightarrow> int \<Rightarrow> int" where
  "own h g q = (if g = hf_filePtr h
     then (if q = hf_headerPageNo h then 1 else 0) + (if q = hf_curPageNo h then 1 else 0) else 0)"

definition pool_base :: "'a bsys_scheme \<Rightarrow> 'a bsys_scheme \<Rightarrow> bool" where
  "pool_base base s \<longleftrightarrow> buf_ok base \<and> two_free (bufMgr base) \<and> pins_kept base s \<and>
     numBufs (bufMgr s) = numBufs (bufMgr base)"

definition owned :: "'a bsys_scheme \<Rightarrow> 'a bsys_scheme \<Rightarrow> 'h HeapFile_scheme \<Rightarrow> bool" where
  "owned base s h \<longleftrightarrow> pool_base base s \<and> (\<forall>g q. pins s g q = pins base g q + own h g q) \<and>
     (\<forall>q. q \<noteq> hf_headerPageNo h \<longrightarrow> q \<noteq> hf_curPageNo h \<longrightarrow> settled s (hf_filePtr h) q)"

text \<open>Giving up a page that is held on top of the base keeps the base.\<close>

lemma unPin_base:
  assumes "pool_base base s" "buf_ok s" "holds s fl p f" "flag_ok s fl p dt f"
    and "BufMgr_unPinPage s fl p dt = (st, t)" "pins base fl p < pins s fl p"
    and "\<And>g q. pins base g q \<le> pins s g q"
  shows "pool_base base t" "pins t g q = pins s g q - (if (g, q) = (fl, p) then 1 else 0)"
proof -
  note P = unPin_pins [OF assms(2-5)]
  show "pins t g q = pins s g q - (if (g, q) = (fl, p) then 1 else 0)" by (rule P(1))
  have "pins base g q \<le> pins t g q" for g q using P(1) [of g q] assms(6) assms(7) [of g q] by auto
  then have "holds t g q k" if "holds base g q k" for g q k
    using P(2) [of base g q k] that assms(1) by (simp add: pool_base_def pins_kept_def)
  moreover have "numBufs (bufMgr t) = numBufs (bufMgr s)"
    using unPin_quiet [OF assms(2-5)] by (simp add: quiet_def steady_def)
  ultimately show "pool_base base t" using assms(1) by (simp add: pool_base_def pins_kept_def)
qed

text \<open>Reading a page when at most one page is held on top of the base: there is a frame.\<close>

lemma read_base:
  assumes "pool_base base s" "buf_ok s" "fl \<in> live s" "logical s fl p = Some pg"
    and "BufMgr_readPage s fl p = (r, s')" "\<forall>g q. 0 < pins s g q \<longrightarrow> 0 < pins base g q \<or> (g, q) = x"
  shows "\<exists>f. r = Inr f \<and> holds s' fl p f \<and> bufPool (bufMgr s') ! f = pg \<and> (settled s fl p \<longrightarrow> flag_ok s' fl p False f)"
    "buf_ok s'" "quiet fl s s'" "pool_base base s'"
    "pins s' g q = pins s g q + (if (g, q) = (fl, p) then 1 else 0)"
    "\<And>q k dt. q \<noteq> p \<Longrightarrow> holds s fl q k \<Longrightarrow> flag_ok s fl q dt k \<Longrightarrow> holds s' fl q k \<and> flag_ok s' fl q dt k"
    "\<And>q. q \<noteq> p \<Longrightarrow> settled s fl q \<Longrightarrow> settled s' fl q"
proof -
  note R = readPage_spec [OF assms(2-5)]
  have "\<not> all_pinned (bufMgr s)"
    using assms(1,6) frame_free [OF assms(2), of base x] by (simp add: pool_base_def)
  then obtain f where f: "r = Inr f" using R by (cases r) (simp_all add: read_result_def)
  have H: "holds s' fl p f" "bufPool (bufMgr s') ! f = pg" "pins_kept s s'" "same_view s s'"
    using R f by (simp_all add: read_result_def)
  show "buf_ok s'" using R by (simp add: read_result_def)
  show "quiet fl s s'" by (rule readPage_quiet [OF assms(2-5)])
  show "\<exists>f. r = Inr f \<and> holds s' fl p f \<and> bufPool (bufMgr s') ! f = pg \<and> (settled s fl p \<longrightarrow> flag_ok s' fl p False f)"
    using f H(1,2) readPage_flag [OF assms(2-4) _ assms(5) [unfolded f]] by blast
  show "pool_base base s'"
    using assms(1) pins_kept_trans [of base s s'] H(3) readPage_numBufs [OF assms(2,5)] by (simp add: pool_base_def)
  show "pins s' g q = pins s g q + (if (g, q) = (fl, p) then 1 else 0)"
    by (rule readPage_pins [OF assms(2-4) assms(5) [unfolded f]])
  show "\<And>q. q \<noteq> p \<Longrightarrow> settled s fl q \<Longrightarrow> settled s' fl q" using readPage_settled [OF assms(2-5)] by blast
  show "holds s' fl q k \<and> flag_ok s' fl q dt k" if "q \<noteq> p" "holds s fl q k" "flag_ok s fl q dt k" for q k dt
    using readPage_held [OF assms(2,5) that(2)] that H(3,4) assms(3)
    by (simp add: flag_ok_def same_view_def pins_kept_def)
qed

text \<open>Changes to the two pages of the object, covered by its flags.\<close>

lemma store_owned:
  assumes "hf_core s h ns fh fc" "owned base s h"
  shows "owned base (store (store s (Frame fc) pg') (Frame fh) hdr') h"
proof -
  let ?fl = "hf_filePtr h"
  define s2 where "s2 = store (store s (Frame fc) pg') (Frame fh) hdr'"
  note S = store_both [OF assms(1), where pg' = pg' and hdr' = hdr', folded s2_def]
  have "settled s2 ?fl q" if "q \<noteq> hf_headerPageNo h" "q \<noteq> hf_curPageNo h" for q
    using assms(2) that S(1,3,5,7,8) by (simp add: owned_def settled_def flag_ok_def)
  moreover have "pins s2 = pins s" using S(5,9) by (simp add: pins_def fun_eq_iff split: option.split)
  moreover have "pool_base base s2"
    using assms(2) S(3,6) by (simp add: owned_def pool_base_def pins_kept_def steady_def)
  ultimately show ?thesis using assms(2) by (simp add: owned_def s2_def)
qed

lemma owned_mono: "owned base s h \<Longrightarrow> pins base g q \<le> pins s g q"
  by (auto simp: owned_def own_def)

lemma move_owned:
  assumes "hf_core s h ns fh fc" "owned base s h" "flag_ok s (hf_filePtr h) (hf_curPageNo h) (hf_curDirtyFlag h) fc"
    and "flag_ok s (hf_filePtr h) (hf_headerPageNo h) (hf_hdrDirtyFlag h) fh"
    and "n' \<in> set ns" "n' \<noteq> hf_curPageNo h"
    and "BufMgr_unPinPage s (hf_filePtr h) (hf_curPageNo h) (hf_curDirtyFlag h) = (st, t)"
    and "BufMgr_readPage t (hf_filePtr h) n' = (r, s')"
  shows "\<exists>f. r = Inr f \<and> owned base s' (h\<lparr>hf_curPage := Frame f, hf_curPageNo := n', hf_curDirtyFlag := False\<rparr>)"
proof -
  let ?fl = "hf_filePtr h" and ?C = "hf_curPageNo h" and ?H = "hf_headerPageNo h"
  note D = hf_coreD [OF assms(1)]
  have O: "pool_base base s" "\<And>g q. pins s g q = pins base g q + own h g q"
    "\<And>q. q \<noteq> ?H \<Longrightarrow> q \<noteq> ?C \<Longrightarrow> settled s ?fl q" using assms(2) by (simp_all add: owned_def)
  have lt: "pins base ?fl ?C < pins s ?fl ?C" using O(2) [of ?fl ?C] D(11) by (simp add: own_def)
  note U = unPin_base [OF O(1) D(1,8) assms(3,7) lt owned_mono [OF assms(2)]]
  note V = unPin_held [OF D(1,8) assms(3,7)] and W = unPin_settled [OF D(1,8) assms(3,7) D(2)]
  have T: "?fl \<in> live t" "logical t ?fl = logical s ?fl" using V(3) D(2) by (auto simp: same_view_def)
  obtain pg where pg: "logical s ?fl n' = Some pg" "n' \<noteq> ?H" by (rule heap_page [OF D(4) assms(5)])
  then have pgt: "logical t ?fl n' = Some pg" using T(2) by simp
  have pt: "pins t g q = pins base g q + (if (g, q) = (?fl, ?H) then 1 else 0)" for g q
    using U(2) [of g q] O(2) [of g q] D(11) by (auto simp: own_def)
  have x: "\<forall>g q. 0 < pins t g q \<longrightarrow> 0 < pins base g q \<or> (g, q) = (?fl, ?H)" using pt by (auto split: if_splits)
  note R = read_base [OF U(1) V(2) T(1) pgt assms(8) x]
  have "settled s' ?fl q" if "q \<noteq> ?H" "q \<noteq> n'" for q
    using R(7) [OF that(2)] W O(3) [OF that(1)] by (cases "q = ?C") auto
  moreover have "pins s' g q = pins base g q + own (h\<lparr>hf_curPageNo := n'\<rparr>) g q" for g q
    using R(5) [of g q] pt [of g q] pg(2) by (auto simp: own_def)
  ultimately show ?thesis using R(1,4) by (auto simp: owned_def own_def)
qed

end
