(* ===== verification/Heap_Insert.thy ===== *)
theory Heap_Insert
  imports Heap_Ops
begin

text \<open>
  Insertion into a heap file: the record goes into the last page, or into a page that is
  linked behind it. The map of records gains exactly one entry, and the object keeps its
  invariant and its pins.
\<close>

subsection \<open>Adding a record to the current page\<close>

definition inserted :: "'a bsys_scheme \<Rightarrow> 'a bsys_scheme \<Rightarrow> HeapFile \<Rightarrow> int list \<Rightarrow> byte list \<Rightarrow>
    Status + RID \<Rightarrow> HeapFile \<Rightarrow> 'a bsys_scheme \<Rightarrow> bool" where
  "inserted base s h ns rec r h' s' \<longleftrightarrow> hf_filePtr h' = hf_filePtr h \<and> hf_headerPageNo h' = hf_headerPageNo h \<and>
     steady (hf_filePtr h) s s' \<and> owned base s' h' \<and>
     (\<exists>ns'. hf_ok s' h' ns' \<and> hf_curPageNo h' = last ns' \<and>
        (case r of
           Inr rid \<Rightarrow> recs s' h' ns' = (recs s h ns)(rid \<mapsto> rec) \<and> recs s h ns rid = None \<and>
             (\<exists>p. dom (logical s' (hf_filePtr h)) \<subseteq> insert p (dom (logical s (hf_filePtr h))))
         | Inl e \<Rightarrow> fst (BufMgr_allocPage s (hf_filePtr h)) = Inl e \<and> h' = h \<and> ns' = ns \<and>
             recs s' h ns = recs s h ns))"

lemma record_added_ok:
  assumes "hf_core s h ns fh fc" "owned base s h" "logical s (hf_filePtr h) (hf_curPageNo h) = Some pg"
    and "Page_insertRecord pg rec = (Inr rid, pg')" "rec \<noteq> []" "hf_curPageNo h = last ns"
  shows "\<exists>h' s'. record_added s h pg' = Some (h', s') \<and> inserted base s h ns rec (Inr rid) h' s' \<and>
    dom (logical s' (hf_filePtr h)) = dom (logical s (hf_filePtr h))"
proof -
  note D = hf_coreD [OF assms(1)]
  let ?fl = "hf_filePtr h" and ?H = "hf_headerPageNo h" and ?C = "hf_curPageNo h"
  obtain hdr where hdr: "logical s ?fl ?H = Some hdr" using D(4) by (auto elim: heap_wfE)
  let ?hdr = "set_hdr_recCnt (hdr_recCnt hdr + 1) hdr"
  let ?h = "h\<lparr>hf_hdrDirtyFlag := True, hf_curDirtyFlag := True\<rparr>"
  define s2 where "s2 = store (store s (Frame fc) pg') (Frame fh) ?hdr"
  note S = store_both [OF assms(1), where pg' = pg' and hdr' = ?hdr, folded s2_def]
  have e: "record_added s h pg' = Some (?h, s2)"
    using store_cur [OF assms(1) hdr] by (simp add: record_added_def D(5,6) s2_def Let_def)
  note I = heap_insert [OF D(4,3) assms(3) hdr assms(4,5)]
  have "hf_ok s2 ?h ns"
    unfolding hf_ok_def hf_core_def flag_ok_def using I(1) S(1-4) D by simp
  moreover have "owned base s2 ?h" using store_owned [OF assms(1,2)] by (simp add: owned_def own_def s2_def)
  moreover have d: "dom (logical s2 ?fl) = dom (logical s ?fl)" using S(1) assms(3) hdr by auto
  ultimately have "inserted base s h ns rec (Inr rid) ?h s2"
    using I(2,3) S(1,6) assms(6) d by (auto simp: inserted_def)
  then show ?thesis using e d by blast
qed

lemma page_number_bound:
  assumes "buf_ok s" "fl \<in> live s" "disk_page s fl p \<noteq> None"
  shows "0 < p" "p < 2147483648"
proof -
  have "file_inv (objs s fl) s" using framesD(1) [OF assms(1)] assms(2) by (simp add: files_ok_def)
  then obtain ps where ps: "file_wf ps" "used_pages (objs s fl) s = file_map ps" by (rule file_invE)
  then show "0 < p" "p < 2147483648"
    using assms(3) file_wfD(2) [OF ps(1)] by (auto simp: file_map_def split: if_splits)
qed

text \<open>A fresh page takes every record of up to 1000 bytes.\<close>

lemma fresh_page_insert:
  assumes "length rec \<le> 1000"
  shows "\<exists>rid pg. Page_insertRecord (set_nextPage (Page_init x n) (- 1)) rec = (Inr rid, pg)"
proof -
  let ?f = "set_nextPage (Page_init x n) (- 1)"
  have inv: "page_inv ?f" by (simp add: setNextPage_inv Page_init_inv)
  have "freeSpace ?f = 1004"
    by (simp add: Page_init_def Let_def slot_simps DPFIXED_eq(1) PAGESIZE_def)
  then have "int (length rec) + 4 \<le> freeSpace ?f" using assms by simp
  then show ?thesis
    using insert_effect(1) [OF inv _ surjective_pairing, of rec] by (metis surjective_pairing)
qed

subsection \<open>Linking a new page\<close>

text \<open>The stores that initialise the new page, the header and the link of the old last page.\<close>

lemma link_page:
  assumes "hf_core s h ns fh fc" "hf_curPageNo h = last ns"
    and "BufMgr_allocPage s (hf_filePtr h) = (Inr (new, fn), s1)"
    and "logical s (hf_filePtr h) (hf_curPageNo h) = Some pg"
    and "logical s (hf_filePtr h) (hf_headerPageNo h) = Some hdr"
  defines "fresh \<equiv> set_nextPage (Page_init (bufPool (bufMgr s1) ! fn) new) (- 1)"
  defines "s2 \<equiv> store s1 (Frame fn) fresh"
  defines "hdr' \<equiv> set_hdr_pageCnt (hdr_pageCnt hdr + 1) (set_hdr_lastPage new hdr)"
  defines "s3 \<equiv> store s2 (Frame fh) hdr'"
  defines "s4 \<equiv> store s3 (Frame fc) (set_nextPage pg new)"
  shows "deref s2 (Frame fh) = Some hdr" "deref s3 (Frame fc) = Some pg" "buf_ok s4" "live s4 = live s"
    "holds s4 (hf_filePtr h) (hf_headerPageNo h) fh" "holds s4 (hf_filePtr h) (hf_curPageNo h) fc"
    "holds s4 (hf_filePtr h) new fn" "new \<notin> set ns" "logical s4 (hf_filePtr h) new = Some fresh"
    "heap_wf (logical s4 (hf_filePtr h)) (hf_headerPageNo h) (ns @ [new])"
    "heap_recs (logical s4 (hf_filePtr h)) (ns @ [new]) = recs s h ns"
    "steady (hf_filePtr h) s s4" "pins_kept s s4"
    "pins s4 g q = pins s g q + (if (g, q) = (hf_filePtr h, new) then 1 else 0)"
    "\<And>q. q \<notin> {hf_headerPageNo h, hf_curPageNo h, new} \<Longrightarrow> settled s (hf_filePtr h) q \<Longrightarrow> settled s4 (hf_filePtr h) q"
    "dom (logical s4 (hf_filePtr h)) = insert new (dom (logical s (hf_filePtr h)))"
proof -
  let ?fl = "hf_filePtr h" and ?H = "hf_headerPageNo h" and ?C = "hf_curPageNo h"
  note D = hf_coreD [OF assms(1)]
  note A = allocPage_spec [OF D(1,2) assms(3)]
  have A: "buf_ok s1" "live s1 = live s" "pins_kept s s1" "1 \<le> new" "logical s ?fl new = None"
    "holds s1 ?fl new fn" "\<And>q. q \<noteq> new \<Longrightarrow> logical s1 ?fl q = logical s ?fl q"
    using A D(2) by simp_all
  have h1: "holds s1 ?fl ?H fh" "holds s1 ?fl ?C fc" using A(3) D(7,8) by (simp_all add: pins_kept_def)
  have ne: "new \<noteq> ?H" "new \<noteq> ?C" using A(5) assms(4,5) by auto
  have "disk_page s1 ?fl new \<noteq> None"
    using buffered_in_use(2) [OF A(1), of ?fl new fn] A(6) by (simp add: holds_def)
  then have b: "0 < new" "new < 2147483648" using page_number_bound [OF A(1)] D(2) A(2) by simp_all
  note S2 = store_held [OF A(1,6), where pg = fresh, folded s2_def]
  have h2: "holds s2 ?fl ?H fh" "holds s2 ?fl ?C fc" "holds s2 ?fl new fn" using h1 A(6) S2(3) by simp_all
  note S3 = store_held [OF S2(1) h2(1), where pg = hdr', folded s3_def]
  have h3: "holds s3 ?fl ?H fh" "holds s3 ?fl ?C fc" "holds s3 ?fl new fn" using h2 S3(3) by simp_all
  note S4 = store_held [OF S3(1) h3(2), where pg = "set_nextPage pg new", folded s4_def]
  show "holds s4 ?fl ?H fh" "holds s4 ?fl ?C fc" "holds s4 ?fl new fn" "buf_ok s4" "live s4 = live s"
    using h3 S4(1,3,4) S3(4) S2(4) A(2) by simp_all
  have "logical s1 ?fl = (logical s ?fl)(new := logical s1 ?fl new)" using A(7) by (auto simp: fun_eq_iff)
  then have m: "logical s4 ?fl = (logical s ?fl)(new \<mapsto> fresh, ?H \<mapsto> hdr', ?C \<mapsto> set_nextPage pg new)"
    using S2(2) S3(2) S4(2) by (simp add: fun_eq_iff)
  show "deref s2 (Frame fh) = Some hdr"
    using holds_deref [OF h2(1)] S2(2) A(7) [of ?H] ne assms(5) by simp
  show "deref s3 (Frame fc) = Some pg"
    using holds_deref [OF h3(2)] S3(2) S2(2) A(7) [of ?C] ne assms(4) D(11) by simp
  have pl: "logical s ?fl (last ns) = Some pg" using assms(2,4) by simp
  note W = heap_append [OF D(4) A(5) b pl assms(5), where x = "bufPool (bufMgr s1) ! fn"]
  show "heap_wf (logical s4 ?fl) ?H (ns @ [new])" "heap_recs (logical s4 ?fl) (ns @ [new]) = recs s h ns"
    using W by (simp_all add: m assms(2) fresh_def hdr'_def)
  show "logical s4 ?fl new = Some fresh" using ne by (simp add: m)
  show "dom (logical s4 ?fl) = insert new (dom (logical s ?fl))" using assms(4,5) by (auto simp: m)
  show "new \<notin> set ns"
  proof
    assume "new \<in> set ns"
    then have "logical s ?fl new \<noteq> None" using D(4) by (auto elim!: heap_wfE chain_page)
    then show False using A(5) by simp
  qed
  note P = allocPage_pins [OF D(1,2) assms(3)] and Q = allocPage_steady [OF D(1,2) assms(3)]
  note Z2 = store_settled [OF A(1,6), where pg = fresh, folded s2_def]
    and Z3 = store_settled [OF S2(1) h2(1), where pg = hdr', folded s3_def]
    and Z4 = store_settled [OF S3(1) h3(2), where pg = "set_nextPage pg new", folded s4_def]
  note T = store_steady [OF A(1,6), where pg = fresh, folded s2_def]
    store_steady [OF S2(1) h2(1), where pg = hdr', folded s3_def]
    store_steady [OF S3(1) h3(2), where pg = "set_nextPage pg new", folded s4_def]
  show "steady ?fl s s4" using steady_trans [OF Q(1) steady_trans [OF T(1) steady_trans [OF T(2,3)]]] .
  show "pins_kept s s4" using A(3) S2(3) S3(3) S4(3) by (simp add: pins_kept_def)
  show "pins s4 g q = pins s g q + (if (g, q) = (?fl, new) then 1 else 0)"
    using P(1) [of g q] Z2(1) Z3(1) Z4(1) by simp
  show "\<And>q. q \<notin> {?H, ?C, new} \<Longrightarrow> settled s ?fl q \<Longrightarrow> settled s4 ?fl q" using Q(2) Z2(3) Z3(3) Z4(3) by simp
qed

lemma insert_fails:
  assumes "hf_core s h ns fh fc" "owned base s h" "BufMgr_allocPage s (hf_filePtr h) = (Inl e, s')"
    and "flag_ok s (hf_filePtr h) (hf_headerPageNo h) (hf_hdrDirtyFlag h) fh"
    and "flag_ok s (hf_filePtr h) (hf_curPageNo h) (hf_curDirtyFlag h) fc" "hf_curPageNo h = last ns"
  shows "inserted base s h ns rec (Inl e) h s'"
proof -
  let ?fl = "hf_filePtr h" and ?H = "hf_headerPageNo h"
  note D = hf_coreD [OF assms(1)]
  note F = allocPage_fails [OF D(1,2) assms(3)]
  have ok: "buf_ok s'" using allocPage_spec [OF D(1,2) assms(3)] by simp
  obtain hdr where hdr: "logical s ?fl ?H = Some hdr" "page_chain (logical s ?fl) (hdr_firstPage hdr) ns"
    using D(4) by (auto elim: heap_wfE)
  have old: "logical s' ?fl n = logical s ?fl n" if "n \<in> set ns" for n
    using F(6) chain_page [OF hdr(2) that] by (metis option.distinct(1))
  have wf: "heap_wf (logical s' ?fl) ?H ns"
    using D(4) hdr(1) F(6) [of ?H] chain_cong [of "logical s ?fl" _ ns "logical s' ?fl"] old
      rec_count_cong [of ns "logical s' ?fl" "logical s ?fl"]
    by (auto simp: heap_wf_def)
  have l: "?fl \<in> live s'" using steady_live(1) [OF F(1)] D(2) by simp
  have "hf_core s' h ns fh fc" using D ok wf l F(5) by (simp add: hf_core_def)
  then have "hf_ok s' h ns" unfolding hf_ok_def using F(4) D(7,8) assms(4,5) by blast
  moreover have "owned base s' h"
    using assms(2) F(1,2,3,5) by (simp add: owned_def pool_base_def pins_kept_def steady_def)
  moreover have "recs s' h ns = recs s h ns" using old by (auto simp: heap_recs_def fun_eq_iff)
  ultimately show ?thesis using F(1) assms(3,6) by (simp add: inserted_def)
qed

text \<open>The old last page is given up, the new one is the current page.\<close>

lemma relink_owned:
  assumes "hf_core s h ns fh fc" "owned base s h" "hf_curPageNo h = last ns"
    and "BufMgr_allocPage s (hf_filePtr h) = (Inr (new, fn), s1)"
    and "logical s (hf_filePtr h) (hf_curPageNo h) = Some pg"
    and "logical s (hf_filePtr h) (hf_headerPageNo h) = Some hdr"
  defines "s4 \<equiv> store (store (store s1 (Frame fn) (set_nextPage (Page_init (bufPool (bufMgr s1) ! fn) new) (- 1)))
      (Frame fh) (set_hdr_pageCnt (hdr_pageCnt hdr + 1) (set_hdr_lastPage new hdr))) (Frame fc) (set_nextPage pg new)"
  assumes U: "BufMgr_unPinPage s4 (hf_filePtr h) (hf_curPageNo h) True = (st, s5)"
  defines "h' \<equiv> h\<lparr>hf_hdrDirtyFlag := True, hf_curPage := Frame fn, hf_curPageNo := new\<rparr>"
  shows "st = OK" "hf_core s5 h' (ns @ [new]) fh fn" "owned base s5 h'" "steady (hf_filePtr h) s s5"
    "logical s5 (hf_filePtr h) new = Some (set_nextPage (Page_init (bufPool (bufMgr s1) ! fn) new) (- 1))"
    "recs s5 h' (ns @ [new]) = recs s h ns" "dom (logical s5 (hf_filePtr h)) = insert new (dom (logical s (hf_filePtr h)))"
proof -
  let ?fl = "hf_filePtr h" and ?H = "hf_headerPageNo h" and ?C = "hf_curPageNo h"
  note D = hf_coreD [OF assms(1)]
  note L = link_page [OF assms(1,3-6), folded s4_def]
  have fk: "flag_ok s4 ?fl ?C True fc" by (simp add: flag_ok_def)
  note V = unPin_held [OF L(3,6) fk U] and Q = unPin_quiet [OF L(3,6) fk U]
  have l4: "?fl \<in> live s4" using L(4) D(2) by simp
  note W = unPin_settled [OF L(3,6) fk U l4]
  have lg: "logical s5 ?fl = logical s4 ?fl" "live s5 = live s"
    using V(3) L(4) D(2) by (auto simp: same_view_def)
  have new: "new \<noteq> ?C" "new \<noteq> ?H" using L(8) D(3) L(10) by (auto elim: heap_wfE)
  have hh: "holds s5 ?fl ?H fh" "holds s5 ?fl new fn"
    using V(5) [of ?fl ?H fh] V(5) [of ?fl new fn] L(5,7) new D(11) by auto
  show "st = OK" by (rule V(1))
  show "hf_core s5 h' (ns @ [new]) fh fn"
    using V(2) lg L(10) hh D(2,5) by (simp add: hf_core_def h'_def)
  show "steady ?fl s s5" using steady_trans [OF L(12)] Q by (simp add: quiet_def)
  show "logical s5 ?fl new = Some (set_nextPage (Page_init (bufPool (bufMgr s1) ! fn) new) (- 1))"
    "recs s5 h' (ns @ [new]) = recs s h ns" "dom (logical s5 ?fl) = insert new (dom (logical s ?fl))"
    using L(9,11,16) lg(1) by (simp_all add: h'_def)
  have O: "pool_base base s" "\<And>g q. pins s g q = pins base g q + own h g q"
    "\<And>q. q \<noteq> ?H \<Longrightarrow> q \<noteq> ?C \<Longrightarrow> settled s ?fl q" using assms(2) by (simp_all add: owned_def)
  have b4: "pool_base base s4"
    using O(1) L(12,13) pins_kept_trans [of base s s4] by (simp add: pool_base_def steady_def)
  have p4: "pins s4 g q = pins base g q + own h g q + (if (g, q) = (?fl, new) then 1 else 0)" for g q
    using L(14) [of g q] O(2) [of g q] by simp
  have lt: "pins base ?fl ?C < pins s4 ?fl ?C" using p4 [of ?fl ?C] D(11) by (simp add: own_def)
  have le: "pins base g q \<le> pins s4 g q" for g q using p4 [of g q] by (auto simp: own_def)
  note B = unPin_base [OF b4 L(3,6) fk U lt le]
  have "pins s5 g q = pins base g q + own h' g q" for g q
    using B(2) [of g q] p4 [of g q] new D(11) by (auto simp: own_def h'_def)
  moreover have "settled s5 ?fl q" if "q \<noteq> ?H" "q \<noteq> new" for q
    using W(1) W(2) [of q] L(15) [of q] O(3) [of q] that by (cases "q = ?C") auto
  ultimately show "owned base s5 h'" using B(1) by (simp add: owned_def h'_def own_def)
qed

lemma insert_new_page_ok:
  assumes "hf_core s h ns fh fc" "owned base s h" "hf_curPageNo h = last ns" "rec \<noteq> []" "length rec \<le> 1000"
    and "flag_ok s (hf_filePtr h) (hf_headerPageNo h) (hf_hdrDirtyFlag h) fh"
    and "flag_ok s (hf_filePtr h) (hf_curPageNo h) (hf_curDirtyFlag h) fc"
  shows "\<exists>r h' s'. insert_new_page s h rec = Some (r, h', s') \<and> inserted base s h ns rec r h' s'"
proof -
  let ?fl = "hf_filePtr h" and ?H = "hf_headerPageNo h" and ?C = "hf_curPageNo h"
  note D = hf_coreD [OF assms(1)]
  obtain pg hdr where pg: "logical s ?fl ?C = Some pg" "page_inv pg" and hdr: "logical s ?fl ?H = Some hdr"
    by (rule hf_cur_page [OF assms(1)])
  obtain ra s1 where A: "BufMgr_allocPage s ?fl = (ra, s1)" by fastforce
  show ?thesis
  proof (cases ra)
    case (Inl e)
    then show ?thesis
      using A insert_fails [OF assms(1,2) A [unfolded Inl] assms(6,7,3)] by (auto simp: insert_new_page_def)
  next
    case (Inr nf)
    obtain new fn where nf: "ra = Inr (new, fn)" using Inr by (cases nf) auto
    note L = link_page(1,2) [OF assms(1,3) A [unfolded nf] pg(1) hdr]
    let ?fresh = "set_nextPage (Page_init (bufPool (bufMgr s1) ! fn) new) (- 1)"
    let ?s2 = "store s1 (Frame fn) ?fresh"
    let ?s3 = "store ?s2 (Frame fh) (set_hdr_pageCnt (hdr_pageCnt hdr + 1) (set_hdr_lastPage new hdr))"
    let ?s4 = "store ?s3 (Frame fc) (set_nextPage pg new)"
    let ?h = "h\<lparr>hf_hdrDirtyFlag := True, hf_curPage := Frame fn, hf_curPageNo := new\<rparr>"
    obtain st s5 where U: "BufMgr_unPinPage ?s4 ?fl ?C True = (st, s5)" by fastforce
    note R = relink_owned [OF assms(1-3) A [unfolded nf] pg(1) hdr U]
    obtain rid pg' where I: "Page_insertRecord ?fresh rec = (Inr rid, pg')"
      using fresh_page_insert [OF assms(5)] by blast
    have "logical s5 (hf_filePtr ?h) (hf_curPageNo ?h) = Some ?fresh" using R(5) by simp
    from record_added_ok [OF R(2,3) this I assms(4)]
    obtain h' s' where X: "record_added s5 ?h pg' = Some (h', s')" "inserted base s5 ?h (ns @ [new]) rec (Inr rid) h' s'"
      "dom (logical s' ?fl) = dom (logical s5 ?fl)" by auto
    have "bufPool (bufMgr s5) ! fn = ?fresh"
      using holds_logical [OF hf_coreD(8) [OF R(2)]] R(5) by simp
    then have "insert_new_page s h rec = Some (Inr rid, h', s')"
      using A nf L U R(1) I X(1) D(5,6)
      by (simp add: insert_new_page_def Page_setNextPage_def Let_def)
    moreover have "inserted base s h ns rec (Inr rid) h' s'"
      using X(2,3) R(6,7) steady_trans [OF R(4)] by (auto simp: inserted_def)
    ultimately show ?thesis by blast
  qed
qed

subsection \<open>Inserting\<close>

lemma store_same: "holds s fl p f \<Longrightarrow> logical s fl p = Some pg \<Longrightarrow> store s (Frame f) pg = s"
  by (auto simp: holds_logical set_frame_def)

lemma insertRecord_ok:
  assumes "hf_ok s h ns" "owned base s h" "hf_curPageNo h = last ns" "rec \<noteq> []" "length rec \<le> 1000"
  shows "\<exists>r h' s'. insertRecord s h rec = Some (r, h', s') \<and> inserted base s h ns rec r h' s'"
proof -
  let ?fl = "hf_filePtr h" and ?C = "hf_curPageNo h"
  obtain fh fc where K: "hf_core s h ns fh fc" "flag_ok s ?fl (hf_headerPageNo h) (hf_hdrDirtyFlag h) fh"
    "flag_ok s ?fl ?C (hf_curDirtyFlag h) fc" using assms(1) by (rule hf_okE)
  note D = hf_coreD [OF K(1)]
  obtain pg where pg: "logical s ?fl ?C = Some pg" by (rule hf_cur_page [OF K(1)])
  have len: "\<not> PAGESIZE - DPFIXED < int (length rec)" using assms(5) by (simp add: PAGESIZE_def DPFIXED_eq)
  have d: "deref s (hf_curPage h) = Some pg" using D(10) pg by simp
  obtain ri pg' where I: "Page_insertRecord pg rec = (ri, pg')" by fastforce
  show ?thesis
  proof (cases ri)
    case (Inr rid)
    from record_added_ok [OF K(1) assms(2) pg I [unfolded Inr] assms(4,3)]
    show ?thesis using I Inr len d D(6) by (auto simp: insertRecord_def)
  next
    case (Inl e)
    then have "pg' = pg" using I by (auto simp: Page_insertRecord_def Let_def split: if_splits)
    then have "insertRecord s h rec = insert_new_page s h rec"
      using I Inl len d D(6) store_same [OF D(8) pg] by (simp add: insertRecord_def)
    then show ?thesis using insert_new_page_ok [OF K(1) assms(2-5) K(2,3)] by simp
  qed
qed

end
