(* ===== verification/Heap_Scan.thy ===== *)
theory Heap_Scan
  imports Heap_Insert
begin

text \<open>
  Scans over a heap file. \<open>scan_pos\<close> relates the position of a scan to the list of the record
  identifiers it has still to visit, page by page in the order of the chain and slot by slot
  inside a page; \<open>scanNext\<close> returns the first of them that satisfies the filter.
\<close>

subsection \<open>The order of a scan\<close>

definition heap_scan :: "(int \<Rightarrow> memory option) \<Rightarrow> int list \<Rightarrow> RID list" where
  "heap_scan m ns = concat (map (\<lambda>n. page_scan (the (m n)) NULLRID) ns)"

lemma heap_scan_simps [simp]:
  "heap_scan m [] = []" "heap_scan m (n # ns) = page_scan (the (m n)) NULLRID @ heap_scan m ns"
  by (simp_all add: heap_scan_def)

lemma chain_next:
  "page_chain m p (pre @ n # post) \<Longrightarrow> m n = Some pg \<Longrightarrow>
    nextPage pg = (case post of [] \<Rightarrow> - 1 | n' # _ \<Rightarrow> n')"
proof (induction pre arbitrary: p)
  case Nil
  then show ?case by (cases post) auto
next
  case (Cons k pre)
  then show ?case by (auto split: option.splits)
qed

text \<open>What a page scan visits.\<close>

lemma page_scan_mem:
  assumes "page_inv p" "- 1 \<le> rid_slotNo r" "r' \<in> set (page_scan p r)"
  shows "rid_pageNo r' = curPage p" "contents p (rid_slotNo r') \<noteq> None" "rid_slotNo r < rid_slotNo r'"
proof -
  note S = page_scan_spec [OF assms(1,2)]
  have "rid_slotNo r' \<in> set (map rid_slotNo (page_scan p r))" using assms(3) by auto
  then show "contents p (rid_slotNo r') \<noteq> None" "rid_slotNo r < rid_slotNo r'" using S by blast+
  show "rid_pageNo r' = curPage p" using S assms(3) by blast
qed

text \<open>A page scan is determined by the records behind its start.\<close>

lemma page_scan_cong:
  assumes "page_inv p" "page_inv q" "curPage q = curPage p" "- 1 \<le> rid_slotNo r" "- 1 \<le> rid_slotNo r'"
    and "\<And>k. (rid_slotNo r < k \<and> contents p k \<noteq> None) \<longleftrightarrow> (rid_slotNo r' < k \<and> contents q k \<noteq> None)"
  shows "page_scan p r = page_scan q r'"
proof -
  note P = page_scan_spec [OF assms(1,4)] and Q = page_scan_spec [OF assms(2,5)]
  have "map rid_slotNo (page_scan p r) = map rid_slotNo (page_scan q r')"
    using P Q assms(6) by (intro strict_sorted_equal) simp_all
  moreover have "map rid_pageNo (page_scan p r) = map rid_pageNo (page_scan q r')"
  proof -
    have "map rid_pageNo (page_scan p r) = replicate (length (page_scan p r)) (curPage p)"
      "map rid_pageNo (page_scan q r') = replicate (length (page_scan q r')) (curPage p)"
      using P Q assms(3) by (auto intro!: replicate_eqI)
    then show ?thesis using map_eq_imp_length_eq [OF calculation] by simp
  qed
  ultimately show ?thesis
    by (auto simp: list_eq_iff_nth_eq RID.expand dest!: map_eq_imp_length_eq)
qed

lemma page_scan_empty:
  assumes "page_inv p" "page_scan p NULLRID = []" "- 1 \<le> rid_slotNo r"
  shows "page_scan p r = []"
proof (rule ccontr)
  assume "page_scan p r \<noteq> []"
  then obtain r' where "r' \<in> set (page_scan p r)" by (cases "page_scan p r") auto
  from page_scan_mem [OF assms(1,3) this] have "contents p (rid_slotNo r') \<noteq> None" "- 1 < rid_slotNo r'"
    using assms(3) by auto
  then show False using page_scan_spec [OF assms(1), of NULLRID] assms(2) by (simp add: NULLRID_def)
qed

subsection \<open>Moving on\<close>

definition scan_at :: "'a bsys_scheme \<Rightarrow> 'a bsys_scheme \<Rightarrow> 'h HeapFile_scheme \<Rightarrow> int list \<Rightarrow> int \<Rightarrow> int list \<Rightarrow> bool" where
  "scan_at base s h pre n post \<longleftrightarrow> hf_ok s h (pre @ n # post) \<and> hf_curPageNo h = n \<and> owned base s h"

lemma scan_move:
  assumes "scan_at base s h pre n (n' # post)"
    and "BufMgr_unPinPage s (hf_filePtr h) n (hf_curDirtyFlag h) = (st, t)"
    and "BufMgr_readPage t (hf_filePtr h) n' = (r, s')"
  shows "st = OK" "quiet (hf_filePtr h) s s'" "\<exists>f. r = Inr f \<and>
    logical s' (hf_filePtr h) n' = Some (bufPool (bufMgr s') ! f) \<and>
    scan_at base s' (h\<lparr>hf_curPage := Frame f, hf_curPageNo := n', hf_curDirtyFlag := False\<rparr>) (pre @ [n]) n' post"
proof -
  let ?fl = "hf_filePtr h" and ?ns = "pre @ n # n' # post"
  have A: "hf_ok s h ?ns" "hf_curPageNo h = n" "owned base s h" using assms(1) unfolding scan_at_def by auto
  obtain fh fc where K: "hf_core s h ?ns fh fc" "flag_ok s ?fl (hf_headerPageNo h) (hf_hdrDirtyFlag h) fh"
    "flag_ok s ?fl (hf_curPageNo h) (hf_curDirtyFlag h) fc" using A(1) by (rule hf_okE)
  note D = hf_coreD [OF K(1)]
  have n': "n' \<in> set ?ns" "n' \<noteq> hf_curPageNo h" "n' \<noteq> hf_headerPageNo h" using D(4) A(2) by (auto elim: heap_wfE)
  have nh: "settled s ?fl n'" using A(3) n'(2,3) by (simp add: owned_def)
  note M = move_page [OF K n'(1,2) nh assms(2) [folded A(2)] assms(3)]
  show "st = OK" "quiet ?fl s s'" by (rule M)+
  show "\<exists>f. r = Inr f \<and> logical s' ?fl n' = Some (bufPool (bufMgr s') ! f) \<and>
    scan_at base s' (h\<lparr>hf_curPage := Frame f, hf_curPageNo := n', hf_curDirtyFlag := False\<rparr>) (pre @ [n]) n' post"
    using move_owned [OF K(1) A(3) K(3,2) n'(1,2) assms(2) [folded A(2)] assms(3)] M(5,6)
    by (auto simp: scan_at_def)
qed

subsection \<open>Positions\<close>

definition scan_pos :: "'a bsys_scheme \<Rightarrow> 'a bsys_scheme \<Rightarrow> HeapFileScan \<Rightarrow> int list \<Rightarrow> RID list \<Rightarrow> bool" where
  "scan_pos base s h ns rest \<longleftrightarrow> (\<exists>pre n post. ns = pre @ n # post \<and> scan_at base s h pre n post \<and>
     - 1 \<le> rid_slotNo (hf_curRec h) \<and>
     rest = page_scan (the (logical s (hf_filePtr h) n)) (hf_curRec h) @ heap_scan (logical s (hf_filePtr h)) post)"

text \<open>What a scan never changes of its object.\<close>

definition same_scan :: "HeapFileScan \<Rightarrow> HeapFileScan \<Rightarrow> bool" where
  "same_scan h h' \<longleftrightarrow> hf_filePtr h' = hf_filePtr h \<and> hf_headerPageNo h' = hf_headerPageNo h \<and>
     hf_headerPage h' = hf_headerPage h \<and> hf_hdrDirtyFlag h' = hf_hdrDirtyFlag h \<and>
     hs_filter h' = hs_filter h \<and> hs_marked h' = hs_marked h"

lemma same_scan_trans: "same_scan h h' \<Longrightarrow> same_scan h' h'' \<Longrightarrow> same_scan h h''"
  by (simp add: same_scan_def)

lemma scan_at_curRec [simp]: "scan_at base s (h\<lparr>hf_curRec := r\<rparr>) pre n post = scan_at base s h pre n post"
  by (simp add: scan_at_def hf_ok_def hf_core_def owned_def own_def)

lemma scan_at_page:
  assumes "scan_at base s h pre n post"
  obtains pg where "deref s (hf_curPage h) = Some pg" "logical s (hf_filePtr h) n = Some pg" "page_inv pg"
    "curPage pg = n" "nextPage pg = (case post of [] \<Rightarrow> - 1 | n' # _ \<Rightarrow> n')" "hf_filePtr h \<in> live s"
    "\<And>n'. n' \<in> set post \<Longrightarrow> n' \<noteq> - 1"
proof -
  have A: "hf_ok s h (pre @ n # post)" "hf_curPageNo h = n" using assms by (simp_all add: scan_at_def)
  obtain fh fc where K: "hf_core s h (pre @ n # post) fh fc" using A(1) by (rule hf_okE)
  note D = hf_coreD [OF K]
  obtain pg where pg: "logical s (hf_filePtr h) n = Some pg" "page_inv pg" "curPage pg = n"
    using heap_page [OF D(4), of n] by auto
  obtain p where c: "page_chain (logical s (hf_filePtr h)) p (pre @ n # post)" using D(4) by (rule heap_wfE)
  show ?thesis
  proof (rule that [OF _ pg(1-3) chain_next [OF c pg(1)] D(2)])
    show "deref s (hf_curPage h) = Some pg" using D(10) A(2) pg(1) by simp
    show "n' \<noteq> - 1" if "n' \<in> set post" for n'
      by (rule heap_page [OF D(4), of n']) (use that in auto)
  qed
qed

text \<open>The result of moving on from a position with \<open>rest\<close> still to visit.\<close>

definition scan_found :: "'a bsys_scheme \<Rightarrow> 'a bsys_scheme \<Rightarrow> HeapFileScan \<Rightarrow> int list \<Rightarrow> RID list \<Rightarrow> Status \<Rightarrow> bool" where
  "scan_found base s h ns rest st \<longleftrightarrow>
     (case rest of
        [] \<Rightarrow> st = FILEEOF \<and> scan_pos base s h ns []
      | r # rs \<Rightarrow> st = OK \<and> hf_curRec h = r \<and> rid_pageNo r = hf_curPageNo h \<and> scan_pos base s h ns rs)"

subsection \<open>The inner loop: the next page with a record\<close>

lemma scan_pages_spec:
  assumes "scan_at base s h pre n post" "- 1 \<le> rid_slotNo (hf_curRec h)"
    and "page_scan (the (logical s (hf_filePtr h) n)) (hf_curRec h) = []"
  shows "\<exists>st h' s'. scan_pages s h = Some (st, h', s') \<and> quiet (hf_filePtr h) s s' \<and> same_scan h h' \<and>
    scan_found base s' h' (pre @ n # post) (heap_scan (logical s (hf_filePtr h)) post) st"
  using assms
proof (induction post arbitrary: s h pre n)
  case Nil
  obtain pg where pg: "deref s (hf_curPage h) = Some pg" "nextPage pg = - 1"
    by (rule scan_at_page [OF Nil.prems(1)]) auto
  have "scan_pos base s h (pre @ [n]) []"
    unfolding scan_pos_def using Nil.prems by (intro exI [of _ pre] exI [of _ n] exI [of _ "[]"]) simp
  moreover have "scan_pages s h = Some (FILEEOF, h, s)"
    using pg by (subst scan_pages.simps) (simp add: Page_getNextPage_def)
  ultimately show ?case by (simp add: same_scan_def quiet_refl scan_found_def)
next
  case (Cons n' post)
  let ?fl = "hf_filePtr h"
  obtain pg where pg: "deref s (hf_curPage h) = Some pg" "nextPage pg = n'" "n' \<noteq> - 1" "?fl \<in> live s"
    by (rule scan_at_page [OF Cons.prems(1)]) auto
  have no: "hf_curPageNo h = n" using Cons.prems(1) by (simp add: scan_at_def)
  obtain st t where U: "BufMgr_unPinPage s ?fl n (hf_curDirtyFlag h) = (st, t)" by fastforce
  obtain r s1 where R: "BufMgr_readPage t ?fl n' = (r, s1)" by fastforce
  note M = scan_move [OF Cons.prems(1) U R]
  obtain f where f: "r = Inr f" "logical s1 ?fl n' = Some (bufPool (bufMgr s1) ! f)"
    "scan_at base s1 (h\<lparr>hf_curPage := Frame f, hf_curPageNo := n', hf_curDirtyFlag := False\<rparr>) (pre @ [n]) n' post"
    using M(3) by blast
  let ?h = "h\<lparr>hf_curPage := Frame f, hf_curPageNo := n', hf_curDirtyFlag := False\<rparr>" and ?p = "bufPool (bufMgr s1) ! f"
  have lg: "logical s1 ?fl = logical s ?fl" using quiet_logical [OF M(2) pg(4)] .
  have pi: "page_inv ?p" "curPage ?p = n'" by (rule scan_at_page [OF f(3)]; use f(2) in auto)+
  have e: "h\<lparr>hf_curPageNo := n', hf_curDirtyFlag := False, hf_curPage := Frame f\<rparr> = ?h" by (cases h) simp
  have step: "scan_pages s h = (case Page_firstRecord ?p of
      Inr rid \<Rightarrow> Some (OK, ?h\<lparr>hf_curRec := rid\<rparr>, s1) | Inl _ \<Rightarrow> scan_pages s1 ?h)"
    using pg U R M(1) f(1) no
    by (subst scan_pages.simps) (simp add: Page_getNextPage_def Let_def e split: sum.split)
  note F = Page_firstRecord_next [OF pi(1)]
  show ?case
  proof (cases "Page_nextRecord ?p NULLRID")
    case (Inr rid)
    then have ps: "page_scan ?p NULLRID = rid # page_scan ?p rid" by (subst page_scan.simps) simp
    have "- 1 \<le> rid_slotNo rid" using Page_nextRecord_Inr(1) [OF Inr] by (simp add: NULLRID_def)
    then have "scan_pos base s1 (?h\<lparr>hf_curRec := rid\<rparr>) (pre @ n # n' # post)
        (page_scan ?p rid @ heap_scan (logical s ?fl) post)"
      unfolding scan_pos_def using f(2,3) lg
      by (intro exI [of _ "pre @ [n]"] exI [of _ n'] exI [of _ post]) simp
    moreover have "heap_scan (logical s ?fl) (n' # post) = rid # page_scan ?p rid @ heap_scan (logical s ?fl) post"
      using f(2) ps by (simp add: lg)
    ultimately show ?thesis
      using step F Inr M(2) pi(2) Page_nextRecord_Inr(3) [OF Inr] by (simp add: same_scan_def scan_found_def)
  next
    case (Inl e)
    then have ps: "page_scan ?p NULLRID = []" by (subst page_scan.simps) simp
    have "page_scan (the (logical s1 (hf_filePtr ?h) n')) (hf_curRec ?h) = []"
      using page_scan_empty [OF pi(1) ps, of "hf_curRec h"] Cons.prems(2) f(2) by simp
    from Cons.IH [OF f(3) _ this] Cons.prems(2)
    obtain st h' s' where I: "scan_pages s1 ?h = Some (st, h', s')" "quiet ?fl s1 s'" "same_scan ?h h'"
      "scan_found base s' h' (pre @ n # n' # post) (heap_scan (logical s ?fl) post) st"
      by (auto simp: lg)
    have "heap_scan (logical s ?fl) (n' # post) = heap_scan (logical s ?fl) post"
      using f(2) ps by (simp add: lg)
    moreover have "same_scan h ?h" by (simp add: same_scan_def)
    ultimately show ?thesis
      using step F Inl I quiet_trans [OF M(2) I(2)] same_scan_trans [of h ?h h'] by simp
  qed
qed

subsection \<open>The scan\<close>

abbreviation matches :: "'a bsys_scheme \<Rightarrow> HeapFileScan \<Rightarrow> int list \<Rightarrow> RID \<Rightarrow> bool" where
  "matches s h ns r \<equiv> matchRec (hs_filter h) (the (recs s h ns r))"

lemma scan_pos_records:
  assumes "scan_pos base s h ns rest" "r \<in> set rest"
  shows "recs s h ns r \<noteq> None"
proof -
  let ?m = "logical s (hf_filePtr h)"
  obtain pre n post where P: "ns = pre @ n # post" "scan_at base s h pre n post" "- 1 \<le> rid_slotNo (hf_curRec h)"
    "rest = page_scan (the (?m n)) (hf_curRec h) @ heap_scan ?m post"
    using assms(1) by (auto simp: scan_pos_def)
  have wf: "heap_wf ?m (hf_headerPageNo h) ns"
    using P(1,2) by (auto simp: scan_at_def elim!: hf_okE dest: hf_coreD(4))
  have *: "recs s h ns r \<noteq> None"
    if k: "k \<in> set ns" and r: "r \<in> set (page_scan (the (?m k)) r0)" "- 1 \<le> rid_slotNo r0" for k r0
  proof -
    obtain pg where pg: "?m k = Some pg" "page_inv pg" "curPage pg = k" by (rule heap_page [OF wf k])
    then show ?thesis using page_scan_mem [OF pg(2) r(2)] k r(1) by (simp add: heap_recs_def)
  qed
  show ?thesis
    using assms(2) P(1,3,4) * [of n "hf_curRec h"] * [of _ NULLRID]
    by (auto simp: heap_scan_def NULLRID_def)
qed

lemma scan_current:
  assumes "scan_pos base s h ns rs" "rid_pageNo (hf_curRec h) = hf_curPageNo h" "recs s h ns (hf_curRec h) = Some rec"
  obtains pg where "deref s (hf_curPage h) = Some pg" "Page_getRecord pg (hf_curRec h) = Inr rec"
proof -
  obtain pre n post where P: "ns = pre @ n # post" "scan_at base s h pre n post"
    using assms(1) by (auto simp: scan_pos_def)
  obtain pg where pg: "deref s (hf_curPage h) = Some pg" "logical s (hf_filePtr h) n = Some pg" "page_inv pg"
    by (rule scan_at_page [OF P(2)])
  have c: "contents pg (rid_slotNo (hf_curRec h)) = Some rec"
    using assms(2,3) P pg(2) by (simp add: heap_recs_def scan_at_def)
  then have "0 \<le> rid_slotNo (hf_curRec h)"
    using contents_dom [of pg "rid_slotNo (hf_curRec h)"] by (simp add: in_use_def)
  then show ?thesis using that pg(1) pg.get_eq [OF pg(3)] c by simp
qed

lemma scan_advance:
  assumes "scan_pos base s h ns rest"
  shows "\<exists>pg st h' s'. deref s (hf_curPage h) = Some pg \<and>
    (case Page_nextRecord pg (hf_curRec h) of
       Inr rid \<Rightarrow> Some (OK, h\<lparr>hf_curRec := rid\<rparr>, s) | Inl _ \<Rightarrow> scan_pages s h) = Some (st, h', s') \<and>
    quiet (hf_filePtr h) s s' \<and> same_scan h h' \<and> scan_found base s' h' ns rest st"
proof -
  let ?m = "logical s (hf_filePtr h)"
  obtain pre n post where P: "ns = pre @ n # post" "scan_at base s h pre n post" "- 1 \<le> rid_slotNo (hf_curRec h)"
    "rest = page_scan (the (?m n)) (hf_curRec h) @ heap_scan ?m post"
    using assms(1) by (auto simp: scan_pos_def)
  obtain pg where pg: "deref s (hf_curPage h) = Some pg" "?m n = Some pg" "page_inv pg" "curPage pg = n"
    by (rule scan_at_page [OF P(2)])
  show ?thesis
  proof (cases "Page_nextRecord pg (hf_curRec h)")
    case (Inr rid)
    then have ps: "page_scan pg (hf_curRec h) = rid # page_scan pg rid" by (subst page_scan.simps) simp
    note N = Page_nextRecord_Inr [OF Inr]
    have "scan_pos base s (h\<lparr>hf_curRec := rid\<rparr>) ns (page_scan pg rid @ heap_scan ?m post)"
      unfolding scan_pos_def using P N(1) pg(2) by (intro exI [of _ pre] exI [of _ n] exI [of _ post]) simp
    then show ?thesis
      using pg P Inr N(3) ps by (simp add: quiet_refl same_scan_def scan_at_def scan_found_def)
  next
    case (Inl e)
    then have ps: "page_scan (the (?m n)) (hf_curRec h) = []" using pg(2) by (subst page_scan.simps) simp
    show ?thesis using scan_pages_spec [OF P(2,3) ps] pg(1) P(1,4) Inl ps by simp
  qed
qed

lemma scan_loop_spec:
  assumes "scan_pos base s h ns rest"
  shows "\<exists>st h' s'. scan_loop s h = Some (if st = OK then Inr (hf_curRec h') else Inl st, h', s') \<and>
    quiet (hf_filePtr h) s s' \<and> same_scan h h' \<and> scan_found base s' h' ns (dropWhile (\<lambda>r. \<not> matches s h ns r) rest) st"
  using assms
proof (induction rest arbitrary: s h)
  case Nil
  from scan_advance [OF Nil] obtain pg h' s' where A: "deref s (hf_curPage h) = Some pg"
    "(case Page_nextRecord pg (hf_curRec h) of
       Inr rid \<Rightarrow> Some (OK, h\<lparr>hf_curRec := rid\<rparr>, s) | Inl _ \<Rightarrow> scan_pages s h) = Some (FILEEOF, h', s')"
    "quiet (hf_filePtr h) s s'" "same_scan h h'" "scan_pos base s' h' ns []"
    by (auto simp: scan_found_def)
  then show ?case
    by (intro exI [of _ FILEEOF] exI [of _ h'] exI [of _ s'], subst scan_loop.simps) (simp add: scan_found_def)
next
  case (Cons r rs)
  from scan_advance [OF Cons.prems] obtain pg h1 s1 where A: "deref s (hf_curPage h) = Some pg"
    "(case Page_nextRecord pg (hf_curRec h) of
       Inr rid \<Rightarrow> Some (OK, h\<lparr>hf_curRec := rid\<rparr>, s) | Inl _ \<Rightarrow> scan_pages s h) = Some (OK, h1, s1)"
    "quiet (hf_filePtr h) s s1" "same_scan h h1" "hf_curRec h1 = r" "rid_pageNo r = hf_curPageNo h1" "scan_pos base s1 h1 ns rs"
    by (auto simp: scan_found_def)
  obtain rec where rec: "recs s h ns r = Some rec" using scan_pos_records [OF Cons.prems, of r] by auto
  have live: "hf_filePtr h \<in> live s"
    using Cons.prems by (auto simp: scan_pos_def scan_at_def elim!: hf_okE dest: hf_coreD(2))
  have eq: "recs s1 h1 ns = recs s h ns" "hs_filter h1 = hs_filter h"
    using quiet_logical [OF A(3) live] A(4) by (simp_all add: same_scan_def)
  obtain pg1 where pg1: "deref s1 (hf_curPage h1) = Some pg1" "Page_getRecord pg1 (hf_curRec h1) = Inr rec"
    using scan_current [OF A(7)] A(5,6) rec eq by auto
  have step: "scan_loop s h = (if matches s h ns r then Some (Inr r, h1, s1) else scan_loop s1 h1)"
    using A pg1 rec eq(2) by (subst scan_loop.simps) simp
  show ?case
  proof (cases "matches s h ns r")
    case True
    then show ?thesis
      using step A by (intro exI [of _ OK] exI [of _ h1] exI [of _ s1]) (simp add: scan_found_def)
  next
    case False
    from Cons.IH [OF A(7)] obtain st h' s' where
      I: "scan_loop s1 h1 = Some (if st = OK then Inr (hf_curRec h') else Inl st, h', s')"
      "quiet (hf_filePtr h) s1 s'" "same_scan h1 h'" "scan_found base s' h' ns (dropWhile (\<lambda>r. \<not> matches s h ns r) rs) st"
      using A(4) by (auto simp: eq same_scan_def [of h])
    then show ?thesis
      using False step quiet_trans [OF A(3) I(2)] same_scan_trans [OF A(4) I(3)] by auto
  qed
qed

lemma scan_pos_hf:
  assumes "scan_pos base s h ns rest"
  obtains fh fc where "hf_core s h ns fh fc" "hf_ok s h ns" "owned base s h" "hf_filePtr h \<in> live s" "buf_ok s"
    "flag_ok s (hf_filePtr h) (hf_headerPageNo h) (hf_hdrDirtyFlag h) fh"
    "flag_ok s (hf_filePtr h) (hf_curPageNo h) (hf_curDirtyFlag h) fc"
proof -
  have *: "hf_ok s h ns" "owned base s h" using assms by (auto simp: scan_pos_def scan_at_def)
  show ?thesis by (rule hf_okE [OF *(1)]) (use that * in \<open>auto dest: hf_coreD(1,2)\<close>)
qed

text \<open>An open object always has a current page, so that \<open>scanNext\<close> is its loop.\<close>

lemma scanNext_loop:
  assumes "hf_ok s h ns"
  shows "scanNext s h = scan_loop s h"
proof -
  obtain fh fc where core: "hf_core s h ns fh fc" using assms by (rule hf_okE)
  note D = hf_coreD [OF core]
  have "0 < hf_curPageNo h" by (rule heap_page [OF D(4,3)])
  then show ?thesis using D(6) by (simp add: scanNext_def)
qed

lemma scanNext_spec:
  assumes "scan_pos base s h ns rest"
  shows "\<exists>st h' s'. scanNext s h = Some (if st = OK then Inr (hf_curRec h') else Inl st, h', s') \<and>
    quiet (hf_filePtr h) s s' \<and> same_scan h h' \<and> scan_found base s' h' ns (dropWhile (\<lambda>r. \<not> matches s h ns r) rest) st"
proof -
  have "hf_ok s h ns" by (rule scan_pos_hf [OF assms])
  then show ?thesis using scan_loop_spec [OF assms] by (simp add: scanNext_loop)
qed

subsection \<open>Deleting under a scan\<close>

lemma heap_scan_cong: "(\<And>n. n \<in> set ns \<Longrightarrow> m' n = m n) \<Longrightarrow> heap_scan m' ns = heap_scan m ns"
  unfolding heap_scan_def by (rule arg_cong [where f = concat]) simp

lemma scan_delete:
  assumes "scan_pos base s h ns rest" "rid_pageNo (hf_curRec h) = hf_curPageNo h"
    and "recs s h ns (hf_curRec h) = Some rec"
  shows "\<exists>s'. HeapFileScan_deleteRecord s h = Some (OK, h\<lparr>hf_curDirtyFlag := True, hf_hdrDirtyFlag := True\<rparr>, s') \<and>
    scan_pos base s' (h\<lparr>hf_curDirtyFlag := True, hf_hdrDirtyFlag := True\<rparr>) ns rest \<and> steady (hf_filePtr h) s s' \<and>
    recs s' h ns = (recs s h ns)(hf_curRec h := None)"
proof -
  let ?fl = "hf_filePtr h" and ?H = "hf_headerPageNo h" and ?r = "hf_curRec h"
  let ?h = "h\<lparr>hf_curDirtyFlag := True, hf_hdrDirtyFlag := True\<rparr>"
  obtain fh fc where core: "hf_core s h ns fh fc" and own: "owned base s h" by (rule scan_pos_hf [OF assms(1)])
  note D = hf_coreD [OF core]
  obtain pre n post where P: "ns = pre @ n # post" "scan_at base s h pre n post" "- 1 \<le> rid_slotNo ?r"
    "rest = page_scan (the (logical s ?fl n)) ?r @ heap_scan (logical s ?fl) post"
    using assms(1) by (auto simp: scan_pos_def)
  have n: "hf_curPageNo h = n" using P(2) by (simp add: scan_at_def)
  obtain pg where pg: "logical s ?fl n = Some pg" "page_inv pg" "curPage pg = n"
    by (rule scan_at_page [OF P(2)])
  obtain hdr where hdr: "logical s ?fl ?H = Some hdr" using D(4) by (auto elim: heap_wfE)
  have c: "contents pg (rid_slotNo ?r) = Some rec" using assms(2,3) pg(1) n P(1) by (simp add: heap_recs_def)
  obtain st pg' where del: "Page_deleteRecord pg ?r = (st, pg')" by fastforce
  have nn: "n \<in> set ns" using P(1) by simp
  note X = heap_delete [OF D(4) nn pg(1) hdr c del]
  let ?hdr = "set_hdr_recCnt (hdr_recCnt hdr - 1) hdr"
  define s2 where "s2 = store (store s (Frame fc) pg') (Frame fh) ?hdr"
  note S = store_both [OF core, where pg' = pg' and hdr' = ?hdr, folded s2_def]
  have m: "logical s2 ?fl = (logical s ?fl)(n \<mapsto> pg', ?H \<mapsto> ?hdr)" using S(1) n by simp
  have run: "HeapFileScan_deleteRecord s h = Some (OK, ?h, s2)"
    using store_cur [OF core hdr] D(5,6,10) pg(1) n del X(1) by (simp add: HeapFileScan_deleteRecord_def Let_def s2_def)
  have ok: "hf_ok s2 ?h ns"
    unfolding hf_ok_def hf_core_def flag_ok_def using X(2) m S(2-4) D by simp
  have own': "owned base s2 ?h" using store_owned [OF core own] by (simp add: owned_def own_def s2_def)
  have dist: "distinct ns" "?H \<notin> set ns" using D(4) by (auto elim: heap_wfE)
  have q: "page_inv pg'" "contents pg' = (contents pg)(rid_slotNo ?r := None)" "curPage pg' = n"
    using pg.del_Some [OF pg(2) c del] delete_effect(8) [OF pg(2) _ _ del] contents_dom [of pg "rid_slotNo ?r"] c pg(3)
    by simp_all
  have "page_scan pg' ?r = page_scan pg ?r"
    by (rule page_scan_cong) (use pg q P(3) in auto)
  moreover have "heap_scan (logical s2 ?fl) post = heap_scan (logical s ?fl) post"
    using dist P(1) by (intro heap_scan_cong) (auto simp: m)
  ultimately have "scan_pos base s2 ?h ns rest"
    unfolding scan_pos_def using P ok own' pg(1) n m dist
    by (intro exI [of _ pre] exI [of _ n] exI [of _ post]) (auto simp: scan_at_def)
  moreover have "RID n (rid_slotNo ?r) = ?r" using assms(2) n by (simp add: RID.expand)
  ultimately show ?thesis using run X(3) m S(6) by auto
qed

end
