(* ===== verification/Heap_Session.thy ===== *)
theory Heap_Session
  imports Heap_Scan
begin

text \<open>
  Sessions on a relation: a \<open>HeapFile\<close> object is made, works on the pages it pins, and is
  destroyed again. The file may be open before, with other objects holding pages of it, as the
  catalogs are while the system runs. \<open>rel_pages\<close> is what the file shows, \<open>opened\<close> relates the
  system during a session to the one before it, and \<open>closed_again\<close> the system after it.
\<close>

subsection \<open>Relations\<close>

definition rel_pages :: "'a dsys_scheme \<Rightarrow> string \<Rightarrow> int \<Rightarrow> memory option" where
  "rel_pages s name =
     (case oft_map (openFiles s) name of
        Some a \<Rightarrow> logical s a
      | None \<Rightarrow> (case files s name of Some ps \<Rightarrow> file_map ps | None \<Rightarrow> Map.empty))"

definition relation :: "'a dsys_scheme \<Rightarrow> string \<Rightarrow> int list \<Rightarrow> bool" where
  "relation s name ns \<longleftrightarrow> name \<noteq> [] \<and> heap_wf (rel_pages s name) 1 ns \<and>
     (\<forall>a. oft_map (openFiles s) name = Some a \<longrightarrow> (\<forall>q. settled s a q))"

abbreviation tuples :: "'a dsys_scheme \<Rightarrow> string \<Rightarrow> int list \<Rightarrow> RID \<Rightarrow> byte list option" where
  "tuples s name ns \<equiv> heap_recs (rel_pages s name) ns"

text \<open>A file on disk, apart from the order of its free pages.\<close>

definition file_view :: "'a sys_scheme \<Rightarrow> string \<Rightarrow> (int \<Rightarrow> memory option) option" where
  "file_view s n = map_option file_map (files s n)"

lemma file_view_None: "file_view s n = None \<longleftrightarrow> files s n = None"
  by (simp add: file_view_def)

lemma rel_pages_closed:
  "oft_map (openFiles s) n = None \<Longrightarrow> rel_pages s n = (case file_view s n of Some m \<Rightarrow> m | None \<Rightarrow> Map.empty)"
  by (simp add: rel_pages_def file_view_def split: option.splits)

definition opened :: "'a dsys_scheme \<Rightarrow> string \<Rightarrow> int \<Rightarrow> 'a dsys_scheme \<Rightarrow> bool" where
  "opened s name a t \<longleftrightarrow> db_inv s \<and> db_inv t \<and> a \<in> live t \<and> fileName (objs t a) = name \<and>
     heap_new t = heap_new s \<and> quota t = quota s \<and> numBufs (bufMgr t) = numBufs (bufMgr s) \<and>
     (\<forall>g \<in> live s. g \<noteq> a \<longrightarrow> logical t g = logical s g \<and> objs t g = objs s g \<and>
        (\<forall>q. settled s g q \<longrightarrow> settled t g q)) \<and>
     (\<forall>n. n \<noteq> name \<longrightarrow> oft_map (openFiles s) n = None \<longrightarrow> file_view t n = file_view s n) \<and>
     (case oft_map (openFiles s) name of
        Some b \<Rightarrow> b = a \<and> live t = live s \<and> oft_map (openFiles t) = oft_map (openFiles s) \<and>
          objs t a = (objs s a)\<lparr>openCnt := openCnt (objs s a) + 1\<rparr>
      | None \<Rightarrow> a \<notin> live s \<and> live t = insert a (live s) \<and> openCnt (objs t a) = 1 \<and>
          oft_map (openFiles t) = (oft_map (openFiles s))(name \<mapsto> a))"

definition closed_again :: "'a dsys_scheme \<Rightarrow> string \<Rightarrow> 'a dsys_scheme \<Rightarrow> bool" where
  "closed_again s name t \<longleftrightarrow> db_inv t \<and> live t = live s \<and> heap_new t = heap_new s \<and> quota t = quota s \<and>
     numBufs (bufMgr t) = numBufs (bufMgr s) \<and> pins t = pins s \<and> pins_kept s t \<and>
     oft_map (openFiles t) = oft_map (openFiles s) \<and>
     (\<forall>g \<in> live s. objs t g = objs s g \<and> (fileName (objs s g) \<noteq> name \<longrightarrow>
        logical t g = logical s g \<and> (\<forall>q. settled s g q \<longrightarrow> settled t g q))) \<and>
     (\<forall>n. n \<noteq> name \<longrightarrow> oft_map (openFiles s) n = None \<longrightarrow> file_view t n = file_view s n)"

lemma closed_again_refl: "db_inv s \<Longrightarrow> closed_again s name s"
  by (simp add: closed_again_def pins_kept_def)

lemma closed_again_trans:
  assumes "closed_again s name t" "closed_again t name u"
  shows "closed_again s name u"
  using assms unfolding closed_again_def pins_kept_def by auto

lemma closed_pages:
  assumes "db_inv s" "closed_again s name t" "n \<noteq> name"
  shows "rel_pages t n = rel_pages s n"
proof (cases "oft_map (openFiles s) n")
  case None
  then have "oft_map (openFiles t) n = None" "file_view t n = file_view s n" using assms(2,3) by (simp_all add: closed_again_def)
  then show ?thesis using None by (simp add: rel_pages_closed)
next
  case (Some a)
  then have "a \<in> live s" "fileName (objs s a) = n" using db_invD(6) [OF assms(1)] by auto
  then show ?thesis using assms(2,3) Some by (simp add: rel_pages_def closed_again_def)
qed

definition free_frames :: "BufMgr \<Rightarrow> nat set" where
  "free_frames b = {i. i < numBufs b \<and> pinCnt (desc b i) = 0}"

lemma finite_free [simp]: "finite (free_frames b)"
  by (simp add: free_frames_def)

lemma two_free_iff: "two_free b \<longleftrightarrow> 2 \<le> card (free_frames b)"
proof
  assume "two_free b"
  then obtain i j where ij: "i < j" "{i, j} \<subseteq> free_frames b" by (auto simp: two_free_def free_frames_def)
  have "card {i, j} \<le> card (free_frames b)" by (rule card_mono) (use ij(2) in auto)
  moreover have "card {i, j} = 2" using ij(1) by simp
  ultimately show "2 \<le> card (free_frames b)" by simp
next
  assume "2 \<le> card (free_frames b)"
  then obtain F where "F \<subseteq> free_frames b" "card F = 2" by (meson obtain_subset_with_card_n)
  then obtain i j where "i \<noteq> j" "i \<in> free_frames b" "j \<in> free_frames b" by (auto simp: card_2_iff)
  then show "two_free b" unfolding two_free_def free_frames_def by (metis (mono_tags, lifting) linorder_neqE_nat mem_Collect_eq)
qed

lemma closed_free:
  assumes "db_inv s" "closed_again s name t"
  shows "free_frames (bufMgr s) \<subseteq> free_frames (bufMgr t)"
proof
  fix i
  assume i: "i \<in> free_frames (bufMgr s)"
  have C: "db_inv t" "pins t = pins s" "pins_kept s t" "numBufs (bufMgr t) = numBufs (bufMgr s)"
    using assms(2) by (simp_all add: closed_again_def)
  have ok: "buf_ok t" using C(1) by (simp add: db_invD(1))
  have n: "i < numBufs (bufMgr s)" "pinCnt (desc (bufMgr s) i) = 0" using i by (simp_all add: free_frames_def)
  have "pinCnt (desc (bufMgr t) i) = 0"
  proof (rule ccontr)
    assume a: "pinCnt (desc (bufMgr t) i) \<noteq> 0"
    let ?g = "bd_file (desc (bufMgr t) i)" and ?q = "bd_pageNo (desc (bufMgr t) i)"
    have F: "frame_ok t (desc (bufMgr t) i) (bufPool (bufMgr t) ! i)" using framesD(6) [OF ok] n(1) C(4) by simp
    then have v: "valid (desc (bufMgr t) i)" "0 < pinCnt (desc (bufMgr t) i)"
      using a by (auto simp: frame_ok_def split: if_splits)
    then have h: "holds t ?g ?q i"
      using frames_map [OF ok, of "(?g, ?q)" i] n(1) C(4) by (simp add: holds_def buffered_def)
    then have "0 < pins s ?g ?q" using C(2) pins_holds [of t ?g ?q] by auto
    then obtain f where f: "holds s ?g ?q f" by (auto simp: pins_holds)
    then have "f = i" using C(3) h by (auto simp: pins_kept_def holds_def)
    then show False using f n(2) by (simp add: holds_def)
  qed
  then show "i \<in> free_frames (bufMgr t)" using n(1) C(4) by (simp add: free_frames_def)
qed

lemma closed_free_card:
  "db_inv s \<Longrightarrow> closed_again s name t \<Longrightarrow> card (free_frames (bufMgr s)) \<le> card (free_frames (bufMgr t))"
  by (intro card_mono closed_free) simp_all

lemma closed_two_free:
  "db_inv s \<Longrightarrow> closed_again s name t \<Longrightarrow> two_free (bufMgr s) \<Longrightarrow> two_free (bufMgr t)"
  using closed_free_card [of s name t] by (simp add: two_free_iff)

lemma opened_steady:
  assumes "opened s name a t" "steady a t u" "buf_ok u"
  shows "opened s name a u"
proof -
  have O: "db_inv t" "fileName (objs t a) = name" "a \<in> live t" "live s \<subseteq> live t"
    "\<And>n. n \<noteq> name \<Longrightarrow> oft_map (openFiles t) n = oft_map (openFiles s) n"
    using assms(1) by (auto simp: opened_def split: option.splits)
  have F: "buf_frame t u" using assms(2) by (simp add: steady_def)
  note D = db_invD [OF O(1)]
  have "files u n = files t n" if "n \<noteq> name" "oft_map (openFiles s) n = None" for n
  proof -
    have "\<forall>g \<in> live t. unixFile (objs t g) \<noteq> Some n" using D(6) [of n] D(8) O(5) that by auto
    then show ?thesis using F by (simp add: buf_frame_def)
  qed
  then have "file_view u n = file_view t n" if "n \<noteq> name" "oft_map (openFiles s) n = None" for n
    using that by (simp add: file_view_def)
  moreover have "objs u = objs t" "live u = live t" "heap_new u = heap_new t" "quota u = quota t"
    using F by (simp_all add: buf_frame_def)
  moreover have "logical u g = logical t g" "settled t g q \<Longrightarrow> settled u g q" if "g \<in> live s" "g \<noteq> a" for g q
    using assms(2) O(4) that by (auto simp: steady_def)
  ultimately show ?thesis
    using assms buf_frame_db_inv [OF O(1) F assms(3)] buf_frame_dsys [OF F]
    by (cases "oft_map (openFiles s) name") (auto simp: opened_def steady_def)
qed

subsection \<open>Opening\<close>

lemma openFile_fresh:
  assumes "db_inv s" "allocator_ok (heap_new s)" "name \<noteq> []" "oft_map (openFiles s) name = None" "files s name = Some ps"
    and "DB_openFile s name = (r, t)"
  shows "\<exists>a. r = Inr a \<and> opened s name a t \<and> logical t a = file_map ps \<and> bufMgr t = bufMgr s \<and>
    (\<forall>q. settled t a q) \<and> files t = files s"
proof -
  define a where "a = heap_new s (live s)"
  note N = openFile_new [OF assms, folded a_def]
  have "objs t g = objs s g" "logical t g = logical s g" if "g \<in> live s" for g
    using N(5,7) N(14) [of g] that by auto
  moreover have "settled t g q" if "settled s g q" "g \<in> live s" for g q
  proof -
    have "disk_page t g = disk_page s g"
    proof -
      have o: "objs t g = objs s g" using N(14) [of g] N(5) that(2) by auto
      show ?thesis unfolding used_pages_def file_pages_def o N(11) by (rule refl)
    qed
    moreover have "holds t = holds s" using pool_same [OF N(10)] by simp
    ultimately show ?thesis using that(1) N(7) [OF that(2)] N(10) by (simp add: settled_def flag_ok_def)
  qed
  ultimately have "opened s name a t" using N assms(1,4) by (simp add: opened_def file_view_def)
  moreover have "\<not> holds t a q f" for q f
    using holds_frame [OF db_invD(1) [OF assms(1)], of a q f] N(5,10)
    by (auto simp: holds_def frame_ok_def buffered_def)
  ultimately show ?thesis using N(1,8,10,11) by (simp add: settled_def)
qed

lemma openFile_session:
  assumes "db_inv s" "allocator_ok (heap_new s)" "relation s name ns" "DB_openFile s name = (r, t)"
  shows "\<exists>a. r = Inr a \<and> opened s name a t \<and> logical t a = rel_pages s name \<and> bufMgr t = bufMgr s \<and>
    (\<forall>q. settled t a q)"
proof -
  have n: "name \<noteq> []" "heap_wf (rel_pages s name) 1 ns" using assms(3) by (simp_all add: relation_def)
  show ?thesis
  proof (cases "oft_map (openFiles s) name")
    case (Some a)
    let ?t = "set_obj a ((objs s a)\<lparr>openCnt := openCnt (objs s a) + 1\<rparr>) s"
    have a: "a \<in> live s" "fileName (objs s a) = name" using db_invD(6) [OF assms(1)] Some by auto
    have t: "r = Inr a" "t = ?t" using openFile_again [OF assms(1) n(1) Some] assms(4) by simp_all
    have "1 \<le> openCnt (objs s a) + 1" using db_invD(7) [OF assms(1) a(1)] by simp
    note C = count_change [OF assms(1) a(1) this t(2)]
    have lg: "logical t g = logical s g" if "g \<in> live s" for g using C(2) that by auto
    have "settled t a q" for q
    proof -
      have "disk_page t a = disk_page s a"
        using agree_file(2) [of "{a}" s t a] by (simp add: agree_def t(2))
      moreover have "holds t = holds s" by (simp add: holds_def buffered_def fun_eq_iff t(2))
      ultimately show ?thesis
        using assms(3) Some lg [OF a(1)] by (simp add: relation_def settled_def flag_ok_def t(2))
    qed
    moreover have "settled t g q" if "settled s g q" "g \<in> live s" "g \<noteq> a" for g q
    proof -
      have "disk_page t g = disk_page s g" using agree_file(2) [of "{g}" s t g] that(3) by (simp add: agree_def t(2))
      moreover have "holds t = holds s" by (simp add: holds_def buffered_def fun_eq_iff t(2))
      ultimately show ?thesis using that(1) lg [OF that(2)] by (simp add: settled_def flag_ok_def t(2))
    qed
    then have "opened s name a t"
      using C(1) lg a Some assms(1) by (auto simp: opened_def t(2) file_view_def)
    ultimately show ?thesis using t(1) Some lg [OF a(1)] by (auto simp: rel_pages_def t(2))
  next
    case None
    obtain ps where ps: "files s name = Some ps"
      using n(2) None by (auto simp: rel_pages_def heap_wf_def split: option.splits)
    show ?thesis using openFile_fresh [OF assms(1,2) n(1) None ps assms(4)] None ps by (auto simp: rel_pages_def)
  qed
qed

lemma first_page:
  assumes "db_inv t" "a \<in> live t" "logical t a 1 \<noteq> None"
  shows "File_getFirstPage t (objs t a) = Inr 1"
proof -
  note D = db_invD [OF assms(1)]
  have "file_inv (objs t a) t" using framesD(1) [OF D(1)] assms(2) by (simp add: files_ok_def)
  then obtain ps where ps: "files t (fileName (objs t a)) = Some ps" "file_wf ps"
    using D(8) [OF assms(2)] by (auto simp: file_inv_def file_pages_def split: option.splits)
  have "disk_page t a 1 \<noteq> None"
    using assms(3) buffered_in_use(2) [OF D(1), of a 1] by (auto simp: logical_def split: option.splits)
  then have "1 < length ps"
    using ps(1) D(8) [OF assms(2)] by (simp add: used_pages_def file_pages_def file_map_def split: if_splits)
  then show ?thesis
    using ps D(8) [OF assms(2)] by (simp add: File_getFirstPage_def File_intread_def file_wf_def)
qed

lemma HeapFile_init_ok:
  assumes "db_inv s" "allocator_ok (heap_new s)" "relation s name ns" "two_free (bufMgr s)"
  obtains h t where "HeapFile_init s name = Some (Inr h, t)" "opened s name (hf_filePtr h) t" "hf_ok t h ns"
    "owned s t h" "hf_curPageNo h = hd ns" "hf_curRec h = NULLRID" "hf_headerPageNo h = 1"
    "logical t (hf_filePtr h) = rel_pages s name"
proof -
  obtain ra t0 where O: "DB_openFile s name = (ra, t0)" by fastforce
  from openFile_session [OF assms(1-3) O] obtain a where a: "ra = Inr a" "opened s name a t0"
    "logical t0 a = rel_pages s name" "bufMgr t0 = bufMgr s" "\<And>q. settled t0 a q" by blast
  have wf: "heap_wf (rel_pages s name) 1 ns" using assms(3) by (simp add: relation_def)
  obtain hdr where hdr: "rel_pages s name 1 = Some hdr" "page_chain (rel_pages s name) (hdr_firstPage hdr) ns"
    "ns \<noteq> []" "1 \<notin> set ns" by (rule heap_wfE [OF wf])
  have first: "hdr_firstPage hdr = hd ns" using hdr(2,3) by (cases ns) auto
  have D0: "db_inv t0" "buf_ok t0" "a \<in> live t0" using a(2) db_invD(1) by (auto simp: opened_def)
  have l0: "logical t0 a 1 = Some hdr" using a(3) hdr(1) by simp
  have fp: "File_getFirstPage t0 (objs t0 a) = Inr 1" using first_page [OF D0(1,3)] l0 by simp
  have ps0: "pins t0 = pins s" "holds t0 = holds s" using pool_same [OF a(4)] by simp_all
  have b0: "pool_base s t0"
    using db_invD(1) [OF assms(1)] assms(4) by (simp add: pool_base_def a(4) pins_kept_def ps0)
  obtain r1 t1 where R1: "BufMgr_readPage t0 a 1 = (r1, t1)" by fastforce
  have x0: "\<forall>g q. 0 < pins t0 g q \<longrightarrow> 0 < pins s g q \<or> (g, q) = (a, 1)" by (simp add: ps0)
  note F1 = read_base [OF b0 D0(2,3) l0 R1 x0]
  obtain fh where fh: "r1 = Inr fh" "holds t1 a 1 fh" "bufPool (bufMgr t1) ! fh = hdr" "flag_ok t1 a 1 False fh"
    using F1(1) a(5) by blast
  have l1: "logical t1 a = rel_pages s name" "a \<in> live t1"
    using quiet_logical [OF F1(3) D0(3)] a(3) F1(3) D0(3) by (simp_all add: quiet_def same_view_def)
  have hd: "hd ns \<in> set ns" "hd ns \<noteq> 1" using hdr(3,4) by (cases ns; auto)+
  obtain pg where pg: "logical t1 a (hd ns) = Some pg" by (rule heap_page [OF wf hd(1)]) (use l1 in auto)
  obtain r2 t2 where R2: "BufMgr_readPage t1 a (hd ns) = (r2, t2)" by fastforce
  have x1: "\<forall>g q. 0 < pins t1 g q \<longrightarrow> 0 < pins s g q \<or> (g, q) = (a, 1)"
    using F1(5) by (auto simp: ps0 split: if_splits)
  note F2 = read_base [OF F1(4,2) l1(2) pg R2 x1]
  have st1: "settled t1 a (hd ns)" using F1(7) [OF hd(2)] a(5) by simp
  obtain fc where fc: "r2 = Inr fc" "holds t2 a (hd ns) fc" "flag_ok t2 a (hd ns) False fc"
    using F2(1) st1 by blast
  let ?h = "\<lparr>hf_filePtr = a, hf_headerPage = Frame fh, hf_headerPageNo = 1, hf_hdrDirtyFlag = False,
    hf_curPage = Frame fc, hf_curPageNo = hd ns, hf_curDirtyFlag = False, hf_curRec = NULLRID\<rparr>"
  have l2: "logical t2 a = rel_pages s name" using quiet_logical [OF F2(3) l1(2)] l1(1) by simp
  have h2: "holds t2 a 1 fh" "flag_ok t2 a 1 False fh" using F2(6) [of 1 fh False] hd(2) fh by auto
  have run: "HeapFile_init s name = Some (Inr ?h, t2)"
    using O a(1) fp R1 R2 fh(1,3) fc(1) first by (simp add: HeapFile_init_def Let_def)
  have op2: "opened s name a t2"
    using opened_steady [OF opened_steady [OF a(2) _ F1(2)] _ F2(2)] F1(3) F2(3) by (simp add: quiet_def)
  have "hf_core t2 ?h ns fh fc"
    using F2(2) op2 l2 wf hd(1) h2(1) fc(2) by (simp add: hf_core_def opened_def)
  then have "hf_ok t2 ?h ns" using h2(2) fc(3) by (auto simp: hf_ok_def)
  moreover have "settled t2 a q" if "q \<noteq> 1" "q \<noteq> hd ns" for q using F2(7) F1(7) a(5) that by blast
  then have "owned s t2 ?h" using F2(4,5) F1(5) hd(2) by (auto simp: owned_def own_def ps0)
  ultimately show ?thesis using that [of ?h t2] run op2 l2 by simp
qed

subsection \<open>Closing\<close>

text \<open>
  Closing a file whose pages are all settled. The system before is one in which the file was
  opened, seen from the system after.
\<close>

lemma close_shared:
  assumes "db_inv t" "a \<in> live t" "1 < openCnt (objs t a)" "fileName (objs t a) = name" "DB_closeFile t a = (st, u)"
  shows "st = OK" "opened u name a t" "holds u = holds t" "pins u = pins t" "rel_pages u name = logical t a"
    "\<And>g q. g \<in> live u \<Longrightarrow> settled u g q = settled t g q"
proof -
  let ?c = "openCnt (objs t a) - 1"
  have u: "st = OK" "u = set_obj a ((objs t a)\<lparr>openCnt := ?c\<rparr>) t" using closeFile_shared [OF assms(1-3)] assms(5) by simp_all
  have c: "1 \<le> ?c" using assms(3) by simp
  note C = count_change [OF assms(1,2) c u(2)]
  have lg: "logical u g = logical t g" if "g \<in> live t" for g using C(2) that by auto
  have b: "bufMgr u = bufMgr t" "openFiles u = openFiles t" "live u = live t" "files u = files t" "heap_new u = heap_new t" "quota u = quota t"
    by (simp_all add: u(2))
  show "st = OK" by (rule u(1))
  show h: "holds u = holds t" and "pins u = pins t" using pool_same [OF b(1)] by simp_all
  have o: "oft_map (openFiles t) name = Some a" using db_invD(6) [OF assms(1), of name a] assms(2,4) by simp
  show "rel_pages u name = logical t a" using o lg [OF assms(2)] by (simp add: rel_pages_def b(2))
  show st: "settled u g q = settled t g q" if "g \<in> live u" for g q
  proof -
    have "disk_page u g = disk_page t g"
      using agree_file(2) [of "{g}" t u g] by (cases "g = a") (simp_all add: agree_def u(2))
    then show ?thesis using lg [of g] that by (simp add: settled_def flag_ok_def h b)
  qed
  have "objs t a = (objs u a)\<lparr>openCnt := openCnt (objs u a) + 1\<rparr>" "\<And>g. g \<noteq> a \<Longrightarrow> objs t g = objs u g"
    by (simp_all add: u(2))
  then show "opened u name a t"
    using assms(1,2,4) C(1) lg o st by (auto simp: opened_def b file_view_def)
qed

lemma close_last:
  assumes "db_inv t" "a \<in> live t" "openCnt (objs t a) = 1" "fileName (objs t a) = name" "DB_closeFile t a = (st, u)"
    and "\<And>q f. \<not> holds t a q f"
  shows "st = OK" "opened u name a t" "holds u = holds t" "pins u = pins t" "rel_pages u name = logical t a"
    "\<And>g q. g \<in> live u \<Longrightarrow> settled u g q = settled t g q"
proof -
  note C = closeFile_unpinned [OF assms(1-3,6,5)]
  show "st = OK" by (rule C(1))
  show h: "holds u = holds t" by (rule C(12))
  have ok: "buf_ok u" "buf_ok t" using db_invD(1) C(2) assms(1) by auto
  have "pins u g q = pins t g q" for g q
  proof (cases "\<exists>f. holds t g q f")
    case True
    then obtain f where "holds t g q f" "holds u g q f" "0 < pinCnt (desc (bufMgr t) f)" using h by (auto simp: holds_def)
    then show ?thesis using C(13) by (simp add: holds_pins)
  next
    case False
    then show ?thesis using pins_zero [OF ok(1)] pins_zero [OF ok(2)] h by auto
  qed
  then show "pins u = pins t" by (simp add: fun_eq_iff)
  show "rel_pages u name = logical t a" using C(5,7) assms(4) by (auto simp: rel_pages_def)
  show st: "settled u g q = settled t g q" if g: "g \<in> live u" for g q
  proof -
    have l: "logical u g = logical t g" using C(6) g by auto
    have d: "dirty (desc (bufMgr u) f) = dirty (desc (bufMgr t) f)" if "holds t g q f" for f
      using C(13) [of f] that by (simp add: holds_def)
    then show ?thesis unfolding settled_def flag_ok_def h using C(14) [OF g] l by auto
  qed
  have o: "oft_map (openFiles t) name = Some a" using db_invD(6) [OF assms(1), of name a] assms(2,4) by simp
  then have "oft_map (openFiles t) = (oft_map (openFiles u))(name \<mapsto> a)" "oft_map (openFiles u) name = None"
    using C(8) assms(4) by (auto simp: fun_eq_iff)
  moreover have "logical t g = logical u g" if "g \<in> live u" for g using C(6) [OF that] by auto
  ultimately show "opened u name a t"
    using C assms(1-4) st by (auto simp: opened_def file_view_def)
qed

lemma close_back:
  assumes "db_inv t" "a \<in> live t" "fileName (objs t a) = name" "DB_closeFile t a = (st, u)"
    and "openCnt (objs t a) = 1 \<longrightarrow> (\<forall>q f. \<not> holds t a q f)"
  shows "opened u name a t" "holds u = holds t" "pins u = pins t" "rel_pages u name = logical t a"
    "\<And>g q. g \<in> live u \<Longrightarrow> settled u g q = settled t g q"
proof -
  have "1 \<le> openCnt (objs t a)" by (rule db_invD(7) [OF assms(1,2)])
  then consider "openCnt (objs t a) = 1" | "1 < openCnt (objs t a)" by linarith
  then have "opened u name a t \<and> holds u = holds t \<and> pins u = pins t \<and> rel_pages u name = logical t a \<and>
    (\<forall>g \<in> live u. \<forall>q. settled u g q = settled t g q)"
  proof cases
    case 1
    show ?thesis using close_last [OF assms(1,2) 1 assms(3,4)] assms(5) 1 by blast
  next
    case 2
    show ?thesis using close_shared [OF assms(1,2) 2 assms(3,4)] by blast
  qed
  then show "opened u name a t" "holds u = holds t" "pins u = pins t" "rel_pages u name = logical t a"
    "\<And>g q. g \<in> live u \<Longrightarrow> settled u g q = settled t g q" by blast+
qed

text \<open>Two systems from which the same one was reached by opening a file.\<close>

lemma opened_count: "opened s name a t \<Longrightarrow> oft_map (openFiles s) name = None \<longleftrightarrow> openCnt (objs t a) = 1"
  using db_invD(7) [of s a] by (auto simp: opened_def split: option.splits)

lemma opened_base:
  assumes "opened s name a t" "opened u name a t'" "live t' = live t" "openFiles t' = openFiles t" "objs t' a = objs t a"
  shows "live u = live s" "oft_map (openFiles u) = oft_map (openFiles s)" "a \<in> live s \<Longrightarrow> objs u a = objs s a"
proof -
  have one: "oft_map (openFiles s) name = None \<longleftrightarrow> openCnt (objs t a) = 1" "oft_map (openFiles u) name = None \<longleftrightarrow> openCnt (objs t a) = 1"
    using opened_count [OF assms(1)] opened_count [OF assms(2)] assms(5) by simp_all
  have "live u = live s \<and> oft_map (openFiles u) = oft_map (openFiles s) \<and> (a \<in> live s \<longrightarrow> objs u a = objs s a)"
  proof (cases "oft_map (openFiles s) name")
    case None
    then have N: "oft_map (openFiles u) name = None" using one by simp
    have L: "live t = insert a (live s)" "a \<notin> live s" "live t = insert a (live u)" "a \<notin> live u"
      "oft_map (openFiles t) = (oft_map (openFiles s))(name \<mapsto> a)" "oft_map (openFiles t) = (oft_map (openFiles u))(name \<mapsto> a)"
      using assms None N by (simp_all add: opened_def)
    have "oft_map (openFiles u) n = oft_map (openFiles s) n" for n
      using fun_cong [OF L(5), of n] fun_cong [OF L(6), of n] None N by (cases "n = name") simp_all
    moreover have "live u = live s" using L(1-4) by (metis insert_ident)
    ultimately show ?thesis using L(2) by (simp add: fun_eq_iff)
  next
    case (Some b)
    then obtain c where "oft_map (openFiles u) name = Some c" using one by auto
    then show ?thesis using assms Some by (cases "objs s a"; cases "objs u a") (auto simp: opened_def)
  qed
  then show "live u = live s" "oft_map (openFiles u) = oft_map (openFiles s)" "a \<in> live s \<Longrightarrow> objs u a = objs s a" by blast+
qed

lemma opened_twice:
  assumes "opened s name a t" "opened u name a t" "pins u = pins s" "pins_kept s u"
    and "\<And>g q. g \<in> live u \<Longrightarrow> settled t g q \<Longrightarrow> settled u g q"
  shows "closed_again s name u"
proof -
  have O: "db_inv s" "db_inv u" "fileName (objs t a) = name" using assms(1,2) by (simp_all add: opened_def)
  note L = opened_base [OF assms(1,2) refl refl refl]
  have G: "objs u g = objs s g \<and> logical u g = logical s g \<and> (\<forall>q. settled s g q \<longrightarrow> settled u g q)"
    if "g \<in> live s" "g \<noteq> a" for g
  proof -
    have "objs t g = objs s g \<and> logical t g = logical s g \<and> (\<forall>q. settled s g q \<longrightarrow> settled t g q)"
      using assms(1) that by (simp add: opened_def)
    moreover have "objs t g = objs u g \<and> logical t g = logical u g" using assms(2) that L by (simp add: opened_def)
    ultimately show ?thesis using assms(5) that(1) L by simp
  qed
  have "fileName (objs s a) = name" if "a \<in> live s" using assms(1) that by (auto simp: opened_def split: option.splits)
  then have "objs u g = objs s g \<and> (fileName (objs s g) \<noteq> name \<longrightarrow> logical u g = logical s g \<and> (\<forall>q. settled s g q \<longrightarrow> settled u g q))"
    if "g \<in> live s" for g using that L G [of g] by (cases "g = a") auto
  moreover have "file_view u n = file_view s n" if "n \<noteq> name" "oft_map (openFiles s) n = None" for n
    using assms(1,2) L that by (simp add: opened_def)
  moreover have "heap_new u = heap_new s" "quota u = quota s" "numBufs (bufMgr u) = numBufs (bufMgr s)"
    using assms(1,2) by (simp_all add: opened_def)
  ultimately show ?thesis using L O(2) assms(3,4) by (simp add: closed_again_def)
qed

text \<open>Unpinning a page is a step that can be taken back as far as other files are concerned.\<close>

lemma unPin_back:
  assumes "buf_ok s" "holds s fl p f" "flag_ok s fl p dt f" "BufMgr_unPinPage s fl p dt = (st, t)"
  shows "steady fl t s"
proof -
  note U = unPin_held [OF assms]
  have "t = s\<lparr>bufMgr := bufMgr t\<rparr>"
    using assms(4) by (auto simp: BufMgr_unPinPage_def Let_def split: sum.splits if_splits)
  then obtain b where b: "t = s\<lparr>bufMgr := b\<rparr>" by blast
  have F: "buf_frame t s" "live t = live s" by (simp_all add: b buf_frame_def)
  have n: "numBufs (bufMgr s) = numBufs (bufMgr t)"
    using assms(4) by (auto simp: BufMgr_unPinPage_def Let_def buf_simps split: sum.splits if_splits)
  have "settled s g q" if g: "g \<noteq> fl" "g \<in> live s" "settled t g q" for g q
  proof (rule settled_keep [OF _ g(3)])
    fix f'
    assume h: "holds s g q f'"
    then have "f' \<noteq> f" using holds_inj [OF assms(1) h, of fl p] assms(2) g(1) by auto
    then show "holds t g q f' \<and> dirty (desc (bufMgr s) f') = dirty (desc (bufMgr t) f') \<and>
        disk_page s g q = disk_page t g q \<and> logical s g q = logical t g q"
      using U(4) [of g] U(5) [of g q f'] U(6) [of f'] U(3) h g by (auto simp: same_view_def)
  qed
  then show ?thesis using F n U(3) by (auto simp: steady_def same_view_def)
qed

text \<open>
  Both pages are given up and the file is closed. The current page may also be reported dirty
  when it is not.
\<close>

lemma end_pages:
  assumes "db_inv t" "fileName (objs t (hf_filePtr h)) = name" "hf_filePtr h \<in> live t" "hf_headerPageNo h = 1" "name \<noteq> []"
    and "hf_curDirtyFlag h \<longrightarrow> dt" "\<And>q. q \<noteq> hf_headerPageNo h \<Longrightarrow> q \<noteq> hf_curPageNo h \<Longrightarrow> settled t (hf_filePtr h) q"
    and "openCnt (objs t (hf_filePtr h)) = 1 \<longrightarrow> (\<forall>q. pins t (hf_filePtr h) q = own h (hf_filePtr h) q)"
    and "BufMgr_unPinPage t (hf_filePtr h) (hf_curPageNo h) dt = (st1, t1)"
    and "BufMgr_unPinPage t1 (hf_filePtr h) (hf_headerPageNo h) (hf_hdrDirtyFlag h) = (st2, t2)"
    and "DB_closeFile t2 (hf_filePtr h) = (st3, u)"
    and K: "holds t (hf_filePtr h) (hf_headerPageNo h) fh" "holds t (hf_filePtr h) (hf_curPageNo h) fc" "hf_headerPageNo h \<noteq> hf_curPageNo h"
    "flag_ok t (hf_filePtr h) (hf_headerPageNo h) (hf_hdrDirtyFlag h) fh" "flag_ok t (hf_filePtr h) (hf_curPageNo h) (hf_curDirtyFlag h) fc"
    "heap_wf (logical t (hf_filePtr h)) 1 ns"
  shows "opened u name (hf_filePtr h) t" "\<And>g q. pins t g q = pins u g q + own h g q" "pins_kept u t"
    "rel_pages u name = logical t (hf_filePtr h)" "relation u name ns"
    "\<And>g q. g \<in> live u \<Longrightarrow> settled t g q \<Longrightarrow> settled u g q"
    "\<And>g q f. g \<noteq> hf_filePtr h \<Longrightarrow> holds t g q f \<Longrightarrow> holds u g q f"
proof -
  let ?a = "hf_filePtr h" and ?C = "hf_curPageNo h" and ?H = "hf_headerPageNo h"
  have ok: "buf_ok t" by (rule db_invD(1) [OF assms(1)])
  have fc: "flag_ok t ?a ?C dt fc" using K(5) assms(6) by (auto simp: flag_ok_def)
  note V1 = unPin_held [OF ok K(2) fc assms(9)] and W1 = unPin_settled [OF ok K(2) fc assms(9) assms(3)]
    and P1 = unPin_pins [OF ok K(2) fc assms(9)] and Q1 = unPin_quiet [OF ok K(2) fc assms(9)]
  have h1: "holds t1 ?a ?H fh" using V1(5) [of ?a ?H fh] K(1,3) by auto
  have fh: "flag_ok t1 ?a ?H (hf_hdrDirtyFlag h) fh"
  proof -
    have "fh \<noteq> fc" using holds_inj [OF ok K(1)] K(2,3) by auto
    then show ?thesis
      using K(4) V1(4) [of ?a] V1(6) [of fh] quiet_logical [OF Q1 assms(3)] by (simp add: flag_ok_def)
  qed
  have l1: "?a \<in> live t1" using V1(3) assms(3) by (simp add: same_view_def)
  note V2 = unPin_held [OF V1(2) h1 fh assms(10)] and W2 = unPin_settled [OF V1(2) h1 fh assms(10) l1]
    and P2 = unPin_pins [OF V1(2) h1 fh assms(10)] and Q2 = unPin_quiet [OF V1(2) h1 fh assms(10)]
  have p: "pins t g q = pins t2 g q + own h g q" for g q
    using P1 P2 K(3) by (auto simp: own_def)
  have set: "settled t2 ?a q" for q using W2 W1 assms(7) [of q] by (cases "q = ?H"; cases "q = ?C") auto
  have Q: "quiet ?a t t2" by (rule quiet_trans [OF Q1 Q2])
  have S: "buf_frame t t2" "live t2 = live t" "objs t2 = objs t" using Q by (simp_all add: quiet_def steady_def buf_frame_def)
  have d2: "db_inv t2" by (rule buf_frame_db_inv [OF assms(1) S(1) V2(2)])
  have free: "openCnt (objs t2 ?a) = 1 \<longrightarrow> (\<forall>q f. \<not> holds t2 ?a q f)"
    using p [of ?a] assms(8) S(3) pins_holds [of t2 ?a] by auto
  have a2: "?a \<in> live t2" "fileName (objs t2 ?a) = name" using assms(3) S assms(2) by simp_all
  note B = close_back [OF d2 a2 assms(11) free]
  have lg: "logical t2 ?a = logical t ?a" by (rule quiet_logical [OF Q assms(3)])
  show r: "rel_pages u name = logical t ?a" using B(4) lg by simp
  show "opened u name ?a t"
    by (rule opened_steady [OF opened_steady [OF B(1) unPin_back [OF V1(2) h1 fh assms(10)] V1(2)]
          unPin_back [OF ok K(2) fc assms(9)] ok])
  show "pins t g q = pins u g q + own h g q" for g q using p B(3) by simp
  show "pins_kept u t" using B(2) V1(7) V2(7) by (simp add: pins_kept_def)
  show "holds u g q f" if "g \<noteq> ?a" "holds t g q f" for g q f
    using that V1(5) [of g q f] V2(5) [of g q f] B(2) by simp
  show st: "settled u g q" if "g \<in> live u" "settled t g q" for g q
  proof (cases "g = ?a")
    case True
    then show ?thesis using B(5) [OF that(1)] set by simp
  next
    case False
    have "live u \<subseteq> live t2" using B(1) by (auto simp: opened_def split: option.splits)
    then have "settled t2 g q" using Q False that S(2) by (auto simp: quiet_def steady_def)
    then show ?thesis using B(5) [OF that(1)] by simp
  qed
  have "settled u b q" if "oft_map (openFiles u) name = Some b" for b q
  proof -
    have "b = ?a" "b \<in> live u" using B(1) that by (auto simp: opened_def split: option.splits)
    then show ?thesis using B(5) set by simp
  qed
  then show "relation u name ns" using assms(4,5) K(6) r by (simp add: relation_def)
qed

lemma end_back:
  assumes "db_inv t" "fileName (objs t (hf_filePtr h)) = name" "hf_ok t h ns" "hf_headerPageNo h = 1" "name \<noteq> []"
    and "hf_curDirtyFlag h \<longrightarrow> dt" "\<And>q. q \<noteq> hf_headerPageNo h \<Longrightarrow> q \<noteq> hf_curPageNo h \<Longrightarrow> settled t (hf_filePtr h) q"
    and "openCnt (objs t (hf_filePtr h)) = 1 \<longrightarrow> (\<forall>q. pins t (hf_filePtr h) q = own h (hf_filePtr h) q)"
    and "BufMgr_unPinPage t (hf_filePtr h) (hf_curPageNo h) dt = (st1, t1)"
    and "BufMgr_unPinPage t1 (hf_filePtr h) (hf_headerPageNo h) (hf_hdrDirtyFlag h) = (st2, t2)"
    and "DB_closeFile t2 (hf_filePtr h) = (st3, u)"
  shows "opened u name (hf_filePtr h) t" "\<And>g q. pins t g q = pins u g q + own h g q" "pins_kept u t"
    "rel_pages u name = logical t (hf_filePtr h)" "relation u name ns"
    "\<And>g q. g \<in> live u \<Longrightarrow> settled t g q \<Longrightarrow> settled u g q"
    "\<And>g q f. g \<noteq> hf_filePtr h \<Longrightarrow> holds t g q f \<Longrightarrow> holds u g q f"
proof -
  obtain fh fc where K: "hf_core t h ns fh fc" "flag_ok t (hf_filePtr h) (hf_headerPageNo h) (hf_hdrDirtyFlag h) fh"
    "flag_ok t (hf_filePtr h) (hf_curPageNo h) (hf_curDirtyFlag h) fc" using assms(3) by (rule hf_okE)
  note D = hf_coreD [OF K(1)]
  note E = end_pages [OF assms(1,2) D(2) assms(4-11) D(7,8) _ K(2,3) D(4) [unfolded assms(4)]]
  show "opened u name (hf_filePtr h) t" "\<And>g q. pins t g q = pins u g q + own h g q" "pins_kept u t"
    "rel_pages u name = logical t (hf_filePtr h)" "relation u name ns"
    "\<And>g q. g \<in> live u \<Longrightarrow> settled t g q \<Longrightarrow> settled u g q"
    "\<And>g q f. g \<noteq> hf_filePtr h \<Longrightarrow> holds t g q f \<Longrightarrow> holds u g q f"
    using E D(11) by auto
qed

lemma end_session:
  assumes "opened s name (hf_filePtr h) t" "hf_ok t h ns" "owned s t h" "hf_headerPageNo h = 1"
    and "hf_curDirtyFlag h \<longrightarrow> dt"
    and "BufMgr_unPinPage t (hf_filePtr h) (hf_curPageNo h) dt = (st1, t1)"
    and "BufMgr_unPinPage t1 (hf_filePtr h) (hf_headerPageNo h) (hf_hdrDirtyFlag h) = (st2, t2)"
    and "DB_closeFile t2 (hf_filePtr h) = (st3, u)" "name \<noteq> []"
  shows "closed_again s name u" "rel_pages u name = logical t (hf_filePtr h)" "relation u name ns"
proof -
  let ?a = "hf_filePtr h"
  have O: "db_inv s" "db_inv t" "fileName (objs t ?a) = name" using assms(1) by (simp_all add: opened_def)
  have P: "pool_base s t" "\<And>g q. pins t g q = pins s g q + own h g q"
    "\<And>q. q \<noteq> hf_headerPageNo h \<Longrightarrow> q \<noteq> hf_curPageNo h \<Longrightarrow> settled t ?a q" using assms(3) by (simp_all add: owned_def)
  have ok: "buf_ok s" by (rule db_invD(1) [OF O(1)])
  have free: "openCnt (objs t ?a) = 1 \<longrightarrow> (\<forall>q. pins t ?a q = own h ?a q)"
  proof (intro impI allI)
    fix q
    assume that: "openCnt (objs t ?a) = 1"
    have "?a \<notin> live s" using assms(1) that db_invD(7) [OF O(1), of ?a] by (auto simp: opened_def split: option.splits)
    then have "\<not> holds s ?a q f" for f using holds_live [OF ok] by blast
    then show "pins t ?a q = own h ?a q" using P(2) pins_zero [OF ok] by simp
  qed
  note B = end_back [OF O(2,3) assms(2,4,9,5) P(3) free assms(6-8)]
  show "rel_pages u name = logical t ?a" by (rule B(4))
  show "relation u name ns" by (rule B(5))
  have p: "pins u = pins s" using B(2) P(2) by (simp add: fun_eq_iff)
  have "holds u g q f" if h: "holds s g q f" for g q f
  proof -
    have "0 < pins u g q" using p pins_holds [of s g q] h by auto
    then obtain f' where f': "holds u g q f'" by (auto simp: pins_holds)
    have "holds t g q f" "holds t g q f'" using P(1) h B(3) f' by (simp_all add: pool_base_def pins_kept_def)
    then show ?thesis using f' by (simp add: holds_def)
  qed
  then have "pins_kept s u" by (simp add: pins_kept_def)
  then show "closed_again s name u" using opened_twice [OF assms(1) B(1) p] B(6) by blast
qed

lemma HeapFileScan_destroy_ok:
  assumes "opened s name (hf_filePtr h) t" "hf_ok t h ns" "owned s t h" "hf_headerPageNo h = 1" "name \<noteq> []"
  shows "closed_again s name (HeapFileScan_destroy t h)"
    "rel_pages (HeapFileScan_destroy t h) name = logical t (hf_filePtr h)"
    "relation (HeapFileScan_destroy t h) name ns"
proof -
  obtain f where "hf_curPage h = Frame f" using assms(2) by (auto elim!: hf_okE dest: hf_coreD(6))
  then have "HeapFileScan_destroy t h = snd (DB_closeFile (snd (BufMgr_unPinPage
      (snd (BufMgr_unPinPage t (hf_filePtr h) (hf_curPageNo h) (hf_curDirtyFlag h)))
      (hf_filePtr h) (hf_headerPageNo h) (hf_hdrDirtyFlag h))) (hf_filePtr h))"
    by (simp add: HeapFileScan_destroy_def endScan_def HeapFile_destroy_def case_prod_beta)
  then show "closed_again s name (HeapFileScan_destroy t h)"
    "rel_pages (HeapFileScan_destroy t h) name = logical t (hf_filePtr h)"
    "relation (HeapFileScan_destroy t h) name ns"
    using end_session [OF assms(1-4) _ surjective_pairing surjective_pairing surjective_pairing assms(5),
        where dt = "hf_curDirtyFlag h"] by simp_all
qed

text \<open>A scan object behind its first page.\<close>

lemma HeapFileScan_init_ok:
  assumes "db_inv s" "allocator_ok (heap_new s)" "relation s name ns" "two_free (bufMgr s)"
  obtains h t where "HeapFileScan_init s name = Some (Inr h, t)" "opened s name (hf_filePtr h) t"
    "scan_pos s t h ns (heap_scan (rel_pages s name) ns)" "hf_headerPageNo h = 1" "hs_filter h = None"
    "logical t (hf_filePtr h) = rel_pages s name"
proof -
  obtain h t where H: "HeapFile_init s name = Some (Inr h, t)" "opened s name (hf_filePtr h) t" "hf_ok t h ns"
    "owned s t h" "hf_curPageNo h = hd ns" "hf_curRec h = NULLRID" "hf_headerPageNo h = 1"
    "logical t (hf_filePtr h) = rel_pages s name"
    by (rule HeapFile_init_ok [OF assms])
  obtain n post where ns: "ns = n # post" using assms(3) by (cases ns) (auto simp: relation_def heap_wf_def)
  have "hf_ok t (scan_of h) ns" "owned s t (scan_of h)"
    using H(3,4) by (simp_all add: hf_ok_def hf_core_def owned_def own_def scan_of_def)
  then have "scan_at s t (scan_of h) [] n post"
    using H(5) by (simp add: scan_at_def ns scan_of_def)
  then have "scan_pos s t (scan_of h) ns (heap_scan (rel_pages s name) ns)"
    unfolding scan_pos_def using H(6,8)
    by (intro exI [of _ "[]"] exI [of _ n] exI [of _ post]) (simp add: ns scan_of_def NULLRID_def)
  then show ?thesis
    using that [of "scan_of h" t] H by (simp add: HeapFileScan_init_def scan_of_def)
qed

subsection \<open>Insertion sessions\<close>

lemma InsertFileScan_init_ok:
  assumes "db_inv s" "allocator_ok (heap_new s)" "relation s name ns" "two_free (bufMgr s)"
  obtains h t where "InsertFileScan_init s name = Some ((OK, h), t)" "opened s name (hf_filePtr h) t"
    "hf_ok t h ns" "owned s t h" "hf_curPageNo h = last ns" "hf_headerPageNo h = 1"
    "logical t (hf_filePtr h) = rel_pages s name"
proof -
  obtain h t where H: "HeapFile_init s name = Some (Inr h, t)" "opened s name (hf_filePtr h) t" "hf_ok t h ns"
    "owned s t h" "hf_curPageNo h = hd ns" "hf_curRec h = NULLRID" "hf_headerPageNo h = 1"
    "logical t (hf_filePtr h) = rel_pages s name"
    by (rule HeapFile_init_ok [OF assms])
  let ?a = "hf_filePtr h" and ?C = "hf_curPageNo h"
  obtain fh fc where K: "hf_core t h ns fh fc" "flag_ok t ?a (hf_headerPageNo h) (hf_hdrDirtyFlag h) fh"
    "flag_ok t ?a ?C (hf_curDirtyFlag h) fc" using H(3) by (rule hf_okE)
  note D = hf_coreD [OF K(1)]
  obtain hdr where hdr: "logical t ?a (hf_headerPageNo h) = Some hdr" "hdr_lastPage hdr = last ns" "ns \<noteq> []"
    using D(4) by (auto elim: heap_wfE)
  have dh: "deref t (hf_headerPage h) = Some hdr" using D(9) hdr(1) by simp
  show ?thesis
  proof (cases "?C = last ns")
    case True
    then have "InsertFileScan_init s name = Some ((OK, h), t)"
      using H(1) dh hdr(2) by (simp add: InsertFileScan_init_def)
    then show ?thesis using that H True by simp
  next
    case False
    have "hf_headerPageNo h \<notin> set ns" using D(4) by (rule heap_wfE)
    then have l: "last ns \<in> set ns" "last ns \<noteq> ?C" "last ns \<noteq> hf_headerPageNo h"
      using last_in_set [OF hdr(3)] False by auto
    have se: "settled t ?a (last ns)" using H(4) l(2,3) by (simp add: owned_def)
    obtain st t1 where U: "BufMgr_unPinPage t ?a ?C (hf_curDirtyFlag h) = (st, t1)" by fastforce
    obtain r t2 where R: "BufMgr_readPage t1 ?a (last ns) = (r, t2)" by fastforce
    note M = move_page [OF K l(1,2) se U R]
    obtain f where f: "r = Inr f" "owned s t2 (h\<lparr>hf_curPage := Frame f, hf_curPageNo := last ns, hf_curDirtyFlag := False\<rparr>)"
      using move_owned [OF K(1) H(4) K(3,2) l(1,2) U R] by blast
    let ?h = "h\<lparr>hf_curPage := Frame f, hf_curPageNo := last ns, hf_curDirtyFlag := False\<rparr>"
    have "deref t1 (hf_headerPage h) = Some hdr"
    proof -
      have "holds t1 ?a (hf_headerPageNo h) fh"
        using unPin_held(5) [OF D(1,8) K(3) U, of ?a "hf_headerPageNo h" fh] D(7,11) by auto
      from holds_deref [OF this] show ?thesis using D(5) M(4) hdr(1) by simp
    qed
    moreover have "h\<lparr>hf_curPageNo := last ns, hf_curDirtyFlag := False, hf_curPage := Frame f\<rparr> = ?h" by (cases h) simp
    ultimately have "InsertFileScan_init s name = Some ((OK, ?h), t2)"
      using H(1) dh hdr(2) False D(6) U R f(1) by (simp add: InsertFileScan_init_def Let_def)
    moreover have "opened s name ?a t2" using opened_steady [OF H(2) _ M(3)] M(2) by (simp add: quiet_def)
    moreover have "logical t2 ?a = rel_pages s name" using quiet_logical [OF M(2) D(2)] H(8) by simp
    ultimately show ?thesis using that [of ?h t2] M(6) [OF f(1)] f(2) H(7) by simp
  qed
qed

lemma InsertFileScan_destroy_ok:
  assumes "opened s name (hf_filePtr h) t" "hf_ok t h ns" "owned s t h" "hf_headerPageNo h = 1" "name \<noteq> []"
  shows "closed_again s name (InsertFileScan_destroy t h)"
    "rel_pages (InsertFileScan_destroy t h) name = logical t (hf_filePtr h)"
    "relation (InsertFileScan_destroy t h) name ns"
proof -
  obtain f where "hf_curPage h = Frame f" using assms(2) by (auto elim!: hf_okE dest: hf_coreD(6))
  then have "InsertFileScan_destroy t h = snd (DB_closeFile (snd (BufMgr_unPinPage
      (snd (BufMgr_unPinPage t (hf_filePtr h) (hf_curPageNo h) True))
      (hf_filePtr h) (hf_headerPageNo h) (hf_hdrDirtyFlag h))) (hf_filePtr h))"
    by (simp add: InsertFileScan_destroy_def HeapFile_destroy_def case_prod_beta)
  then show "closed_again s name (InsertFileScan_destroy t h)"
    "rel_pages (InsertFileScan_destroy t h) name = logical t (hf_filePtr h)"
    "relation (InsertFileScan_destroy t h) name ns"
    using end_session [OF assms(1-4) _ surjective_pairing surjective_pairing surjective_pairing assms(5),
        where dt = True] by simp_all
qed

end
