(* ===== verification/Heap_Room.thy ===== *)
theory Heap_Room
  imports Heap_Session
begin

text \<open>
  When a relation can grow: the frames that an object takes, and when the allocation of a page
  succeeds.
\<close>

subsection \<open>Free frames\<close>

text \<open>An object takes two frames at most.\<close>

lemma owned_frames:
  assumes "hf_core t h ns fh fc" "owned s t h"
  shows "card (free_frames (bufMgr s)) \<le> card (free_frames (bufMgr t)) + 2"
proof -
  note D = hf_coreD [OF assms(1)]
  have O: "buf_ok s" "pins_kept s t" "numBufs (bufMgr t) = numBufs (bufMgr s)" "\<And>g q. pins t g q = pins s g q + own h g q"
    using assms(2) by (auto simp: owned_def pool_base_def)
  have "i \<in> free_frames (bufMgr t) \<union> {fh, fc}" if i: "i \<in> free_frames (bufMgr s)" for i
  proof (rule ccontr)
    assume a: "i \<notin> free_frames (bufMgr t) \<union> {fh, fc}"
    let ?g = "bd_file (desc (bufMgr t) i)" and ?q = "bd_pageNo (desc (bufMgr t) i)"
    have n1: "i < numBufs (bufMgr t)" using i O(3) by (simp add: free_frames_def)
    then have "pinCnt (desc (bufMgr t) i) \<noteq> 0" using a by (simp add: free_frames_def)
    note n = n1 this
    have F: "frame_ok t (desc (bufMgr t) i) (bufPool (bufMgr t) ! i)" using framesD(6) [OF D(1)] n(1) by simp
    then have v: "valid (desc (bufMgr t) i)" "0 < pinCnt (desc (bufMgr t) i)"
      using n(2) by (auto simp: frame_ok_def split: if_splits)
    then have h: "holds t ?g ?q i"
      using frames_map [OF D(1), of "(?g, ?q)" i] n(1) by (simp add: holds_def buffered_def)
    show False
    proof (cases "0 < pins s ?g ?q")
      case True
      then obtain f where f: "holds s ?g ?q f" by (auto simp: pins_holds)
      then have "f = i" using O(2) h by (auto simp: pins_kept_def holds_def)
      then show False using f i by (simp add: holds_def free_frames_def)
    next
      case False
      then have "0 < own h ?g ?q" using O(4) [of ?g ?q] pins_holds [of t ?g ?q] h pins_nonneg [OF O(1)] by auto
      then have "(?g, ?q) = (hf_filePtr h, hf_headerPageNo h) \<or> (?g, ?q) = (hf_filePtr h, hf_curPageNo h)"
        by (auto simp: own_def split: if_splits)
      then show False using h D(7,8) a by (auto simp: holds_def)
    qed
  qed
  then have "free_frames (bufMgr s) \<subseteq> free_frames (bufMgr t) \<union> {fh, fc}" by blast
  then have "card (free_frames (bufMgr s)) \<le> card (free_frames (bufMgr t) \<union> {fh, fc})" by (intro card_mono) auto
  also have "\<dots> \<le> card (free_frames (bufMgr t)) + card {fh, fc}" by (rule card_Un_le)
  also have "\<dots> \<le> card (free_frames (bufMgr t)) + 2" by (simp add: card_insert_if)
  finally show ?thesis .
qed

subsection \<open>Room for a page\<close>

lemma logical_dom: "buf_ok s \<Longrightarrow> dom (logical s fl) = dom (disk_page s fl)"
  using buffered_in_use(2) [of s fl] by (auto simp: logical_def split: option.splits)

lemma finite_pages:
  assumes "buf_ok s" "fl \<in> live s"
  shows "finite (dom (logical s fl))"
proof (rule finite_subset)
  show "dom (logical s fl) \<subseteq> {0..2147483648}"
  proof
    fix p
    assume "p \<in> dom (logical s fl)"
    then have "disk_page s fl p \<noteq> None" using logical_dom [OF assms(1)] by (metis domIff)
    then show "p \<in> {0..2147483648}" using page_number_bound [OF assms] by fastforce
  qed
qed (rule finite_atLeastAtMost_int)

text \<open>An allocation succeeds below the limit on the size of a file, when a frame is free.\<close>

lemma allocPage_total:
  assumes "buf_ok s" "fl \<in> live s" "\<not> all_pinned (bufMgr s)" "card (dom (logical s fl)) + 1 < quota s"
  shows "fst (BufMgr_allocPage s fl) \<noteq> Inl e"
proof
  assume a: "fst (BufMgr_allocPage s fl) = Inl e"
  then obtain s' where "BufMgr_allocPage s fl = (Inl e, s')" by (cases "BufMgr_allocPage s fl") simp
  from allocPage_fails(7) [OF assms(1,2) this] obtain e' where e': "fst (File_allocatePage s (objs s fl)) = Inl e'"
    using assms(3) by blast
  have "file_inv (objs s fl) s" using framesD(1) [OF assms(1)] assms(2) by (simp add: files_ok_def)
  then obtain ps where ps: "file_pages s (objs s fl) = Some ps" "file_wf ps" "int (quota s) < 2147483648"
    "disk_page s fl = file_map ps" by (rule file_invE)
  have d: "dom (logical s fl) = dom (file_map ps)" using logical_dom [OF assms(1)] ps(4) by simp
  show False
  proof (cases rule: allocate_cases [OF ps(1-3)])
    case 3
    have "dom (file_map ps) = {1..<int (length ps)}" using 3(1) by (auto simp: file_map_def split: if_splits)
    then have "card (dom (logical s fl)) = nat (int (length ps) - 1)" using d by simp
    then show False using 3(2) assms(4) by linarith
  qed (use e' in simp_all)
qed

text \<open>
  Room for one more page of a relation, before an object is made for it: two frames for the
  object and two more, and a file that is below the limit.
\<close>

definition page_room :: "'a dsys_scheme \<Rightarrow> string \<Rightarrow> bool" where
  "page_room s name \<longleftrightarrow> 4 \<le> card (free_frames (bufMgr s)) \<and> card (dom (rel_pages s name)) + 1 < quota s"

lemma page_room_alloc:
  assumes "page_room s name" "opened s name (hf_filePtr h) t" "hf_ok t h ns" "owned s t h" "logical t (hf_filePtr h) = rel_pages s name"
  shows "fst (BufMgr_allocPage t (hf_filePtr h)) \<noteq> Inl e"
proof -
  obtain fh fc where K: "hf_core t h ns fh fc" using assms(3) by (rule hf_okE)
  have "two_free (bufMgr t)" using owned_frames [OF K assms(4)] assms(1) by (simp add: two_free_iff page_room_def)
  then have "\<not> all_pinned (bufMgr t)" by (auto simp: two_free_def all_pinned_def)
  moreover have "quota t = quota s" using assms(2) by (simp add: opened_def)
  ultimately show ?thesis
    using allocPage_total [OF hf_coreD(1,2) [OF K]] assms(1,5) by (simp add: page_room_def)
qed

end
