(* ===== verification/Heap_Client.thy ===== *)
theory Heap_Client
  imports Heap_Room
begin

text \<open>
  What a client of a heap file sees. \<open>cursor\<close> says which records a scan object has still to
  deliver; the locale \<open>record_cursor\<close> is the contract between \<open>scanNext\<close> and \<open>getRecord\<close> and
  the loops of the catalogs and of the query operators.
\<close>

subsection \<open>Sessions\<close>

definition ready :: "'a dsys_scheme \<Rightarrow> bool" where
  "ready s \<longleftrightarrow> db_inv s \<and> allocator_ok (heap_new s) \<and> two_free (bufMgr s)"

lemma closed_ready: "ready s \<Longrightarrow> closed_again s name u \<Longrightarrow> ready u"
  using closed_two_free [of s name u] by (simp add: ready_def closed_again_def)

text \<open>Other relations are not touched.\<close>

lemma closed_relation:
  assumes "ready s" "closed_again s name u" "n \<noteq> name" "relation s n ns"
  shows "rel_pages u n = rel_pages s n" "relation u n ns"
proof -
  have d: "db_inv s" using assms(1) by (simp add: ready_def)
  show r: "rel_pages u n = rel_pages s n" by (rule closed_pages [OF d assms(2,3)])
  have "settled u a q" if o: "oft_map (openFiles u) n = Some a" for a q
  proof -
    have "oft_map (openFiles s) n = Some a" using o assms(2) by (simp add: closed_again_def)
    then have "a \<in> live s" "fileName (objs s a) = n" "settled s a q"
      using db_invD(6) [OF d] assms(4) by (auto simp: relation_def)
    then show ?thesis using assms(2,3) by (simp add: closed_again_def)
  qed
  then show "relation u n ns" using assms(4) r by (simp add: relation_def)
qed

lemma endScan_destroy:
  fixes s :: "'a dsys_scheme"
  assumes "hf_ok s h ns" "owned base s h" "endScan s h = (st, h', s')"
  shows "st = OK" "HeapFileScan_destroy s' h' = HeapFileScan_destroy s h"
proof -
  let ?fl = "hf_filePtr h"
  obtain fh fc where K: "hf_core s h ns fh fc" "flag_ok s ?fl (hf_headerPageNo h) (hf_hdrDirtyFlag h) fh"
    "flag_ok s ?fl (hf_curPageNo h) (hf_curDirtyFlag h) fc" using assms(1) by (rule hf_okE)
  note D = hf_coreD [OF K(1)]
  obtain st' t where U: "BufMgr_unPinPage s ?fl (hf_curPageNo h) (hf_curDirtyFlag h) = (st', t)" by fastforce
  have E: "endScan s h = (st', h\<lparr>hf_curPage := Null, hf_curPageNo := 0, hf_curDirtyFlag := False\<rparr>, t)"
    using D(6) U by (simp add: endScan_def)
  show "st = OK" using E assms(3) unPin_held(1) [OF D(1,8) K(3) U] by simp
  have "h' = h\<lparr>hf_curPage := Null, hf_curPageNo := 0, hf_curDirtyFlag := False\<rparr>" "s' = t" using E assms(3) by simp_all
  then show "HeapFileScan_destroy s' h' = HeapFileScan_destroy s h"
    using E by (simp add: HeapFileScan_destroy_def) (simp add: endScan_def)
qed

subsection \<open>A scan session\<close>

text \<open>
  During a session: the object is behind some records and has \<open>rest\<close> still to visit.
\<close>

definition scanning :: "'a dsys_scheme \<Rightarrow> string \<Rightarrow> 'a dsys_scheme \<Rightarrow> HeapFileScan \<Rightarrow> int list \<Rightarrow> RID list \<Rightarrow> bool" where
  "scanning s name t h ns rest \<longleftrightarrow> opened s name (hf_filePtr h) t \<and> scan_pos s t h ns rest \<and>
     hf_headerPageNo h = 1 \<and> name \<noteq> []"

lemma scanning_end:
  assumes "scanning s name t h ns rest"
  shows "closed_again s name (HeapFileScan_destroy t h)"
    "rel_pages (HeapFileScan_destroy t h) name = logical t (hf_filePtr h)"
    "relation (HeapFileScan_destroy t h) name ns"
    "endScan t h = (st, h', t') \<Longrightarrow> st = OK \<and> HeapFileScan_destroy t' h' = HeapFileScan_destroy t h"
proof -
  obtain fh fc where K: "hf_ok t h ns" "owned s t h"
    by (rule scan_pos_hf [of s t h ns rest]) (use assms in \<open>simp_all add: scanning_def\<close>)
  have S: "opened s name (hf_filePtr h) t" "hf_headerPageNo h = 1" "name \<noteq> []" using assms by (simp_all add: scanning_def)
  note E = HeapFileScan_destroy_ok [OF S(1) K S(2,3)]
  show "closed_again s name (HeapFileScan_destroy t h)"
    "rel_pages (HeapFileScan_destroy t h) name = logical t (hf_filePtr h)"
    "relation (HeapFileScan_destroy t h) name ns" by (rule E)+
  show "endScan t h = (st, h', t') \<Longrightarrow> st = OK \<and> HeapFileScan_destroy t' h' = HeapFileScan_destroy t h"
    using endScan_destroy [OF K] by blast
qed

lemma scanning_next:
  assumes "scanning s name t h ns rest"
  defines "tail \<equiv> dropWhile (\<lambda>r. \<not> matches t h ns r) rest"
  shows "\<exists>h' t'. logical t' (hf_filePtr h') = logical t (hf_filePtr h) \<and> same_scan h h' \<and>
    (case tail of
       [] \<Rightarrow> scanNext t h = Some (Inl FILEEOF, h', t') \<and> scanning s name t' h' ns []
     | r # rs \<Rightarrow> scanNext t h = Some (Inr r, h', t') \<and> scanning s name t' h' ns rs \<and> hf_curRec h' = r \<and>
         rid_pageNo r = hf_curPageNo h' \<and> recs t h ns r \<noteq> None \<and>
         HeapFileScan_getRecord t' h' = Some (Inr (the (recs t h ns r))))"
proof -
  have S: "opened s name (hf_filePtr h) t" "scan_pos s t h ns rest" "hf_headerPageNo h = 1" "name \<noteq> []"
    using assms(1) by (simp_all add: scanning_def)
  have live: "hf_filePtr h \<in> live t" by (rule scan_pos_hf [OF S(2)])
  from scanNext_spec [OF S(2)] obtain st h' t' where
    N: "scanNext t h = Some (if st = OK then Inr (hf_curRec h') else Inl st, h', t')"
    "quiet (hf_filePtr h) t t'" "same_scan h h'" "scan_found s t' h' ns tail st"
    unfolding tail_def by blast
  have lg: "logical t' (hf_filePtr h') = logical t (hf_filePtr h)" "hf_filePtr h' = hf_filePtr h"
    using quiet_logical [OF N(2) live] N(3) by (simp_all add: same_scan_def)
  have sc: "scanning s name t' h' ns rs" if "scan_pos s t' h' ns rs" for rs
  proof -
    have "buf_ok t'" by (rule scan_pos_hf [OF that])
    then show ?thesis
      using opened_steady [OF S(1), of t'] N(2,3) S(3,4) that by (simp add: scanning_def quiet_def same_scan_def)
  qed
  show ?thesis
  proof (cases tail)
    case Nil
    then show ?thesis using N lg sc [of "[]"]
      by (intro exI [of _ h'] exI [of _ t']) (simp add: scan_found_def)
  next
    case (Cons r rs)
    have F: "st = OK" "hf_curRec h' = r" "rid_pageNo r = hf_curPageNo h'" "scan_pos s t' h' ns rs"
      using N(4) Cons by (simp_all add: scan_found_def)
    have "r \<in> set rest" using Cons set_dropWhileD [of r] by (metis list.set_intros(1) tail_def)
    then obtain rec where rec: "recs t h ns r = Some rec" using scan_pos_records [OF S(2)] by blast
    obtain pg where "deref t' (hf_curPage h') = Some pg" "Page_getRecord pg (hf_curRec h') = Inr rec"
      using scan_current [OF F(4)] F(2,3) rec lg by auto
    then have "HeapFileScan_getRecord t' h' = Some (Inr rec)" by (simp add: HeapFileScan_getRecord_def)
    then show ?thesis using N lg F rec Cons sc [OF F(4)]
      by (intro exI [of _ h'] exI [of _ t']) simp
  qed
qed

subsection \<open>Cursors\<close>

definition scan_records :: "(int \<Rightarrow> memory option) \<Rightarrow> int list \<Rightarrow> scan_filter option \<Rightarrow> RID list \<Rightarrow> (RID \<times> byte list) list" where
  "scan_records m ns flt rids =
     map (\<lambda>r. (r, the (heap_recs m ns r))) (filter (\<lambda>r. matchRec flt (the (heap_recs m ns r))) rids)"

definition cursor :: "'a dsys_scheme \<Rightarrow> string \<Rightarrow> int list \<Rightarrow> (int \<Rightarrow> memory option) \<Rightarrow> scan_filter option \<Rightarrow>
    'a dsys_scheme \<times> HeapFileScan \<Rightarrow> (RID \<times> byte list) list \<Rightarrow> bool" where
  "cursor s name ns m flt c rest \<longleftrightarrow> (case c of (t, h) \<Rightarrow>
     logical t (hf_filePtr h) = m \<and> hs_filter h = flt \<and>
     (\<exists>rids. scanning s name t h ns rids \<and> rest = scan_records m ns flt rids))"

text \<open>The record a scan object stands on.\<close>

definition current :: "int list \<Rightarrow> 'a dsys_scheme \<times> HeapFileScan \<Rightarrow> RID \<times> byte list \<Rightarrow> bool" where
  "current ns c x \<longleftrightarrow> (case c of (t, h) \<Rightarrow> hf_curRec h = fst x \<and> rid_pageNo (fst x) = hf_curPageNo h \<and>
     recs t h ns (fst x) = Some (snd x))"

lemma filter_dropWhile: "filter P xs = (case dropWhile (\<lambda>x. \<not> P x) xs of [] \<Rightarrow> [] | y # ys \<Rightarrow> y # filter P ys)"
  by (induction xs) auto

definition next_of :: "'a dsys_scheme \<times> HeapFileScan \<Rightarrow> ((Status + RID) \<times> 'a dsys_scheme \<times> HeapFileScan) option" where
  "next_of c = map_option (\<lambda>(r, h, s). (r, s, h)) (scanNext (fst c) (snd c))"

definition fetch_of :: "'a dsys_scheme \<times> HeapFileScan \<Rightarrow> (Status + byte list) option" where
  "fetch_of c = HeapFileScan_getRecord (fst c) (snd c)"

lemma cursor_next:
  assumes "cursor s name ns m flt (t, h) rest"
  shows "\<exists>h' t'. case rest of
      [] \<Rightarrow> scanNext t h = Some (Inl FILEEOF, h', t') \<and> cursor s name ns m flt (t', h') []
    | x # xs \<Rightarrow> scanNext t h = Some (Inr (fst x), h', t') \<and> HeapFileScan_getRecord t' h' = Some (Inr (snd x)) \<and>
        cursor s name ns m flt (t', h') xs \<and> current ns (t', h') x"
proof -
  obtain rids where C: "logical t (hf_filePtr h) = m" "hs_filter h = flt" "scanning s name t h ns rids"
    "rest = scan_records m ns flt rids" using assms by (auto simp: cursor_def)
  let ?tail = "dropWhile (\<lambda>r. \<not> matches t h ns r) rids"
  from scanning_next [OF C(3)] obtain h' t' where
    N: "logical t' (hf_filePtr h') = logical t (hf_filePtr h)" "same_scan h h'"
      "case ?tail of
         [] \<Rightarrow> scanNext t h = Some (Inl FILEEOF, h', t') \<and> scanning s name t' h' ns []
       | r # rs \<Rightarrow> scanNext t h = Some (Inr r, h', t') \<and> scanning s name t' h' ns rs \<and> hf_curRec h' = r \<and>
           rid_pageNo r = hf_curPageNo h' \<and> recs t h ns r \<noteq> None \<and>
           HeapFileScan_getRecord t' h' = Some (Inr (the (recs t h ns r)))" by blast
  note F = filter_dropWhile [of "\<lambda>r. matchRec flt (the (heap_recs m ns r))" rids]
  show ?thesis
  proof (cases ?tail)
    case Nil
    then have "rest = []" using F C by (simp add: scan_records_def)
    moreover have "scanNext t h = Some (Inl FILEEOF, h', t')" "scanning s name t' h' ns []"
      using N(3) unfolding Nil by simp_all
    ultimately show ?thesis using N(1,2) C(1,2)
      by (intro exI [of _ h'] exI [of _ t']) (auto simp: cursor_def same_scan_def scan_records_def)
  next
    case (Cons r rs)
    then have "rest = (r, the (heap_recs m ns r)) # scan_records m ns flt rs" using F C by (simp add: scan_records_def)
    moreover note N(3) [unfolded Cons list.case]
    ultimately show ?thesis using N(1,2) C(1,2)
      by (intro exI [of _ h'] exI [of _ t']) (auto simp: cursor_def same_scan_def current_def)
  qed
qed

subsection \<open>Beginning and end of a scan\<close>

abbreviation rel_records :: "'a dsys_scheme \<Rightarrow> string \<Rightarrow> int list \<Rightarrow> scan_filter option \<Rightarrow> (RID \<times> byte list) list" where
  "rel_records s name ns flt \<equiv> scan_records (rel_pages s name) ns flt (heap_scan (rel_pages s name) ns)"

lemma scanning_filter [simp]: "scanning s name t (h\<lparr>hs_filter := flt\<rparr>) ns rids = scanning s name t h ns rids"
  by (simp add: scanning_def scan_pos_def scan_at_def hf_ok_def hf_core_def owned_def own_def)

lemma cursor_start:
  assumes "ready s" "relation s name ns"
  obtains h t where "HeapFileScan_init s name = Some (Inr h, t)" "hs_filter h = None"
    "\<forall>flt. cursor s name ns (rel_pages s name) flt (t, h\<lparr>hs_filter := flt\<rparr>) (rel_records s name ns flt)"
proof -
  have R: "db_inv s" "allocator_ok (heap_new s)" "two_free (bufMgr s)" using assms(1) by (simp_all add: ready_def)
  obtain h t where H: "HeapFileScan_init s name = Some (Inr h, t)" "opened s name (hf_filePtr h) t"
    "scan_pos s t h ns (heap_scan (rel_pages s name) ns)" "hf_headerPageNo h = 1" "hs_filter h = None"
    "logical t (hf_filePtr h) = rel_pages s name"
    by (rule HeapFileScan_init_ok [OF R(1,2) assms(2) R(3)])
  have "scanning s name t h ns (heap_scan (rel_pages s name) ns)"
    using H assms(2) by (simp add: scanning_def relation_def)
  then have "cursor s name ns (rel_pages s name) flt (t, h\<lparr>hs_filter := flt\<rparr>) (rel_records s name ns flt)" for flt
    using H(6) by (auto simp: cursor_def)
  then show ?thesis using that H(1,5) by blast
qed

lemma cursor_end:
  assumes "cursor s name ns m flt (t, h) rest"
  shows "closed_again s name (HeapFileScan_destroy t h)" "rel_pages (HeapFileScan_destroy t h) name = m"
    "relation (HeapFileScan_destroy t h) name ns"
    "endScan t h = (st, h', t') \<Longrightarrow> st = OK" "endScan t h = (st, h', t') \<Longrightarrow> HeapFileScan_destroy t' h' = HeapFileScan_destroy t h"
  using assms scanning_end [of s name t h ns] by (auto simp: cursor_def)

text \<open>All records of a well-formed file, each once.\<close>

lemma heap_scan_all:
  assumes "heap_wf m hdrNo ns"
  shows "set (heap_scan m ns) = {r. heap_recs m ns r \<noteq> None}" "distinct (heap_scan m ns)"
proof -
  have P: "\<exists>pg. m n = Some pg \<and> page_inv pg \<and> curPage pg = n" if "n \<in> set ns" for n
    by (rule heap_page [OF assms that]) blast
  have S: "set (page_scan (the (m n)) NULLRID) = {r. rid_pageNo r = n \<and> contents (the (m n)) (rid_slotNo r) \<noteq> None}"
    "distinct (page_scan (the (m n)) NULLRID)" if n: "n \<in> set ns" for n
  proof -
    obtain pg where pg: "m n = Some pg" "page_inv pg" "curPage pg = n" using P [OF n] by blast
    have X: "sorted_wrt (<) (map rid_slotNo (page_scan pg NULLRID))"
      "set (map rid_slotNo (page_scan pg NULLRID)) = {k. - 1 < k \<and> contents pg k \<noteq> None}"
      "\<forall>r' \<in> set (page_scan pg NULLRID). rid_pageNo r' = n"
      using page_scan_spec [OF pg(2), of NULLRID] pg(3) by (simp_all add: NULLRID_def)
    have "distinct (map rid_slotNo (page_scan pg NULLRID))" using X(1) strict_sorted_iff by blast
    then show "distinct (page_scan (the (m n)) NULLRID)" by (simp add: distinct_map pg(1))
    have "r \<in> set (page_scan pg NULLRID)" if x: "rid_pageNo r = n" "contents pg (rid_slotNo r) \<noteq> None" for r
    proof -
      have "0 \<le> rid_slotNo r" using contents_dom [of pg "rid_slotNo r"] x(2) by (auto simp: in_use_def)
      then have "rid_slotNo r \<in> set (map rid_slotNo (page_scan pg NULLRID))" using X(2) x(2) by simp
      then obtain r' where "r' \<in> set (page_scan pg NULLRID)" "rid_slotNo r' = rid_slotNo r" by auto
      moreover from this have "r' = r" using X(3) x(1) by (simp add: RID.expand)
      ultimately show ?thesis by simp
    qed
    moreover have "contents pg (rid_slotNo r) \<noteq> None" if "r \<in> set (page_scan pg NULLRID)" for r
      using X(2) that by auto
    ultimately show "set (page_scan (the (m n)) NULLRID) = {r. rid_pageNo r = n \<and> contents (the (m n)) (rid_slotNo r) \<noteq> None}"
      using X(3) pg(1) by auto
  qed
  show "set (heap_scan m ns) = {r. heap_recs m ns r \<noteq> None}"
    using S(1) by (auto simp: heap_scan_def heap_recs_def)
  have "distinct ns" using assms by (rule heap_wfE)
  then show "distinct (heap_scan m ns)" using S
  proof (induction ns)
    case (Cons n ns)
    have "rid_pageNo r \<in> set ns" if "r \<in> set (heap_scan m ns)" for r
      using that Cons.prems(2) by (auto simp: heap_scan_def)
    moreover have "rid_pageNo r = n" if "r \<in> set (page_scan (the (m n)) NULLRID)" for r
      using that Cons.prems(2) [of n] by simp
    ultimately have "set (page_scan (the (m n)) NULLRID) \<inter> set (heap_scan m ns) = {}"
      using Cons.prems(1) by fastforce
    moreover have "distinct (heap_scan m ns)" using Cons.prems by (intro Cons.IH) simp_all
    ultimately show ?case using Cons.prems(3) [of n] by simp
  qed simp
qed

lemma rel_records_all:
  assumes "relation s name ns"
  shows "set (rel_records s name ns flt) = {(r, rec). tuples s name ns r = Some rec \<and> matchRec flt rec}"
    "distinct (map fst (rel_records s name ns flt))"
proof -
  have wf: "heap_wf (rel_pages s name) 1 ns" using assms by (simp add: relation_def)
  note A = heap_scan_all [OF wf]
  show "set (rel_records s name ns flt) = {(r, rec). tuples s name ns r = Some rec \<and> matchRec flt rec}"
    using A(1) by (fastforce simp: scan_records_def)
  show "distinct (map fst (rel_records s name ns flt))"
    using A(2) by (simp add: scan_records_def comp_def)
qed

subsection \<open>Deleting the current record\<close>

lemma scan_pos_passed:
  assumes "scan_pos base s h ns rest" "rid_pageNo (hf_curRec h) = hf_curPageNo h"
  shows "hf_curRec h \<notin> set rest"
proof
  assume a: "hf_curRec h \<in> set rest"
  let ?m = "logical s (hf_filePtr h)"
  obtain pre n post where P: "ns = pre @ n # post" "scan_at base s h pre n post" "- 1 \<le> rid_slotNo (hf_curRec h)"
    "rest = page_scan (the (?m n)) (hf_curRec h) @ heap_scan ?m post"
    using assms(1) by (auto simp: scan_pos_def)
  have wf: "heap_wf ?m (hf_headerPageNo h) ns" and n: "hf_curPageNo h = n"
    using P(1,2) by (auto simp: scan_at_def elim!: hf_okE dest: hf_coreD(4))
  obtain pg where pg: "?m n = Some pg" "page_inv pg" by (rule heap_page [OF wf, of n]) (use P(1) in auto)
  have "hf_curRec h \<notin> set (page_scan pg (hf_curRec h))" using page_scan_mem(3) [OF pg(2) P(3)] by blast
  then have "hf_curRec h \<in> set (heap_scan ?m post)" using a P(4) pg(1) by simp
  then obtain k where k: "k \<in> set post" "hf_curRec h \<in> set (page_scan (the (?m k)) NULLRID)" by (auto simp: heap_scan_def)
  obtain pk where pk: "?m k = Some pk" "page_inv pk" "curPage pk = k" by (rule heap_page [OF wf, of k]) (use P(1) k in auto)
  have "rid_pageNo (hf_curRec h) = k" using page_scan_mem(1) [OF pk(2), of NULLRID] k(2) pk by (simp add: NULLRID_def)
  moreover have "distinct ns" using wf by (rule heap_wfE)
  ultimately show False using assms(2) n k(1) P(1) by auto
qed

lemma scan_records_cong:
  "(\<And>r. r \<in> set rids \<Longrightarrow> heap_recs m' ns' r = heap_recs m ns r) \<Longrightarrow>
    scan_records m' ns' flt rids = scan_records m ns flt rids"
  unfolding scan_records_def by (intro map_cong filter_cong) auto

lemma cursor_delete:
  assumes "cursor s name ns m flt (t, h) rest" "current ns (t, h) x"
  shows "\<exists>h' t' m'. HeapFileScan_deleteRecord t h = Some (OK, h', t') \<and> cursor s name ns m' flt (t', h') rest \<and>
    heap_recs m' ns = (heap_recs m ns)(fst x := None)"
proof -
  obtain rids where C: "logical t (hf_filePtr h) = m" "hs_filter h = flt" "scanning s name t h ns rids"
    "rest = scan_records m ns flt rids" using assms(1) by (auto simp: cursor_def)
  have X: "hf_curRec h = fst x" "rid_pageNo (hf_curRec h) = hf_curPageNo h" "recs t h ns (hf_curRec h) = Some (snd x)"
    using assms(2) by (simp_all add: current_def)
  have S: "opened s name (hf_filePtr h) t" "scan_pos s t h ns rids" "hf_headerPageNo h = 1" "name \<noteq> []"
    using C(3) by (simp_all add: scanning_def)
  let ?h = "h\<lparr>hf_curDirtyFlag := True, hf_hdrDirtyFlag := True\<rparr>"
  from scan_delete [OF S(2) X(2,3)] obtain t' where
    D: "HeapFileScan_deleteRecord t h = Some (OK, ?h, t')" "scan_pos s t' ?h ns rids" "steady (hf_filePtr h) t t'"
    "recs t' h ns = (recs t h ns)(hf_curRec h := None)" by blast
  have "buf_ok t'" by (rule scan_pos_hf [OF D(2)])
  then have "scanning s name t' ?h ns rids"
    using opened_steady [OF S(1) D(3)] D(2) S(3,4) by (simp add: scanning_def)
  moreover have "rest = scan_records (logical t' (hf_filePtr h)) ns flt rids"
    unfolding C(4) using D(4) C(1) scan_pos_passed [OF S(2) X(2)] by (intro scan_records_cong) auto
  ultimately have "cursor s name ns (logical t' (hf_filePtr h)) flt (t', ?h) rest"
    using C(2) by (auto simp: cursor_def)
  then show ?thesis using D(1,4) C(1) X(1) by auto
qed

subsection \<open>Insertion sessions\<close>

definition inserting :: "'a dsys_scheme \<Rightarrow> string \<Rightarrow> 'a dsys_scheme \<Rightarrow> HeapFile \<Rightarrow> int list \<Rightarrow> bool" where
  "inserting s name t h ns \<longleftrightarrow> opened s name (hf_filePtr h) t \<and> hf_ok t h ns \<and> owned s t h \<and>
     hf_curPageNo h = last ns \<and> hf_headerPageNo h = 1 \<and> name \<noteq> []"

lemma insert_start:
  assumes "ready s" "relation s name ns"
  obtains h t where "InsertFileScan_init s name = Some ((OK, h), t)" "inserting s name t h ns"
    "logical t (hf_filePtr h) = rel_pages s name"
proof -
  have R: "db_inv s" "allocator_ok (heap_new s)" "two_free (bufMgr s)" using assms(1) by (simp_all add: ready_def)
  obtain h t where "InsertFileScan_init s name = Some ((OK, h), t)" "opened s name (hf_filePtr h) t"
    "hf_ok t h ns" "owned s t h" "hf_curPageNo h = last ns" "hf_headerPageNo h = 1"
    "logical t (hf_filePtr h) = rel_pages s name" by (rule InsertFileScan_init_ok [OF R(1,2) assms(2) R(3)])
  then show ?thesis using that assms(2) by (simp add: inserting_def relation_def)
qed

lemma insert_step:
  assumes "inserting s name t h ns" "rec \<noteq> []" "length rec \<le> 1000"
  shows "\<exists>r h' t' ns'. insertRecord t h rec = Some (r, h', t') \<and> inserting s name t' h' ns' \<and>
    (case r of
       Inr rid \<Rightarrow> recs t' h' ns' = (recs t h ns)(rid \<mapsto> rec) \<and> recs t h ns rid = None
     | Inl e \<Rightarrow> fst (BufMgr_allocPage t (hf_filePtr h)) = Inl e \<and> recs t' h' ns' = recs t h ns)"
proof -
  have I: "opened s name (hf_filePtr h) t" "hf_ok t h ns" "owned s t h" "hf_curPageNo h = last ns"
    "hf_headerPageNo h = 1" "name \<noteq> []" using assms(1) by (simp_all add: inserting_def)
  from insertRecord_ok [OF I(2-4) assms(2,3)] obtain r h' t' where
    R: "insertRecord t h rec = Some (r, h', t')" "inserted s t h ns rec r h' t'" by blast
  obtain ns' where N: "hf_ok t' h' ns'" "hf_curPageNo h' = last ns'"
    "case r of Inr rid \<Rightarrow> recs t' h' ns' = (recs t h ns)(rid \<mapsto> rec) \<and> recs t h ns rid = None \<and>
           (\<exists>p. dom (logical t' (hf_filePtr h)) \<subseteq> insert p (dom (logical t (hf_filePtr h))))
       | Inl e \<Rightarrow> fst (BufMgr_allocPage t (hf_filePtr h)) = Inl e \<and> h' = h \<and> ns' = ns \<and> recs t' h ns = recs t h ns"
    and S: "hf_filePtr h' = hf_filePtr h" "hf_headerPageNo h' = 1" "steady (hf_filePtr h) t t'" "owned s t' h'"
    using R(2) I(5) by (auto simp: inserted_def)
  have "buf_ok t'" using N(1) by (auto elim!: hf_okE dest: hf_coreD(1))
  then have "opened s name (hf_filePtr h') t'" using opened_steady [OF I(1) S(3)] S(1) by simp
  then have "inserting s name t' h' ns'" using N(1,2) S I(6) by (simp add: inserting_def)
  then show ?thesis using R(1) N(3) by (intro exI [of _ r] exI [of _ h'] exI [of _ t'] exI [of _ ns']) (auto split: sum.splits)
qed

lemma insert_end:
  assumes "inserting s name t h ns"
  shows "closed_again s name (InsertFileScan_destroy t h)" "relation (InsertFileScan_destroy t h) name ns"
    "rel_pages (InsertFileScan_destroy t h) name = logical t (hf_filePtr h)"
  using assms InsertFileScan_destroy_ok [of s name h t ns] by (simp_all add: inserting_def)

text \<open>An error is never reported as \<open>OK\<close>.\<close>

lemma allocatePage_not_OK: "File_allocatePage s f = (Inl e, s') \<Longrightarrow> e \<noteq> OK"
  by (auto simp: File_allocatePage_def File_intread_def Let_def split: sum.splits option.splits prod.splits if_splits)

lemma allocBuf_not_OK: "BufMgr_allocBuf s = (Inl e, s') \<Longrightarrow> e \<noteq> OK"
  by (auto simp: BufMgr_allocBuf_def Let_def split: prod.splits if_splits)

lemma install_not_OK: "install s fl p f = (Inl e, s') \<Longrightarrow> e \<noteq> OK"
  by (auto simp: install_def Let_def split: prod.splits if_splits)

lemma allocPage_not_OK: "BufMgr_allocPage s fl = (Inl e, s') \<Longrightarrow> e \<noteq> OK"
  unfolding BufMgr_allocPage_def
  by (auto split: prod.splits sum.splits dest: allocatePage_not_OK allocBuf_not_OK install_not_OK)

text \<open>One record in a session of its own.\<close>

definition one_inserted :: "'a dsys_scheme \<Rightarrow> 'a dsys_scheme \<Rightarrow> HeapFile \<Rightarrow> string \<Rightarrow> int list \<Rightarrow> byte list \<Rightarrow> Status + RID \<Rightarrow>
    'a dsys_scheme \<Rightarrow> int list \<Rightarrow> bool" where
  "one_inserted s t h name ns rec r u ns' \<longleftrightarrow> ready u \<and> closed_again s name u \<and> relation u name ns' \<and>
     (case r of
        Inr rid \<Rightarrow> tuples s name ns rid = None \<and> tuples u name ns' = (tuples s name ns)(rid \<mapsto> rec)
      | Inl e \<Rightarrow> e \<noteq> OK \<and> fst (BufMgr_allocPage t (hf_filePtr h)) = Inl e \<and> \<not> page_room s name \<and> tuples u name ns' = tuples s name ns)"

lemma insert_one:
  assumes "ready s" "relation s name ns" "rec \<noteq> []" "length rec \<le> 1000"
  obtains h t r h' t' ns' where "InsertFileScan_init s name = Some ((OK, h), t)" "insertRecord t h rec = Some (r, h', t')"
    "one_inserted s t h name ns rec r (InsertFileScan_destroy t' h') ns'"
proof -
  obtain h t where S: "InsertFileScan_init s name = Some ((OK, h), t)" "inserting s name t h ns"
    "logical t (hf_filePtr h) = rel_pages s name" by (rule insert_start [OF assms(1,2)])
  from insert_step [OF S(2) assms(3,4)] obtain r h' t' ns' where
    I: "insertRecord t h rec = Some (r, h', t')" "inserting s name t' h' ns'"
    "case r of
       Inr rid \<Rightarrow> recs t' h' ns' = (recs t h ns)(rid \<mapsto> rec) \<and> recs t h ns rid = None
     | Inl e \<Rightarrow> fst (BufMgr_allocPage t (hf_filePtr h)) = Inl e \<and> recs t' h' ns' = recs t h ns" by blast
  note E = insert_end [OF I(2)]
  obtain x y where A: "BufMgr_allocPage t (hf_filePtr h) = (x, y)" by fastforce
  have "opened s name (hf_filePtr h) t" "hf_ok t h ns" "owned s t h" using S(2) by (simp_all add: inserting_def)
  then have "\<not> page_room s name" if "fst (BufMgr_allocPage t (hf_filePtr h)) = Inl e" for e
    using page_room_alloc [of s name h t ns e] S(3) that by blast
  then have "one_inserted s t h name ns rec r (InsertFileScan_destroy t' h') ns'"
    using S(3) I(3) E closed_ready [OF assms(1) E(1)] A allocPage_not_OK [of t "hf_filePtr h" _ y]
    by (auto simp: one_inserted_def split: sum.splits)
  then show ?thesis using that S(1) I(1) by blast
qed

subsection \<open>The contract of a scan\<close>

text \<open>
  The loop all readers share: \<open>scanNext\<close> until it does not return \<open>OK\<close>, with a \<open>getRecord\<close>
  after each success.
\<close>

partial_function (option) fetch_all :: "('c \<Rightarrow> ((Status + RID) \<times> 'c) option) \<Rightarrow> ('c \<Rightarrow> (Status + byte list) option) \<Rightarrow> 'c \<Rightarrow>
    ((RID \<times> byte list) list \<times> Status \<times> 'c) option" where
  "fetch_all nxt fetch c =
     (case nxt c of
        None \<Rightarrow> None
      | Some (Inl st, c) \<Rightarrow> Some ([], st, c)
      | Some (Inr r, c) \<Rightarrow>
          (case fetch c of
             None \<Rightarrow> None
           | Some (Inl st) \<Rightarrow> Some ([], st, c)
           | Some (Inr rec) \<Rightarrow>
               Option.bind (fetch_all nxt fetch c) (\<lambda>(l, st, c). Some ((r, rec) # l, st, c))))"

locale record_cursor =
  fixes nxt :: "'c \<Rightarrow> ((Status + RID) \<times> 'c) option"
    and fetch :: "'c \<Rightarrow> (Status + byte list) option"
    and stands :: "'c \<Rightarrow> (RID \<times> byte list) list \<Rightarrow> bool"
  assumes next_end: "stands c [] \<Longrightarrow> \<exists>c'. nxt c = Some (Inl FILEEOF, c') \<and> stands c' []"
    and next_more: "stands c (x # xs) \<Longrightarrow>
      \<exists>c'. nxt c = Some (Inr (fst x), c') \<and> fetch c' = Some (Inr (snd x)) \<and> stands c' xs"
begin

lemma reads_all: "stands c xs \<Longrightarrow> \<exists>c'. fetch_all nxt fetch c = Some (xs, FILEEOF, c') \<and> stands c' []"
proof (induction xs arbitrary: c)
  case Nil
  then show ?case using next_end [OF Nil] by (subst fetch_all.simps) auto
next
  case (Cons x xs)
  from next_more [OF Cons.prems] obtain c1 where
    N: "nxt c = Some (Inr (fst x), c1)" "fetch c1 = Some (Inr (snd x))" "stands c1 xs" by blast
  from Cons.IH [OF N(3)] obtain c2 where "fetch_all nxt fetch c1 = Some (xs, FILEEOF, c2)" "stands c2 []" by blast
  then show ?case using N by (subst fetch_all.simps) simp
qed

text \<open>A cursor delivers one sequence only.\<close>

lemma stands_unique: "stands c xs \<Longrightarrow> stands c ys \<Longrightarrow> xs = ys"
  using reads_all [of c xs] reads_all [of c ys] by auto

end

interpretation sc: record_cursor next_of fetch_of "cursor s name ns m flt" for s name ns m flt
proof
  fix c :: "'a dsys_scheme \<times> HeapFileScan" and x xs
  show "cursor s name ns m flt c [] \<Longrightarrow> \<exists>c'. next_of c = Some (Inl FILEEOF, c') \<and> cursor s name ns m flt c' []"
    using cursor_next [of s name ns m flt "fst c" "snd c" "[]"] by (auto simp: next_of_def)
  show "cursor s name ns m flt c (x # xs) \<Longrightarrow>
      \<exists>c'. next_of c = Some (Inr (fst x), c') \<and> fetch_of c' = Some (Inr (snd x)) \<and> cursor s name ns m flt c' xs"
    using cursor_next [of s name ns m flt "fst c" "snd c" "x # xs"] by (auto simp: next_of_def fetch_of_def)
qed

end
