(* ===== verification/Heap_Props.thy ===== *)
theory Heap_Props
  imports Heap_Client
begin

text \<open>
  The properties of heap files: insertion, lookup and deletion act on the map from record
  identifiers to records, and the places where the code departs from that.
\<close>

subsection \<open>A small heap file\<close>

text \<open>A file with a heap header (page 1) and one empty data page (page 2).\<close>

definition demo_hdr :: memory where
  "demo_hdr = set_hdr_firstPage 2 (set_hdr_lastPage 2 (set_hdr_pageCnt 1 (set_hdr_recCnt 0 zero_mem)))"

definition demo_data :: memory where
  "demo_data = set_nextPage (Page_init zero_mem 2) (- 1)"

definition demo_heap_pages :: "memory list" where
  "demo_heap_pages = [set_numPages 3 (set_firstPage 1 header_init), demo_hdr, demo_data]"

definition demo_rel :: dsys where
  "demo_rel = \<lparr>files = [''r'' \<mapsto> demo_heap_pages], quota = 4, objs = (\<lambda>_. demo_file), live = {},
     heap_new = demo_alloc, bufMgr = BufMgr_init 8, bufMgr_null = False,
     openFiles = OpenFileHashTbl_init\<rparr>"

lemma demo_pages_heap: "file_wf demo_heap_pages" "heap_wf (file_map demo_heap_pages) 1 [2]"
  "heap_recs (file_map demo_heap_pages) [2] = Map.empty" "heap_scan (file_map demo_heap_pages) [2] = []"
proof -
  have wf: "file_wf demo_heap_pages \<and> free_list demo_heap_pages = []"
    by (rule file_wfI) (simp_all add: demo_heap_pages_def header_init_fields)
  then show "file_wf demo_heap_pages" by blast
  have pg: "file_map demo_heap_pages 1 = Some demo_hdr" "file_map demo_heap_pages 2 = Some demo_data"
    using wf by (simp_all add: file_map_def) (simp_all add: demo_heap_pages_def)
  have d: "page_inv demo_data" "curPage demo_data = 2" "nextPage demo_data = - 1" "contents demo_data = Map.empty"
    by (simp_all add: demo_data_def setNextPage_inv setNextPage_contents Page_init_inv Page_init_contents
        slot_simps Page_init_fields)
  then show h: "heap_wf (file_map demo_heap_pages) 1 [2]"
    by (simp add: heap_wf_def pg rec_count_def) (simp add: demo_hdr_def)
  show "heap_recs (file_map demo_heap_pages) [2] = Map.empty" using pg d(4) by (simp add: heap_recs_def fun_eq_iff)
  then show "heap_scan (file_map demo_heap_pages) [2] = []" using heap_scan_all(1) [OF h] by simp
qed

lemma demo_relation:
  assumes "oft_map (openFiles s) name = None" "file_view s name = Some (file_map demo_heap_pages)" "name \<noteq> []"
  shows "relation s name [2]" "tuples s name [2] = Map.empty" "rel_records s name [2] flt = []"
proof -
  have "rel_pages s name = file_map demo_heap_pages" using assms(1,2) by (simp add: rel_pages_closed)
  then show "relation s name [2]" "tuples s name [2] = Map.empty" "rel_records s name [2] flt = []"
    using demo_pages_heap assms(1,3) by (simp_all add: relation_def scan_records_def)
qed

lemma demo_rel_ok: "ready demo_rel" "relation demo_rel ''r'' [2]" "tuples demo_rel ''r'' [2] = Map.empty"
proof -
  have "files_ok demo_rel" by (simp add: files_ok_def demo_rel_def)
  note B = BufMgr_init_ok [OF this, of 8]
  have "buf_ok demo_rel" using B(1) by (simp add: demo_rel_def)
  then have "db_inv demo_rel"
    using demo_pages_heap(1) by (auto simp: db_inv_def) (auto simp: demo_rel_def oft_init split: if_splits)
  moreover have "two_free (bufMgr demo_rel)"
    unfolding two_free_def by (intro exI [of _ 0] exI [of _ 1]) (simp add: demo_rel_def BufMgr_init_def Let_def)
  ultimately show "ready demo_rel" using demo_alloc_ok by (simp add: ready_def) (simp add: demo_rel_def)
  show "relation demo_rel ''r'' [2]" "tuples demo_rel ''r'' [2] = Map.empty"
    by (rule demo_relation; simp add: demo_rel_def oft_init file_view_def)+
qed

subsection \<open>Insertion and scans\<close>

text \<open>
  C18. A record of 1 to 1000 bytes inserted through an \<open>InsertFileScan\<close> object of its own, into a
  file that is closed or open: constructor and destructor succeed, and when the insertion succeeds
  the relation holds the old records and the new one under an identifier that was not in use. It
  does succeed when four frames are not pinned and the file is below its limit. When it fails, the
  status is that of a failing \<open>allocPage\<close> and the records of the relation are the old ones; a page
  that \<open>allocPage\<close> took from the file before it failed is not given back. No other file is
  touched, and no page stays pinned.
\<close>

theorem insert_session:
  assumes "ready s" "relation s name ns" "rec \<noteq> []" "length rec \<le> 1000"
  shows "\<exists>h t r h' t' u ns'. InsertFileScan_init s name = Some ((OK, h), t) \<and>
    insertRecord t h rec = Some (r, h', t') \<and> InsertFileScan_destroy t' h' = u \<and>
    ready u \<and> closed_again s name u \<and> relation u name ns' \<and>
    (case r of
       Inr rid \<Rightarrow> tuples s name ns rid = None \<and> tuples u name ns' = (tuples s name ns)(rid \<mapsto> rec)
     | Inl e \<Rightarrow> fst (BufMgr_allocPage t (hf_filePtr h)) = Inl e \<and> \<not> page_room s name \<and> tuples u name ns' = tuples s name ns)"
proof -
  obtain h t r h' t' ns' where "InsertFileScan_init s name = Some ((OK, h), t)" "insertRecord t h rec = Some (r, h', t')"
    "one_inserted s t h name ns rec r (InsertFileScan_destroy t' h') ns'" by (rule insert_one [OF assms])
  then show ?thesis
    by (intro exI [of _ h] exI [of _ t] exI [of _ r] exI [of _ h'] exI [of _ t']
        exI [of _ "InsertFileScan_destroy t' h'"] exI [of _ ns']) (auto simp: one_inserted_def split: sum.splits)
qed

text \<open>In an empty relation the first record is found again.\<close>

lemma demo_rel_room: "page_room demo_rel ''r''"
proof -
  have "rel_pages demo_rel ''r'' = file_map demo_heap_pages" by (simp add: rel_pages_def demo_rel_def oft_init)
  moreover have "dom (file_map demo_heap_pages) \<subseteq> {1, 2}" by (auto simp: file_map_def demo_heap_pages_def split: if_splits)
  moreover from card_mono [OF _ this] have "card (dom (file_map demo_heap_pages)) \<le> 2" by simp
  moreover have "free_frames (bufMgr demo_rel) = {0..<8}" by (auto simp: free_frames_def demo_rel_def BufMgr_init_def Let_def)
  ultimately show ?thesis by (simp add: page_room_def) (simp add: demo_rel_def)
qed

theorem insert_session_witness:
  "\<exists>h t rid h' t' u ns'. InsertFileScan_init demo_rel ''r'' = Some ((OK, h), t) \<and>
     insertRecord t h [1, 2] = Some (Inr rid, h', t') \<and> InsertFileScan_destroy t' h' = u \<and> relation u ''r'' ns' \<and>
     tuples u ''r'' ns' = [rid \<mapsto> [1, 2]]"
proof -
  have "[1, 2 :: byte] \<noteq> []" "length [1, 2 :: byte] \<le> 1000" by simp_all
  from insert_session [OF demo_rel_ok(1,2) this] obtain h t r h' t' u ns' where
    I: "InsertFileScan_init demo_rel ''r'' = Some ((OK, h), t)" "insertRecord t h [1, 2] = Some (r, h', t')"
      "InsertFileScan_destroy t' h' = u" "relation u ''r'' ns'"
      "case r of Inr rid \<Rightarrow> tuples u ''r'' ns' = [rid \<mapsto> [1, 2]] | Inl e \<Rightarrow> \<not> page_room demo_rel ''r''"
    unfolding demo_rel_ok(3) by (fastforce split: sum.splits)
  then obtain rid where "r = Inr rid" using demo_rel_room by (cases r) auto
  then show ?thesis using I by auto
qed

text \<open>
  C17. A scan reads the relation completely and ends. From the constructor of \<open>HeapFileScan\<close>,
  whatever filter \<open>startScan\<close> accepts, the loop of \<open>scanNext\<close> and \<open>getRecord\<close> stops with
  \<open>FILEEOF\<close>, has delivered exactly the records that satisfy the filter, each once and with its
  bytes, and after the destructor the system is as before.
\<close>

theorem scan_session:
  assumes "ready s" "relation s name ns"
  shows "\<exists>h t. HeapFileScan_init s name = Some (Inr h, t) \<and>
    (\<forall>off len ty flt op h1. startScan off len ty flt op h = (OK, h1) \<longrightarrow>
       (\<exists>l h' t' u. fetch_all next_of fetch_of (t, h1) = Some (l, FILEEOF, t', h') \<and> HeapFileScan_destroy t' h' = u \<and>
          distinct (map fst l) \<and> set l = {(r, rec). tuples s name ns r = Some rec \<and> matchRec (hs_filter h1) rec} \<and>
          ready u \<and> closed_again s name u \<and> rel_pages u name = rel_pages s name))"
proof -
  obtain h t where S: "HeapFileScan_init s name = Some (Inr h, t)" "hs_filter h = None"
    "\<forall>flt. cursor s name ns (rel_pages s name) flt (t, h\<lparr>hs_filter := flt\<rparr>) (rel_records s name ns flt)"
    by (rule cursor_start [OF assms])
  have "\<exists>l h' t' u. fetch_all next_of fetch_of (t, h1) = Some (l, FILEEOF, t', h') \<and> HeapFileScan_destroy t' h' = u \<and>
      distinct (map fst l) \<and> set l = {(r, rec). tuples s name ns r = Some rec \<and> matchRec (hs_filter h1) rec} \<and>
      ready u \<and> closed_again s name u \<and> rel_pages u name = rel_pages s name"
    if st: "startScan off len ty flt op h = (OK, h1)" for off len ty flt op h1
  proof -
    have "h1 = h\<lparr>hs_filter := hs_filter h1\<rparr>" using st S(2) by (auto simp: startScan_def split: option.splits if_splits)
    then have "cursor s name ns (rel_pages s name) (hs_filter h1) (t, h1) (rel_records s name ns (hs_filter h1))"
      using S(3) by metis
    from sc.reads_all [OF this] obtain t' h' where
      F: "fetch_all next_of fetch_of (t, h1) = Some (rel_records s name ns (hs_filter h1), FILEEOF, t', h')"
      "cursor s name ns (rel_pages s name) (hs_filter h1) (t', h') []" by auto
    note E = cursor_end(1-3) [OF F(2)]
    show ?thesis using F(1) E rel_records_all [OF assms(2)] closed_ready [OF assms(1) E(1)] by blast
  qed
  then show ?thesis using S(1) by blast
qed

text \<open>The first scan of the empty relation.\<close>

theorem scan_session_witness:
  "\<exists>h t h' t' u. HeapFileScan_init demo_rel ''r'' = Some (Inr h, t) \<and>
     fetch_all next_of fetch_of (t, h\<lparr>hs_filter := None\<rparr>) = Some ([], FILEEOF, t', h') \<and> HeapFileScan_destroy t' h' = u \<and>
     rel_pages u ''r'' = rel_pages demo_rel ''r''"
proof -
  from scan_session [OF demo_rel_ok(1,2)] obtain h t where
    H: "HeapFileScan_init demo_rel ''r'' = Some (Inr h, t)"
    "startScan 0 0 STRING None EQ h = (OK, h\<lparr>hs_filter := None\<rparr>) \<longrightarrow>
       (\<exists>l h' t' u. fetch_all next_of fetch_of (t, h\<lparr>hs_filter := None\<rparr>) = Some (l, FILEEOF, t', h') \<and>
          HeapFileScan_destroy t' h' = u \<and> set l = {(r, rec). tuples demo_rel ''r'' [2] r = Some rec \<and> matchRec None rec} \<and>
          rel_pages u ''r'' = rel_pages demo_rel ''r'')" by fastforce
  then show ?thesis unfolding demo_rel_ok(3) by (auto simp: startScan_def)
qed

subsection \<open>Where the code departs from its intention\<close>

lemma page_refuses: "page_inv p \<Longrightarrow> 1000 < length rec \<Longrightarrow> Page_insertRecord p rec = (Inl NOSPACE, p)"
  using page_invD(1-4) [of p] by (simp add: Page_insertRecord_def sizeof_slot_def)

text \<open>
  C19. \<open>insertRecord\<close> lets records of 1001 to 1004 bytes pass its check of the length, although
  the slot they need does not fit on a page with them. Such an insertion fails with \<open>NOSPACE\<close>,
  and every attempt leaves one more empty page at the end of the file.
\<close>

theorem insertRecord_oversize:
  assumes "inserting s name t h ns" "1000 < length rec" "length rec \<le> 1004"
    and "BufMgr_allocPage t (hf_filePtr h) = (Inr (new, fn), t1)"
  shows "\<exists>h' t'. insertRecord t h rec = Some (Inl NOSPACE, h', t') \<and> new \<notin> set ns \<and>
    heap_wf (logical t' (hf_filePtr h)) 1 (ns @ [new]) \<and> recs t' h (ns @ [new]) = recs t h ns"
proof -
  let ?fl = "hf_filePtr h" and ?C = "hf_curPageNo h"
  have I: "hf_ok t h ns" "owned s t h" "?C = last ns" "hf_headerPageNo h = 1" using assms(1) by (simp_all add: inserting_def)
  obtain fh fc where K: "hf_core t h ns fh fc" using I(1) by (rule hf_okE)
  note D = hf_coreD [OF K]
  obtain pg hdr where pg: "logical t ?fl ?C = Some pg" "page_inv pg" and hdr: "logical t ?fl (hf_headerPageNo h) = Some hdr"
    by (rule hf_cur_page [OF K])
  note L = link_page(1,2,8) [OF K I(3) assms(4) pg(1) hdr]
  let ?fresh = "set_nextPage (Page_init (bufPool (bufMgr t1) ! fn) new) (- 1)"
  let ?s3 = "store (store t1 (Frame fn) ?fresh) (Frame fh) (set_hdr_pageCnt (hdr_pageCnt hdr + 1) (set_hdr_lastPage new hdr))"
  let ?s4 = "store ?s3 (Frame fc) (set_nextPage pg new)"
  let ?h = "h\<lparr>hf_hdrDirtyFlag := True, hf_curPage := Frame fn, hf_curPageNo := new\<rparr>"
  obtain st s5 where U: "BufMgr_unPinPage ?s4 ?fl ?C True = (st, s5)" by fastforce
  note R = relink_owned [OF K I(2,3) assms(4) pg(1) hdr U]
  note D5 = hf_coreD [OF R(2)]
  have f: "bufPool (bufMgr s5) ! fn = ?fresh" using holds_logical [OF D5(8)] R(5) by simp
  have "page_inv ?fresh" by (simp add: setNextPage_inv Page_init_inv)
  then have n: "Page_insertRecord ?fresh rec = (Inl NOSPACE, ?fresh)" by (rule page_refuses [OF _ assms(2)])
  have same: "store s5 (Frame fn) ?fresh = s5" using store_same [OF D5(8)] R(5) by simp
  have "insert_new_page t h rec = Some (Inl NOSPACE, ?h, s5)"
    using assms(4) L(1,2) U R(1) n f same D(5,6) by (simp add: insert_new_page_def Page_setNextPage_def Let_def)
  moreover have "insertRecord t h rec = insert_new_page t h rec"
    using page_refuses [OF pg(2) assms(2)] assms(3) D(6,10) pg(1) store_same [OF D(8) pg(1)]
    by (simp add: insertRecord_def PAGESIZE_def DPFIXED_eq)
  ultimately show ?thesis using L(3) D5(4) R(6) I(4) by simp
qed

lemma demo_alloc_page:
  "(case InsertFileScan_init demo_rel ''r'' of
      Some ((_, h), t) \<Rightarrow> (case BufMgr_allocPage t (hf_filePtr h) of (Inr x, _) \<Rightarrow> x | _ \<Rightarrow> (0, 0))
    | _ \<Rightarrow> (0, 0)) = (3, 2)"
  by code_simp

theorem insertRecord_oversize_witness:
  "\<exists>h t h' t'. InsertFileScan_init demo_rel ''r'' = Some ((OK, h), t) \<and>
     insertRecord t h (replicate 1004 1) = Some (Inl NOSPACE, h', t') \<and>
     heap_wf (logical t' (hf_filePtr h)) 1 [2, 3]"
proof -
  obtain h t where S: "InsertFileScan_init demo_rel ''r'' = Some ((OK, h), t)" "inserting demo_rel ''r'' t h [2]"
    by (rule insert_start [OF demo_rel_ok(1,2)])
  obtain r t1 where A: "BufMgr_allocPage t (hf_filePtr h) = (r, t1)" by fastforce
  have "r = Inr (3, 2)" using demo_alloc_page S(1) A by (simp split: sum.splits)
  then show ?thesis
    using insertRecord_oversize [OF S(2), of "replicate 1004 1"] S(1) A by auto
qed

fun compares :: "Operator \<Rightarrow> int \<Rightarrow> int \<Rightarrow> bool" where
  "compares op a b = (case op of LT \<Rightarrow> a < b | LTE \<Rightarrow> a \<le> b | EQ \<Rightarrow> a = b | GTE \<Rightarrow> b \<le> a | GT \<Rightarrow> b < a | NE \<Rightarrow> a \<noteq> b)"

lemma swrap_diff:
  assumes "- 2147483648 \<le> a" "a < 2147483648" "- 2147483648 \<le> b" "b < 2147483648"
  shows "swrap 32 (a - b) = (if - 2147483648 \<le> a - b \<and> a - b < 2147483648 then a - b
    else if a < b then a - b + 4294967296 else a - b - 4294967296)"
proof -
  have "swrap 32 (v + 4294967296) = swrap 32 v" for v
  proof -
    have "(v + 2147483648 + 4294967296) mod 4294967296 = (v + 2147483648) mod 4294967296" by (rule mod_add_self2)
    then show ?thesis by (simp add: swrap_def add.commute)
  qed
  from this [of "a - b"] this [of "a - b - 4294967296"] show ?thesis using assms by auto
qed

text \<open>
  C20. Filters on integers. \<open>matchRec\<close> compares by the sign of a difference computed in \<open>int\<close>.
  As long as the difference fits, a record passes exactly when the comparison holds; when it
  does not fit, the difference wraps and the comparison is made the wrong way round.
\<close>

theorem matchRec_integer:
  fixes f :: scan_filter
  assumes "sf_type f = INTEGER" "0 \<le> sf_offset f" "sf_length f = 4" "sf_offset f + 4 \<le> int (length rec)"
  defines "a \<equiv> swrap 32 (bytes_le (drop (nat (sf_offset f)) rec) 4)" and "b \<equiv> swrap 32 (bytes_le (sf_filter f) 4)"
  shows "matchRec (Some f) rec \<longleftrightarrow>
    (if - (2 ^ 31) \<le> a - b \<and> a - b < 2 ^ 31 then compares (sf_op f) a b else compares (sf_op f) b a)"
proof -
  have r: "- 2147483648 \<le> swrap 32 v \<and> swrap 32 v < 2147483648" for v by (simp add: swrap_def)
  have "- 2147483648 \<le> a" "a < 2147483648" "- 2147483648 \<le> b" "b < 2147483648"
    using r by (simp_all add: a_def b_def)
  moreover have "matchRec (Some f) rec = op_holds (sf_op f) (Some (swrap 32 (a - b)))"
    using assms by (simp add: matchRec_def Let_def)
  ultimately show ?thesis by (cases "sf_op f") (auto simp: swrap_diff)
qed

theorem matchRec_integer_witness:
  "matchRec (Some \<lparr>sf_offset = 0, sf_length = 4, sf_type = INTEGER, sf_filter = [255, 255, 255, 127], sf_op = LT\<rparr>) [3, 0, 0, 0] \<and>
   \<not> matchRec (Some \<lparr>sf_offset = 0, sf_length = 4, sf_type = INTEGER, sf_filter = [255, 255, 255, 127], sf_op = LT\<rparr>) [254, 255, 255, 255]"
proof -
  let ?f = "\<lparr>sf_offset = 0, sf_length = 4, sf_type = INTEGER, sf_filter = [255, 255, 255, 127], sf_op = LT\<rparr>"
  have v: "swrap 32 (bytes_le [3, 0, 0, 0] 4) = 3" "swrap 32 (bytes_le [254, 255, 255, 255] 4) = - 2"
    "swrap 32 (bytes_le [255, 255, 255, 127] 4) = 2147483647" by code_simp+
  show ?thesis
    using matchRec_integer [of ?f "[3, 0, 0, 0]"] matchRec_integer [of ?f "[254, 255, 255, 255]"] v by simp
qed

text \<open>
  C22. \<open>createHeapFile\<close> finds out whether the file exists by opening it, and never closes it
  again. On an existing relation it answers \<open>FILEEXISTS\<close>, but the relation has become one more
  time open, so that a relation nobody used cannot be destroyed afterwards: \<open>destroyHeapFile\<close>
  answers \<open>FILEOPEN\<close>, where before the call it removes the file.
\<close>

theorem createHeapFile_leaves_open:
  assumes "ready s" "relation s name ns"
  shows "\<exists>t a. createHeapFile s name = (FILEEXISTS, t) \<and> opened s name a t \<and>
    destroyHeapFile t name = (FILEOPEN, t) \<and>
    (oft_map (openFiles s) name = None \<longrightarrow> fst (destroyHeapFile s name) = OK)"
proof -
  have R: "db_inv s" "allocator_ok (heap_new s)" "name \<noteq> []" using assms by (simp_all add: ready_def relation_def)
  obtain r t where O: "DB_openFile s name = (r, t)" by fastforce
  from openFile_session [OF R(1,2) assms(2) O] obtain a where a: "r = Inr a" "opened s name a t" by blast
  then have "oft_map (openFiles t) name = Some a" by (auto simp: opened_def split: option.splits)
  then have "destroyHeapFile t name = (FILEOPEN, t)"
    using R(3) by (simp add: destroyHeapFile_def DB_destroyFile_def find_eq)
  moreover have "fst (destroyHeapFile s name) = OK" if n: "oft_map (openFiles s) name = None"
  proof -
    obtain ps where "files s name = Some ps"
      using assms(2) n by (auto simp: relation_def rel_pages_def heap_wf_def split: option.splits)
    then show ?thesis using n R(3) by (simp add: destroyHeapFile_def DB_destroyFile_def find_eq File_destroy_def)
  qed
  ultimately show ?thesis using O a by (auto simp: createHeapFile_def)
qed

theorem createHeapFile_leaves_open_witness:
  "\<exists>t. createHeapFile demo_rel ''r'' = (FILEEXISTS, t) \<and> destroyHeapFile t ''r'' = (FILEOPEN, t) \<and>
     fst (destroyHeapFile demo_rel ''r'') = OK"
proof -
  have "oft_map (openFiles demo_rel) ''r'' = None" by (simp add: demo_rel_def oft_init)
  then show ?thesis using createHeapFile_leaves_open [OF demo_rel_ok(1,2)] by auto
qed

end
