(* ===== verification/Catalog.thy ===== *)
theory Catalog
  imports HeapFile
begin

text \<open>
  The catalogs (\<open>src/src/catalog.h\<close>, \<open>src/src/catalog.C\<close>, \<open>src/src/create.C\<close>,
  \<open>src/src/destroy.C\<close>). The relations \<open>relcat\<close> and \<open>attrcat\<close> are heap files whose records are
  the bytes of \<open>RelDesc\<close> and \<open>AttrDesc\<close> structures; every operation opens a scan of its own on
  them.

  As in \<open>HeapFile\<close>, \<open>None\<close> is undefined behaviour, a scan that does not end, or a failed
  \<open>assert\<close>. An early \<open>return\<close> that does not delete its scan object leaves the pages of the scan
  pinned and the file open; so does the model. Memory allocation does not fail.
\<close>

subsection \<open>Strings in memory\<close>

definition RELCATNAME :: string where "RELCATNAME = ''relcat''"
definition ATTRCATNAME :: string where "ATTRCATNAME = ''attrcat''"
definition MAXNAME :: nat where "MAXNAME = 32"

text \<open>The bytes behind \<open>c_str\<close>, and the string in a \<open>char\<close> array.\<close>

definition c_bytes :: "string \<Rightarrow> byte list" where
  "c_bytes name = map of_char name @ [0]"

definition c_string :: "byte list \<Rightarrow> string" where
  "c_string bs = map (\<lambda>b. char_of (unat b)) (takeWhile (\<lambda>b. b \<noteq> 0) bs)"

text \<open>\<open>strcpy\<close> into an array that has room; the bytes behind the terminator stay.\<close>

definition strcpy :: "byte list \<Rightarrow> string \<Rightarrow> byte list" where
  "strcpy dst src = (let bs = takeWhile (\<lambda>b. b \<noteq> 0) (c_bytes src) @ [0] in bs @ drop (length bs) dst)"

text \<open>
  \<open>memset(&a[strlen(a)], 0, sizeof a - strlen(a))\<close>. Without a terminator in the array \<open>strlen\<close>
  runs out of it.
\<close>

definition zero_fill :: "byte list \<Rightarrow> byte list option" where
  "zero_fill a =
     (let s = takeWhile (\<lambda>b. b \<noteq> 0) a
      in if length s < length a then Some (s @ replicate (length a - length s) 0) else None)"

fun le_bytes :: "nat \<Rightarrow> int \<Rightarrow> byte list" where
  "le_bytes 0 v = []"
| "le_bytes (Suc n) v = word_of_int v # le_bytes n (v div 256)"

definition int_at :: "byte list \<Rightarrow> nat \<Rightarrow> int" where
  "int_at bs i = swrap 32 (bytes_le (drop i bs) 4)"

subsection \<open>Catalog records\<close>

record RelDesc =
  rd_relName :: "byte list"
  rd_attrCnt :: int

record AttrDesc =
  ad_relName :: "byte list"
  ad_attrName :: "byte list"
  ad_attrOffset :: int
  ad_attrType :: int
  ad_attrLen :: int

record attrInfo =
  ai_relName :: "byte list"
  ai_attrName :: "byte list"
  ai_attrType :: int
  ai_attrLen :: int
  ai_attrValue :: "byte list option"

definition sizeof_RelDesc :: nat where "sizeof_RelDesc = 36"
definition sizeof_AttrDesc :: nat where "sizeof_AttrDesc = 76"

definition RelDesc_bytes :: "RelDesc \<Rightarrow> byte list" where
  "RelDesc_bytes d = rd_relName d @ le_bytes 4 (rd_attrCnt d)"

definition AttrDesc_bytes :: "AttrDesc \<Rightarrow> byte list" where
  "AttrDesc_bytes d = ad_relName d @ ad_attrName d @ le_bytes 4 (ad_attrOffset d) @
     le_bytes 4 (ad_attrType d) @ le_bytes 4 (ad_attrLen d)"

text \<open>\<open>memcpy\<close> from a record into a structure, after the assertion on its length.\<close>

definition RelDesc_of :: "byte list \<Rightarrow> RelDesc option" where
  "RelDesc_of bs = (if length bs = sizeof_RelDesc
     then Some \<lparr>rd_relName = take MAXNAME bs, rd_attrCnt = int_at bs 32\<rparr> else None)"

definition AttrDesc_of :: "byte list \<Rightarrow> AttrDesc option" where
  "AttrDesc_of bs = (if length bs = sizeof_AttrDesc
     then Some \<lparr>ad_relName = take MAXNAME bs, ad_attrName = take MAXNAME (drop MAXNAME bs),
       ad_attrOffset = int_at bs 64, ad_attrType = int_at bs 68, ad_attrLen = int_at bs 72\<rparr> else None)"

definition datatype_code :: "Datatype \<Rightarrow> int" where
  "datatype_code t = (case t of STRING \<Rightarrow> 0 | INTEGER \<Rightarrow> 1 | FLOAT \<Rightarrow> 2)"

subsection \<open>Scans on a catalog\<close>

text \<open>A new scan for the records whose first field is the name; the status of a failure.\<close>

definition catalog_scan :: "'a dsys_scheme \<Rightarrow> string \<Rightarrow> string \<Rightarrow>
    ((Status + HeapFileScan) \<times> 'a dsys_scheme) option" where
  "catalog_scan s cat relname =
     (case HeapFileScan_init s cat of
        None \<Rightarrow> None
      | Some (Inl st, s) \<Rightarrow> Some (Inl st, s)
      | Some (Inr h, s) \<Rightarrow>
          (case startScan 0 (int (length relname) + 1) STRING (Some (c_bytes relname)) EQ h of
             (st, h) \<Rightarrow> if st \<noteq> OK then Some (Inl st, HeapFileScan_destroy s h) else Some (Inr h, s)))"

definition RelCatalog_getInfo :: "'a dsys_scheme \<Rightarrow> string \<Rightarrow> ((Status + RelDesc) \<times> 'a dsys_scheme) option" where
  "RelCatalog_getInfo s relname =
     (if relname = [] then Some (Inl BADCATPARM, s)
      else
        (case catalog_scan s RELCATNAME relname of
           None \<Rightarrow> None
         | Some (Inl st, s) \<Rightarrow> Some (Inl st, s)
         | Some (Inr h, s) \<Rightarrow>
             (case scanNext s h of
                None \<Rightarrow> None
              | Some (Inl st, h, s) \<Rightarrow>
                  (case endScan s h of (_, h, s) \<Rightarrow>
                     Some (Inl (if st = FILEEOF then RELNOTFOUND else st), HeapFileScan_destroy s h))
              | Some (Inr _, h, s) \<Rightarrow>
                  (case HeapFileScan_getRecord s h of
                     None \<Rightarrow> None
                   | Some (Inl st) \<Rightarrow> Some (Inl st, s)
                   | Some (Inr rec) \<Rightarrow>
                       (case RelDesc_of rec of
                          None \<Rightarrow> None
                        | Some rd \<Rightarrow>
                            (case endScan s h of (st, h, s) \<Rightarrow>
                               Some (if st = OK then Inr rd else Inl st, HeapFileScan_destroy s h)))))))"

text \<open>A record of a catalog is inserted in a session of its own.\<close>

definition catalog_add :: "'a dsys_scheme \<Rightarrow> string \<Rightarrow> byte list \<Rightarrow> (Status \<times> 'a dsys_scheme) option" where
  "catalog_add s cat rec =
     (case InsertFileScan_init s cat of
        None \<Rightarrow> None
      | Some ((st, h), s) \<Rightarrow>
          if st \<noteq> OK then Some (st, s)
          else
            (case insertRecord s h rec of
               None \<Rightarrow> None
             | Some (r, h, s) \<Rightarrow>
                 Some (case r of Inl st \<Rightarrow> st | Inr _ \<Rightarrow> OK, InsertFileScan_destroy s h)))"

definition RelCatalog_addInfo :: "'a dsys_scheme \<Rightarrow> RelDesc \<Rightarrow> (Status \<times> 'a dsys_scheme) option" where
  "RelCatalog_addInfo s rd =
     (case zero_fill (rd_relName rd) of
        None \<Rightarrow> None
      | Some nm \<Rightarrow> catalog_add s RELCATNAME (RelDesc_bytes (rd\<lparr>rd_relName := nm\<rparr>)))"

text \<open>
  \<open>removeInfo\<close> calls \<open>endScan\<close> on the object it has just deleted. The destructor has left the
  pointer to the current page null, so that the call does nothing as long as the memory of the
  object is as the destructor left it, which is what the model takes.
\<close>

definition RelCatalog_removeInfo :: "'a dsys_scheme \<Rightarrow> string \<Rightarrow> (Status \<times> 'a dsys_scheme) option" where
  "RelCatalog_removeInfo s relname =
     (if relname = [] then Some (BADCATPARM, s)
      else
        (case catalog_scan s RELCATNAME relname of
           None \<Rightarrow> None
         | Some (Inl st, s) \<Rightarrow> Some (st, s)
         | Some (Inr h, s) \<Rightarrow>
             (case scanNext s h of
                None \<Rightarrow> None
              | Some (Inl st, h, s) \<Rightarrow>
                  (let st = (if st = FILEEOF then RELNOTFOUND else st)
                   in Some (if st = NORECORDS then OK else st, HeapFileScan_destroy s h))
              | Some (Inr _, h, s) \<Rightarrow>
                  (case HeapFileScan_deleteRecord s h of
                     None \<Rightarrow> None
                   | Some (st, h, s) \<Rightarrow>
                       Some (if st = NORECORDS then OK else st, HeapFileScan_destroy s h)))))"

subsection \<open>The attribute catalog\<close>

text \<open>
  The loop of \<open>getInfo\<close> and \<open>removeInfo\<close>: the next record of the scan with the given attribute
  name. \<open>Inl\<close> is a return from inside the loop, \<open>Inr\<close> the status the loop ends with and, when
  it is \<open>OK\<close>, the record.
\<close>

partial_function (option) find_attr :: "'a bsys_scheme \<Rightarrow> HeapFileScan \<Rightarrow> string \<Rightarrow>
    ((Status + (Status + AttrDesc)) \<times> HeapFileScan \<times> 'a bsys_scheme) option" where
  "find_attr s h attrName =
     (case scanNext s h of
        None \<Rightarrow> None
      | Some (Inl st, h, s) \<Rightarrow> Some (Inr (Inl st), h, s)
      | Some (Inr _, h, s) \<Rightarrow>
          (case HeapFileScan_getRecord s h of
             None \<Rightarrow> None
           | Some (Inl st) \<Rightarrow> Some (Inl st, h, s)
           | Some (Inr rec) \<Rightarrow>
               (case AttrDesc_of rec of
                  None \<Rightarrow> None
                | Some ad \<Rightarrow>
                    if c_string (ad_attrName ad) = attrName then Some (Inr (Inr ad), h, s)
                    else find_attr s h attrName)))"

definition AttrCatalog_getInfo :: "'a dsys_scheme \<Rightarrow> string \<Rightarrow> string \<Rightarrow>
    ((Status + AttrDesc) \<times> 'a dsys_scheme) option" where
  "AttrCatalog_getInfo s relname attrName =
     (if relname = [] \<or> attrName = [] then Some (Inl BADCATPARM, s)
      else
        (case catalog_scan s ATTRCATNAME relname of
           None \<Rightarrow> None
         | Some (Inl st, s) \<Rightarrow> Some (Inl st, s)
         | Some (Inr h, s) \<Rightarrow>
             (case find_attr s h attrName of
                None \<Rightarrow> None
              | Some (Inl st, h, s) \<Rightarrow> Some (Inl st, s)
              | Some (Inr (Inl st), h, s) \<Rightarrow>
                  (case endScan s h of (_, h, s) \<Rightarrow>
                     Some (Inl (if st = FILEEOF then ATTRNOTFOUND else st), HeapFileScan_destroy s h))
              | Some (Inr (Inr ad), h, s) \<Rightarrow>
                  (case endScan s h of (st, h, s) \<Rightarrow>
                     Some (if st = OK then Inr ad else Inl st, HeapFileScan_destroy s h)))))"

definition AttrCatalog_addInfo :: "'a dsys_scheme \<Rightarrow> AttrDesc \<Rightarrow> (Status \<times> 'a dsys_scheme) option" where
  "AttrCatalog_addInfo s ad =
     (case (zero_fill (ad_relName ad), zero_fill (ad_attrName ad)) of
        (Some rn, Some an) \<Rightarrow>
          catalog_add s ATTRCATNAME (AttrDesc_bytes (ad\<lparr>ad_relName := rn, ad_attrName := an\<rparr>))
      | _ \<Rightarrow> None)"

definition AttrCatalog_removeInfo :: "'a dsys_scheme \<Rightarrow> string \<Rightarrow> string \<Rightarrow> (Status \<times> 'a dsys_scheme) option" where
  "AttrCatalog_removeInfo s relname attrName =
     (if relname = [] \<or> attrName = [] then Some (BADCATPARM, s)
      else
        (case catalog_scan s ATTRCATNAME relname of
           None \<Rightarrow> None
         | Some (Inl st, s) \<Rightarrow> Some (st, s)
         | Some (Inr h, s) \<Rightarrow>
             (case find_attr s h attrName of
                None \<Rightarrow> None
              | Some (Inl st, h, s) \<Rightarrow> Some (st, s)
              | Some (Inr (Inl st), h, s) \<Rightarrow>
                  (case endScan s h of (_, h, s) \<Rightarrow>
                    (let st = (if st = FILEEOF then RELNOTFOUND else st)
                     in Some (if st = NORECORDS then OK else st, HeapFileScan_destroy s h)))
              | Some (Inr (Inr _), h, s) \<Rightarrow>
                  (case HeapFileScan_deleteRecord s h of
                     None \<Rightarrow> None
                   | Some (st, h, s) \<Rightarrow>
                       (case endScan s h of (_, h, s) \<Rightarrow>
                          Some (if st = NORECORDS then OK else st, HeapFileScan_destroy s h))))))"

text \<open>The loop of \<open>getRelInfo\<close>: all attributes of a relation, in the order of the scan.\<close>

partial_function (option) collect_attrs :: "'a bsys_scheme \<Rightarrow> HeapFileScan \<Rightarrow> AttrDesc list \<Rightarrow>
    ((Status + (Status \<times> AttrDesc list)) \<times> HeapFileScan \<times> 'a bsys_scheme) option" where
  "collect_attrs s h attrs =
     (case scanNext s h of
        None \<Rightarrow> None
      | Some (Inl st, h, s) \<Rightarrow> Some (Inr (st, attrs), h, s)
      | Some (Inr _, h, s) \<Rightarrow>
          (case HeapFileScan_getRecord s h of
             None \<Rightarrow> None
           | Some (Inl st) \<Rightarrow> Some (Inl st, h, s)
           | Some (Inr rec) \<Rightarrow>
               (case AttrDesc_of rec of
                  None \<Rightarrow> None
                | Some ad \<Rightarrow> collect_attrs s h (attrs @ [ad]))))"

definition AttrCatalog_getRelInfo :: "'a dsys_scheme \<Rightarrow> string \<Rightarrow>
    ((Status + AttrDesc list) \<times> 'a dsys_scheme) option" where
  "AttrCatalog_getRelInfo s relname =
     (if relname = [] then Some (Inl BADCATPARM, s)
      else
        (case catalog_scan s ATTRCATNAME relname of
           None \<Rightarrow> None
         | Some (Inl st, s) \<Rightarrow> Some (Inl st, s)
         | Some (Inr h, s) \<Rightarrow>
             (case collect_attrs s h [] of
                None \<Rightarrow> None
              | Some (Inl st, h, s) \<Rightarrow> Some (Inl st, s)
              | Some (Inr (st, attrs), h, s) \<Rightarrow>
                  (let st = (if st = FILEEOF then if attrs = [] then RELNOTFOUND else OK else st)
                   in case endScan s h of (nextStatus, h, s) \<Rightarrow>
                        (let st = (if st = OK then nextStatus else st)
                         in Some (if st = OK then Inr attrs else Inl st, HeapFileScan_destroy s h))))))"

subsection \<open>Creating a relation\<close>

text \<open>The sum of the attribute lengths is computed in \<open>unsigned int\<close>.\<close>

definition tupleWidth :: "attrInfo list \<Rightarrow> int" where
  "tupleWidth as = sum_list (map ai_attrLen as) mod 2 ^ 32"

definition add_attr :: "'a dsys_scheme \<Rightarrow> AttrDesc \<Rightarrow> int \<Rightarrow> attrInfo \<Rightarrow>
    ((Status \<times> AttrDesc \<times> int) \<times> 'a dsys_scheme) option" where
  "add_attr s ad off a =
     (if MAXNAME \<le> length (c_string (ai_attrName a)) then Some ((NAMETOOLONG, ad, off), s)
      else
        (let ad = ad\<lparr>ad_attrName := strcpy (ad_attrName ad) (c_string (ai_attrName a)), ad_attrOffset := off,
                     ad_attrType := ai_attrType a, ad_attrLen := ai_attrLen a\<rparr>
         in case AttrCatalog_addInfo s ad of
              None \<Rightarrow> None
            | Some (st, s) \<Rightarrow> Some ((st, ad, swrap 32 (off + ad_attrLen ad)), s)))"

fun add_attrs :: "'a dsys_scheme \<Rightarrow> AttrDesc \<Rightarrow> int \<Rightarrow> attrInfo list \<Rightarrow> (Status \<times> 'a dsys_scheme) option" where
  "add_attrs s ad off [] = Some (OK, s)"
| "add_attrs s ad off (a # as) =
     (case add_attr s ad off a of
        None \<Rightarrow> None
      | Some ((st, ad, off), s) \<Rightarrow> if st \<noteq> OK then Some (st, s) else add_attrs s ad off as)"

text \<open>
  \<open>attrList\<close> stands for the first \<open>attrCnt\<close> elements of the array. The structures on the stack
  are filled before they are used, so that their first contents do not matter.
\<close>

definition createRel :: "'a dsys_scheme \<Rightarrow> string \<Rightarrow> attrInfo list \<Rightarrow> (Status \<times> 'a dsys_scheme) option" where
  "createRel s relname attrList =
     (if relname = [] \<or> attrList = [] then Some (BADCATPARM, s)
      else if MAXNAME \<le> length relname then Some (NAMETOOLONG, s)
      else
        (case RelCatalog_getInfo s relname of
           None \<Rightarrow> None
         | Some (Inr _, s) \<Rightarrow> Some (RELEXISTS, s)
         | Some (Inl st, s) \<Rightarrow>
             if st \<noteq> RELNOTFOUND then Some (st, s)
             else if \<not> distinct (map (\<lambda>a. c_string (ai_attrName a)) attrList) then Some (DUPLATTR, s)
             else if tupleWidth attrList > PAGESIZE then Some (ATTRTOOLONG, s)
             else
               (let name = strcpy (replicate MAXNAME 0) relname
                in case RelCatalog_addInfo s \<lparr>rd_relName = name, rd_attrCnt = int (length attrList)\<rparr> of
                     None \<Rightarrow> None
                   | Some (st, s) \<Rightarrow>
                       if st \<noteq> OK then Some (st, s)
                       else
                         (case add_attrs s \<lparr>ad_relName = name, ad_attrName = replicate MAXNAME 0,
                              ad_attrOffset = 0, ad_attrType = 0, ad_attrLen = 0\<rparr> 0 attrList of
                            None \<Rightarrow> None
                          | Some (st, s) \<Rightarrow>
                              if st \<noteq> OK then Some (st, s) else Some (createHeapFile s relname)))))"

subsection \<open>Destroying a relation\<close>

fun remove_attrs :: "'a dsys_scheme \<Rightarrow> string \<Rightarrow> AttrDesc list \<Rightarrow> (Status \<times> 'a dsys_scheme) option" where
  "remove_attrs s relname [] = Some (OK, s)"
| "remove_attrs s relname (a # as) =
     (case AttrCatalog_removeInfo s relname (c_string (ad_attrName a)) of
        None \<Rightarrow> None
      | Some (st, s) \<Rightarrow> if st \<noteq> OK then Some (st, s) else remove_attrs s relname as)"

definition dropRelation :: "'a dsys_scheme \<Rightarrow> string \<Rightarrow> (Status \<times> 'a dsys_scheme) option" where
  "dropRelation s relname =
     (if relname = [] then Some (BADCATPARM, s)
      else
        (case AttrCatalog_getRelInfo s relname of
           None \<Rightarrow> None
         | Some (Inl st, s) \<Rightarrow> Some (st, s)
         | Some (Inr attrs, s) \<Rightarrow> remove_attrs s relname attrs))"

definition destroyRel :: "'a dsys_scheme \<Rightarrow> string \<Rightarrow> (Status \<times> 'a dsys_scheme) option" where
  "destroyRel s relname =
     (if relname = [] \<or> relname = RELCATNAME \<or> relname = ATTRCATNAME then Some (BADCATPARM, s)
      else
        (case dropRelation s relname of
           None \<Rightarrow> None
         | Some (st, s) \<Rightarrow>
             if st \<noteq> OK then Some (st, s)
             else
               (case RelCatalog_removeInfo s relname of
                  None \<Rightarrow> None
                | Some (st, s) \<Rightarrow> if st \<noteq> OK then Some (st, s) else Some (destroyHeapFile s relname))))"

end
