(* ===== verification/Catalog_Ops.thy ===== *)
theory Catalog_Ops
  imports Catalog Heap_Client "HOL-Library.Multiset"
begin

text \<open>
  The building blocks of the catalog operations: a scan for the records of one relation and
  the insertion of one record, each in a session of its own on a catalog that may be open
  already. What the filter of the catalogs compares is the string in the first field.
\<close>

subsection \<open>Names\<close>

text \<open>A relation or attribute name: not empty, without a zero character, and shorter than its field.\<close>

definition plain :: "string \<Rightarrow> bool" where
  "plain n \<longleftrightarrow> n \<noteq> [] \<and> CHR 0x00 \<notin> set n"

lemma unat_of_char: "unat (of_char c :: byte) = of_char c"
proof -
  have "(of_char c :: byte) = word_of_nat (of_char c)" by (simp add: of_nat_of_char)
  then have "unat (of_char c :: byte) = of_char c mod 2 ^ LENGTH(8)" by (simp only: unat_of_nat)
  then show ?thesis by simp
qed

lemma of_char_inject: "(of_char a :: byte) = of_char b \<longleftrightarrow> a = b"
  by (metis unat_of_char char_of_char)

lemma of_char_zero: "(of_char c :: byte) = 0 \<longleftrightarrow> c = CHR 0x00"
  using of_char_inject [of c "CHR 0x00"] by simp

lemma c_string_simps [simp]:
  "c_string [] = []" "c_string (b # bs) = (if b = 0 then [] else char_of (unat b) # c_string bs)"
  by (simp_all add: c_string_def)

lemma char_of_byte: "char_of (unat (b :: byte)) = x \<longleftrightarrow> b = of_char x"
proof
  assume "char_of (unat b) = x"
  then have "of_char x = unat b mod 256" using of_char_of [of "unat b"] by simp
  then have "unat (of_char x :: byte) = unat b" using unsigned_less [of b, where ?'a = nat] by (simp add: unat_of_char)
  then show "b = of_char x" by (metis unsigned_word_eqI)
qed (simp add: unat_of_char)

lemma c_string_append: "CHR 0x00 \<notin> set n \<Longrightarrow> c_string (map of_char n @ bs) = n @ c_string bs"
  by (induction n) (auto simp: of_char_zero unat_of_char)

text \<open>The comparison of the catalog scans.\<close>

lemma strncmp_Cons:
  "strncmp (Suc n) (a # as) (b # bs) = (if a \<noteq> b then uint a - uint b else if a = 0 then 0 else strncmp n as bs)"
  by (auto simp: Let_def uint_0_iff unsigned_word_eqI)

lemma strncmp_Cons_0: "strncmp (Suc n) (a # as) (b # bs) = 0 \<longleftrightarrow> a = b \<and> (a = 0 \<or> strncmp n as bs = 0)"
  unfolding strncmp_Cons by (simp add: unsigned_word_eqI word_uint_eq_iff)

lemma strncmp_name:
  "CHR 0x00 \<notin> set n \<Longrightarrow> strncmp (Suc (length n)) a (c_bytes n) = 0 \<longleftrightarrow> c_string a = n"
proof (induction n arbitrary: a)
  case Nil
  then show ?case by (cases a) (auto simp: c_bytes_def Let_def uint_0_iff)
next
  case (Cons x n)
  have e: "c_bytes (x # n) = of_char x # c_bytes n" by (simp add: c_bytes_def)
  have nz: "(of_char x :: byte) \<noteq> 0" using Cons.prems by (auto simp: of_char_zero)
  show ?case
  proof (cases a)
    case Nil
    then show ?thesis using nz by (simp add: e Let_def uint_0_iff)
  next
    case (Cons b bs)
    then show ?thesis
      using Cons.IH [of bs] Cons.prems nz by (auto simp: e strncmp_Cons_0 char_of_byte simp del: strncmp.simps)
  qed
qed

text \<open>The filter of a scan for a name, and what it accepts.\<close>

definition name_filter :: "string \<Rightarrow> scan_filter option" where
  "name_filter n = Some \<lparr>sf_offset = 0, sf_length = int (length n) + 1, sf_type = STRING, sf_filter = c_bytes n, sf_op = EQ\<rparr>"

lemma name_filter_match:
  assumes "CHR 0x00 \<notin> set n" "length n < length rec"
  shows "matchRec (name_filter n) rec \<longleftrightarrow> c_string rec = n"
proof -
  have "nat (int (length n) + 1) = Suc (length n)" by simp
  then show ?thesis
    using assms strncmp_name [OF assms(1), of rec] by (simp add: matchRec_def name_filter_def Let_def del: strncmp.simps)
qed

lemma c_string_take:
  assumes "length n < k" "k \<le> length bs"
  shows "c_string (take k bs) = n \<longleftrightarrow> c_string bs = n"
  using assms
proof (induction bs arbitrary: n k)
  case (Cons b bs)
  then obtain k' where k: "k = Suc k'" by (cases k) auto
  show ?case
  proof (cases n)
    case Nil
    then show ?thesis by (simp add: k)
  next
    case (Cons x n')
    then show ?thesis using Cons.IH [of n' k'] Cons.prems k by auto
  qed
qed simp

subsection \<open>Scans on a catalog\<close>

lemma catalog_scan_ok:
  assumes "ready s" "relation s cat ns"
  obtains h t where "catalog_scan s cat n = Some (Inr h, t)"
    "cursor s cat ns (rel_pages s cat) (name_filter n) (t, h) (rel_records s cat ns (name_filter n))"
proof -
  obtain h t where S: "HeapFileScan_init s cat = Some (Inr h, t)" "hs_filter h = None"
    "\<forall>flt. cursor s cat ns (rel_pages s cat) flt (t, h\<lparr>hs_filter := flt\<rparr>) (rel_records s cat ns flt)"
    by (rule cursor_start [OF assms])
  have "startScan 0 (int (length n) + 1) STRING (Some (c_bytes n)) EQ h = (OK, h\<lparr>hs_filter := name_filter n\<rparr>)"
    by (simp add: startScan_def name_filter_def)
  then show ?thesis using that [of "h\<lparr>hs_filter := name_filter n\<rparr>" t] S by (simp add: catalog_scan_def)
qed

text \<open>The system after an operation that read a catalog.\<close>

definition undisturbed :: "'a dsys_scheme \<Rightarrow> string \<Rightarrow> int list \<Rightarrow> 'a dsys_scheme \<Rightarrow> bool" where
  "undisturbed s cat ns u \<longleftrightarrow> ready u \<and> closed_again s cat u \<and> relation u cat ns \<and> rel_pages u cat = rel_pages s cat"

lemma cursor_undisturbed:
  assumes "ready s" "cursor s cat ns (rel_pages s cat) flt (t, h) rest"
  shows "undisturbed s cat ns (HeapFileScan_destroy t h)"
    "endScan t h = (st, h', t') \<Longrightarrow> st = OK \<and> undisturbed s cat ns (HeapFileScan_destroy t' h')"
  using cursor_end [OF assms(2)] closed_ready [OF assms(1)] by (auto simp: undisturbed_def)

subsection \<open>The entries of a relation\<close>

text \<open>Its records in the order of a scan; insertion and deletion are seen on the multiset.\<close>

definition entries :: "'a dsys_scheme \<Rightarrow> string \<Rightarrow> int list \<Rightarrow> byte list list" where
  "entries s name ns = map snd (rel_records s name ns None)"

lemma entries_set: "relation s name ns \<Longrightarrow> set (entries s name ns) = ran (tuples s name ns)"
  using rel_records_all(1) [of s name ns None] by (force simp: entries_def ran_def matchRec_def)

lemma entries_filter:
  assumes "CHR 0x00 \<notin> set n" "\<forall>b \<in> set (entries s name ns). length n < length b"
  shows "map snd (rel_records s name ns (name_filter n)) = filter (\<lambda>b. c_string b = n) (entries s name ns)"
proof -
  let ?g = "\<lambda>r. the (tuples s name ns r)" and ?rids = "heap_scan (rel_pages s name) ns"
  have e: "entries s name ns = map ?g ?rids" by (simp add: entries_def scan_records_def matchRec_def comp_def)
  then have "matchRec (name_filter n) (?g r) \<longleftrightarrow> c_string (?g r) = n" if "r \<in> set ?rids" for r
    using that assms by (intro name_filter_match) auto
  then have "filter (\<lambda>r. matchRec (name_filter n) (?g r)) ?rids = filter (\<lambda>r. c_string (?g r) = n) ?rids"
    by (intro filter_cong) auto
  then show ?thesis by (simp add: e scan_records_def comp_def filter_map)
qed

lemma entries_mset:
  assumes "relation s name ns"
  shows "mset (entries s name ns) = image_mset snd (mset_set (Map.graph (tuples s name ns)))"
    "finite (Map.graph (tuples s name ns))"
proof -
  note A = rel_records_all [OF assms, of None]
  have g: "set (rel_records s name ns None) = Map.graph (tuples s name ns)"
    using A(1) by (auto simp: Map.graph_def matchRec_def)
  show "finite (Map.graph (tuples s name ns))" using g by (metis List.finite_set)
  have "distinct (rel_records s name ns None)" using A(2) by (simp add: distinct_map)
  then have "mset (rel_records s name ns None) = mset_set (Map.graph (tuples s name ns))"
    using g mset_set_set by metis
  then show "mset (entries s name ns) = image_mset snd (mset_set (Map.graph (tuples s name ns)))"
    by (simp add: entries_def)
qed

lemma entries_insert:
  assumes "relation s name ns" "relation u name ns'" "tuples s name ns r = None"
    and "tuples u name ns' = (tuples s name ns)(r \<mapsto> rec)"
  shows "mset (entries u name ns') = add_mset rec (mset (entries s name ns))"
proof -
  have "Map.graph ((tuples s name ns)(r \<mapsto> rec)) = insert (r, rec) (Map.graph (tuples s name ns))"
    "(r, rec) \<notin> Map.graph (tuples s name ns)" using assms(3) by (auto simp: Map.graph_def split: if_splits)
  then show ?thesis using entries_mset [OF assms(1)] entries_mset(1) [OF assms(2)] assms(4) by simp
qed

lemma entries_delete:
  assumes "relation s name ns" "relation u name ns" "tuples s name ns r = Some rec"
    and "tuples u name ns = (tuples s name ns)(r := None)"
  shows "mset (entries s name ns) = add_mset rec (mset (entries u name ns))"
proof -
  have "Map.graph (tuples s name ns) = insert (r, rec) (Map.graph ((tuples s name ns)(r := None)))"
    "(r, rec) \<notin> Map.graph ((tuples s name ns)(r := None))" using assms(3) by (auto simp: Map.graph_def split: if_splits)
  then show ?thesis using entries_mset [OF assms(1)] entries_mset [OF assms(2)] assms(4) by simp
qed

subsection \<open>Adding a record\<close>

lemma catalog_add_ok:
  assumes "ready s" "relation s cat ns" "rec \<noteq> []" "length rec \<le> 1000"
  shows "\<exists>st u ns'. catalog_add s cat rec = Some (st, u) \<and> ready u \<and> closed_again s cat u \<and> relation u cat ns' \<and>
    mset (entries u cat ns') = (if st = OK then add_mset rec (mset (entries s cat ns)) else mset (entries s cat ns))"
proof -
  obtain h t r h' t' ns' where I: "InsertFileScan_init s cat = Some ((OK, h), t)" "insertRecord t h rec = Some (r, h', t')"
    "one_inserted s t h cat ns rec r (InsertFileScan_destroy t' h') ns'" by (rule insert_one [OF assms])
  let ?u = "InsertFileScan_destroy t' h'"
  have U: "ready ?u" "closed_again s cat ?u" "relation ?u cat ns'" using I(3) by (simp_all add: one_inserted_def)
  have run: "catalog_add s cat rec = Some (case r of Inl st \<Rightarrow> st | Inr _ \<Rightarrow> OK, ?u)"
    using I(1,2) by (simp add: catalog_add_def)
  have "mset (entries ?u cat ns') = (if (case r of Inl st \<Rightarrow> st | Inr _ \<Rightarrow> OK) = OK
      then add_mset rec (mset (entries s cat ns)) else mset (entries s cat ns))"
  proof (cases r)
    case (Inl e)
    then show ?thesis
      using I(3) entries_mset(1) [OF assms(2)] entries_mset(1) [OF U(3)] by (simp add: one_inserted_def)
  next
    case (Inr rid)
    then show ?thesis using I(3) entries_insert [OF assms(2) U(3), of rid rec] by (simp add: one_inserted_def)
  qed
  then show ?thesis using run U by blast
qed

end
