(* ===== verification/Catalog_Rel.thy ===== *)
theory Catalog_Rel
  imports Catalog_Ops
begin

text \<open>
  The records of the catalogs as bytes, and the relation catalog: \<open>getInfo\<close>, \<open>addInfo\<close> and
  \<open>removeInfo\<close> are lookup, insertion and removal on the multiset of its descriptions.
\<close>

subsection \<open>Structures in memory\<close>

lemma bytes_le_Suc: "bytes_le (b # bs) (Suc n) = uint b + 256 * bytes_le bs n"
proof -
  have shift: "get_le f (a + 1) n = get_le g a n" if "\<And>i. a \<le> i \<Longrightarrow> f (i + 1) = g i" for f g a
    using that
  proof (induction n arbitrary: a)
    case (Suc n)
    from Suc.IH [of "a + 1"] Suc.prems show ?case by simp
  qed simp
  have "get_le (\<lambda>i. if 0 \<le> i \<and> nat i < length (b # bs) then (b # bs) ! nat i else 0) (0 + 1) n
    = get_le (\<lambda>i. if 0 \<le> i \<and> nat i < length bs then bs ! nat i else 0) 0 n"
    by (rule shift) (auto simp: nat_add_distrib)
  then show ?thesis by (simp add: bytes_le_def)
qed

lemma bytes_le_le_bytes: "bytes_le (le_bytes n v @ bs) n = v mod 256 ^ n"
proof (induction n arbitrary: v)
  case 0
  then show ?case by (simp add: bytes_le_def)
next
  case (Suc n)
  have "uint (word_of_int v :: byte) = v mod 256" by (simp add: uint_word_of_int take_bit_eq_mod)
  moreover have "v mod 256 + 256 * (v div 256 mod 256 ^ n) = v mod 256 ^ Suc n"
    using zmod_zmult2_eq [of "256 ^ n" v 256] by simp
  ultimately show ?case by (simp add: bytes_le_Suc Suc.IH)
qed

lemma length_le_bytes [simp]: "length (le_bytes n v) = n"
  by (induction n arbitrary: v) auto

lemma int_at_bytes:
  assumes "- 2147483648 \<le> v" "v < 2147483648" "i = length xs"
  shows "int_at (xs @ le_bytes 4 v @ ys) i = v"
proof -
  have "bytes_le (le_bytes 4 v @ ys) 4 = v mod 4294967296" using bytes_le_le_bytes [of 4 v ys] by simp
  then have "int_at (xs @ le_bytes 4 v @ ys) i = swrap 32 (v mod 2 ^ 32)" by (simp add: int_at_def assms(3))
  also have "\<dots> = swrap 32 v" by (simp add: swrap_def mod_simps)
  finally show ?thesis using assms by simp
qed

definition RelDesc_wf :: "RelDesc \<Rightarrow> bool" where
  "RelDesc_wf d \<longleftrightarrow> length (rd_relName d) = MAXNAME \<and> - 2147483648 \<le> rd_attrCnt d \<and> rd_attrCnt d < 2147483648"

definition AttrDesc_wf :: "AttrDesc \<Rightarrow> bool" where
  "AttrDesc_wf d \<longleftrightarrow> length (ad_relName d) = MAXNAME \<and> length (ad_attrName d) = MAXNAME \<and>
     (\<forall>v \<in> {ad_attrOffset d, ad_attrType d, ad_attrLen d}. - 2147483648 \<le> v \<and> v < 2147483648)"

lemma RelDesc_round: "RelDesc_wf d \<Longrightarrow> RelDesc_of (RelDesc_bytes d) = Some d"
  using int_at_bytes [of "rd_attrCnt d" 32 "rd_relName d" "[]"]
  by (simp add: RelDesc_wf_def RelDesc_of_def RelDesc_bytes_def sizeof_RelDesc_def MAXNAME_def)

lemma AttrDesc_round:
  assumes "AttrDesc_wf d"
  shows "AttrDesc_of (AttrDesc_bytes d) = Some d"
proof -
  have L: "length (ad_relName d) = 32" "length (ad_attrName d) = 32" using assms by (simp_all add: AttrDesc_wf_def MAXNAME_def)
  have B: "\<And>v. v \<in> {ad_attrOffset d, ad_attrType d, ad_attrLen d} \<Longrightarrow> - 2147483648 \<le> v \<and> v < 2147483648"
    using assms by (auto simp: AttrDesc_wf_def)
  have "int_at (AttrDesc_bytes d) 64 = ad_attrOffset d" "int_at (AttrDesc_bytes d) 68 = ad_attrType d"
    "int_at (AttrDesc_bytes d) 72 = ad_attrLen d"
    using int_at_bytes [of "ad_attrOffset d" 64 "ad_relName d @ ad_attrName d" "le_bytes 4 (ad_attrType d) @ le_bytes 4 (ad_attrLen d)"]
      int_at_bytes [of "ad_attrType d" 68 "ad_relName d @ ad_attrName d @ le_bytes 4 (ad_attrOffset d)" "le_bytes 4 (ad_attrLen d)"]
      int_at_bytes [of "ad_attrLen d" 72 "ad_relName d @ ad_attrName d @ le_bytes 4 (ad_attrOffset d) @ le_bytes 4 (ad_attrType d)" "[]"]
      L B by (simp_all add: AttrDesc_bytes_def)
  moreover have "length (AttrDesc_bytes d) = 76" "take 32 (AttrDesc_bytes d) = ad_relName d"
    "take 32 (drop 32 (AttrDesc_bytes d)) = ad_attrName d" using L by (simp_all add: AttrDesc_bytes_def)
  ultimately show ?thesis by (simp add: AttrDesc_of_def sizeof_AttrDesc_def MAXNAME_def)
qed

text \<open>What \<open>addInfo\<close> does to the name fields: the string stays, the rest is zero.\<close>

lemma zero_fill_string:
  assumes "length (c_string a) < length a"
  obtains b where "zero_fill a = Some b" "length b = length a" "c_string b = c_string a"
proof -
  let ?s = "takeWhile (\<lambda>b. b \<noteq> 0) a"
  have l: "length ?s < length a" using assms by (simp add: c_string_def)
  have nz: "\<forall>x \<in> set ?s. x \<noteq> 0" by (auto dest: set_takeWhileD)
  have "takeWhile (\<lambda>b. b \<noteq> 0) (?s @ replicate (length a - length ?s) 0) = ?s"
  proof -
    have "replicate (length a - length ?s) (0 :: byte) = 0 # replicate (length a - length ?s - 1) 0"
      using l by (metis Suc_diff_1 replicate_Suc zero_less_diff)
    then show ?thesis using nz by (simp add: takeWhile_append2)
  qed
  then have "c_string (?s @ replicate (length a - length ?s) 0) = c_string a" by (simp only: c_string_def)
  then show ?thesis using that [of "?s @ replicate (length a - length ?s) 0"] l by (simp add: zero_fill_def Let_def)
qed

subsection \<open>The relation catalog\<close>

text \<open>
  A catalog in order: a relation all of whose records have the size of its structure. The
  descriptions of the relation catalog, in the order of a scan.
\<close>

definition catalog_ok :: "'a dsys_scheme \<Rightarrow> string \<Rightarrow> nat \<Rightarrow> int list \<Rightarrow> bool" where
  "catalog_ok s cat sz ns \<longleftrightarrow> relation s cat ns \<and> (\<forall>b \<in> set (entries s cat ns). length b = sz)"

definition rel_descs :: "'a dsys_scheme \<Rightarrow> int list \<Rightarrow> RelDesc list" where
  "rel_descs s ns = map (\<lambda>b. the (RelDesc_of b)) (entries s RELCATNAME ns)"

abbreviation rd_name :: "RelDesc \<Rightarrow> string" where "rd_name d \<equiv> c_string (rd_relName d)"

text \<open>What a scan for a name still has to deliver at its beginning.\<close>

lemma catalog_hits:
  assumes "catalog_ok s cat sz ns" "plain n" "length n < MAXNAME" "MAXNAME \<le> sz"
  shows "map snd (rel_records s cat ns (name_filter n)) = filter (\<lambda>b. c_string (take MAXNAME b) = n) (entries s cat ns)"
    "snd ` set (rel_records s cat ns (name_filter n)) \<subseteq> {b. length b = sz}"
proof -
  have e: "map snd (rel_records s cat ns (name_filter n)) = filter (\<lambda>b. c_string b = n) (entries s cat ns)"
    using assms by (intro entries_filter) (auto simp: plain_def catalog_ok_def)
  also have "\<dots> = filter (\<lambda>b. c_string (take MAXNAME b) = n) (entries s cat ns)"
    using assms(1,3,4) by (intro filter_cong) (auto simp: catalog_ok_def c_string_take)
  finally show "map snd (rel_records s cat ns (name_filter n)) = filter (\<lambda>b. c_string (take MAXNAME b) = n) (entries s cat ns)" .
  have "set (map snd (rel_records s cat ns (name_filter n))) \<subseteq> set (entries s cat ns)" by (simp add: e)
  then show "snd ` set (rel_records s cat ns (name_filter n)) \<subseteq> {b. length b = sz}"
    using assms(1) by (auto simp: catalog_ok_def)
qed

lemma rel_descs_hits:
  assumes "catalog_ok s RELCATNAME sizeof_RelDesc ns" "plain n" "length n < MAXNAME"
  shows "map (\<lambda>x. the (RelDesc_of (snd x))) (rel_records s RELCATNAME ns (name_filter n)) =
    filter (\<lambda>d. rd_name d = n) (rel_descs s ns)"
proof -
  let ?D = "\<lambda>b. the (RelDesc_of b)"
  have "rd_relName (?D b) = take MAXNAME b" if "b \<in> set (entries s RELCATNAME ns)" for b
    using that assms(1) by (simp add: catalog_ok_def RelDesc_of_def)
  then have "filter (\<lambda>d. rd_name d = n) (rel_descs s ns) =
      map ?D (filter (\<lambda>b. c_string (take MAXNAME b) = n) (entries s RELCATNAME ns))"
    unfolding rel_descs_def filter_map comp_def by (intro arg_cong [where f = "map ?D"] filter_cong) auto
  also have "\<dots> = map ?D (map snd (rel_records s RELCATNAME ns (name_filter n)))"
    using catalog_hits(1) [OF assms] by (simp add: sizeof_RelDesc_def MAXNAME_def)
  finally show ?thesis by simp
qed

lemma RelCatalog_getInfo_ok:
  assumes "ready s" "catalog_ok s RELCATNAME sizeof_RelDesc ns" "plain n" "length n < MAXNAME"
  shows "\<exists>u. RelCatalog_getInfo s n = Some (case filter (\<lambda>d. rd_name d = n) (rel_descs s ns) of
      [] \<Rightarrow> Inl RELNOTFOUND | d # _ \<Rightarrow> Inr d, u) \<and> undisturbed s RELCATNAME ns u"
proof -
  have R: "relation s RELCATNAME ns" "n \<noteq> []" using assms(2,3) by (simp_all add: catalog_ok_def plain_def)
  let ?m = "rel_pages s RELCATNAME" and ?flt = "name_filter n" and ?l = "rel_records s RELCATNAME ns (name_filter n)"
  obtain h t where S: "catalog_scan s RELCATNAME n = Some (Inr h, t)" "cursor s RELCATNAME ns ?m ?flt (t, h) ?l"
    by (rule catalog_scan_ok [OF assms(1) R(1)])
  note H = rel_descs_hits [OF assms(2-4)]
  from cursor_next [OF S(2)] obtain h1 t1 where N:
    "case ?l of
        [] \<Rightarrow> scanNext t h = Some (Inl FILEEOF, h1, t1) \<and> cursor s RELCATNAME ns ?m ?flt (t1, h1) []
      | x # xs \<Rightarrow> scanNext t h = Some (Inr (fst x), h1, t1) \<and> HeapFileScan_getRecord t1 h1 = Some (Inr (snd x)) \<and>
          cursor s RELCATNAME ns ?m ?flt (t1, h1) xs \<and> current ns (t1, h1) x" by blast
  obtain st h2 t2 where E: "endScan t1 h1 = (st, h2, t2)" using prod_cases3 by blast
  show ?thesis
  proof (cases ?l)
    case Nil
    then have "cursor s RELCATNAME ns ?m ?flt (t1, h1) []" "scanNext t h = Some (Inl FILEEOF, h1, t1)" using N by simp_all
    then show ?thesis
      using S(1) R(2) E Nil H cursor_undisturbed(2) [OF assms(1) _ E] by (auto simp: RelCatalog_getInfo_def)
  next
    case (Cons x xs)
    then have C: "cursor s RELCATNAME ns ?m ?flt (t1, h1) xs" "scanNext t h = Some (Inr (fst x), h1, t1)"
      "HeapFileScan_getRecord t1 h1 = Some (Inr (snd x))" using N by simp_all
    have "length (snd x) = sizeof_RelDesc"
      using catalog_hits(2) [OF assms(2-4)] Cons by (auto simp: sizeof_RelDesc_def MAXNAME_def)
    then obtain d where d: "RelDesc_of (snd x) = Some d" by (simp add: RelDesc_of_def)
    have "filter (\<lambda>d. rd_name d = n) (rel_descs s ns) = d # map (\<lambda>x. the (RelDesc_of (snd x))) xs"
      using H Cons d by simp
    then show ?thesis
      using S(1) R(2) E C(2,3) d cursor_undisturbed(2) [OF assms(1) C(1) E] by (auto simp: RelCatalog_getInfo_def)
  qed
qed

text \<open>Adding a description.\<close>

lemma catalog_ok_add:
  assumes "catalog_ok s cat sz ns" "relation u cat ns'" "length rec = sz"
    and "mset (entries u cat ns') = (if st = OK then add_mset rec (mset (entries s cat ns)) else mset (entries s cat ns))"
  shows "catalog_ok u cat sz ns'"
proof -
  have "set (entries u cat ns') \<subseteq> insert rec (set (entries s cat ns))"
    using assms(4) by (metis (no_types, lifting) set_mset_add_mset_insert set_mset_mset subset_insertI subset_refl)
  then show ?thesis using assms(1-3) by (auto simp: catalog_ok_def)
qed

lemma RelCatalog_addInfo_ok:
  assumes "ready s" "catalog_ok s RELCATNAME sizeof_RelDesc ns" "RelDesc_wf d" "length (rd_name d) < MAXNAME"
  shows "\<exists>st u ns' d'. RelCatalog_addInfo s d = Some (st, u) \<and> ready u \<and> closed_again s RELCATNAME u \<and>
    catalog_ok u RELCATNAME sizeof_RelDesc ns' \<and> rd_name d' = rd_name d \<and> rd_attrCnt d' = rd_attrCnt d \<and>
    mset (rel_descs u ns') = (if st = OK then add_mset d' (mset (rel_descs s ns)) else mset (rel_descs s ns))"
proof -
  have len: "length (rd_name d) < length (rd_relName d)" using assms(3,4) by (simp add: RelDesc_wf_def)
  obtain b where b: "zero_fill (rd_relName d) = Some b" "length b = length (rd_relName d)" "c_string b = rd_name d"
    by (rule zero_fill_string [OF len])
  let ?d = "d\<lparr>rd_relName := b\<rparr>"
  have wf: "RelDesc_wf ?d" using assms(3) b(2) by (simp add: RelDesc_wf_def)
  have rel: "relation s RELCATNAME ns" using assms(2) by (simp add: catalog_ok_def)
  have l: "length (RelDesc_bytes ?d) = sizeof_RelDesc"
    using wf by (simp add: RelDesc_bytes_def RelDesc_wf_def sizeof_RelDesc_def MAXNAME_def)
  then have "RelDesc_bytes ?d \<noteq> []" "length (RelDesc_bytes ?d) \<le> 1000" by (auto simp: sizeof_RelDesc_def)
  from catalog_add_ok [OF assms(1) rel this] obtain st u ns' where
    A: "catalog_add s RELCATNAME (RelDesc_bytes ?d) = Some (st, u)" "ready u" "closed_again s RELCATNAME u"
      "relation u RELCATNAME ns'"
      "mset (entries u RELCATNAME ns') = (if st = OK then add_mset (RelDesc_bytes ?d) (mset (entries s RELCATNAME ns))
         else mset (entries s RELCATNAME ns))" by blast
  have "mset (rel_descs u ns') = (if st = OK then add_mset ?d (mset (rel_descs s ns)) else mset (rel_descs s ns))"
    using A(5) RelDesc_round [OF wf] by (simp add: rel_descs_def)
  moreover have "catalog_ok u RELCATNAME sizeof_RelDesc ns'" by (rule catalog_ok_add [OF assms(2) A(4) l A(5)])
  moreover have "RelCatalog_addInfo s d = Some (st, u)" using A(1) b(1) by (simp add: RelCatalog_addInfo_def)
  ultimately show ?thesis
    using A(2,3) b(3) by (intro exI [of _ st] exI [of _ u] exI [of _ ns'] exI [of _ ?d]) simp
qed

text \<open>Removing the record a scan stands on.\<close>

lemma cursor_remove:
  assumes "ready s" "relation s cat ns" "cursor s cat ns (rel_pages s cat) flt (t, h) rest" "current ns (t, h) x"
  shows "\<exists>h' t' u. HeapFileScan_deleteRecord t h = Some (OK, h', t') \<and> HeapFileScan_destroy t' h' = u \<and>
    (\<forall>st h2 t2. endScan t' h' = (st, h2, t2) \<longrightarrow> HeapFileScan_destroy t2 h2 = u) \<and>
    ready u \<and> closed_again s cat u \<and> relation u cat ns \<and> mset (entries s cat ns) = add_mset (snd x) (mset (entries u cat ns))"
proof -
  from cursor_delete [OF assms(3,4)] obtain h' t' m' where
    D: "HeapFileScan_deleteRecord t h = Some (OK, h', t')" "cursor s cat ns m' flt (t', h') rest"
    "heap_recs m' ns = (tuples s cat ns)(fst x := None)" by blast
  note E = cursor_end [OF D(2)]
  have "tuples s cat ns (fst x) = Some (snd x)" using assms(3,4) by (auto simp: cursor_def current_def)
  then have "mset (entries s cat ns) = add_mset (snd x) (mset (entries (HeapFileScan_destroy t' h') cat ns))"
    using entries_delete [OF assms(2) E(3)] D(3) E(2) by simp
  then show ?thesis using D(1) E closed_ready [OF assms(1) E(1)] by auto
qed

lemma catalog_ok_remove:
  assumes "catalog_ok s cat sz ns" "relation u cat ns" "mset (entries s cat ns) = add_mset b (mset (entries u cat ns))"
  shows "catalog_ok u cat sz ns"
proof -
  have "set (entries u cat ns) \<subseteq> set (entries s cat ns)"
    using arg_cong [OF assms(3), of set_mset] by auto
  then show ?thesis using assms(1,2) by (auto simp: catalog_ok_def)
qed

lemma RelCatalog_removeInfo_ok:
  assumes "ready s" "catalog_ok s RELCATNAME sizeof_RelDesc ns" "plain n" "length n < MAXNAME"
  shows "\<exists>st u. RelCatalog_removeInfo s n = Some (st, u) \<and> ready u \<and> closed_again s RELCATNAME u \<and>
    catalog_ok u RELCATNAME sizeof_RelDesc ns \<and>
    (case filter (\<lambda>d. rd_name d = n) (rel_descs s ns) of
       [] \<Rightarrow> st = RELNOTFOUND \<and> rel_descs u ns = rel_descs s ns
     | d # _ \<Rightarrow> st = OK \<and> mset (rel_descs s ns) = add_mset d (mset (rel_descs u ns)))"
proof -
  have R: "relation s RELCATNAME ns" "n \<noteq> []" using assms(2,3) by (simp_all add: catalog_ok_def plain_def)
  let ?m = "rel_pages s RELCATNAME" and ?flt = "name_filter n" and ?l = "rel_records s RELCATNAME ns (name_filter n)"
  obtain h t where S: "catalog_scan s RELCATNAME n = Some (Inr h, t)" "cursor s RELCATNAME ns ?m ?flt (t, h) ?l"
    by (rule catalog_scan_ok [OF assms(1) R(1)])
  note H = rel_descs_hits [OF assms(2-4)]
  from cursor_next [OF S(2)] obtain h1 t1 where N:
    "case ?l of
        [] \<Rightarrow> scanNext t h = Some (Inl FILEEOF, h1, t1) \<and> cursor s RELCATNAME ns ?m ?flt (t1, h1) []
      | x # xs \<Rightarrow> scanNext t h = Some (Inr (fst x), h1, t1) \<and> HeapFileScan_getRecord t1 h1 = Some (Inr (snd x)) \<and>
          cursor s RELCATNAME ns ?m ?flt (t1, h1) xs \<and> current ns (t1, h1) x" by blast
  show ?thesis
  proof (cases ?l)
    case Nil
    then have C: "cursor s RELCATNAME ns ?m ?flt (t1, h1) []" "scanNext t h = Some (Inl FILEEOF, h1, t1)" using N by simp_all
    note U = cursor_undisturbed(1) [OF assms(1) C(1)]
    then have "entries (HeapFileScan_destroy t1 h1) RELCATNAME ns = entries s RELCATNAME ns"
      by (simp add: undisturbed_def entries_def)
    then show ?thesis
      using S(1) R(2) C(2) Nil H U assms(2)
      by (auto simp: RelCatalog_removeInfo_def undisturbed_def catalog_ok_def rel_descs_def)
  next
    case (Cons x xs)
    then have C: "cursor s RELCATNAME ns ?m ?flt (t1, h1) xs" "scanNext t h = Some (Inr (fst x), h1, t1)"
      "current ns (t1, h1) x" using N by simp_all
    from cursor_remove [OF assms(1) R(1) C(1,3)] obtain h' t' u where
      D: "HeapFileScan_deleteRecord t1 h1 = Some (OK, h', t')" "HeapFileScan_destroy t' h' = u" "ready u"
        "closed_again s RELCATNAME u" "relation u RELCATNAME ns"
        "mset (entries s RELCATNAME ns) = add_mset (snd x) (mset (entries u RELCATNAME ns))" by blast
    have "mset (rel_descs s ns) = add_mset (the (RelDesc_of (snd x))) (mset (rel_descs u ns))"
      using D(6) by (simp add: rel_descs_def)
    moreover have "filter (\<lambda>d. rd_name d = n) (rel_descs s ns) = the (RelDesc_of (snd x)) # map (\<lambda>x. the (RelDesc_of (snd x))) xs"
      using H Cons by simp
    moreover have "RelCatalog_removeInfo s n = Some (OK, u)"
      using S(1) R(2) C(2) D(1,2) by (simp add: RelCatalog_removeInfo_def)
    ultimately show ?thesis using D(3,4) catalog_ok_remove [OF assms(2) D(5,6)] by auto
  qed
qed

end
