(* ===== verification/Catalog_Attr.thy ===== *)
theory Catalog_Attr
  imports Catalog_Rel
begin

text \<open>
  The attribute catalog: its operations on the list of attribute descriptions, and the removal
  of all attributes of a relation by \<open>dropRelation\<close>.
\<close>

subsection \<open>Descriptions\<close>

definition attr_descs :: "'a dsys_scheme \<Rightarrow> int list \<Rightarrow> AttrDesc list" where
  "attr_descs s ns = map (\<lambda>b. the (AttrDesc_of b)) (entries s ATTRCATNAME ns)"

abbreviation ad_rel :: "AttrDesc \<Rightarrow> string" where "ad_rel d \<equiv> c_string (ad_relName d)"
abbreviation ad_attr :: "AttrDesc \<Rightarrow> string" where "ad_attr d \<equiv> c_string (ad_attrName d)"

abbreviation attr_of :: "RID \<times> byte list \<Rightarrow> AttrDesc" where "attr_of x \<equiv> the (AttrDesc_of (snd x))"

lemma attr_descs_hits:
  assumes "catalog_ok s ATTRCATNAME sizeof_AttrDesc ns" "plain n" "length n < MAXNAME"
  shows "map attr_of (rel_records s ATTRCATNAME ns (name_filter n)) = filter (\<lambda>d. ad_rel d = n) (attr_descs s ns)"
    "\<forall>x \<in> set (rel_records s ATTRCATNAME ns (name_filter n)). AttrDesc_of (snd x) \<noteq> None"
proof -
  let ?D = "\<lambda>b. the (AttrDesc_of b)"
  have "ad_relName (?D b) = take MAXNAME b" if "b \<in> set (entries s ATTRCATNAME ns)" for b
    using that assms(1) by (simp add: catalog_ok_def AttrDesc_of_def)
  then have "filter (\<lambda>d. ad_rel d = n) (attr_descs s ns) =
      map ?D (filter (\<lambda>b. c_string (take MAXNAME b) = n) (entries s ATTRCATNAME ns))"
    unfolding attr_descs_def filter_map comp_def by (intro arg_cong [where f = "map ?D"] filter_cong) auto
  also have "\<dots> = map ?D (map snd (rel_records s ATTRCATNAME ns (name_filter n)))"
    using catalog_hits(1) [OF assms] by (simp add: sizeof_AttrDesc_def MAXNAME_def)
  finally show "map attr_of (rel_records s ATTRCATNAME ns (name_filter n)) = filter (\<lambda>d. ad_rel d = n) (attr_descs s ns)" by simp
  have "length (snd x) = sizeof_AttrDesc" if "x \<in> set (rel_records s ATTRCATNAME ns (name_filter n))" for x
    using catalog_hits(2) [OF assms] that by (auto simp: sizeof_AttrDesc_def MAXNAME_def)
  then show "\<forall>x \<in> set (rel_records s ATTRCATNAME ns (name_filter n)). AttrDesc_of (snd x) \<noteq> None"
    by (simp add: AttrDesc_of_def)
qed

subsection \<open>The loops\<close>

lemma find_attr_ok:
  assumes "cursor s cat ns m flt (t, h) rest" "\<forall>x \<in> set rest. AttrDesc_of (snd x) \<noteq> None"
  shows "\<exists>h' t'. case dropWhile (\<lambda>x. ad_attr (attr_of x) \<noteq> a) rest of
      [] \<Rightarrow> find_attr t h a = Some (Inr (Inl FILEEOF), h', t') \<and> cursor s cat ns m flt (t', h') []
    | x # xs \<Rightarrow> find_attr t h a = Some (Inr (Inr (attr_of x)), h', t') \<and> cursor s cat ns m flt (t', h') xs \<and>
        current ns (t', h') x"
  using assms
proof (induction rest arbitrary: t h)
  case Nil
  from cursor_next [OF Nil.prems(1)] obtain h' t' where
    "scanNext t h = Some (Inl FILEEOF, h', t')" "cursor s cat ns m flt (t', h') []" by auto
  then show ?case by (intro exI [of _ h'] exI [of _ t']) (subst find_attr.simps, simp)
next
  case (Cons x xs)
  from cursor_next [OF Cons.prems(1)] obtain h1 t1 where N:
    "scanNext t h = Some (Inr (fst x), h1, t1)" "HeapFileScan_getRecord t1 h1 = Some (Inr (snd x))"
    "cursor s cat ns m flt (t1, h1) xs" "current ns (t1, h1) x" by auto
  obtain d where d: "AttrDesc_of (snd x) = Some d" using Cons.prems(2) by auto
  show ?case
  proof (cases "ad_attr d = a")
    case True
    then have "find_attr t h a = Some (Inr (Inr d), h1, t1)" using N d by (subst find_attr.simps) simp
    then show ?thesis using True d N by (intro exI [of _ h1] exI [of _ t1]) simp
  next
    case False
    then have e: "find_attr t h a = find_attr t1 h1 a" using N d by (subst find_attr.simps) simp
    have f: "dropWhile (\<lambda>x. ad_attr (attr_of x) \<noteq> a) (x # xs) = dropWhile (\<lambda>x. ad_attr (attr_of x) \<noteq> a) xs"
      using False d by simp
    show ?thesis unfolding e f using Cons.prems(2) by (intro Cons.IH [OF N(3)]) simp
  qed
qed

lemma collect_attrs_ok:
  assumes "cursor s cat ns m flt (t, h) rest" "\<forall>x \<in> set rest. AttrDesc_of (snd x) \<noteq> None"
  shows "\<exists>h' t'. collect_attrs t h ds = Some (Inr (FILEEOF, ds @ map attr_of rest), h', t') \<and>
    cursor s cat ns m flt (t', h') []"
  using assms
proof (induction rest arbitrary: t h ds)
  case Nil
  from cursor_next [OF Nil.prems(1)] obtain h' t' where
    "scanNext t h = Some (Inl FILEEOF, h', t')" "cursor s cat ns m flt (t', h') []" by auto
  then show ?case by (intro exI [of _ h'] exI [of _ t']) (subst collect_attrs.simps, simp)
next
  case (Cons x xs)
  from cursor_next [OF Cons.prems(1)] obtain h1 t1 where N:
    "scanNext t h = Some (Inr (fst x), h1, t1)" "HeapFileScan_getRecord t1 h1 = Some (Inr (snd x))"
    "cursor s cat ns m flt (t1, h1) xs" by auto
  obtain d where d: "AttrDesc_of (snd x) = Some d" using Cons.prems(2) by auto
  then have "collect_attrs t h ds = collect_attrs t1 h1 (ds @ [d])" using N by (subst collect_attrs.simps) simp
  then show ?case using Cons.IH [OF N(3), of "ds @ [d]"] Cons.prems(2) d by simp
qed

text \<open>The first hit of the attribute search among the descriptions.\<close>

lemma attr_hits:
  assumes "catalog_ok s ATTRCATNAME sizeof_AttrDesc ns" "plain n" "length n < MAXNAME"
  shows "\<exists>ys. filter (\<lambda>d. ad_rel d = n \<and> ad_attr d = a) (attr_descs s ns) =
    (case dropWhile (\<lambda>x. ad_attr (attr_of x) \<noteq> a) (rel_records s ATTRCATNAME ns (name_filter n)) of
       [] \<Rightarrow> [] | x # _ \<Rightarrow> attr_of x # ys)"
proof -
  let ?l = "rel_records s ATTRCATNAME ns (name_filter n)"
  have "filter (\<lambda>d. ad_rel d = n \<and> ad_attr d = a) (attr_descs s ns)
    = filter (\<lambda>d. ad_attr d = a) (filter (\<lambda>d. ad_rel d = n) (attr_descs s ns))" by (simp add: conj_commute)
  then have "filter (\<lambda>d. ad_rel d = n \<and> ad_attr d = a) (attr_descs s ns) = map attr_of (filter (\<lambda>x. ad_attr (attr_of x) = a) ?l)"
    unfolding attr_descs_hits(1) [OF assms, symmetric] by (simp add: filter_map comp_def)
  then show ?thesis unfolding filter_dropWhile [of _ ?l]
    by (cases "dropWhile (\<lambda>x. ad_attr (attr_of x) \<noteq> a) ?l") (simp_all del: dropWhile_eq_Nil_conv)
qed

subsection \<open>The operations\<close>

lemma AttrCatalog_getInfo_ok:
  assumes "ready s" "catalog_ok s ATTRCATNAME sizeof_AttrDesc ns" "plain n" "length n < MAXNAME" "a \<noteq> []"
  shows "\<exists>u. AttrCatalog_getInfo s n a = Some (case filter (\<lambda>d. ad_rel d = n \<and> ad_attr d = a) (attr_descs s ns) of
      [] \<Rightarrow> Inl ATTRNOTFOUND | d # _ \<Rightarrow> Inr d, u) \<and> undisturbed s ATTRCATNAME ns u"
proof -
  have R: "relation s ATTRCATNAME ns" "n \<noteq> []" using assms(2,3) by (simp_all add: catalog_ok_def plain_def)
  let ?m = "rel_pages s ATTRCATNAME" and ?flt = "name_filter n" and ?l = "rel_records s ATTRCATNAME ns (name_filter n)"
  obtain h t where S: "catalog_scan s ATTRCATNAME n = Some (Inr h, t)" "cursor s ATTRCATNAME ns ?m ?flt (t, h) ?l"
    by (rule catalog_scan_ok [OF assms(1) R(1)])
  note H = attr_descs_hits [OF assms(2-4)] and F = attr_hits [OF assms(2-4), of a]
  from find_attr_ok [OF S(2) H(2), of a] obtain h1 t1 where N:
    "case dropWhile (\<lambda>x. ad_attr (attr_of x) \<noteq> a) ?l of
      [] \<Rightarrow> find_attr t h a = Some (Inr (Inl FILEEOF), h1, t1) \<and> cursor s ATTRCATNAME ns ?m ?flt (t1, h1) []
    | x # xs \<Rightarrow> find_attr t h a = Some (Inr (Inr (attr_of x)), h1, t1) \<and> cursor s ATTRCATNAME ns ?m ?flt (t1, h1) xs \<and>
        current ns (t1, h1) x" by blast
  obtain st h2 t2 where E: "endScan t1 h1 = (st, h2, t2)" using prod_cases3 by blast
  show ?thesis
  proof (cases "dropWhile (\<lambda>x. ad_attr (attr_of x) \<noteq> a) ?l")
    case Nil
    have f: "filter (\<lambda>d. ad_rel d = n \<and> ad_attr d = a) (attr_descs s ns) = []" using F unfolding Nil by simp
    note N' = N [unfolded Nil list.case]
    then show ?thesis
      using S(1) R(2) assms(5) E cursor_undisturbed(2) [OF assms(1) _ E] unfolding f
      by (auto simp: AttrCatalog_getInfo_def)
  next
    case (Cons x xs)
    obtain ys where f: "filter (\<lambda>d. ad_rel d = n \<and> ad_attr d = a) (attr_descs s ns) = attr_of x # ys" using F unfolding Cons by auto
    note N' = N [unfolded Cons list.case]
    then show ?thesis
      using S(1) R(2) assms(5) E cursor_undisturbed(2) [OF assms(1) _ E] unfolding f
      by (auto simp: AttrCatalog_getInfo_def)
  qed
qed

lemma AttrCatalog_getRelInfo_ok:
  assumes "ready s" "catalog_ok s ATTRCATNAME sizeof_AttrDesc ns" "plain n" "length n < MAXNAME"
  shows "\<exists>u. AttrCatalog_getRelInfo s n = Some (case filter (\<lambda>d. ad_rel d = n) (attr_descs s ns) of
      [] \<Rightarrow> Inl RELNOTFOUND | d # ds \<Rightarrow> Inr (d # ds), u) \<and> undisturbed s ATTRCATNAME ns u"
proof -
  have R: "relation s ATTRCATNAME ns" "n \<noteq> []" using assms(2,3) by (simp_all add: catalog_ok_def plain_def)
  let ?m = "rel_pages s ATTRCATNAME" and ?flt = "name_filter n" and ?l = "rel_records s ATTRCATNAME ns (name_filter n)"
  obtain h t where S: "catalog_scan s ATTRCATNAME n = Some (Inr h, t)" "cursor s ATTRCATNAME ns ?m ?flt (t, h) ?l"
    by (rule catalog_scan_ok [OF assms(1) R(1)])
  note H = attr_descs_hits [OF assms(2-4)]
  from collect_attrs_ok [OF S(2) H(2), of "[]"] obtain h1 t1 where
    C: "collect_attrs t h [] = Some (Inr (FILEEOF, map attr_of ?l), h1, t1)" "cursor s ATTRCATNAME ns ?m ?flt (t1, h1) []" by auto
  obtain st h2 t2 where E: "endScan t1 h1 = (st, h2, t2)" using prod_cases3 by blast
  note U = cursor_undisturbed(2) [OF assms(1) C(2) E]
  show ?thesis
    using S(1) R(2) C(1) E U unfolding H(1)
    by (cases "filter (\<lambda>d. ad_rel d = n) (attr_descs s ns)") (simp_all add: AttrCatalog_getRelInfo_def Let_def)
qed

lemma AttrCatalog_addInfo_ok:
  assumes "ready s" "catalog_ok s ATTRCATNAME sizeof_AttrDesc ns" "AttrDesc_wf d"
    and "length (ad_rel d) < MAXNAME" "length (ad_attr d) < MAXNAME"
  shows "\<exists>st u ns' d'. AttrCatalog_addInfo s d = Some (st, u) \<and> ready u \<and> closed_again s ATTRCATNAME u \<and>
    catalog_ok u ATTRCATNAME sizeof_AttrDesc ns' \<and> ad_rel d' = ad_rel d \<and> ad_attr d' = ad_attr d \<and>
    ad_attrOffset d' = ad_attrOffset d \<and> ad_attrType d' = ad_attrType d \<and> ad_attrLen d' = ad_attrLen d \<and>
    mset (attr_descs u ns') = (if st = OK then add_mset d' (mset (attr_descs s ns)) else mset (attr_descs s ns))"
proof -
  have L: "length (ad_rel d) < length (ad_relName d)" "length (ad_attr d) < length (ad_attrName d)"
    using assms(3-5) by (simp_all add: AttrDesc_wf_def)
  obtain b where b: "zero_fill (ad_relName d) = Some b" "length b = length (ad_relName d)" "c_string b = ad_rel d"
    by (rule zero_fill_string [OF L(1)])
  obtain c where c: "zero_fill (ad_attrName d) = Some c" "length c = length (ad_attrName d)" "c_string c = ad_attr d"
    by (rule zero_fill_string [OF L(2)])
  let ?d = "d\<lparr>ad_relName := b, ad_attrName := c\<rparr>"
  have wf: "AttrDesc_wf ?d" using assms(3) b(2) c(2) by (simp add: AttrDesc_wf_def)
  have rel: "relation s ATTRCATNAME ns" using assms(2) by (simp add: catalog_ok_def)
  have l: "length (AttrDesc_bytes ?d) = sizeof_AttrDesc"
    using wf by (simp add: AttrDesc_bytes_def AttrDesc_wf_def sizeof_AttrDesc_def MAXNAME_def)
  then have "AttrDesc_bytes ?d \<noteq> []" "length (AttrDesc_bytes ?d) \<le> 1000" by (auto simp: sizeof_AttrDesc_def)
  from catalog_add_ok [OF assms(1) rel this] obtain st u ns' where
    A: "catalog_add s ATTRCATNAME (AttrDesc_bytes ?d) = Some (st, u)" "ready u" "closed_again s ATTRCATNAME u"
      "relation u ATTRCATNAME ns'"
      "mset (entries u ATTRCATNAME ns') = (if st = OK then add_mset (AttrDesc_bytes ?d) (mset (entries s ATTRCATNAME ns))
         else mset (entries s ATTRCATNAME ns))" by blast
  have "mset (attr_descs u ns') = (if st = OK then add_mset ?d (mset (attr_descs s ns)) else mset (attr_descs s ns))"
    using A(5) AttrDesc_round [OF wf] by (simp add: attr_descs_def)
  moreover have "catalog_ok u ATTRCATNAME sizeof_AttrDesc ns'" by (rule catalog_ok_add [OF assms(2) A(4) l A(5)])
  moreover have "AttrCatalog_addInfo s d = Some (st, u)" using A(1) b(1) c(1) by (simp add: AttrCatalog_addInfo_def)
  ultimately show ?thesis
    using A(2,3) b(3) c(3) by (intro exI [of _ st] exI [of _ u] exI [of _ ns'] exI [of _ ?d]) simp
qed

lemma AttrCatalog_removeInfo_ok:
  assumes "ready s" "catalog_ok s ATTRCATNAME sizeof_AttrDesc ns" "plain n" "length n < MAXNAME" "a \<noteq> []"
  shows "\<exists>st u. AttrCatalog_removeInfo s n a = Some (st, u) \<and> ready u \<and> closed_again s ATTRCATNAME u \<and>
    catalog_ok u ATTRCATNAME sizeof_AttrDesc ns \<and>
    (case filter (\<lambda>d. ad_rel d = n \<and> ad_attr d = a) (attr_descs s ns) of
       [] \<Rightarrow> st = RELNOTFOUND \<and> attr_descs u ns = attr_descs s ns
     | d # _ \<Rightarrow> st = OK \<and> mset (attr_descs s ns) = add_mset d (mset (attr_descs u ns)))"
proof -
  have R: "relation s ATTRCATNAME ns" "n \<noteq> []" using assms(2,3) by (simp_all add: catalog_ok_def plain_def)
  let ?m = "rel_pages s ATTRCATNAME" and ?flt = "name_filter n" and ?l = "rel_records s ATTRCATNAME ns (name_filter n)"
  obtain h t where S: "catalog_scan s ATTRCATNAME n = Some (Inr h, t)" "cursor s ATTRCATNAME ns ?m ?flt (t, h) ?l"
    by (rule catalog_scan_ok [OF assms(1) R(1)])
  note H = attr_descs_hits [OF assms(2-4)] and F = attr_hits [OF assms(2-4), of a]
  from find_attr_ok [OF S(2) H(2), of a] obtain h1 t1 where N:
    "case dropWhile (\<lambda>x. ad_attr (attr_of x) \<noteq> a) ?l of
      [] \<Rightarrow> find_attr t h a = Some (Inr (Inl FILEEOF), h1, t1) \<and> cursor s ATTRCATNAME ns ?m ?flt (t1, h1) []
    | x # xs \<Rightarrow> find_attr t h a = Some (Inr (Inr (attr_of x)), h1, t1) \<and> cursor s ATTRCATNAME ns ?m ?flt (t1, h1) xs \<and>
        current ns (t1, h1) x" by blast
  show ?thesis
  proof (cases "dropWhile (\<lambda>x. ad_attr (attr_of x) \<noteq> a) ?l")
    case Nil
    have f: "filter (\<lambda>d. ad_rel d = n \<and> ad_attr d = a) (attr_descs s ns) = []" using F unfolding Nil by simp
    have C: "find_attr t h a = Some (Inr (Inl FILEEOF), h1, t1)" "cursor s ATTRCATNAME ns ?m ?flt (t1, h1) []"
      using N [unfolded Nil list.case] by auto
    obtain st h2 t2 where E: "endScan t1 h1 = (st, h2, t2)" using prod_cases3 by blast
    have U: "undisturbed s ATTRCATNAME ns (HeapFileScan_destroy t2 h2)" using cursor_undisturbed(2) [OF assms(1) C(2) E] by simp
    then have "attr_descs (HeapFileScan_destroy t2 h2) ns = attr_descs s ns" "catalog_ok (HeapFileScan_destroy t2 h2) ATTRCATNAME sizeof_AttrDesc ns"
      using assms(2) by (simp_all add: undisturbed_def entries_def attr_descs_def catalog_ok_def)
    then show ?thesis
      using S(1) R(2) assms(5) C(1) E U unfolding f by (auto simp: AttrCatalog_removeInfo_def undisturbed_def Let_def)
  next
    case (Cons x xs)
    obtain ys where f: "filter (\<lambda>d. ad_rel d = n \<and> ad_attr d = a) (attr_descs s ns) = attr_of x # ys" using F unfolding Cons by auto
    have C: "find_attr t h a = Some (Inr (Inr (attr_of x)), h1, t1)" "cursor s ATTRCATNAME ns ?m ?flt (t1, h1) xs"
      "current ns (t1, h1) x" using N [unfolded Cons list.case] by auto
    from cursor_remove [OF assms(1) R(1) C(2,3)] obtain h' t' u where
      D: "HeapFileScan_deleteRecord t1 h1 = Some (OK, h', t')" "\<And>st h2 t2. endScan t' h' = (st, h2, t2) \<Longrightarrow> HeapFileScan_destroy t2 h2 = u"
        "ready u" "closed_again s ATTRCATNAME u" "relation u ATTRCATNAME ns"
        "mset (entries s ATTRCATNAME ns) = add_mset (snd x) (mset (entries u ATTRCATNAME ns))" by blast
    obtain st h2 t2 where E: "endScan t' h' = (st, h2, t2)" using prod_cases3 by blast
    have "AttrCatalog_removeInfo s n a = Some (OK, u)"
      using S(1) R(2) assms(5) C(1) D(1) D(2) [OF E] E by (simp add: AttrCatalog_removeInfo_def)
    moreover have "mset (attr_descs s ns) = add_mset (attr_of x) (mset (attr_descs u ns))"
      using D(6) by (simp add: attr_descs_def)
    ultimately show ?thesis using D(3,4) catalog_ok_remove [OF assms(2) D(5,6)] unfolding f by auto
  qed
qed

subsection \<open>Dropping a relation\<close>

lemma remove_attrs_ok:
  assumes "ready s" "catalog_ok s ATTRCATNAME sizeof_AttrDesc ns" "plain n" "length n < MAXNAME"
    and "image_mset ad_attr (filter_mset (\<lambda>d. ad_rel d = n) (mset (attr_descs s ns))) = mset (map ad_attr ds)"
    and "\<forall>d \<in> set ds. ad_attr d \<noteq> []"
  shows "\<exists>u. remove_attrs s n ds = Some (OK, u) \<and> ready u \<and> closed_again s ATTRCATNAME u \<and>
    catalog_ok u ATTRCATNAME sizeof_AttrDesc ns \<and>
    mset (attr_descs u ns) = filter_mset (\<lambda>d. ad_rel d \<noteq> n) (mset (attr_descs s ns))"
  using assms(1,2,5,6)
proof (induction ds arbitrary: s)
  case Nil
  have "ad_rel d \<noteq> n" if "d \<in> set (attr_descs s ns)" for d using Nil.prems(3) that by auto
  then have "filter_mset (\<lambda>d. ad_rel d \<noteq> n) (mset (attr_descs s ns)) = mset (attr_descs s ns)"
    by (simp add: filter_mset_eq_conv)
  then show ?case using Nil.prems closed_again_refl [of s] by (auto simp: ready_def)
next
  case (Cons d ds)
  have a: "ad_attr d \<noteq> []" using Cons.prems(4) by simp
  have "ad_attr d \<in># image_mset ad_attr (filter_mset (\<lambda>d. ad_rel d = n) (mset (attr_descs s ns)))"
    using Cons.prems(3) by simp
  then have "filter (\<lambda>e. ad_rel e = n \<and> ad_attr e = ad_attr d) (attr_descs s ns) \<noteq> []"
    by (auto simp: filter_empty_conv)
  then obtain e es where e: "filter (\<lambda>e. ad_rel e = n \<and> ad_attr e = ad_attr d) (attr_descs s ns) = e # es"
    by (cases "filter (\<lambda>e. ad_rel e = n \<and> ad_attr e = ad_attr d) (attr_descs s ns)") auto
  then have "e \<in> set (filter (\<lambda>e. ad_rel e = n \<and> ad_attr e = ad_attr d) (attr_descs s ns))" by simp
  then have e': "ad_rel e = n" "ad_attr e = ad_attr d" by simp_all
  from AttrCatalog_removeInfo_ok [OF Cons.prems(1,2) assms(3,4) a] obtain u where
    U: "AttrCatalog_removeInfo s n (ad_attr d) = Some (OK, u)" "ready u" "closed_again s ATTRCATNAME u"
      "catalog_ok u ATTRCATNAME sizeof_AttrDesc ns" "mset (attr_descs s ns) = add_mset e (mset (attr_descs u ns))"
    unfolding e by auto
  have "image_mset ad_attr (filter_mset (\<lambda>d. ad_rel d = n) (mset (attr_descs u ns))) = mset (map ad_attr ds)"
    using Cons.prems(3) U(5) e' by simp
  from Cons.IH [OF U(2,4) this] Cons.prems(4) obtain w where
    W: "remove_attrs u n ds = Some (OK, w)" "ready w" "closed_again u ATTRCATNAME w"
      "catalog_ok w ATTRCATNAME sizeof_AttrDesc ns"
      "mset (attr_descs w ns) = filter_mset (\<lambda>d. ad_rel d \<noteq> n) (mset (attr_descs u ns))" by auto
  have "filter_mset (\<lambda>d. ad_rel d \<noteq> n) (mset (attr_descs s ns)) = filter_mset (\<lambda>d. ad_rel d \<noteq> n) (mset (attr_descs u ns))"
    using U(5) e' by simp
  then show ?case using U(1) W closed_again_trans [OF U(3) W(3)] by auto
qed

lemma dropRelation_ok:
  assumes "ready s" "catalog_ok s ATTRCATNAME sizeof_AttrDesc ns" "plain n" "length n < MAXNAME"
    and "\<forall>d \<in> set (attr_descs s ns). ad_rel d = n \<longrightarrow> ad_attr d \<noteq> []"
  shows "\<exists>u. dropRelation s n = Some (if \<exists>d \<in> set (attr_descs s ns). ad_rel d = n then OK else RELNOTFOUND, u) \<and>
    ready u \<and> closed_again s ATTRCATNAME u \<and> catalog_ok u ATTRCATNAME sizeof_AttrDesc ns \<and>
    mset (attr_descs u ns) = filter_mset (\<lambda>d. ad_rel d \<noteq> n) (mset (attr_descs s ns))"
proof -
  let ?ds = "filter (\<lambda>d. ad_rel d = n) (attr_descs s ns)"
  from AttrCatalog_getRelInfo_ok [OF assms(1-4)] obtain t where
    T: "AttrCatalog_getRelInfo s n = Some (case ?ds of [] \<Rightarrow> Inl RELNOTFOUND | d # ds \<Rightarrow> Inr (d # ds), t)"
      "undisturbed s ATTRCATNAME ns t" by blast
  have n: "n \<noteq> []" using assms(3) by (simp add: plain_def)
  have t: "ready t" "closed_again s ATTRCATNAME t" "catalog_ok t ATTRCATNAME sizeof_AttrDesc ns" "attr_descs t ns = attr_descs s ns"
    using T(2) assms(2) by (simp_all add: undisturbed_def catalog_ok_def attr_descs_def entries_def)
  show ?thesis
  proof (cases ?ds)
    case Nil
    then have "\<forall>d \<in> set (attr_descs s ns). ad_rel d \<noteq> n" by (simp add: filter_empty_conv)
    moreover from this have "filter_mset (\<lambda>d. ad_rel d \<noteq> n) (mset (attr_descs s ns)) = mset (attr_descs s ns)"
      by (simp add: filter_mset_eq_conv)
    ultimately show ?thesis using T(1) Nil n t by (auto simp: dropRelation_def)
  next
    case (Cons d ds)
    have m: "image_mset ad_attr (filter_mset (\<lambda>d. ad_rel d = n) (mset (attr_descs t ns))) = mset (map ad_attr ?ds)"
      by (simp add: t(4))
    from remove_attrs_ok [OF t(1,3) assms(3,4) m] assms(5) obtain u where
      U: "remove_attrs t n ?ds = Some (OK, u)" "ready u" "closed_again t ATTRCATNAME u" "catalog_ok u ATTRCATNAME sizeof_AttrDesc ns"
        "mset (attr_descs u ns) = filter_mset (\<lambda>d. ad_rel d \<noteq> n) (mset (attr_descs t ns))" by auto
    have "d \<in> set ?ds" using Cons by simp
    then have "\<exists>d \<in> set (attr_descs s ns). ad_rel d = n" by auto
    moreover have "dropRelation s n = remove_attrs t n ?ds" using T(1) n unfolding Cons by (simp add: dropRelation_def)
    ultimately show ?thesis using U t(4) closed_again_trans [OF t(2) U(3)] by auto
  qed
qed

end
