(* ===== verification/Catalog_Props.thy ===== *)
theory Catalog_Props
  imports Catalog_Attr Heap_Props
begin

text \<open>
  The properties of the catalogs. Both catalogs may be open while the operations run, as they
  are in the program, where \<open>relCat\<close> and \<open>attrCat\<close> exist for the whole session.
\<close>

subsection \<open>Both catalogs\<close>

definition catalogs_ok :: "'a dsys_scheme \<Rightarrow> int list \<Rightarrow> int list \<Rightarrow> bool" where
  "catalogs_ok s nr na \<longleftrightarrow> ready s \<and> catalog_ok s RELCATNAME sizeof_RelDesc nr \<and> catalog_ok s ATTRCATNAME sizeof_AttrDesc na"

text \<open>An operation on one catalog leaves the other one alone.\<close>

lemma catalog_other:
  assumes "ready s" "closed_again s cat u" "n \<noteq> cat" "catalog_ok s n sz ns"
  shows "catalog_ok u n sz ns" "entries u n ns = entries s n ns"
proof -
  have "relation s n ns" using assms(4) by (simp add: catalog_ok_def)
  note R = closed_relation [OF assms(1-3) this]
  show "entries u n ns = entries s n ns" using R(1) by (simp add: entries_def)
  then show "catalog_ok u n sz ns" using assms(4) R(2) by (simp add: catalog_ok_def)
qed

lemma names_differ: "RELCATNAME \<noteq> ATTRCATNAME" "ATTRCATNAME \<noteq> RELCATNAME"
  by (simp_all add: RELCATNAME_def ATTRCATNAME_def)

text \<open>A lookup changes no relation.\<close>

lemma undisturbed_relations:
  assumes "ready s" "undisturbed s cat nc u"
  shows "rel_pages u n = rel_pages s n" "relation s n ns \<Longrightarrow> relation u n ns"
proof -
  have U: "closed_again s cat u" "relation u cat nc" "rel_pages u cat = rel_pages s cat" "db_inv s"
    using assms by (simp_all add: undisturbed_def ready_def)
  show p: "rel_pages u n = rel_pages s n" using U(3) closed_pages [OF U(4,1)] by (cases "n = cat") simp_all
  show "relation u n ns" if r: "relation s n ns"
  proof (cases "n = cat")
    case True
    then show ?thesis using r U(2) p by (simp add: relation_def)
  qed (rule closed_relation(2) [OF assms(1) U(1) _ r])
qed

lemma undisturbed_catalogs:
  assumes "catalogs_ok s nr na" "undisturbed s cat nc v"
  shows "catalogs_ok v nr na" "rel_descs v nr = rel_descs s nr" "attr_descs v na = attr_descs s na"
proof -
  have "ready s" using assms(1) by (simp add: catalogs_ok_def)
  note U = undisturbed_relations [OF this assms(2)]
  have e: "entries v n ns = entries s n ns" for n ns by (simp add: entries_def U(1))
  then show "rel_descs v nr = rel_descs s nr" "attr_descs v na = attr_descs s na" by (simp_all add: rel_descs_def attr_descs_def)
  show "catalogs_ok v nr na" using assms e U(2) by (simp add: catalogs_ok_def catalog_ok_def undisturbed_def)
qed

text \<open>Changing a closed file that is not a catalog.\<close>

lemma closed_file_ready:
  assumes "ready s" "oft_map (openFiles s) name = None" "t = s\<lparr>files := (files s)(name := v)\<rparr>"
    and "\<And>ps. v = Some ps \<Longrightarrow> file_wf ps"
  shows "ready t" "\<And>n. n \<noteq> name \<Longrightarrow> rel_pages t n = rel_pages s n"
    "\<And>n ns. n \<noteq> name \<Longrightarrow> relation s n ns \<Longrightarrow> relation t n ns"
proof -
  have d: "db_inv s" "allocator_ok (heap_new s)" "two_free (bufMgr s)" using assms(1) by (simp_all add: ready_def)
  note C = closed_file_change [OF d(1) assms(2,3)]
  show "ready t" using C(1) assms(4) d(2,3) by (simp add: ready_def assms(3))
  have f: "openFiles t = openFiles s" "bufMgr t = bufMgr s" "objs t = objs s" by (simp_all add: assms(3))
  show r: "rel_pages t n = rel_pages s n" if "n \<noteq> name" for n
  proof (cases "oft_map (openFiles s) n")
    case None
    then show ?thesis using that by (simp add: rel_pages_def f) (simp add: assms(3))
  next
    case (Some a)
    then have "a \<in> live s" using db_invD(6) [OF d(1)] by blast
    then show ?thesis using C(2) assms(4) Some by (auto simp: rel_pages_def f)
  qed
  show "relation t n ns" if n: "n \<noteq> name" "relation s n ns" for n ns
  proof -
    have "settled t a q" if o: "oft_map (openFiles t) n = Some a" for a q
    proof -
      have a: "a \<in> live s" "fileName (objs s a) = n" "settled s a q"
        using o db_invD(6) [OF d(1)] n(2) by (auto simp: relation_def f)
      have "disk_page t a = disk_page s a"
        using db_invD(8) [OF d(1) a(1)] a(2) n(1) by (simp add: used_pages_def file_pages_def assms(3))
      moreover have "logical t a q = logical s a q" using C(2) assms(4) a(1) by blast
      ultimately show ?thesis using a(3) pool_same(2) [OF f(2)] by (simp add: settled_def flag_ok_def f)
    qed
    then show ?thesis using n r [OF n(1)] by (simp add: relation_def)
  qed
qed

subsection \<open>A small database\<close>

text \<open>Three empty relations: the two catalogs and \<open>r\<close>.\<close>

definition demo_cat :: dsys where
  "demo_cat = demo_rel\<lparr>files := (files demo_rel)(RELCATNAME \<mapsto> demo_heap_pages, ATTRCATNAME \<mapsto> demo_heap_pages)\<rparr>"

lemma demo_cat_ok: "catalogs_ok demo_cat [2] [2]" "rel_descs demo_cat [2] = []" "attr_descs demo_cat [2] = []"
proof -
  have o: "oft_map (openFiles demo_rel) n = None" for n by (simp add: demo_rel_def oft_init)
  let ?s = "demo_rel\<lparr>files := (files demo_rel)(RELCATNAME := Some demo_heap_pages)\<rparr>"
  have s: "ready ?s" by (rule closed_file_ready(1) [OF demo_rel_ok(1) o refl]) (use demo_pages_heap(1) in simp)
  have c: "demo_cat = ?s\<lparr>files := (files ?s)(ATTRCATNAME := Some demo_heap_pages)\<rparr>" by (simp add: demo_cat_def)
  have "oft_map (openFiles ?s) ATTRCATNAME = None" using o by simp
  then have r: "ready demo_cat" using closed_file_ready(1) [OF s _ c] demo_pages_heap(1) by simp
  have f: "file_view demo_cat RELCATNAME = Some (file_map demo_heap_pages)" "file_view demo_cat ATTRCATNAME = Some (file_map demo_heap_pages)"
    "oft_map (openFiles demo_cat) n = None" "RELCATNAME \<noteq> []" "ATTRCATNAME \<noteq> []" for n
    using o by (simp_all add: demo_cat_def names_differ file_view_def) (simp_all add: RELCATNAME_def ATTRCATNAME_def)
  note R = demo_relation [OF f(3,1,4)] and A = demo_relation [OF f(3,2,5)]
  show "catalogs_ok demo_cat [2] [2]" using r R(1,3) A(1,3) by (simp add: catalogs_ok_def catalog_ok_def entries_def)
  show "rel_descs demo_cat [2] = []" "attr_descs demo_cat [2] = []"
    using R(3) A(3) by (simp_all add: rel_descs_def attr_descs_def entries_def)
qed

definition demo_desc :: RelDesc where
  "demo_desc = \<lparr>rd_relName = strcpy (replicate MAXNAME 0) ''r'', rd_attrCnt = 1\<rparr>"

lemma demo_desc: "RelDesc_wf demo_desc" "rd_name demo_desc = ''r''" "plain ''r''" "length ''r'' < MAXNAME"
  by code_simp+

subsection \<open>Lookup\<close>

lemma rel_lookup:
  assumes "catalogs_ok s nr na" "plain n" "length n < MAXNAME"
  shows "\<exists>u. RelCatalog_getInfo s n = Some (case filter (\<lambda>d. rd_name d = n) (rel_descs s nr) of
      [] \<Rightarrow> Inl RELNOTFOUND | d # _ \<Rightarrow> Inr d, u) \<and>
    catalogs_ok u nr na \<and> rel_descs u nr = rel_descs s nr \<and> attr_descs u na = attr_descs s na \<and> pins u = pins s"
proof -
  have R: "ready s" "catalog_ok s RELCATNAME sizeof_RelDesc nr" "catalog_ok s ATTRCATNAME sizeof_AttrDesc na"
    using assms(1) by (simp_all add: catalogs_ok_def)
  from RelCatalog_getInfo_ok [OF R(1,2) assms(2,3)] obtain u where
    U: "RelCatalog_getInfo s n = Some (case filter (\<lambda>d. rd_name d = n) (rel_descs s nr) of
        [] \<Rightarrow> Inl RELNOTFOUND | d # _ \<Rightarrow> Inr d, u)" "undisturbed s RELCATNAME nr u" by blast
  have c: "closed_again s RELCATNAME u" "ready u" "relation u RELCATNAME nr" "rel_pages u RELCATNAME = rel_pages s RELCATNAME"
    using U(2) by (simp_all add: undisturbed_def)
  note O = catalog_other [OF R(1) c(1) names_differ(2) R(3)]
  have "entries u RELCATNAME nr = entries s RELCATNAME nr" using c(4) by (simp add: entries_def)
  then show ?thesis
    using U(1) O c R(2) by (auto simp: catalogs_ok_def catalog_ok_def rel_descs_def attr_descs_def closed_again_def)
qed

text \<open>
  Looking up a relation. \<open>RelCatalog::getInfo\<close> always returns: the description of the first
  entry with exactly this name, or \<open>RELNOTFOUND\<close> when there is none. Names that are prefixes
  of each other are kept apart. The catalogs are the same afterwards and no page stays pinned.
\<close>

theorem RelCatalog_lookup:
  assumes "catalogs_ok s nr na" "plain n" "length n < MAXNAME"
  shows "\<exists>u. RelCatalog_getInfo s n = Some (case filter (\<lambda>d. rd_name d = n) (rel_descs s nr) of
      [] \<Rightarrow> Inl RELNOTFOUND | d # _ \<Rightarrow> Inr d, u) \<and>
    catalogs_ok u nr na \<and> rel_descs u nr = rel_descs s nr \<and> attr_descs u na = attr_descs s na \<and> pins u = pins s"
  by (rule rel_lookup [OF assms])

theorem RelCatalog_lookup_witness:
  "\<exists>u. RelCatalog_getInfo demo_cat ''r'' = Some (Inl RELNOTFOUND, u) \<and> catalogs_ok u [2] [2]"
  using RelCatalog_lookup [OF demo_cat_ok(1) demo_desc(3,4)] demo_cat_ok(2) by auto

text \<open>
  Looking up attributes. \<open>AttrCatalog::getInfo\<close> returns the first description with this
  relation and attribute name or \<open>ATTRNOTFOUND\<close>; \<open>getRelInfo\<close> returns all descriptions of the
  relation, in the order of the catalog, or \<open>RELNOTFOUND\<close> when it has none. Both loops end and
  both catalogs stay the same.
\<close>

theorem AttrCatalog_lookup:
  assumes "catalogs_ok s nr na" "plain n" "length n < MAXNAME" "a \<noteq> []"
  shows "\<exists>u w. AttrCatalog_getInfo s n a = Some (case filter (\<lambda>d. ad_rel d = n \<and> ad_attr d = a) (attr_descs s na) of
      [] \<Rightarrow> Inl ATTRNOTFOUND | d # _ \<Rightarrow> Inr d, u) \<and>
    AttrCatalog_getRelInfo s n = Some (case filter (\<lambda>d. ad_rel d = n) (attr_descs s na) of
      [] \<Rightarrow> Inl RELNOTFOUND | d # ds \<Rightarrow> Inr (d # ds), w) \<and>
    (\<forall>v \<in> {u, w}. catalogs_ok v nr na \<and> rel_descs v nr = rel_descs s nr \<and> attr_descs v na = attr_descs s na)"
proof -
  have R: "ready s" "catalog_ok s ATTRCATNAME sizeof_AttrDesc na" using assms(1) by (simp_all add: catalogs_ok_def)
  show ?thesis
    using AttrCatalog_getInfo_ok [OF R assms(2-4)] AttrCatalog_getRelInfo_ok [OF R assms(2,3)]
      undisturbed_catalogs [OF assms(1)] by blast
qed

theorem AttrCatalog_lookup_witness:
  "\<exists>u w. AttrCatalog_getInfo demo_cat ''r'' ''a'' = Some (Inl ATTRNOTFOUND, u) \<and>
     AttrCatalog_getRelInfo demo_cat ''r'' = Some (Inl RELNOTFOUND, w) \<and> catalogs_ok u [2] [2]"
  using AttrCatalog_lookup [OF demo_cat_ok(1) demo_desc(3,4), of "''a''"] demo_cat_ok(3) by auto

subsection \<open>Adding and removing\<close>

text \<open>Every change of the relation catalog leaves the attribute catalog alone, and the other way round.\<close>

lemma rel_changed:
  assumes "catalogs_ok s nr na" "ready u" "closed_again s RELCATNAME u" "catalog_ok u RELCATNAME sizeof_RelDesc nr'"
  shows "catalogs_ok u nr' na" "attr_descs u na = attr_descs s na"
  using catalog_other [of s RELCATNAME u ATTRCATNAME sizeof_AttrDesc na] assms names_differ(2)
  by (simp_all add: catalogs_ok_def attr_descs_def)

lemma attr_changed:
  assumes "catalogs_ok s nr na" "ready u" "closed_again s ATTRCATNAME u" "catalog_ok u ATTRCATNAME sizeof_AttrDesc na'"
  shows "catalogs_ok u nr na'" "rel_descs u nr = rel_descs s nr"
  using catalog_other [of s ATTRCATNAME u RELCATNAME sizeof_RelDesc nr] assms names_differ(1)
  by (simp_all add: catalogs_ok_def rel_descs_def)

lemma mset_filter_none: "mset xs = add_mset d (mset ys) \<Longrightarrow> P d \<Longrightarrow> filter P ys = [] \<Longrightarrow> filter P xs = [d]"
  by (metis filter_mset_add_mset mset_filter mset.simps(1) mset_single_iff_right)

text \<open>
  C27. A description added to the relation catalog is found again. If no entry has the name,
  then after a successful \<open>addInfo\<close> the lookup returns the name and the attribute count, and
  \<open>removeInfo\<close> succeeds and restores the catalog. An \<open>addInfo\<close> that fails changes nothing.
\<close>

theorem RelCatalog_add_get_remove:
  assumes "catalogs_ok s nr na" "RelDesc_wf d" "plain (rd_name d)" "length (rd_name d) < MAXNAME"
    and "rd_name d \<notin> rd_name ` set (rel_descs s nr)"
  shows "\<exists>st u nr'. RelCatalog_addInfo s d = Some (st, u) \<and> catalogs_ok u nr' na \<and> attr_descs u na = attr_descs s na \<and>
    (if st = OK
     then \<exists>d' v w. RelCatalog_getInfo u (rd_name d) = Some (Inr d', v) \<and> rd_name d' = rd_name d \<and>
       rd_attrCnt d' = rd_attrCnt d \<and> RelCatalog_removeInfo v (rd_name d) = Some (OK, w) \<and>
       catalogs_ok w nr' na \<and> mset (rel_descs w nr') = mset (rel_descs s nr)
     else mset (rel_descs u nr') = mset (rel_descs s nr))"
proof -
  let ?n = "rd_name d"
  have R: "ready s" "catalog_ok s RELCATNAME sizeof_RelDesc nr" using assms(1) by (simp_all add: catalogs_ok_def)
  from RelCatalog_addInfo_ok [OF R assms(2,4)] obtain st u nr' d' where
    A: "RelCatalog_addInfo s d = Some (st, u)" "ready u" "closed_again s RELCATNAME u"
      "catalog_ok u RELCATNAME sizeof_RelDesc nr'" "rd_name d' = ?n" "rd_attrCnt d' = rd_attrCnt d"
      "mset (rel_descs u nr') = (if st = OK then add_mset d' (mset (rel_descs s nr)) else mset (rel_descs s nr))" by blast
  note U = rel_changed [OF assms(1) A(2-4)]
  have "\<exists>v w. RelCatalog_getInfo u ?n = Some (Inr d', v) \<and> RelCatalog_removeInfo v ?n = Some (OK, w) \<and>
      catalogs_ok w nr' na \<and> mset (rel_descs w nr') = mset (rel_descs s nr)" if ok: "st = OK"
  proof -
    have "filter (\<lambda>d. rd_name d = ?n) (rel_descs s nr) = []" using assms(5) unfolding filter_empty_conv by (metis imageI)
    then have f: "filter (\<lambda>d. rd_name d = ?n) (rel_descs u nr') = [d']"
      using mset_filter_none [of "rel_descs u nr'" d' "rel_descs s nr"] A(5,7) ok by simp
    from rel_lookup [OF U(1) assms(3,4)] obtain v where
      V: "RelCatalog_getInfo u ?n = Some (Inr d', v)" "catalogs_ok v nr' na" "rel_descs v nr' = rel_descs u nr'"
      unfolding f by auto
    have v: "ready v" "catalog_ok v RELCATNAME sizeof_RelDesc nr'" using V(2) by (simp_all add: catalogs_ok_def)
    from RelCatalog_removeInfo_ok [OF v assms(3,4)] obtain w where
      W: "RelCatalog_removeInfo v ?n = Some (OK, w)" "ready w" "closed_again v RELCATNAME w"
        "catalog_ok w RELCATNAME sizeof_RelDesc nr'" "mset (rel_descs v nr') = add_mset d' (mset (rel_descs w nr'))"
      unfolding V(3) f by auto
    then show ?thesis using V(1,3) rel_changed(1) [OF V(2) W(2-4)] A(7) ok by auto
  qed
  then show ?thesis using A(1,5-7) U
    by (intro exI [of _ st] exI [of _ u] exI [of _ nr']) (cases "st = OK", auto)
qed

lemma demo_add: "map_option fst (RelCatalog_addInfo demo_cat demo_desc) = Some OK"
  by code_simp

theorem RelCatalog_add_get_remove_witness:
  "\<exists>u d' v w. RelCatalog_addInfo demo_cat demo_desc = Some (OK, u) \<and>
     RelCatalog_getInfo u ''r'' = Some (Inr d', v) \<and> rd_name d' = ''r'' \<and> rd_attrCnt d' = 1 \<and>
     RelCatalog_removeInfo v ''r'' = Some (OK, w)"
  using RelCatalog_add_get_remove [OF demo_cat_ok(1) demo_desc(1)] demo_desc demo_add demo_cat_ok(2)
  by (auto simp: demo_desc_def)

subsection \<open>Destroying a relation\<close>

text \<open>
  C26. \<open>destroyRel\<close> on a relation that both catalogs know. All its attribute descriptions and its
  first description in the relation catalog are removed, descriptions of other relations stay.
  Then the file is removed when it is closed; when the relation is still open, \<open>FILEOPEN\<close> is
  reported although the catalogs have already forgotten the relation.
\<close>

theorem destroyRel_correct:
  assumes "catalogs_ok s nr na" "plain n" "length n < MAXNAME" "n \<noteq> RELCATNAME" "n \<noteq> ATTRCATNAME"
    and "n \<in> rd_name ` set (rel_descs s nr)" "n \<in> ad_rel ` set (attr_descs s na)"
    and "\<forall>d \<in> set (attr_descs s na). ad_rel d = n \<longrightarrow> ad_attr d \<noteq> []"
  shows "\<exists>u. destroyRel s n = Some (if oft_map (openFiles s) n \<noteq> None then FILEOPEN
        else if files s n = None then UNIXERR else OK, u) \<and>
    catalogs_ok u nr na \<and> (oft_map (openFiles s) n = None \<longrightarrow> files u n = None) \<and>
    mset (attr_descs u na) = filter_mset (\<lambda>d. ad_rel d \<noteq> n) (mset (attr_descs s na)) \<and>
    (\<exists>d. rd_name d = n \<and> mset (rel_descs s nr) = add_mset d (mset (rel_descs u nr)))"
proof -
  have R: "ready s" "catalog_ok s ATTRCATNAME sizeof_AttrDesc na" using assms(1) by (simp_all add: catalogs_ok_def)
  have "\<exists>d \<in> set (attr_descs s na). ad_rel d = n" using assms(7) by auto
  with dropRelation_ok [OF R assms(2,3,8)] obtain t where
    T: "dropRelation s n = Some (OK, t)" "ready t" "closed_again s ATTRCATNAME t" "catalog_ok t ATTRCATNAME sizeof_AttrDesc na"
      "mset (attr_descs t na) = filter_mset (\<lambda>d. ad_rel d \<noteq> n) (mset (attr_descs s na))" by auto
  note C = attr_changed [OF assms(1) T(2-4)]
  have cr: "catalog_ok t RELCATNAME sizeof_RelDesc nr" using C(1) by (simp add: catalogs_ok_def)
  obtain d ds where f: "filter (\<lambda>d. rd_name d = n) (rel_descs t nr) = d # ds"
    using assms(6) C(2) by (cases "filter (\<lambda>d. rd_name d = n) (rel_descs t nr)") (auto simp: filter_empty_conv)
  then have "d \<in> set (filter (\<lambda>d. rd_name d = n) (rel_descs t nr))" by simp
  then have d: "rd_name d = n" by simp
  from RelCatalog_removeInfo_ok [OF T(2) cr assms(2,3)] obtain v where
    V: "RelCatalog_removeInfo t n = Some (OK, v)" "ready v" "closed_again t RELCATNAME v"
      "catalog_ok v RELCATNAME sizeof_RelDesc nr" "mset (rel_descs t nr) = add_mset d (mset (rel_descs v nr))"
    unfolding f by auto
  note D = rel_changed [OF C(1) V(2-4)]
  have o: "oft_map (openFiles v) n = oft_map (openFiles s) n" using T(3) V(3) by (simp add: closed_again_def)
  have fl: "oft_map (openFiles s) n = None \<Longrightarrow> files v n = None \<longleftrightarrow> files s n = None"
    using T(3) V(3) assms(4,5) by (simp add: closed_again_def file_view_None [symmetric])
  have run: "destroyRel s n = Some (destroyHeapFile v n)"
    using T(1) V(1) assms(2,4,5) by (simp add: destroyRel_def plain_def)
  have n: "n \<noteq> []" using assms(2) by (simp add: plain_def)
  show ?thesis
  proof (cases "oft_map (openFiles s) n = None \<and> files s n \<noteq> None")
    case True
    let ?u = "v\<lparr>files := (files v)(n := None)\<rparr>"
    have "destroyHeapFile v n = (OK, ?u)"
      using True o fl n by (auto simp: destroyHeapFile_def DB_destroyFile_def find_eq File_destroy_def)
    moreover have "catalogs_ok ?u nr na \<and> rel_descs ?u nr = rel_descs v nr \<and> attr_descs ?u na = attr_descs v na"
    proof -
      have "oft_map (openFiles v) n = None" using True o by simp
      note X = closed_file_ready [OF V(2) this refl, of None]
      have "rel_pages ?u RELCATNAME = rel_pages v RELCATNAME" "rel_pages ?u ATTRCATNAME = rel_pages v ATTRCATNAME"
        using X(2) assms(4,5) by auto
      then show ?thesis using X(1,3) D(1) assms(4,5)
        by (auto simp: catalogs_ok_def catalog_ok_def entries_def rel_descs_def attr_descs_def)
    qed
    ultimately show ?thesis using run True T(5) V(5) C(2) D(2) d by auto
  next
    case False
    then have "destroyHeapFile v n = (if oft_map (openFiles s) n \<noteq> None then FILEOPEN else UNIXERR, v)"
      using o fl n by (auto simp: destroyHeapFile_def DB_destroyFile_def find_eq File_destroy_def)
    then show ?thesis using run False T(5) V(5) C(2) D fl d by auto
  qed
qed

text \<open>The relation \<open>r\<close> with one attribute, entered in both catalogs.\<close>

definition demo_attr :: AttrDesc where
  "demo_attr = \<lparr>ad_relName = strcpy (replicate MAXNAME 0) ''r'', ad_attrName = strcpy (replicate MAXNAME 0) ''a'',
     ad_attrOffset = 0, ad_attrType = 1, ad_attrLen = 4\<rparr>"

lemma demo_attr: "AttrDesc_wf demo_attr" "ad_rel demo_attr = ''r''" "ad_attr demo_attr = ''a''"
  "length (ad_rel demo_attr) < MAXNAME" "length (ad_attr demo_attr) < MAXNAME"
  by code_simp+

definition demo_full :: dsys where
  "demo_full = (case RelCatalog_addInfo demo_cat demo_desc of
     Some (_, s) \<Rightarrow> (case AttrCatalog_addInfo s demo_attr of Some (_, s) \<Rightarrow> s | None \<Rightarrow> demo_cat) | None \<Rightarrow> demo_cat)"

lemma demo_add_both:
  "(case RelCatalog_addInfo demo_cat demo_desc of
     Some (st, s) \<Rightarrow> (st, map_option fst (AttrCatalog_addInfo s demo_attr)) | None \<Rightarrow> (NOTUSED1, None)) = (OK, Some OK)"
  by code_simp

lemma demo_full_ok:
  obtains nr na d where "catalogs_ok demo_full nr na" "map rd_name (rel_descs demo_full nr) = [''r'']"
    "attr_descs demo_full na = [d]" "ad_rel d = ''r''" "ad_attr d = ''a''"
    "oft_map (openFiles demo_full) ''r'' = None" "file_view demo_full ''r'' = Some (file_map demo_heap_pages)"
    "ad_attrOffset d = 0" "ad_attrType d = 1" "ad_attrLen d = 4" "\<forall>n. oft_map (openFiles demo_full) n = None"
    "8 \<le> card (free_frames (bufMgr demo_full))" "quota demo_full = 4"
proof -
  have R: "ready demo_cat" "catalog_ok demo_cat RELCATNAME sizeof_RelDesc [2]" using demo_cat_ok(1) by (simp_all add: catalogs_ok_def)
  have l: "length (rd_name demo_desc) < MAXNAME" using demo_desc(2,4) by simp
  from RelCatalog_addInfo_ok [OF R demo_desc(1) l] obtain st u nr e where
    A: "RelCatalog_addInfo demo_cat demo_desc = Some (st, u)" "ready u" "closed_again demo_cat RELCATNAME u"
      "catalog_ok u RELCATNAME sizeof_RelDesc nr" "rd_name e = rd_name demo_desc"
      "mset (rel_descs u nr) = (if st = OK then add_mset e (mset (rel_descs demo_cat [2])) else mset (rel_descs demo_cat [2]))"
    by blast
  have st: "st = OK" using demo_add_both A(1) by simp
  note U = rel_changed [OF demo_cat_ok(1) A(2-4)]
  have a: "catalog_ok u ATTRCATNAME sizeof_AttrDesc [2]" using U(1) by (simp add: catalogs_ok_def)
  from AttrCatalog_addInfo_ok [OF A(2) a demo_attr(1,4,5)] obtain st' w na d where
    B: "AttrCatalog_addInfo u demo_attr = Some (st', w)" "ready w" "closed_again u ATTRCATNAME w"
      "catalog_ok w ATTRCATNAME sizeof_AttrDesc na" "ad_rel d = ad_rel demo_attr" "ad_attr d = ad_attr demo_attr"
      "ad_attrOffset d = ad_attrOffset demo_attr" "ad_attrType d = ad_attrType demo_attr" "ad_attrLen d = ad_attrLen demo_attr"
      "mset (attr_descs w na) = (if st' = OK then add_mset d (mset (attr_descs u [2])) else mset (attr_descs u [2]))" by blast
  have st': "st' = OK" using demo_add_both A(1) B(1) by simp
  note W = attr_changed [OF U(1) B(2-4)]
  have w: "w = demo_full" using A(1) B(1) by (simp add: demo_full_def)
  have ad: "attr_descs w na = [d]" using B(10) st' U(2) demo_cat_ok(3) by (simp add: mset_single_iff_right)
  have "rel_descs w nr = [e]" using A(6) st W(2) demo_cat_ok(2) by (simp add: mset_single_iff_right)
  moreover have "oft_map (openFiles w) n = None" for n
    using A(3) B(3) by (simp add: closed_again_def demo_cat_def demo_rel_def oft_init)
  moreover have "file_view w ''r'' = file_view demo_cat ''r''"
    using A(3) B(3) by (simp add: closed_again_def demo_cat_def demo_rel_def oft_init RELCATNAME_def ATTRCATNAME_def)
  then have "file_view w ''r'' = Some (file_map demo_heap_pages)" by (simp add: file_view_def demo_cat_def demo_rel_def RELCATNAME_def ATTRCATNAME_def)
  moreover have "ad_attrOffset d = 0" "ad_attrType d = 1" "ad_attrLen d = 4" using B(7-9) by (simp_all add: demo_attr_def)
  moreover have "quota w = 4" using A(3) B(3) by (simp add: closed_again_def demo_cat_def demo_rel_def)
  moreover have "8 \<le> card (free_frames (bufMgr w))"
  proof -
    have "free_frames (bufMgr demo_cat) = {0..<8}" by (auto simp: free_frames_def demo_cat_def demo_rel_def BufMgr_init_def Let_def)
    then show ?thesis
      using closed_free_card [OF _ A(3)] closed_free_card [OF _ B(3)] R(1) A(2) by (simp add: ready_def)
  qed
  ultimately show ?thesis using that [of nr na d] W(1) ad A(5) B(5,6) demo_desc(2) demo_attr(2,3) w by simp
qed

theorem destroyRel_correct_witness:
  "\<exists>u nr na. destroyRel demo_full ''r'' = Some (OK, u) \<and> files u ''r'' = None \<and> catalogs_ok u nr na \<and>
     rel_descs u nr = [] \<and> attr_descs u na = []"
proof -
  obtain nr na d where F: "catalogs_ok demo_full nr na" "map rd_name (rel_descs demo_full nr) = [''r'']"
    "attr_descs demo_full na = [d]" "ad_rel d = ''r''" "ad_attr d = ''a''"
    "oft_map (openFiles demo_full) ''r'' = None" "file_view demo_full ''r'' = Some (file_map demo_heap_pages)" by (rule demo_full_ok)
  obtain e where e: "rel_descs demo_full nr = [e]" "rd_name e = ''r''" using F(2) by auto
  have ne: "''r'' \<noteq> RELCATNAME" "''r'' \<noteq> ATTRCATNAME" by (simp_all add: RELCATNAME_def ATTRCATNAME_def)
  have "files demo_full ''r'' \<noteq> None" using F(7) by (simp add: file_view_None [symmetric])
  with destroyRel_correct [OF F(1) demo_desc(3,4) ne] F(3-6) e obtain u where
    "destroyRel demo_full ''r'' = Some (OK, u)" "files u ''r'' = None" "catalogs_ok u nr na"
    "mset (attr_descs u na) = {#}" "\<exists>x. {#e#} = add_mset x (mset (rel_descs u nr))" by auto
  then show ?thesis by (intro exI [of _ u] exI [of _ nr] exI [of _ na]) auto
qed

end
