(* ===== verification/Clib.thy ===== *)
theory Clib
  imports Catalog
begin

text \<open>
  Conversion of strings to numbers as the query operators use it: \<open>atoi\<close>, and \<open>atof\<close> whose
  result is stored in a \<open>float\<close>. Numbers are read in the C locale. Values that \<open>atoi\<close> cannot
  represent have no defined result, which is \<open>None\<close>.
\<close>

subsection \<open>Integers\<close>

definition isspace :: "char \<Rightarrow> bool" where
  "isspace c \<longleftrightarrow> c = CHR '' '' \<or> 9 \<le> (of_char c :: nat) \<and> (of_char c :: nat) \<le> 13"

definition isdigit :: "char \<Rightarrow> bool" where
  "isdigit c \<longleftrightarrow> 48 \<le> (of_char c :: nat) \<and> (of_char c :: nat) \<le> 57"

definition digit_val :: "char \<Rightarrow> int" where
  "digit_val c = of_char c - 48"

definition digits_val :: "string \<Rightarrow> int" where
  "digits_val ds = foldl (\<lambda>v c. 10 * v + digit_val c) 0 ds"

text \<open>An optional sign; whether it is a minus, and the rest.\<close>

fun read_sign :: "string \<Rightarrow> bool \<times> string" where
  "read_sign [] = (False, [])"
| "read_sign (c # cs) = (if c = CHR ''-'' then (True, cs) else if c = CHR ''+'' then (False, cs) else (False, c # cs))"

definition read_int :: "string \<Rightarrow> int" where
  "read_int cs = (case read_sign cs of (neg, ds) \<Rightarrow>
     (let v = digits_val (takeWhile isdigit ds) in if neg then - v else v))"

definition atoi :: "string \<Rightarrow> int option" where
  "atoi cs = (let v = read_int (dropWhile isspace cs) in if - (2 ^ 31) \<le> v \<and> v < 2 ^ 31 then Some v else None)"

subsection \<open>Floating point\<close>

text \<open>
  Rounding a positive fraction \<open>n / d\<close> to a binary number \<open>m * 2 ^ e\<close> of \<open>p\<close> bits whose exponent
  is not below \<open>emin\<close>: to the nearest, halves to even.
\<close>

definition scaled_le :: "int \<Rightarrow> int \<Rightarrow> int \<Rightarrow> bool" where
  "scaled_le d n k \<longleftrightarrow> (if 0 \<le> k then d * 2 ^ nat k \<le> n else d \<le> n * 2 ^ nat (- k))"

function bit_len :: "int \<Rightarrow> int" where
  "bit_len n = (if n \<le> 0 then 0 else 1 + bit_len (n div 2))"
  by auto
termination by (relation "measure nat") auto

declare bit_len.simps [simp del]

text \<open>The position of the leading bit: the largest \<open>k\<close> with \<open>2 ^ k \<le> n / d\<close>, from the lengths of both.\<close>

definition leading_bit :: "int \<Rightarrow> int \<Rightarrow> int" where
  "leading_bit n d = (let k = bit_len n - bit_len d in if scaled_le d n k then k else k - 1)"

definition round_half_even :: "int \<Rightarrow> int \<Rightarrow> int" where
  "round_half_even n d = (let q = n div d; r = n mod d in if d < 2 * r \<or> d = 2 * r \<and> odd q then q + 1 else q)"

definition round_bits :: "nat \<Rightarrow> int \<Rightarrow> int \<Rightarrow> int \<Rightarrow> int \<times> int" where
  "round_bits p emin n d =
     (let e = max emin (leading_bit n d - (int p - 1))
      in (if 0 \<le> e then round_half_even n (d * 2 ^ nat e) else round_half_even (n * 2 ^ nat (- e)) d, e))"

text \<open>
  A decimal number \<open>M * 10 ^ E\<close> is rounded to a \<open>double\<close> and then to a \<open>float\<close>. The bits of a
  \<open>float\<close> without its sign count the representable numbers from zero on, so that the number
  \<open>m * 2 ^ e\<close> is \<open>(e + 149) * 2 ^ 23 + m\<close>; everything from \<open>255 * 2 ^ 23\<close> on is infinite.
\<close>

definition float_bits :: "int \<Rightarrow> int \<Rightarrow> int" where
  "float_bits m e = min (255 * 2 ^ 23) ((e + 149) * 2 ^ 23 + m)"

definition decimal_bits :: "int \<Rightarrow> int \<Rightarrow> int" where
  "decimal_bits M E =
     (if M = 0 then 0
      else
        (case round_bits 53 (- 1074) (if 0 \<le> E then M * 10 ^ nat E else M) (if 0 \<le> E then 1 else 10 ^ nat (- E)) of
           (m, e) \<Rightarrow>
             if m = 0 then 0
             else if 2047 * 2 ^ 52 \<le> (e + 1074) * 2 ^ 52 + m then 255 * 2 ^ 23
             else
               (case round_bits 24 (- 149) (if 0 \<le> e then m * 2 ^ nat e else m) (if 0 \<le> e then 1 else 2 ^ nat (- e)) of
                  (m', e') \<Rightarrow> float_bits m' e')))"

text \<open>The exponent part; without a digit it is not part of the number.\<close>

definition read_exponent :: "string \<Rightarrow> int" where
  "read_exponent cs =
     (case cs of
        [] \<Rightarrow> 0
      | c # cs \<Rightarrow> if c = CHR ''e'' \<or> c = CHR ''E'' then read_int cs else 0)"

text \<open>
  The four bytes of \<open>(float) atof(s)\<close>. Infinities, not-a-number and hexadecimal numbers are not
  modelled: the result for strings that begin with \<open>i\<close>, \<open>n\<close> or \<open>0x\<close> is \<open>None\<close>.
\<close>

definition atof_bytes :: "string \<Rightarrow> byte list option" where
  "atof_bytes cs =
     (case read_sign (dropWhile isspace cs) of (neg, cs) \<Rightarrow>
        (let whole = takeWhile isdigit cs;
             rest = drop (length whole) cs;
             frac = (if rest \<noteq> [] \<and> hd rest = CHR ''.'' then takeWhile isdigit (tl rest) else []);
             rest = (if whole = [] \<and> frac = [] then []
                     else if rest \<noteq> [] \<and> hd rest = CHR ''.'' then drop (length frac) (tl rest) else rest);
             bits = decimal_bits (digits_val (whole @ frac)) (read_exponent rest - int (length frac))
         in if cs \<noteq> [] \<and> hd cs \<in> {CHR ''i'', CHR ''I'', CHR ''n'', CHR ''N''} \<or> whole = ''0'' \<and> frac = [] \<and> rest \<noteq> [] \<and> hd rest \<in> {CHR ''x'', CHR ''X''}
            then None
            else Some (le_bytes 4 (bits + (if neg \<and> whole @ frac \<noteq> [] then 2 ^ 31 else 0)))))"

end
