(* ===== verification/Query.thy ===== *)
theory Query
  imports Clib
begin

text \<open>
  The query operators and the bulk loader (\<open>src/src/insert.C\<close>, \<open>src/src/delete.C\<close>,
  \<open>src/src/select.C\<close>, \<open>src/src/join.C\<close>, \<open>src/src/load.C\<close>) over heap files and catalogs.

  As below, \<open>None\<close> is the end of the program: a failed \<open>ASSERT\<close>, undefined behaviour, or a loop
  that does not end. Scan objects on the stack are destroyed at every \<open>return\<close>; the destructor
  of an object whose file could not be opened works on fields that were never set, which is
  undefined. Output and performance counters are left out.
\<close>

subsection \<open>Attribute values and records\<close>

text \<open>\<open>(Datatype) attrType\<close>; a value that is none of the three types is refused by \<open>startScan\<close> with \<open>BADSCANPARM\<close>.\<close>

definition datatype_of :: "int \<Rightarrow> Datatype option" where
  "datatype_of c = (if c = 0 then Some STRING else if c = 1 then Some INTEGER else if c = 2 then Some FLOAT else None)"

text \<open>The bytes of an attribute in a record; outside of the record there is nothing to read.\<close>

definition field :: "AttrDesc \<Rightarrow> byte list \<Rightarrow> byte list option" where
  "field d rec =
     (if 0 \<le> ad_attrOffset d \<and> 0 \<le> ad_attrLen d \<and> ad_attrOffset d + ad_attrLen d \<le> int (length rec)
      then Some (take (nat (ad_attrLen d)) (drop (nat (ad_attrOffset d)) rec)) else None)"

text \<open>\<open>memcpy(data + off, src, len)\<close>.\<close>

definition copy_into :: "byte list \<Rightarrow> int \<Rightarrow> byte list \<Rightarrow> int \<Rightarrow> byte list option" where
  "copy_into data off src len =
     (if 0 \<le> off \<and> 0 \<le> len \<and> len \<le> int (length src) \<and> off + len \<le> int (length data)
      then Some (take (nat off) data @ take (nat len) src @ drop (nat (off + len)) data) else None)"

text \<open>The sum of the lengths of attributes, in \<open>int\<close>.\<close>

definition total_len :: "AttrDesc list \<Rightarrow> int" where
  "total_len ds = foldl (\<lambda>len d. swrap 32 (len + ad_attrLen d)) 0 ds"

text \<open>The C string at the start of a buffer; without a terminator reading it leaves the buffer.\<close>

definition buffer_string :: "byte list \<Rightarrow> string option" where
  "buffer_string bs = (if 0 \<in> set bs then Some (c_string bs) else None)"

subsection \<open>Insertion\<close>

text \<open>
  The conversion of a value in its buffer: an integer or a float replaces the first four bytes
  of the text it was read from.
\<close>

definition convert_value :: "int \<Rightarrow> byte list \<Rightarrow> byte list option" where
  "convert_value ty v =
     (let overwrite = (\<lambda>bs. copy_into v 0 bs 4)
      in if datatype_of ty = Some INTEGER then
           Option.bind (buffer_string v) (\<lambda>cs. Option.bind (atoi cs) (\<lambda>x. overwrite (le_bytes 4 x)))
         else if datatype_of ty = Some FLOAT then
           Option.bind (buffer_string v) (\<lambda>cs. Option.bind (atof_bytes cs) overwrite)
         else Some v)"

text \<open>\<open>infoMap\<close>: the description with a given name, the last one if there are several.\<close>

definition info_map :: "AttrDesc list \<Rightarrow> string \<rightharpoonup> AttrDesc" where
  "info_map ds = foldl (\<lambda>mp d. mp(c_string (ad_attrName d) \<mapsto> d)) Map.empty ds"

fun fill_data :: "(string \<rightharpoonup> AttrDesc) \<Rightarrow> attrInfo list \<Rightarrow> byte list \<Rightarrow> (Status + byte list) option" where
  "fill_data mp [] data = Some (Inr data)"
| "fill_data mp (a # as) data =
     (case ai_attrValue a of
        None \<Rightarrow> Some (Inl BADCATPARM)
      | Some v \<Rightarrow>
          (case mp (c_string (ai_attrName a)) of
             None \<Rightarrow> Some (Inl BADCATPARM)
           | Some d \<Rightarrow>
               Option.bind (convert_value (ad_attrType d) v)
                 (\<lambda>v. Option.bind (copy_into data (ad_attrOffset d) v (ad_attrLen d)) (fill_data mp as))))"

text \<open>
  \<open>junk\<close> is what the array for the record holds before it is filled. Every value has a buffer
  of its own, which the caller frees afterwards.
\<close>

definition QU_Insert :: "(nat \<Rightarrow> byte) \<Rightarrow> 'a dsys_scheme \<Rightarrow> string \<Rightarrow> attrInfo list \<Rightarrow>
    (Status \<times> 'a dsys_scheme) option" where
  "QU_Insert junk s relname attrList =
     (case AttrCatalog_getRelInfo s relname of
        None \<Rightarrow> None
      | Some (Inl st, s) \<Rightarrow> Some (st, s)
      | Some (Inr ds, s) \<Rightarrow>
          if length attrList \<noteq> length ds then Some (BADCATPARM, s)
          else
            (let len = total_len ds
             in if len \<le> 0 then None
                else
                  (case fill_data (info_map ds) attrList (map junk [0..<nat len]) of
                     None \<Rightarrow> None
                   | Some (Inl st) \<Rightarrow> Some (st, s)
                   | Some (Inr data) \<Rightarrow>
                       (case InsertFileScan_init s relname of
                          None \<Rightarrow> None
                        | Some ((st, h), s) \<Rightarrow>
                            if st \<noteq> OK then Some (st, InsertFileScan_destroy s h)
                            else
                              (case insertRecord s h data of
                                 None \<Rightarrow> None
                               | Some (r, h, s) \<Rightarrow>
                                   Some (case r of Inl st \<Rightarrow> st | Inr _ \<Rightarrow> OK, InsertFileScan_destroy s h))))))"

subsection \<open>Deletion\<close>

text \<open>The filter of a scan from the text of a constant.\<close>

definition filter_value :: "Datatype \<Rightarrow> string \<Rightarrow> byte list option" where
  "filter_value ty v =
     (case ty of
        INTEGER \<Rightarrow> map_option (le_bytes 4) (atoi v)
      | FLOAT \<Rightarrow> atof_bytes v
      | STRING \<Rightarrow> Some (c_bytes v))"

partial_function (option) delete_loop :: "'a bsys_scheme \<Rightarrow> HeapFileScan \<Rightarrow>
    (Status \<times> HeapFileScan \<times> 'a bsys_scheme) option" where
  "delete_loop s h =
     (case scanNext s h of
        None \<Rightarrow> None
      | Some (Inl _, h, s) \<Rightarrow> Some (OK, h, s)
      | Some (Inr _, h, s) \<Rightarrow>
          (case HeapFileScan_deleteRecord s h of
             None \<Rightarrow> None
           | Some (st, h, s) \<Rightarrow> if st \<noteq> OK then Some (st, h, s) else delete_loop s h))"

definition QU_Delete :: "'a dsys_scheme \<Rightarrow> string \<Rightarrow> string \<Rightarrow> Operator \<Rightarrow> Datatype \<Rightarrow> string \<Rightarrow>
    (Status \<times> 'a dsys_scheme) option" where
  "QU_Delete s relname attrName op ty attrValue =
     (case HeapFileScan_init s relname of
        None \<Rightarrow> None
      | Some (Inl _, s) \<Rightarrow> None
      | Some (Inr h, s) \<Rightarrow>
          (case (if attrName = [] then Some (startScan 0 0 STRING None EQ h, s)
                 else
                   (case AttrCatalog_getInfo s relname attrName of
                      None \<Rightarrow> None
                    | Some (Inl st, s) \<Rightarrow> Some ((st, h), s)
                    | Some (Inr d, s) \<Rightarrow>
                        (case filter_value ty attrValue of
                           None \<Rightarrow> None
                         | Some bs \<Rightarrow> Some (startScan (ad_attrOffset d) (ad_attrLen d) ty (Some bs) op h, s)))) of
             None \<Rightarrow> None
           | Some ((st, h), s) \<Rightarrow>
               if st \<noteq> OK then Some (st, HeapFileScan_destroy s h)
               else
                 (case delete_loop s h of
                    None \<Rightarrow> None
                  | Some (st, h, s) \<Rightarrow> Some (st, HeapFileScan_destroy s h))))"

subsection \<open>Selection\<close>

text \<open>The descriptions of the attributes in a projection list.\<close>

fun lookup_attrs :: "'a dsys_scheme \<Rightarrow> attrInfo list \<Rightarrow> ((Status + AttrDesc list) \<times> 'a dsys_scheme) option" where
  "lookup_attrs s [] = Some (Inr [], s)"
| "lookup_attrs s (a # as) =
     (case AttrCatalog_getInfo s (c_string (ai_relName a)) (c_string (ai_attrName a)) of
        None \<Rightarrow> None
      | Some (Inl st, s) \<Rightarrow> Some (Inl st, s)
      | Some (Inr d, s) \<Rightarrow>
          (case lookup_attrs s as of
             None \<Rightarrow> None
           | Some (r, s) \<Rightarrow> Some (map_sum id (\<lambda>ds. d # ds) r, s)))"

text \<open>The loop that copies the projected attributes behind each other into the output record.\<close>

fun project :: "AttrDesc list \<Rightarrow> byte list \<Rightarrow> byte list option" where
  "project [] rec = Some []"
| "project (d # ds) rec =
     (case (field d rec, project ds rec) of (Some bs, Some out) \<Rightarrow> Some (bs @ out) | _ \<Rightarrow> None)"

partial_function (option) select_loop :: "AttrDesc list \<Rightarrow> 'a bsys_scheme \<Rightarrow> HeapFileScan \<Rightarrow> HeapFile \<Rightarrow>
    (HeapFileScan \<times> HeapFile \<times> 'a bsys_scheme) option" where
  "select_loop ds s scan res =
     (case scanNext s scan of
        None \<Rightarrow> None
      | Some (Inl _, scan, s) \<Rightarrow> Some (scan, res, s)
      | Some (Inr _, scan, s) \<Rightarrow>
          (case HeapFileScan_getRecord s scan of
             Some (Inr rec) \<Rightarrow>
               (case project ds rec of
                  None \<Rightarrow> None
                | Some out \<Rightarrow>
                    (case insertRecord s res out of
                       Some (Inr _, res, s) \<Rightarrow> select_loop ds s scan res
                     | _ \<Rightarrow> None))
           | _ \<Rightarrow> None))"

definition ScanSelect :: "'a dsys_scheme \<Rightarrow> string \<Rightarrow> AttrDesc list \<Rightarrow> AttrDesc option \<Rightarrow> Operator \<Rightarrow> string \<Rightarrow> int \<Rightarrow>
    (Status \<times> 'a dsys_scheme) option" where
  "ScanSelect s result projNames attrDesc op fltr reclen =
     (case InsertFileScan_init s result of
        None \<Rightarrow> None
      | Some ((st, res), s) \<Rightarrow>
          if st \<noteq> OK then Some (st, InsertFileScan_destroy s res)
          else if projNames = [] \<or> reclen \<le> 0 then None
          else
            (case HeapFileScan_init s (c_string (ad_relName (hd projNames))) of
               None \<Rightarrow> None
             | Some (Inl _, s) \<Rightarrow> None
             | Some (Inr scan, s) \<Rightarrow>
                 (case (case attrDesc of
                          None \<Rightarrow> Some (startScan 0 0 STRING None EQ scan)
                        | Some d \<Rightarrow>
                            (case datatype_of (ad_attrType d) of
                               None \<Rightarrow> Some (BADSCANPARM, scan)
                             | Some ty \<Rightarrow>
                                 map_option (\<lambda>bs. startScan (ad_attrOffset d) (ad_attrLen d) ty (Some bs) op scan)
                                   (filter_value ty fltr))) of
                    None \<Rightarrow> None
                  | Some (st, scan) \<Rightarrow>
                      if st \<noteq> OK then Some (st, InsertFileScan_destroy (HeapFileScan_destroy s scan) res)
                      else
                        (case select_loop projNames s scan res of
                           None \<Rightarrow> None
                         | Some (scan, res, s) \<Rightarrow>
                             Some (OK, InsertFileScan_destroy (HeapFileScan_destroy s scan) res)))))"

definition QU_Select :: "'a dsys_scheme \<Rightarrow> string \<Rightarrow> attrInfo list \<Rightarrow> attrInfo option \<Rightarrow> Operator \<Rightarrow> string \<Rightarrow>
    (Status \<times> 'a dsys_scheme) option" where
  "QU_Select s result projNames attr op attrValue =
     (case lookup_attrs s projNames of
        None \<Rightarrow> None
      | Some (Inl st, s) \<Rightarrow> Some (st, s)
      | Some (Inr ds, s) \<Rightarrow>
          (case attr of
             None \<Rightarrow> ScanSelect s result ds None op [] (total_len ds)
           | Some a \<Rightarrow>
               (case AttrCatalog_getInfo s (c_string (ai_relName a)) (c_string (ai_attrName a)) of
                  None \<Rightarrow> None
                | Some (Inl st, s) \<Rightarrow> Some (st, s)
                | Some (Inr d, s) \<Rightarrow> ScanSelect s result ds (Some d) op attrValue (total_len ds))))"

subsection \<open>Joins\<close>

datatype JoinType = NLJoin | SMJoin | HashJoin

text \<open>The operator seen from the inner relation.\<close>

fun flip_op :: "Operator \<Rightarrow> Operator" where
  "flip_op EQ = EQ"
| "flip_op GT = LT"
| "flip_op GTE = LTE"
| "flip_op LT = GT"
| "flip_op LTE = GTE"
| "flip_op NE = NE"

text \<open>Attributes of the outer relation come from the outer record, all others from the inner one.\<close>

fun join_project :: "string \<Rightarrow> AttrDesc list \<Rightarrow> byte list \<Rightarrow> byte list \<Rightarrow> byte list option" where
  "join_project outer [] orec irec = Some []"
| "join_project outer (d # ds) orec irec =
     (case (field d (if c_string (ad_relName d) = outer then orec else irec), join_project outer ds orec irec) of
        (Some bs, Some out) \<Rightarrow> Some (bs @ out) | _ \<Rightarrow> None)"

partial_function (option) inner_loop :: "string \<Rightarrow> AttrDesc list \<Rightarrow> byte list \<Rightarrow> 'a bsys_scheme \<Rightarrow> HeapFileScan \<Rightarrow> HeapFile \<Rightarrow>
    (HeapFileScan \<times> HeapFile \<times> 'a bsys_scheme) option" where
  "inner_loop outer ds orec s scan res =
     (case scanNext s scan of
        None \<Rightarrow> None
      | Some (Inl _, scan, s) \<Rightarrow> Some (scan, res, s)
      | Some (Inr _, scan, s) \<Rightarrow>
          (case HeapFileScan_getRecord s scan of
             Some (Inr irec) \<Rightarrow>
               (case join_project outer ds orec irec of
                  None \<Rightarrow> None
                | Some out \<Rightarrow>
                    (case insertRecord s res out of
                       Some (Inr _, res, s) \<Rightarrow> inner_loop outer ds orec s scan res
                     | _ \<Rightarrow> None))
           | _ \<Rightarrow> None))"

text \<open>
  The scan of the inner relation for one outer record. The filter is a pointer into the outer
  record, of which as many bytes are read as the inner attribute is long. The status is not
  \<open>OK\<close> when the function returns from here.
\<close>

definition inner_scan :: "string \<Rightarrow> AttrDesc list \<Rightarrow> AttrDesc \<Rightarrow> AttrDesc \<Rightarrow> Operator \<Rightarrow> byte list \<Rightarrow> 'a dsys_scheme \<Rightarrow> HeapFile \<Rightarrow>
    (Status \<times> HeapFile \<times> 'a dsys_scheme) option" where
  "inner_scan outer ds d1 d2 op orec s res =
     (case HeapFileScan_init s (c_string (ad_relName d2)) of
        None \<Rightarrow> None
      | Some (Inl _, s) \<Rightarrow> None
      | Some (Inr scan, s) \<Rightarrow>
          (case (field (d1\<lparr>ad_attrLen := ad_attrLen d2\<rparr>) orec, datatype_of (ad_attrType d2)) of
             (_, None) \<Rightarrow> Some (BADSCANPARM, res, HeapFileScan_destroy s scan)
           | (Some bs, Some ty) \<Rightarrow>
               (case startScan (ad_attrOffset d2) (ad_attrLen d2) ty (Some bs) (flip_op op) scan of
                  (st, scan) \<Rightarrow>
                    if st \<noteq> OK then Some (st, res, HeapFileScan_destroy s scan)
                    else
                      (case inner_loop outer ds orec s scan res of
                         None \<Rightarrow> None
                       | Some (scan, res, s) \<Rightarrow> Some (OK, res, HeapFileScan_destroy s scan)))
           | _ \<Rightarrow> None))"

partial_function (option) outer_loop :: "AttrDesc list \<Rightarrow> AttrDesc \<Rightarrow> AttrDesc \<Rightarrow> Operator \<Rightarrow> 'a dsys_scheme \<Rightarrow> HeapFileScan \<Rightarrow>
    HeapFile \<Rightarrow> (Status \<times> HeapFileScan \<times> HeapFile \<times> 'a dsys_scheme) option" where
  "outer_loop ds d1 d2 op s scan res =
     (case scanNext s scan of
        None \<Rightarrow> None
      | Some (Inl _, scan, s) \<Rightarrow> Some (OK, scan, res, s)
      | Some (Inr _, scan, s) \<Rightarrow>
          (case HeapFileScan_getRecord s scan of
             Some (Inr orec) \<Rightarrow>
               (case inner_scan (c_string (ad_relName d1)) ds d1 d2 op orec s res of
                  None \<Rightarrow> None
                | Some (st, res, s) \<Rightarrow>
                    if st \<noteq> OK then Some (st, scan, res, s) else outer_loop ds d1 d2 op s scan res)
           | _ \<Rightarrow> None))"

definition QU_NL_Join :: "'a dsys_scheme \<Rightarrow> string \<Rightarrow> attrInfo list \<Rightarrow> attrInfo \<Rightarrow> Operator \<Rightarrow> attrInfo \<Rightarrow>
    (Status \<times> 'a dsys_scheme) option" where
  "QU_NL_Join s result projNames attr1 op attr2 =
     (if ai_attrType attr1 \<noteq> ai_attrType attr2 \<or> ai_attrLen attr1 \<noteq> ai_attrLen attr2 then Some (ATTRTYPEMISMATCH, s)
      else
        (case lookup_attrs s projNames of
           None \<Rightarrow> None
         | Some (Inl st, s) \<Rightarrow> Some (st, s)
         | Some (Inr ds, s) \<Rightarrow>
        (case lookup_attrs s [attr1, attr2] of
           None \<Rightarrow> None
         | Some (Inl st, s) \<Rightarrow> Some (st, s)
         | Some (Inr d12, s) \<Rightarrow>
        (let d1 = hd d12; d2 = last d12
         in case InsertFileScan_init s result of
           None \<Rightarrow> None
         | Some ((st, res), s) \<Rightarrow>
             if st \<noteq> OK then Some (st, InsertFileScan_destroy s res)
             else if total_len ds \<le> 0 then None
             else
               (case HeapFileScan_init s (c_string (ad_relName d1)) of
                  None \<Rightarrow> None
                | Some (Inl _, s) \<Rightarrow> None
                | Some (Inr scan, s) \<Rightarrow>
                    (case startScan 0 0 STRING None EQ scan of (st, scan) \<Rightarrow>
                       if st \<noteq> OK then Some (st, InsertFileScan_destroy (HeapFileScan_destroy s scan) res)
                       else
                         (case outer_loop ds d1 d2 op s scan res of
                            None \<Rightarrow> None
                          | Some (st, scan, res, s) \<Rightarrow>
                              Some (st, InsertFileScan_destroy (HeapFileScan_destroy s scan) res))))))))"

text \<open>The other two methods check the types and do nothing.\<close>

definition QU_SM_Join :: "'a dsys_scheme \<Rightarrow> string \<Rightarrow> attrInfo list \<Rightarrow> attrInfo \<Rightarrow> Operator \<Rightarrow> attrInfo \<Rightarrow>
    (Status \<times> 'a dsys_scheme) option" where
  "QU_SM_Join s result projNames attr1 op attr2 =
     (if ai_attrType attr1 \<noteq> ai_attrType attr2 \<or> ai_attrLen attr1 \<noteq> ai_attrLen attr2 then Some (ATTRTYPEMISMATCH, s)
      else Some (OK, s))"

definition QU_Hash_Join :: "'a dsys_scheme \<Rightarrow> string \<Rightarrow> attrInfo list \<Rightarrow> attrInfo \<Rightarrow> Operator \<Rightarrow> attrInfo \<Rightarrow>
    (Status \<times> 'a dsys_scheme) option" where
  "QU_Hash_Join s result projNames attr1 op attr2 =
     (if ai_attrType attr1 \<noteq> ai_attrType attr2 \<or> ai_attrLen attr1 \<noteq> ai_attrLen attr2 then Some (ATTRTYPEMISMATCH, s)
      else Some (OK, s))"

definition QU_Join :: "JoinType \<Rightarrow> 'a dsys_scheme \<Rightarrow> string \<Rightarrow> attrInfo list \<Rightarrow> attrInfo \<Rightarrow> Operator \<Rightarrow> attrInfo \<Rightarrow>
    (Status \<times> 'a dsys_scheme) option" where
  "QU_Join JoinMethod s result projNames attr1 op attr2 =
     (if JoinMethod = NLJoin \<or> JoinMethod = HashJoin \<and> op \<noteq> EQ then QU_NL_Join s result projNames attr1 op attr2
      else if JoinMethod = SMJoin then QU_SM_Join s result projNames attr1 op attr2
      else QU_Hash_Join s result projNames attr1 op attr2)"

subsection \<open>Loading and printing\<close>

text \<open>
  The Unix file to be loaded is the list of its bytes, \<open>None\<close> if it cannot be opened. Reading a
  regular file returns as many bytes as are asked for, or what is left. The early returns do
  not delete the scan object.
\<close>

partial_function (option) load_loop :: "nat \<Rightarrow> byte list \<Rightarrow> 'a bsys_scheme \<Rightarrow> HeapFile \<Rightarrow>
    (Status \<times> HeapFile \<times> 'a bsys_scheme) option" where
  "load_loop width bs s h =
     (if length bs < width then Some (OK, h, s)
      else
        (case insertRecord s h (take width bs) of
           None \<Rightarrow> None
         | Some (Inl st, h, s) \<Rightarrow> Some (st, h, s)
         | Some (Inr _, h, s) \<Rightarrow> load_loop width (drop width bs) s h))"

definition UT_Load :: "'a dsys_scheme \<Rightarrow> string \<Rightarrow> string \<Rightarrow> byte list option \<Rightarrow> (Status \<times> 'a dsys_scheme) option" where
  "UT_Load s relname filename content =
     (if relname = [] \<or> filename = [] \<or> relname = RELCATNAME \<or> relname = ATTRCATNAME then Some (BADCATPARM, s)
      else
        (case content of
           None \<Rightarrow> Some (UNIXERR, s)
         | Some bs \<Rightarrow>
             (case RelCatalog_getInfo s relname of
                None \<Rightarrow> None
              | Some (Inl st, s) \<Rightarrow> Some (st, s)
              | Some (Inr rd, s) \<Rightarrow>
                  (case AttrCatalog_getRelInfo s (c_string (rd_relName rd)) of
                     None \<Rightarrow> None
                   | Some (Inl st, s) \<Rightarrow> Some (st, s)
                   | Some (Inr ds, s) \<Rightarrow>
                       (case InsertFileScan_init s (c_string (rd_relName rd)) of
                          None \<Rightarrow> None
                        | Some ((st, h), s) \<Rightarrow>
                            if st \<noteq> OK then Some (st, s)
                            else if total_len ds < 0 then None
                            else
                              (case load_loop (nat (total_len ds)) bs s h of
                                 None \<Rightarrow> None
                               | Some (st, h, s) \<Rightarrow>
                                   if st \<noteq> OK then Some (st, s) else Some (OK, InsertFileScan_destroy s h)))))))"

text \<open>The widths of the columns; an attribute of another type leaves its width unset.\<close>

definition column_width :: "AttrDesc \<Rightarrow> int option" where
  "column_width d =
     (let namelen = int (length (c_string (ad_attrName d)))
      in case datatype_of (ad_attrType d) of
           Some STRING \<Rightarrow> Some (min (max namelen (ad_attrLen d)) 20)
         | Some _ \<Rightarrow> Some (min (max namelen 5) 7)
         | None \<Rightarrow> None)"

definition UT_computeWidth :: "AttrDesc list \<Rightarrow> int option list" where
  "UT_computeWidth ds = map column_width ds"

text \<open>The records that are printed, in order.\<close>

partial_function (option) print_loop :: "'a bsys_scheme \<Rightarrow> HeapFileScan \<Rightarrow> byte list list \<Rightarrow>
    (Status \<times> byte list list \<times> HeapFileScan \<times> 'a bsys_scheme) option" where
  "print_loop s h out =
     (case scanNext s h of
        None \<Rightarrow> None
      | Some (Inl st, h, s) \<Rightarrow> Some (st, out, h, s)
      | Some (Inr _, h, s) \<Rightarrow>
          (case HeapFileScan_getRecord s h of
             None \<Rightarrow> None
           | Some (Inl st) \<Rightarrow> Some (st, out, h, s)
           | Some (Inr rec) \<Rightarrow> print_loop s h (out @ [rec])))"

definition UT_Print :: "'a dsys_scheme \<Rightarrow> string \<Rightarrow> ((Status \<times> byte list list) \<times> 'a dsys_scheme) option" where
  "UT_Print s relname =
     (let relname = (if relname = [] then RELCATNAME else relname)
      in case RelCatalog_getInfo s relname of
           None \<Rightarrow> None
         | Some (Inl st, s) \<Rightarrow> Some ((st, []), s)
         | Some (Inr rd, s) \<Rightarrow>
             (case AttrCatalog_getRelInfo s (c_string (rd_relName rd)) of
                None \<Rightarrow> None
              | Some (Inl st, s) \<Rightarrow> Some ((st, []), s)
              | Some (Inr ds, s) \<Rightarrow>
                  if None \<in> set (UT_computeWidth ds) then None
                  else
                    (case HeapFileScan_init s (c_string (rd_relName rd)) of
                       None \<Rightarrow> None
                     | Some (Inl st, s) \<Rightarrow> Some ((st, []), s)
                     | Some (Inr h, s) \<Rightarrow>
                         (case startScan 0 0 INTEGER None EQ h of (st, h) \<Rightarrow>
                            if st \<noteq> OK then Some ((st, []), s)
                            else
                              (case print_loop s h [] of
                                 None \<Rightarrow> None
                               | Some (st, out, h, s) \<Rightarrow>
                                   if st \<noteq> FILEEOF then Some ((st, out), s)
                                   else
                                     (case endScan s h of (st, h, s) \<Rightarrow>
                                        if st \<noteq> OK then Some ((st, out), s)
                                        else Some ((OK, out), HeapFileScan_destroy s h)))))))"

text \<open>\<open>RelCatalog::help\<close>: the descriptions that are printed, or the contents of the relation catalog.\<close>

definition RelCatalog_help :: "'a dsys_scheme \<Rightarrow> string \<Rightarrow>
    ((Status \<times> (byte list list + RelDesc \<times> AttrDesc list) option) \<times> 'a dsys_scheme) option" where
  "RelCatalog_help s relname =
     (if relname = [] then map_option (\<lambda>((st, out), s). ((st, Some (Inl out)), s)) (UT_Print s RELCATNAME)
      else
        (case RelCatalog_getInfo s relname of
           None \<Rightarrow> None
         | Some (Inl st, s) \<Rightarrow> Some ((st, None), s)
         | Some (Inr rd, s) \<Rightarrow>
             (case AttrCatalog_getRelInfo s relname of
                None \<Rightarrow> None
              | Some (Inl st, s) \<Rightarrow> Some ((st, None), s)
              | Some (Inr ds, s) \<Rightarrow> Some ((OK, Some (Inr (rd, ds))), s))))"

end
