(* ===== verification/Query_Sessions.thy ===== *)
theory Query_Sessions
  imports Query Catalog_Props
begin

text \<open>
  Sessions inside each other. A query operator keeps a scan open while it looks up an attribute
  in the catalog. An operation on another relation that ends as it began leaves the scan where
  it is, provided that there are frames for both.
\<close>

subsection \<open>A scan and an operation on another relation\<close>

lemma flag_settled:
  assumes "holds t g q f" "holds u g q f" "flag_ok t g q fl f" "settled t g q \<Longrightarrow> settled u g q"
  shows "flag_ok u g q fl f"
proof (cases fl)
  case False
  have "flag_ok t g q False k" if "holds t g q k" for k
    using that assms(1,3) False by (auto simp: holds_def)
  then show ?thesis using assms(2,4) False by (simp add: settled_def)
qed (simp add: flag_ok_def)

text \<open>An object keeps its pages while something else happens.\<close>

lemma hf_ok_other:
  assumes "hf_ok t h ns" "buf_ok u" "\<forall>q f. holds t (hf_filePtr h) q f \<longrightarrow> holds u (hf_filePtr h) q f" "hf_filePtr h \<in> live u"
    and "logical u (hf_filePtr h) = logical t (hf_filePtr h)" "\<And>q. settled t (hf_filePtr h) q \<Longrightarrow> settled u (hf_filePtr h) q"
  shows "hf_ok u h ns"
proof -
  obtain fh fc where K: "hf_core t h ns fh fc" "flag_ok t (hf_filePtr h) (hf_headerPageNo h) (hf_hdrDirtyFlag h) fh"
    "flag_ok t (hf_filePtr h) (hf_curPageNo h) (hf_curDirtyFlag h) fc" using assms(1) by (rule hf_okE)
  note D = hf_coreD [OF K(1)]
  have H: "holds u (hf_filePtr h) (hf_headerPageNo h) fh" "holds u (hf_filePtr h) (hf_curPageNo h) fc"
    using D(7,8) assms(3) by simp_all
  have "hf_core u h ns fh fc" using D assms(2,4,5) H by (simp add: hf_core_def)
  moreover note flag_settled [OF D(7) H(1) K(2) assms(6)] flag_settled [OF D(8) H(2) K(3) assms(6)]
  ultimately show ?thesis unfolding hf_ok_def by blast
qed

lemma owned_other:
  assumes "owned s t h" "pins u = pins t" "pins_kept t u" "numBufs (bufMgr u) = numBufs (bufMgr t)"
    and "\<And>q. settled t (hf_filePtr h) q \<Longrightarrow> settled u (hf_filePtr h) q"
  shows "owned s u h"
  using assms unfolding owned_def pool_base_def pins_kept_def by metis

text \<open>Looking at a relation that is open anyway, such as a catalog.\<close>

lemma undisturbed_file:
  assumes "db_inv t" "undisturbed t cat nc u" "oft_map (openFiles t) cat = Some c" "g \<in> live t"
  shows "logical u g = logical t g" "settled t g q \<Longrightarrow> settled u g q" "objs u g = objs t g"
proof -
  have U: "closed_again t cat u" "relation u cat nc" "rel_pages u cat = rel_pages t cat"
    using assms(2) by (simp_all add: undisturbed_def)
  have o: "oft_map (openFiles u) cat = Some c" using U(1) assms(3) by (simp add: closed_again_def)
  have "g = c" if "fileName (objs t g) = cat" using db_invD(6) [OF assms(1), of cat g] assms(3,4) that by simp
  moreover have "logical u c = logical t c" "settled u c q" using U(2,3) o assms(3) by (simp_all add: rel_pages_def relation_def)
  ultimately show "logical u g = logical t g" "settled t g q \<Longrightarrow> settled u g q" "objs u g = objs t g"
    using U(1) assms(4) by (auto simp: closed_again_def)
qed

lemma opened_other:
  assumes "opened s name a t" "undisturbed t cat nc u" "oft_map (openFiles s) cat = Some c" "cat \<noteq> name"
  shows "opened s name a u"
proof -
  have O: "db_inv t" "a \<in> live t" "live s \<subseteq> live t" "oft_map (openFiles t) cat = Some c"
    using assms(1,3,4) by (auto simp: opened_def split: option.splits)
  have U: "closed_again t cat u" using assms(2) by (simp add: undisturbed_def)
  note F = undisturbed_file [OF O(1) assms(2) O(4)]
  have "logical u g = logical t g" "objs u g = objs t g" "settled t g q \<Longrightarrow> settled u g q" if "g \<in> live s" for g q
    using F [of g] O(3) that by auto
  moreover have "objs u a = objs t a" by (rule F(3) [OF O(2)])
  moreover have "file_view u n = file_view t n" if "n \<noteq> name" "oft_map (openFiles s) n = None" for n
  proof -
    have "oft_map (openFiles t) n = None" "n \<noteq> cat" using assms(1,3) that by (auto simp: opened_def split: option.splits)
    then show ?thesis using U by (simp add: closed_again_def)
  qed
  moreover have "db_inv u" "live u = live t" "heap_new u = heap_new t" "quota u = quota t" "numBufs (bufMgr u) = numBufs (bufMgr t)"
    "oft_map (openFiles u) = oft_map (openFiles t)" using U by (simp_all add: closed_again_def)
  ultimately show ?thesis
    using assms(1) O(2) by (cases "oft_map (openFiles s) name") (auto simp: opened_def)
qed

lemma cursor_other:
  assumes "cursor s name ns m flt (t, h) rest" "undisturbed t cat nc u" "oft_map (openFiles s) cat = Some c" "cat \<noteq> name"
  shows "cursor s name ns m flt (u, h) rest"
proof -
  let ?a = "hf_filePtr h"
  obtain rids where C: "logical t ?a = m" "hs_filter h = flt" "scanning s name t h ns rids" "rest = scan_records m ns flt rids"
    using assms(1) by (auto simp: cursor_def)
  have S: "opened s name ?a t" "scan_pos s t h ns rids" "hf_headerPageNo h = 1" "name \<noteq> []" using C(3) by (simp_all add: scanning_def)
  have O: "db_inv t" "?a \<in> live t" "oft_map (openFiles t) cat = Some c"
    using S(1) assms(3,4) by (auto simp: opened_def split: option.splits)
  have U: "db_inv u" "pins u = pins t" "pins_kept t u" "numBufs (bufMgr u) = numBufs (bufMgr t)" "live u = live t"
    using assms(2) by (simp_all add: undisturbed_def closed_again_def)
  note F = undisturbed_file [OF O(1) assms(2) O(3,2)]
  have "hf_ok u h xs" if "hf_ok t h xs" for xs
    using hf_ok_other [OF that db_invD(1) [OF U(1)]] U(3,5) O(2) F by (simp add: pins_kept_def)
  moreover have "owned s u h" if "owned s t h" by (rule owned_other [OF that U(2-4) F(2)])
  ultimately have "scan_pos s u h ns rids" using S(2) F(1) by (auto simp: scan_pos_def scan_at_def)
  moreover have "opened s name ?a u" by (rule opened_other [OF S(1) assms(2-4)])
  ultimately have "scanning s name u h ns rids" using S(3,4) by (simp add: scanning_def)
  then show ?thesis using C(1,2,4) F(1) by (auto simp: cursor_def)
qed

text \<open>With four free frames in the beginning, two are left during a scan.\<close>

lemma cursor_ready:
  assumes "ready s" "cursor s name ns m flt (t, h) rest" "4 \<le> card (free_frames (bufMgr s))"
  shows "ready t"
proof -
  obtain rids where C: "scanning s name t h ns rids" using assms(2) by (auto simp: cursor_def)
  then have O: "opened s name (hf_filePtr h) t" "scan_pos s t h ns rids" by (simp_all add: scanning_def)
  have "hf_ok t h ns" "owned s t h" using O(2) by (auto simp: scan_pos_def scan_at_def)
  then obtain fh fc where "hf_core t h ns fh fc" by (auto elim: hf_okE)
  from owned_frames [OF this \<open>owned s t h\<close>] have "two_free (bufMgr t)" using assms(3) by (simp add: two_free_iff)
  then show ?thesis using O(1) assms(1) by (simp add: ready_def opened_def)
qed

lemma opened_relation:
  assumes "opened s name a t" "relation s cat nc" "cat \<noteq> name"
  shows "relation t cat nc" "rel_pages t cat = rel_pages s cat"
proof -
  have o: "oft_map (openFiles t) cat = oft_map (openFiles s) cat" using assms(1,3) by (auto simp: opened_def split: option.splits)
  have "rel_pages t cat = rel_pages s cat \<and> (\<forall>c. oft_map (openFiles t) cat = Some c \<longrightarrow> (\<forall>q. settled t c q))"
  proof (cases "oft_map (openFiles s) cat")
    case None
    then have "file_view t cat = file_view s cat" using assms(1,3) by (simp add: opened_def)
    then show ?thesis using None o by (simp add: rel_pages_closed)
  next
    case (Some c)
    have O: "db_inv s" "fileName (objs t a) = name" using assms(1) by (simp_all add: opened_def)
    have c: "c \<in> live s" "fileName (objs s c) = cat" using db_invD(6) [OF O(1)] Some by auto
    then have "c \<noteq> a" using assms(1,3) by (auto simp: opened_def split: option.splits)
    then have X: "logical t c = logical s c" "\<And>q. settled s c q \<Longrightarrow> settled t c q" using assms(1) c by (auto simp: opened_def)
    then show ?thesis using assms(2) o Some by (auto simp: rel_pages_def relation_def)
  qed
  then show "rel_pages t cat = rel_pages s cat" "relation t cat nc" using assms(2) by (simp_all add: relation_def)
qed

subsection \<open>A relation that stays open\<close>

text \<open>What the constructor of a catalog object leaves behind.\<close>

lemma held_open:
  assumes "ready s" "relation s name ns" "4 \<le> card (free_frames (bufMgr s))"
  obtains h t where "HeapFile_init s name = Some (Inr h, t)" "ready t" "relation t name ns"
    "rel_pages t name = rel_pages s name" "oft_map (openFiles t) name = Some (hf_filePtr h)"
    "card (free_frames (bufMgr s)) \<le> card (free_frames (bufMgr t)) + 2"
    "\<And>n nn. n \<noteq> name \<Longrightarrow> relation s n nn \<Longrightarrow> relation t n nn \<and> rel_pages t n = rel_pages s n"
    "\<And>n. n \<noteq> name \<Longrightarrow> oft_map (openFiles t) n = oft_map (openFiles s) n"
proof -
  have R: "db_inv s" "allocator_ok (heap_new s)" "two_free (bufMgr s)" using assms(1) by (simp_all add: ready_def)
  obtain h t where H: "HeapFile_init s name = Some (Inr h, t)" "opened s name (hf_filePtr h) t" "hf_ok t h ns"
    "owned s t h" "hf_curPageNo h = hd ns" "hf_curRec h = NULLRID" "hf_headerPageNo h = 1"
    "logical t (hf_filePtr h) = rel_pages s name" by (rule HeapFile_init_ok [OF R(1,2) assms(2) R(3)])
  let ?a = "hf_filePtr h"
  have fl: "\<not> hf_hdrDirtyFlag h" "\<not> hf_curDirtyFlag h"
    using H(1) by (auto simp: HeapFile_init_def Let_def split: prod.splits sum.splits)
  obtain fh fc where K: "hf_core t h ns fh fc" "flag_ok t ?a (hf_headerPageNo h) (hf_hdrDirtyFlag h) fh"
    "flag_ok t ?a (hf_curPageNo h) (hf_curDirtyFlag h) fc" using H(3) by (rule hf_okE)
  note D = hf_coreD [OF K(1)]
  have st: "settled t ?a q" for q
    using H(4) K(2,3) fl D(7,8) by (cases "q = hf_headerPageNo h \<or> q = hf_curPageNo h") (auto simp: owned_def settled_def holds_def)
  have o: "oft_map (openFiles t) name = Some ?a" using H(2) by (auto simp: opened_def split: option.splits)
  have rp: "rel_pages t name = rel_pages s name" using H(8) o by (simp add: rel_pages_def)
  have rel: "relation t name ns" using assms(2) rp st o by (auto simp: relation_def)
  note fr = owned_frames [OF K(1) H(4)]
  have "ready t" using fr assms(1,3) H(2) by (simp add: ready_def opened_def two_free_iff)
  moreover have ot: "oft_map (openFiles t) n = oft_map (openFiles s) n" if "n \<noteq> name" for n
    using H(2) that by (auto simp: opened_def split: option.splits)
  moreover have "relation t n nn \<and> rel_pages t n = rel_pages s n" if "n \<noteq> name" "relation s n nn" for n nn
    using opened_relation [OF H(2) that(2,1)] by blast
  ultimately show ?thesis using that [OF H(1)] rel rp o fr by blast
qed

end
