(* ===== verification/Query_Pair.thy ===== *)
theory Query_Pair
  imports Query_Sessions
begin

text \<open>
  Two objects at once: the operators scan one relation and insert into another. The state after
  the scan would be closed serves as the state in which the inserting object lives alone.
\<close>

subsection \<open>Another base\<close>

text \<open>The pool without the pins of one object.\<close>

lemma rebase:
  assumes "hf_ok t h ns" "two_free (bufMgr t)"
  obtains b where "pool_base b t" "\<forall>g q. pins t g q = pins b g q + own h g q"
    "\<forall>g q f. g \<noteq> hf_filePtr h \<longrightarrow> holds t g q f \<longrightarrow> holds b g q f"
proof -
  let ?a = "hf_filePtr h" and ?C = "hf_curPageNo h" and ?H = "hf_headerPageNo h"
  obtain fh fc where K: "hf_core t h ns fh fc" using assms(1) by (rule hf_okE)
  note D = hf_coreD [OF K]
  have fl: "flag_ok x y z True w" for x y z w by (simp add: flag_ok_def)
  obtain st1 t1 where U1: "BufMgr_unPinPage t ?a ?C True = (st1, t1)" by fastforce
  note V1 = unPin_held [OF D(1,8) fl U1] and P1 = unPin_pins [OF D(1,8) fl U1] and B1 = unPin_back [OF D(1,8) fl U1]
  have h1: "holds t1 ?a ?H fh" using V1(5) [of ?a ?H fh] D(7,11) by auto
  obtain st2 t2 where U2: "BufMgr_unPinPage t1 ?a ?H True = (st2, t2)" by fastforce
  note V2 = unPin_held [OF V1(2) h1 fl U2] and P2 = unPin_pins [OF V1(2) h1 fl U2] and B2 = unPin_back [OF V1(2) h1 fl U2]
  have n: "numBufs (bufMgr t) = numBufs (bufMgr t2)" using B1 B2 by (simp add: steady_def)
  have "pinCnt (desc (bufMgr t2) i) = 0" if "pinCnt (desc (bufMgr t) i) = 0" for i
  proof -
    have "i \<noteq> fc" "i \<noteq> fh" using that D(7,8) by (auto simp: holds_def)
    then show ?thesis using V1(6) V2(6) that by simp
  qed
  then have "two_free (bufMgr t2)" using assms(2) n unfolding two_free_def by metis
  then have "pool_base t2 t" using V2(2) V1(7) V2(7) n by (auto simp: pool_base_def pins_kept_def)
  moreover have "pins t g q = pins t2 g q + own h g q" for g q using P1 P2 D(11) by (auto simp: own_def)
  moreover have "holds t2 g q f" if "g \<noteq> ?a" "holds t g q f" for g q f
    using that V1(5) [of g q f] V2(5) [of g q f] by simp
  ultimately show ?thesis using that [of t2] by blast
qed

subsection \<open>Closing the scan in the middle\<close>

text \<open>
  From \<open>b\<close> the second file was opened, then the first one was worked on. When the second file is
  closed again, the first one is open as before.
\<close>

lemma opened_swap:
  assumes "opened s n1 a1 b" "opened b n2 a2 t" "steady a1 t t'" "opened b' n2 a2 t'" "n1 \<noteq> n2" "a1 \<noteq> a2"
    and "relation b n2 ns" "relation b' n2 ns" "logical t a2 = rel_pages b n2" "logical t' a2 = rel_pages b' n2"
    and "\<forall>g q. g \<in> live b' \<longrightarrow> settled t' g q \<longrightarrow> settled b' g q"
  shows "opened s n1 a1 b'"
proof -
  have F: "live t' = live t" "openFiles t' = openFiles t" "objs t' = objs t" "heap_new t' = heap_new t" "quota t' = quota t"
    "numBufs (bufMgr t') = numBufs (bufMgr t)"
    using assms(3) buf_frame_dsys [of t t'] by (simp_all add: steady_def buf_frame_def)
  note B = opened_base [OF assms(2,4) F(1,2) fun_cong [OF F(3)]]
  have lv: "live b \<subseteq> live t" "live s \<subseteq> live b" "a1 \<in> live b" using assms(1,2) by (auto simp: opened_def split: option.splits)
  have a2: "a2 \<in> live t" using assms(2) by (simp add: opened_def)
  have pg: "rel_pages b' n2 = rel_pages b n2" using assms(3,6,9,10) a2 by (simp add: steady_def)
  have ob: "objs b' g = objs b g" if "g \<in> live b" for g
    using assms(2,4) that F(3) B(1,3) by (cases "g = a2") (simp_all add: opened_def)
  have G: "logical b' g = logical b g \<and> (\<forall>q. settled b g q \<longrightarrow> settled b' g q)" if g: "g \<in> live b" "g \<noteq> a1" for g
  proof (cases "g = a2")
    case True
    then have "oft_map (openFiles b) n2 = Some a2" using assms(2) g(1) by (auto simp: opened_def split: option.splits)
    then show ?thesis using pg assms(8) B(2) True by (simp add: rel_pages_def relation_def)
  next
    case False
    have "logical t g = logical b g \<and> (\<forall>q. settled b g q \<longrightarrow> settled t g q)" using assms(2) g(1) False by (simp add: opened_def)
    moreover have "logical t' g = logical t g \<and> (\<forall>q. settled t g q \<longrightarrow> settled t' g q)"
      using assms(3) g lv(1) by (auto simp: steady_def)
    moreover have "logical t' g = logical b' g" using assms(4) g(1) B(1) False by (simp add: opened_def)
    ultimately show ?thesis using assms(11) g(1) B(1) by simp
  qed
  have V: "file_view b' n = file_view b n" if n: "n \<noteq> n1" "oft_map (openFiles b) n = None" for n
  proof (cases "n = n2")
    case True
    have "files x n2 \<noteq> None" if "relation x n2 ns" "oft_map (openFiles x) n2 = None" for x :: "'a dsys_scheme"
      using that by (auto simp: relation_def rel_pages_def heap_wf_def split: option.splits)
    then have "file_view b n \<noteq> None" "file_view b' n \<noteq> None" using assms(7,8) n(2) B(2) True by (simp_all add: file_view_None)
    then show ?thesis using pg n(2) B(2) True by (auto simp: rel_pages_closed)
  next
    case False
    have "files t' n = files t n"
    proof -
      have "oft_map (openFiles t) n = None" using assms(2) n(2) False by (auto simp: opened_def split: option.splits)
      moreover have "db_inv t" using assms(2) by (simp add: opened_def)
      ultimately have "\<forall>g \<in> live t. unixFile (objs t g) \<noteq> Some n" using db_invD(6) [of t n] db_invD(8) [of t] by auto
      then show ?thesis using assms(3) by (simp add: steady_def buf_frame_def)
    qed
    moreover have "file_view t n = file_view b n" "file_view t' n = file_view b' n"
      using assms(2,4) n(2) False B(2) by (simp_all add: opened_def)
    ultimately show ?thesis by (simp add: file_view_def)
  qed
  have N: "oft_map (openFiles b) n = None" if "n \<noteq> n1" "oft_map (openFiles s) n = None" for n
    using assms(1) that by (auto simp: opened_def split: option.splits)
  have "db_inv b'" "heap_new b' = heap_new b" "quota b' = quota b" "numBufs (bufMgr b') = numBufs (bufMgr b)"
    using assms(2,4) F by (simp_all add: opened_def)
  moreover have "logical b' g = logical s g" "objs b' g = objs s g" "settled s g q \<Longrightarrow> settled b' g q"
    if "g \<in> live s" "g \<noteq> a1" for g q
    using assms(1) G [of g] ob [of g] lv(2) that by (auto simp: opened_def)
  moreover have "a1 \<in> live b'" "fileName (objs b' a1) = n1" using lv(3) B(1) ob [OF lv(3)] assms(1) by (simp_all add: opened_def)
  moreover have "file_view b' n = file_view s n" if "n \<noteq> n1" "oft_map (openFiles s) n = None" for n
    using V [OF that(1) N [OF that]] assms(1) that by (simp add: opened_def)
  ultimately show ?thesis
    using assms(1) B(1,2) ob [OF lv(3)] by (cases "oft_map (openFiles s) n1") (auto simp: opened_def)
qed

subsection \<open>A scan beside an insertion\<close>

definition scan_insert :: "'a dsys_scheme \<Rightarrow> string \<Rightarrow> HeapFile \<Rightarrow> int list \<Rightarrow> string \<Rightarrow> int list \<Rightarrow> (int \<Rightarrow> memory option) \<Rightarrow>
    scan_filter option \<Rightarrow> 'a dsys_scheme \<times> HeapFileScan \<Rightarrow> (RID \<times> byte list) list \<Rightarrow> bool" where
  "scan_insert s n1 h1 ns1 n2 ns2 m flt c rest \<longleftrightarrow> n1 \<noteq> n2 \<and> 6 \<le> card (free_frames (bufMgr s)) \<and>
     (\<exists>b. inserting s n1 b h1 ns1 \<and> relation b n2 ns2 \<and> rel_pages b n2 = m \<and> cursor b n2 ns2 m flt c rest)"

text \<open>The pages of the relation that is filled.\<close>

lemma scan_insert_file:
  assumes "inserting s n1 b h1 ns1" "cursor b n2 ns2 m flt (t, h2) rest" "n1 \<noteq> n2"
  shows "hf_filePtr h1 \<noteq> hf_filePtr h2" "logical t (hf_filePtr h1) = logical b (hf_filePtr h1)" "hf_ok t h1 ns1"
    "db_inv t" "opened b n2 (hf_filePtr h2) t" "hf_ok t h2 ns2" "owned b t h2" "logical t (hf_filePtr h2) = m"
    "hf_headerPageNo h2 = 1" "n2 \<noteq> []"
proof -
  let ?a1 = "hf_filePtr h1" and ?a2 = "hf_filePtr h2"
  have I: "opened s n1 ?a1 b" "hf_ok b h1 ns1" "db_inv b" using assms(1) by (simp_all add: inserting_def opened_def)
  obtain rids where C: "scanning b n2 t h2 ns2 rids" "logical t ?a2 = m" using assms(2) by (auto simp: cursor_def)
  then have S: "opened b n2 ?a2 t" "scan_pos b t h2 ns2 rids" "hf_headerPageNo h2 = 1" "n2 \<noteq> []" by (simp_all add: scanning_def)
  have K: "hf_ok t h2 ns2" "owned b t h2" using S(2) by (auto simp: scan_pos_def scan_at_def)
  have a1: "?a1 \<in> live b" "fileName (objs b ?a1) = n1" using I(1) by (simp_all add: opened_def)
  have a2: "fileName (objs t ?a2) = n2" "db_inv t" "live b \<subseteq> live t" using S(1) by (auto simp: opened_def split: option.splits)
  show ne: "?a1 \<noteq> ?a2"
  proof
    assume "?a1 = ?a2"
    then have "oft_map (openFiles b) n2 = Some ?a1" using S(1) a1(1) by (auto simp: opened_def split: option.splits)
    then show False using db_invD(6) [OF I(3), of n2 ?a1] a1(2) assms(3) by simp
  qed
  have X: "logical t ?a1 = logical b ?a1" "\<And>q. settled b ?a1 q \<Longrightarrow> settled t ?a1 q" using S(1) a1(1) ne by (simp_all add: opened_def)
  have "pins_kept b t" using K(2) by (simp add: owned_def pool_base_def)
  then show "hf_ok t h1 ns1"
    using hf_ok_other [OF I(2) db_invD(1) [OF a2(2)]] X a1(1) a2(3) by (auto simp: pins_kept_def)
  show "logical t ?a1 = logical b ?a1" "db_inv t" "opened b n2 ?a2 t" "hf_ok t h2 ns2" "owned b t h2" "logical t ?a2 = m"
    "hf_headerPageNo h2 = 1" "n2 \<noteq> []"
    using X(1) a2(2) S K C(2) by simp_all
qed

text \<open>The scan moves on; the inserting object is not concerned.\<close>

lemma scan_insert_next:
  assumes "scan_insert s n1 h1 ns1 n2 ns2 m flt (t, h2) rest"
  shows "\<exists>h' t'. logical t' (hf_filePtr h1) = logical t (hf_filePtr h1) \<and> (case rest of
      [] \<Rightarrow> scanNext t h2 = Some (Inl FILEEOF, h', t') \<and> scan_insert s n1 h1 ns1 n2 ns2 m flt (t', h') []
    | x # xs \<Rightarrow> scanNext t h2 = Some (Inr (fst x), h', t') \<and> HeapFileScan_getRecord t' h' = Some (Inr (snd x)) \<and>
        scan_insert s n1 h1 ns1 n2 ns2 m flt (t', h') xs)"
proof -
  obtain b where b: "inserting s n1 b h1 ns1" "relation b n2 ns2" "rel_pages b n2 = m" "cursor b n2 ns2 m flt (t, h2) rest"
    "n1 \<noteq> n2" "6 \<le> card (free_frames (bufMgr s))" using assms by (auto simp: scan_insert_def)
  then have X: "logical t' (hf_filePtr h1) = logical t (hf_filePtr h1) \<and> scan_insert s n1 h1 ns1 n2 ns2 m flt (t', h') xs"
    if "cursor b n2 ns2 m flt (t', h') xs" for t' h' xs
    using that scan_insert_file(2) [OF b(1) that b(5)] scan_insert_file(2) [OF b(1,4,5)] unfolding scan_insert_def by auto
  show ?thesis using cursor_next [OF b(4)] X by (cases rest) (simp, blast)+
qed

text \<open>Closing a scan, seen from the state before.\<close>

lemma destroy_back:
  assumes "db_inv t" "fileName (objs t (hf_filePtr h)) = name" "hf_ok t h ns" "hf_headerPageNo h = 1" "name \<noteq> []"
    and "\<And>q. q \<noteq> hf_headerPageNo h \<Longrightarrow> q \<noteq> hf_curPageNo h \<Longrightarrow> settled t (hf_filePtr h) q"
    and "openCnt (objs t (hf_filePtr h)) = 1 \<longrightarrow> (\<forall>q. pins t (hf_filePtr h) q = own h (hf_filePtr h) q)"
  defines "u \<equiv> HeapFileScan_destroy t h"
  shows "opened u name (hf_filePtr h) t" "\<And>g q. pins t g q = pins u g q + own h g q" "pins_kept u t"
    "rel_pages u name = logical t (hf_filePtr h)" "relation u name ns"
    "\<And>g q. g \<in> live u \<Longrightarrow> settled t g q \<Longrightarrow> settled u g q"
    "\<And>g q f. g \<noteq> hf_filePtr h \<Longrightarrow> holds t g q f \<Longrightarrow> holds u g q f"
proof -
  let ?a = "hf_filePtr h"
  obtain f where "hf_curPage h = Frame f" using assms(3) by (auto elim!: hf_okE dest: hf_coreD(6))
  then have "u = snd (DB_closeFile (snd (BufMgr_unPinPage
      (snd (BufMgr_unPinPage t ?a (hf_curPageNo h) (hf_curDirtyFlag h))) ?a (hf_headerPageNo h) (hf_hdrDirtyFlag h))) ?a)"
    by (simp add: u_def HeapFileScan_destroy_def endScan_def HeapFile_destroy_def case_prod_beta)
  note B = end_back [OF assms(1-5) impI assms(6,7) surjective_pairing surjective_pairing surjective_pairing,
      where dt = "hf_curDirtyFlag h", folded this]
  show "opened u name ?a t" "\<And>g q. pins t g q = pins u g q + own h g q" "pins_kept u t"
    "rel_pages u name = logical t ?a" "relation u name ns"
    "\<And>g q. g \<in> live u \<Longrightarrow> settled t g q \<Longrightarrow> settled u g q" "\<And>g q f. g \<noteq> ?a \<Longrightarrow> holds t g q f \<Longrightarrow> holds u g q f"
    using B by simp_all
qed

lemma scan_pos_other:
  "scan_pos b t h ns rids \<Longrightarrow> hf_ok t' h ns \<Longrightarrow> owned b' t' h \<Longrightarrow> logical t' (hf_filePtr h) = logical t (hf_filePtr h) \<Longrightarrow>
    scan_pos b' t' h ns rids"
  by (auto simp: scan_pos_def scan_at_def)

text \<open>
  The state between: after an insertion beside a scan, the scan can be closed, which leaves the
  inserting object alone, and opened again to where it is.
\<close>

lemma beside_closed:
  assumes I: "inserting s n1 b h1 ns1" and C: "cursor b n2 ns2 m flt (t, h2) rest" and ne: "n1 \<noteq> n2"
    and rb: "relation b n2 ns2" "rel_pages b n2 = m" and fr: "4 \<le> card (free_frames (bufMgr s))"
    and B: "pool_base c t" "\<forall>g q. pins t g q = pins c g q + own h1 g q"
      "\<forall>g q f. g \<noteq> hf_filePtr h1 \<longrightarrow> holds t g q f \<longrightarrow> holds c g q f"
    and W: "hf_filePtr h' = hf_filePtr h1" "hf_headerPageNo h' = 1" "steady (hf_filePtr h1) t t'" "owned c t' h'"
      "hf_ok t' h' ns'" "hf_curPageNo h' = last ns'"
  defines "u \<equiv> HeapFileScan_destroy t' h2"
  shows "inserting s n1 u h' ns'" "relation u n2 ns2" "rel_pages u n2 = m" "cursor u n2 ns2 m flt (t', h2) rest"
proof -
  let ?a1 = "hf_filePtr h1" and ?a2 = "hf_filePtr h2"
  note F = scan_insert_file [OF I C ne]
  have J: "opened s n1 ?a1 b" "owned s b h1" "n1 \<noteq> []" using I by (simp_all add: inserting_def)
  have ok: "buf_ok t'" using W(5) by (auto elim!: hf_okE dest: hf_coreD(1))
  have S: "live t' = live t" "objs t' = objs t" "buf_frame t t'" using W(3) by (simp_all add: steady_def buf_frame_def)
  have d: "db_inv t'" by (rule buf_frame_db_inv [OF F(4) S(3) ok])
  have a2: "?a2 \<in> live t" "fileName (objs t ?a2) = n2" using F(5) by (simp_all add: opened_def)
  have l2: "logical t' ?a2 = logical t ?a2" "\<And>q. settled t ?a2 q \<Longrightarrow> settled t' ?a2 q" using W(3) a2(1) F(1) by (simp_all add: steady_def)
  have P: "pins t' g q = pins s g q + own h2 g q + own h' g q" "pins c g q = pins s g q + own h2 g q" for g q
  proof -
    have "pins t g q = pins b g q + own h2 g q" "pins b g q = pins s g q + own h1 g q" "pins t' g q = pins c g q + own h' g q"
      using F(7) J(2) W(4) by (simp_all add: owned_def)
    then show "pins t' g q = pins s g q + own h2 g q + own h' g q" "pins c g q = pins s g q + own h2 g q" using B(2) by simp_all
  qed
  have kc: "pins_kept c t'" "pins_kept c t" "buf_ok s" "pins_kept s b" "pins_kept b t"
    using W(4) B(1) J(2) F(7) by (simp_all add: owned_def pool_base_def)
  have o2: "hf_ok t' h2 ns2"
    using hf_ok_other [OF F(6) ok] B(3) kc(1) F(1) a2(1) S(1) l2 by (auto simp: pins_kept_def)
  have st2: "settled t' ?a2 q" if "q \<noteq> hf_headerPageNo h2" "q \<noteq> hf_curPageNo h2" for q
    using F(7) l2(2) that by (simp add: owned_def)
  have cnt: "openCnt (objs t' ?a2) = 1 \<longrightarrow> (\<forall>q. pins t' ?a2 q = own h2 ?a2 q)"
  proof (intro impI allI)
    fix q
    assume "openCnt (objs t' ?a2) = 1"
    then have "oft_map (openFiles b) n2 = None" using opened_count [OF F(5)] S(2) by simp
    then have "oft_map (openFiles s) n2 = None" "?a2 \<notin> live b" using J(1) F(5) ne by (auto simp: opened_def split: option.splits)
    then have "?a2 \<notin> live s" using J(1) by (auto simp: opened_def split: option.splits)
    then have "pins s ?a2 q = 0" using pins_zero [OF kc(3)] holds_live [OF kc(3)] by blast
    then show "pins t' ?a2 q = own h2 ?a2 q" using P(1) W(1) F(1) by (simp add: own_def)
  qed
  note Z = destroy_back [OF d _ o2 F(9,10) st2 cnt, folded u_def]
  have Z: "opened u n2 ?a2 t'" "\<And>g q. pins t' g q = pins u g q + own h2 g q" "pins_kept u t'"
    "rel_pages u n2 = logical t' ?a2" "relation u n2 ns2" "\<And>g q. g \<in> live u \<Longrightarrow> settled t' g q \<Longrightarrow> settled u g q"
    "\<And>g q f. g \<noteq> ?a2 \<Longrightarrow> holds t' g q f \<Longrightarrow> holds u g q f"
    using Z a2(2) S(2) by simp_all
  show "relation u n2 ns2" by (rule Z(5))
  show m: "rel_pages u n2 = m" using Z(4) l2(1) F(8) by simp
  have op: "opened s n1 ?a1 u"
    using opened_swap [OF J(1) F(5) W(3) Z(1) ne F(1) rb(1) Z(5)] F(8) rb(2) Z(4,6) by simp
  have a1: "?a1 \<in> live u" "buf_ok u" using op db_invD(1) by (auto simp: opened_def)
  have l1: "logical t' ?a1 = logical u ?a1" using Z(1) a1(1) F(1) by (simp add: opened_def)
  have oku: "hf_ok u h' ns'"
    using hf_ok_other [OF W(5) a1(2)] Z(6,7) a1(1) l1 W(1) F(1) by simp
  have pu: "pins u g q = pins s g q + own h' g q" for g q using P(1) Z(2) by (smt (verit))
  have "holds u g q f" if h: "holds s g q f" for g q f
  proof -
    have own0: "0 \<le> own x g q" for x :: "'x HeapFile_scheme" by (simp add: own_def)
    have p: "0 < pins s g q" using h pins_holds by blast
    have "0 < pins c g q" "0 < pins u g q" using p P(2) [of g q] pu [of g q] own0 [of h2] own0 [of h'] by simp_all
    then obtain f1 f2 where f: "holds c g q f1" "holds u g q f2" using pins_holds by meson
    have "holds t g q f1" "holds t g q f" "holds t' g q f1" "holds t' g q f2"
      using f kc Z(3) h by (simp_all add: pins_kept_def)
    then show ?thesis using f(2) by (simp add: holds_def)
  qed
  then have ks: "pins_kept s u" by (simp add: pins_kept_def)
  have n: "numBufs (bufMgr u) = numBufs (bufMgr s)" "two_free (bufMgr s)" using op fr by (simp_all add: opened_def two_free_iff)
  have "settled u ?a1 q" if "q \<noteq> hf_headerPageNo h'" "q \<noteq> hf_curPageNo h'" for q
    using W(1,4) Z(6) a1(1) that by (simp add: owned_def)
  then have ow: "owned s u h'" using kc(3) ks n pu W(1) by (simp add: owned_def pool_base_def)
  show ins: "inserting s n1 u h' ns'" using op oku ow W J(3) by (simp add: inserting_def)
  obtain fh fc where "hf_core u h' ns' fh fc" using oku by (rule hf_okE)
  from owned_frames [OF this ow] have "two_free (bufMgr u)" using fr by (simp add: two_free_iff)
  then have ow2: "owned u t' h2"
    using a1(2) Z(1-3) st2 by (simp add: owned_def pool_base_def opened_def)
  obtain rids where R: "scanning b n2 t h2 ns2 rids" "hs_filter h2 = flt" "rest = scan_records m ns2 flt rids"
    using C by (auto simp: cursor_def)
  then have "scan_pos b t h2 ns2 rids" by (simp add: scanning_def)
  from scan_pos_other [OF this o2 ow2 l2(1)] have "scan_pos u t' h2 ns2 rids" .
  then show "cursor u n2 ns2 m flt (t', h2) rest"
    using R Z(1) F(8-10) l2(1) by (auto simp: cursor_def scanning_def)
qed

lemma scan_insert_base:
  assumes "scan_insert s n1 h1 ns1 n2 ns2 m flt (t, h2) rest"
  obtains b c where "inserting s n1 b h1 ns1" "cursor b n2 ns2 m flt (t, h2) rest" "n1 \<noteq> n2" "relation b n2 ns2" "rel_pages b n2 = m"
    "4 \<le> card (free_frames (bufMgr s))" "two_free (bufMgr t)" "pool_base c t" "\<forall>g q. pins t g q = pins c g q + own h1 g q"
    "\<forall>g q f. g \<noteq> hf_filePtr h1 \<longrightarrow> holds t g q f \<longrightarrow> holds c g q f" "owned c t h1" "hf_ok t h1 ns1"
proof -
  obtain b where b: "inserting s n1 b h1 ns1" "cursor b n2 ns2 m flt (t, h2) rest" "n1 \<noteq> n2" "relation b n2 ns2"
    "rel_pages b n2 = m" "6 \<le> card (free_frames (bufMgr s))" using assms by (auto simp: scan_insert_def)
  note F = scan_insert_file [OF b(1-3)]
  have J: "hf_ok b h1 ns1" "owned s b h1" using b(1) by (simp_all add: inserting_def)
  obtain fh fc fh' fc' where K: "hf_core b h1 ns1 fh fc" "hf_core t h2 ns2 fh' fc'" using J(1) F(6) by (auto elim!: hf_okE)
  have two: "two_free (bufMgr t)" using owned_frames [OF K(1) J(2)] owned_frames [OF K(2) F(7)] b(6) by (simp add: two_free_iff)
  obtain c where c: "pool_base c t" "\<forall>g q. pins t g q = pins c g q + own h1 g q"
    "\<forall>g q f. g \<noteq> hf_filePtr h1 \<longrightarrow> holds t g q f \<longrightarrow> holds c g q f" by (rule rebase [OF F(3) two])
  have "owned c t h1" using c(1,2) J(2) F(5) b(1) F(1) by (simp add: owned_def inserting_def opened_def)
  then show ?thesis using that b two c F(3) by simp
qed

text \<open>
  An insertion beside a scan takes place, as long as the file may grow, and the scan stays where
  it is.
\<close>

lemma scan_insert_step:
  assumes "scan_insert s n1 h1 ns1 n2 ns2 m flt (t, h2) rest" "rec \<noteq> []" "length rec \<le> 1000"
    and "card (dom (logical t (hf_filePtr h1))) + 1 < quota s"
  shows "\<exists>rid h' t' ns'. insertRecord t h1 rec = Some (Inr rid, h', t') \<and>
    scan_insert s n1 h' ns' n2 ns2 m flt (t', h2) rest \<and> recs t' h' ns' = (recs t h1 ns1)(rid \<mapsto> rec) \<and>
    recs t h1 ns1 rid = None \<and> card (dom (logical t' (hf_filePtr h'))) \<le> card (dom (logical t (hf_filePtr h1))) + 1"
proof -
  let ?a1 = "hf_filePtr h1"
  obtain b c where b: "inserting s n1 b h1 ns1" "cursor b n2 ns2 m flt (t, h2) rest" "n1 \<noteq> n2" "relation b n2 ns2" "rel_pages b n2 = m"
    and fr: "4 \<le> card (free_frames (bufMgr s))" "two_free (bufMgr t)"
    and c: "pool_base c t" "\<forall>g q. pins t g q = pins c g q + own h1 g q" "\<forall>g q f. g \<noteq> ?a1 \<longrightarrow> holds t g q f \<longrightarrow> holds c g q f"
      "owned c t h1" "hf_ok t h1 ns1"
    by (rule scan_insert_base [OF assms(1)])
  note F = scan_insert_file [OF b(1-3)]
  have J: "hf_curPageNo h1 = last ns1" "hf_headerPageNo h1 = 1" "quota b = quota s"
    using b(1) by (simp_all add: inserting_def opened_def)
  have D: "buf_ok t" "?a1 \<in> live t" using c(5) by (auto elim!: hf_okE dest: hf_coreD(1,2))
  from insertRecord_ok [OF c(5,4) J(1) assms(2,3)] obtain r h' t' where
    R: "insertRecord t h1 rec = Some (r, h', t')" "inserted c t h1 ns1 rec r h' t'" by blast
  obtain ns' where N: "hf_ok t' h' ns'" "hf_curPageNo h' = last ns'"
    "case r of Inr rid \<Rightarrow> recs t' h' ns' = (recs t h1 ns1)(rid \<mapsto> rec) \<and> recs t h1 ns1 rid = None \<and>
           (\<exists>p. dom (logical t' ?a1) \<subseteq> insert p (dom (logical t ?a1)))
       | Inl e \<Rightarrow> fst (BufMgr_allocPage t ?a1) = Inl e \<and> h' = h1 \<and> ns' = ns1 \<and> recs t' h1 ns1 = recs t h1 ns1"
    and S: "hf_filePtr h' = ?a1" "hf_headerPageNo h' = 1" "steady ?a1 t t'" "owned c t' h'"
    using R(2) J(2) by (auto simp: inserted_def)
  have q: "quota t = quota s" using F(5) J(3) by (simp add: opened_def)
  have "\<not> all_pinned (bufMgr t)" using fr(2) by (auto simp: two_free_def all_pinned_def)
  then have "fst (BufMgr_allocPage t ?a1) \<noteq> Inl e" for e using allocPage_total [OF D] assms(4) q by simp
  then obtain rid where rid: "r = Inr rid" using N(3) by (cases r) simp_all
  then obtain p where p: "dom (logical t' ?a1) \<subseteq> insert p (dom (logical t ?a1))" using N(3) by auto
  then have "card (dom (logical t' ?a1)) \<le> card (dom (logical t ?a1)) + 1"
    using card_mono [OF _ p] finite_pages [OF D] by (simp add: card_insert_if split: if_splits)
  moreover have "scan_insert s n1 h' ns' n2 ns2 m flt (t', h2) rest"
    using beside_closed [OF b fr(1) c(1-3) S N(1,2)] assms(1) unfolding scan_insert_def by blast
  ultimately show ?thesis using R(1) rid N(3) S(1)
    by (intro exI [of _ rid] exI [of _ h'] exI [of _ t'] exI [of _ ns']) simp
qed

text \<open>Both objects are made, and destroyed in the reverse order.\<close>

lemma scan_insert_start:
  assumes "ready s" "relation s n1 ns1" "relation s n2 ns2" "n1 \<noteq> n2" "6 \<le> card (free_frames (bufMgr s))"
  obtains h1 b h2 t where "InsertFileScan_init s n1 = Some ((OK, h1), b)" "HeapFileScan_init b n2 = Some (Inr h2, t)"
    "hs_filter h2 = None" "logical t (hf_filePtr h1) = rel_pages s n1"
    "\<forall>flt. scan_insert s n1 h1 ns1 n2 ns2 (rel_pages s n2) flt (t, h2\<lparr>hs_filter := flt\<rparr>) (rel_records s n2 ns2 flt)"
proof -
  obtain h1 b where I: "InsertFileScan_init s n1 = Some ((OK, h1), b)" "inserting s n1 b h1 ns1"
    "logical b (hf_filePtr h1) = rel_pages s n1" by (rule insert_start [OF assms(1,2)])
  have J: "opened s n1 (hf_filePtr h1) b" "hf_ok b h1 ns1" "owned s b h1" using I(2) by (simp_all add: inserting_def)
  note R = opened_relation [OF J(1) assms(3) assms(4) [symmetric]]
  obtain fh fc where "hf_core b h1 ns1 fh fc" using J(2) by (rule hf_okE)
  from owned_frames [OF this J(3)] have "ready b" using assms(1,5) J(1) by (simp add: ready_def opened_def two_free_iff)
  then obtain h2 t where H: "HeapFileScan_init b n2 = Some (Inr h2, t)" "hs_filter h2 = None"
    "\<forall>flt. cursor b n2 ns2 (rel_pages b n2) flt (t, h2\<lparr>hs_filter := flt\<rparr>) (rel_records b n2 ns2 flt)"
    by (rule cursor_start [OF _ R(1)])
  have "logical t (hf_filePtr h1) = rel_pages s n1"
    using scan_insert_file(2) [OF I(2) spec [OF H(3), of None] assms(4)] I(3) by simp
  moreover have "scan_insert s n1 h1 ns1 n2 ns2 (rel_pages s n2) flt (t, h2\<lparr>hs_filter := flt\<rparr>) (rel_records s n2 ns2 flt)" for flt
    using H(3) R I(2) assms(4,5) unfolding scan_insert_def by (intro conjI exI [of _ b]) simp_all
  ultimately show ?thesis using that I(1) H(1,2) by blast
qed

lemma scan_insert_end:
  assumes "scan_insert s n1 h1 ns1 n2 ns2 m flt (t, h2) rest"
  defines "u \<equiv> InsertFileScan_destroy (HeapFileScan_destroy t h2) h1"
  shows "closed_again s n1 u" "relation u n1 ns1" "rel_pages u n1 = logical t (hf_filePtr h1)"
proof -
  let ?v = "HeapFileScan_destroy t h2"
  obtain b c where b: "inserting s n1 b h1 ns1" "cursor b n2 ns2 m flt (t, h2) rest" "n1 \<noteq> n2" "relation b n2 ns2" "rel_pages b n2 = m"
    "4 \<le> card (free_frames (bufMgr s))"
    and c: "pool_base c t" "\<forall>g q. pins t g q = pins c g q + own h1 g q"
      "\<forall>g q f. g \<noteq> hf_filePtr h1 \<longrightarrow> holds t g q f \<longrightarrow> holds c g q f" "owned c t h1" "hf_ok t h1 ns1"
    by (rule scan_insert_base [OF assms(1)])
  have J: "hf_headerPageNo h1 = 1" "hf_curPageNo h1 = last ns1" using b(1) by (simp_all add: inserting_def)
  note B = beside_closed [OF b c(1-3) refl J(1) steady_refl c(4,5) J(2)]
  show "closed_again s n1 u" "relation u n1 ns1" using insert_end(1,2) [OF B(1)] by (simp_all add: u_def)
  show "rel_pages u n1 = logical t (hf_filePtr h1)"
    using insert_end(3) [OF B(1)] scan_insert_file(2) [OF B(1,4) b(3)] by (simp add: u_def)
qed

end
