(* ===== verification/Heap_Create.thy ===== *)
theory Heap_Create
  imports Query_Pair
begin

text \<open>
  Creating heap files: \<open>createHeapFile\<close> makes an empty relation out of nothing. The file is created,
  gets its header page and its first data page through the buffer pool, and is closed again; the
  rest of the system is as if nothing had happened.
\<close>

subsection \<open>States that differ in closed files\<close>

lemma closed_again_files:
  assumes "db_inv s" "oft_map (openFiles s) name = None" "t = s\<lparr>files := (files s)(name := v)\<rparr>"
    and "\<And>ps. v = Some ps \<Longrightarrow> file_wf ps"
  shows "closed_again s name t"
proof -
  note C = closed_file_change [OF assms(1-3)]
  have f: "bufMgr t = bufMgr s" "openFiles t = openFiles s" "live t = live s" "objs t = objs s" "heap_new t = heap_new s" "quota t = quota s"
    by (simp_all add: assms(3))
  have lg: "logical t g = logical s g" if "g \<in> live s" for g using C(2) [of g] assms(4) that by auto
  have "settled t g q" if "settled s g q" "g \<in> live s" "fileName (objs s g) \<noteq> name" for g q
  proof -
    have "disk_page t g = disk_page s g"
      using db_invD(8) [OF assms(1) that(2)] that(3) by (simp add: used_pages_def file_pages_def assms(3))
    then show ?thesis using that lg [OF that(2)] pool_same(2) [OF f(1)] by (simp add: settled_def flag_ok_def f)
  qed
  moreover have "file_view t n = file_view s n" if "n \<noteq> name" for n using that by (simp add: file_view_def assms(3))
  ultimately show ?thesis
    using C(1) assms(4) lg f pool_same [OF f(1)] by (simp add: closed_again_def pins_kept_def)
qed

text \<open>The attempt to open a file that does not exist.\<close>

lemma open_absent:
  assumes "db_inv s" "allocator_ok (heap_new s)" "name \<noteq> []" "oft_map (openFiles s) name = None" "files s name = None"
  obtains t where "DB_openFile s name = (Inl UNIXERR, t)" "closed_again s name t" "files t = files s"
proof -
  let ?a = "heap_new s (live s)"
  note D = db_invD [OF assms(1)]
  have a: "?a \<notin> live s" using assms(2) D(4) by (simp add: allocator_ok_def)
  obtain o' where t: "DB_openFile s name = (Inl UNIXERR, s\<lparr>objs := (objs s)(?a := o'), live := live s\<rparr>)"
    using assms(3-5) a
    by (auto simp: DB_openFile_def find_eq new_File_def Let_def File_open_def File_init_def set_obj_def
        File_delete_def File_destruct_def delete_File_def)
  define t where "t = s\<lparr>objs := (objs s)(?a := o'), live := live s\<rparr>"
  have f: "bufMgr t = bufMgr s" "openFiles t = openFiles s" "live t = live s" "files t = files s" "heap_new t = heap_new s" "quota t = quota s"
    "bufMgr_null t = bufMgr_null s" "\<And>g. g \<in> live s \<Longrightarrow> objs t g = objs s g" using a by (auto simp: t_def)
  have ag: "agree (live s) s t" using f by (auto simp: agree_def)
  have "files_ok t" using files_ok_agree [of s t] framesD(1) [OF D(1)] ag f(3) by simp
  then have ok: "buf_ok t" using agree_buf_ok [OF D(1)] ag f(3) frame_live [OF D(1)] by simp
  have "db_inv t" using assms(1) ok f by (auto simp: db_inv_def)
  moreover have lg: "logical t g = logical s g" "disk_page t g = disk_page s g" if "g \<in> live s" for g
    using agree_file(2,3) [OF ag that] by auto
  moreover have "settled t g q = settled s g q" if "g \<in> live s" for g q
    using lg [OF that] pool_same(2) [OF f(1)] by (simp add: settled_def flag_ok_def f(1))
  ultimately have "closed_again s name t"
    using f pool_same [OF f(1)] by (simp add: closed_again_def pins_kept_def file_view_def)
  then show ?thesis using that [of t] t f(4) by (simp add: t_def)
qed

lemma flush_steady:
  assumes "db_inv s" "a \<in> live s" "\<And>p f. \<not> holds s a p f" "BufMgr_flushFile s a = (st, t)"
  shows "st = OK" "steady a s t" "steady a t s" "db_inv t" "logical t a = logical s a" "holds t = holds s" "pins t = pins s"
proof -
  note D = db_invD [OF assms(1)] and X = flushFile_files [OF assms(4)] and Y = flushFile_pins [OF D(1) assms(2,4)]
  note F = flushFile_spec [OF D(1) assms(2,4)]
  show st: "st = OK" and "logical t a = logical s a" using F assms(2,3) by (auto simp: same_view_def)
  have ok: "buf_ok t" and v: "same_view s t" using F assms(3) by auto
  have un: "unixFile (objs s a) = Some (fileName (objs s a))" by (rule D(8) [OF assms(2)])
  have bf: "buf_frame s t" "buf_frame t s" using X un assms(2) by (auto simp: buf_frame_def)
  show "db_inv t" by (rule buf_frame_db_inv [OF assms(1) bf(1) ok])
  show h: "holds t = holds s" by (rule Y(2))
  have "pins t g q = pins s g q" for g q
  proof (cases "\<exists>f. holds s g q f")
    case True
    then obtain f where "holds s g q f" "holds t g q f" "0 < pinCnt (desc (bufMgr s) f)" using h by (auto simp: holds_def)
    then show ?thesis using Y(3) by (simp add: holds_pins)
  next
    case False
    then show ?thesis using pins_zero [OF ok] pins_zero [OF D(1)] h by auto
  qed
  then show "pins t = pins s" by (simp add: fun_eq_iff)
  have "settled t g q = settled s g q" if g: "g \<in> live s" "g \<noteq> a" for g q
  proof -
    have "fileName (objs s g) \<noteq> fileName (objs s a)"
      using D(6) [of "fileName (objs s g)" g] D(6) [of "fileName (objs s g)" a] g assms(2) by auto
    then have "disk_page t g = disk_page s g"
      using X(1) X(6) [of "fileName (objs s g)"] un D(8) [OF g(1)] by (simp add: used_pages_def file_pages_def fun_eq_iff)
    moreover have "dirty (desc (bufMgr t) f) = dirty (desc (bufMgr s) f)" if "holds s g q f" for f
      using Y(3) [of f] that by (simp add: holds_def)
    ultimately show ?thesis using v g(1) unfolding settled_def flag_ok_def h by (auto simp: same_view_def)
  qed
  then show "steady a s t" "steady a t s" using bf Y(1) v X(2) by (auto simp: steady_def same_view_def)
qed

subsection \<open>The first two pages\<close>

lemma allocPage_new:
  assumes "buf_ok t" "a \<in> live t" "\<not> all_pinned (bufMgr t)" "card (dom (logical t a)) + 1 < quota t"
  obtains p f u where "BufMgr_allocPage t a = (Inr (p, f), u)" "fst (File_allocatePage t (objs t a)) = Inr p"
    "buf_ok u" "steady a t u" "holds u a p f" "pins_kept t u"
    "\<forall>g q. pins u g q = pins t g q + (if (g, q) = (a, p) then 1 else 0)"
    "logical u a = (logical t a)(p \<mapsto> bufPool (bufMgr u) ! f)" "logical t a p = None" "0 < p" "p < 2147483648"
proof -
  obtain r u where A: "BufMgr_allocPage t a = (r, u)" by fastforce
  then obtain p f where r: "r = Inr (p, f)" using allocPage_total [OF assms] by (cases r) auto
  note A = A [unfolded r]
  note S = allocPage_spec [OF assms(1,2) A]
  have u: "buf_ok u" "live u = live t" "holds u a p f" "logical t a p = None"
    "\<And>q. q \<noteq> p \<Longrightarrow> logical u a q = logical t a q" "pins_kept t u" using S assms(2) by auto
  have lg: "logical u a = (logical t a)(p \<mapsto> bufPool (bufMgr u) ! f)"
    using u(5) holds_logical [OF u(3)] by (auto simp: fun_eq_iff)
  have "disk_page u a p \<noteq> None" using logical_dom [OF u(1), of a] lg by (metis domIff fun_upd_same option.distinct(1))
  from page_number_bound [OF u(1) _ this] have b: "0 < p" "p < 2147483648" using u(2) assms(2) by simp_all
  have "fst (File_allocatePage t (objs t a)) = Inr p"
    using A by (auto simp: BufMgr_allocPage_def split: prod.splits sum.splits)
  then show ?thesis
    using that A u allocPage_steady(1) [OF assms(1,2) A] allocPage_pins(1) [OF assms(1,2) A] lg b by blast
qed

lemma new_heap:
  assumes "m = [1 \<mapsto> set_hdr_firstPage p (set_hdr_lastPage p (set_hdr_pageCnt 1 (set_hdr_recCnt 0 x))),
      p \<mapsto> snd (Page_setNextPage (Page_init y p) (- 1))]" "p \<noteq> 1" "0 < p" "p < 2147483648"
  shows "heap_wf m 1 [p]" "heap_recs m [p] = Map.empty"
proof -
  let ?d = "snd (Page_setNextPage (Page_init y p) (- 1))"
  have d: "page_inv ?d" "curPage ?d = p" "nextPage ?d = - 1" "contents ?d = Map.empty"
    using assms(3,4) by (simp_all add: Page_setNextPage_def setNextPage_inv setNextPage_contents Page_init_inv Page_init_contents
        slot_simps Page_init_fields)
  show "heap_wf m 1 [p]" using d assms by (simp add: heap_wf_def rec_count_def)
  show "heap_recs m [p] = Map.empty" using d(4) assms(1,2) by (simp add: heap_recs_def fun_eq_iff)
qed

text \<open>The header page and the data page of a new file, from its opening until both are unpinned.\<close>

lemma create_pages:
  assumes "opened b name a t" "logical t a = Map.empty" "file_pages t (objs t a) = Some [header_init]" "bufMgr t = bufMgr b"
    and "two_free (bufMgr b)" "3 \<le> quota b" "oft_map (openFiles b) name = None"
  obtains f1 t1 p2 f2 t2 t3 t4 where "BufMgr_allocPage t a = (Inr (1, f1), t1)"
    "BufMgr_allocPage (store t1 (Frame f1) (set_hdr_fileName name (bufPool (bufMgr t1) ! f1))) a = (Inr (p2, f2), t2)"
    "BufMgr_unPinPage (store (store t2 (Frame f2) (snd (Page_setNextPage (Page_init (bufPool (bufMgr t2) ! f2) p2) (- 1)))) (Frame f1)
       (set_hdr_firstPage p2 (set_hdr_lastPage p2 (set_hdr_pageCnt 1 (set_hdr_recCnt 0 (bufPool (bufMgr (store t2 (Frame f2)
          (snd (Page_setNextPage (Page_init (bufPool (bufMgr t2) ! f2) p2) (- 1))))) ! f1)))))) a p2 True = (OK, t3)"
    "BufMgr_unPinPage t3 a 1 True = (OK, t4)" "steady a t t4" "buf_ok t4"
    "heap_wf (logical t4 a) 1 [p2]" "heap_recs (logical t4 a) [p2] = Map.empty" "pins t4 = pins b"
    "\<And>g q f. holds b g q f \<Longrightarrow> holds t4 g q f" "\<And>q f. \<not> holds t4 a q f" "dom (logical t4 a) = {1, p2}"
proof -
  have O: "db_inv b" "db_inv t" "a \<in> live t" "quota t = quota b" "a \<notin> live b" using assms(1,7) by (simp_all add: opened_def)
  have ok: "buf_ok b" "buf_ok t" using O db_invD(1) by auto
  have base: "pins t = pins b" "holds t = holds b" using pool_same [OF assms(4)] by simp_all
  have "\<not> all_pinned (bufMgr t)" using assms(4,5) by (auto simp: two_free_def all_pinned_def)
  moreover have "card (dom (logical t a)) + 1 < quota t" using assms(2,6) O(4) by simp
  ultimately obtain p1 f1 t1 where A1: "BufMgr_allocPage t a = (Inr (p1, f1), t1)" "fst (File_allocatePage t (objs t a)) = Inr p1"
    "buf_ok t1" "steady a t t1" "holds t1 a p1 f1" "pins_kept t t1"
    "\<forall>g q. pins t1 g q = pins t g q + (if (g, q) = (a, p1) then 1 else 0)"
    "logical t1 a = (logical t a)(p1 \<mapsto> bufPool (bufMgr t1) ! f1)" "logical t a p1 = None" "0 < p1" "p1 < 2147483648" by (rule allocPage_new [OF ok(2) O(3)])
  have "fst (File_allocatePage t (objs t a)) = Inr 1"
    using allocate_extend [OF assms(3)] new_file_wf assms(6) O(4) by fastforce
  then have p1: "p1 = 1" using A1(2) by simp
  note A1 = A1 [unfolded p1]
  define t1' where "t1' = store t1 (Frame f1) (set_hdr_fileName name (bufPool (bufMgr t1) ! f1))"
  note S1 = store_held [OF A1(3,5), where pg = "set_hdr_fileName name (bufPool (bufMgr t1) ! f1)", folded t1'_def]
  note P1 = store_settled(1) [OF A1(3,5), where pg = "set_hdr_fileName name (bufPool (bufMgr t1) ! f1)", folded t1'_def]
  note Y1 = store_steady [OF A1(3,5), where pg = "set_hdr_fileName name (bufPool (bufMgr t1) ! f1)", folded t1'_def]
  have st1: "steady a t t1'" by (rule steady_trans [OF A1(4) Y1])
  have a1: "a \<in> live t1'" "quota t1' = quota b" "numBufs (bufMgr t1') = numBufs (bufMgr t)"
    using st1 O(3,4) by (simp_all add: steady_def buf_frame_def)
  have h1: "holds t1' = holds t1" "pins t1' g q = pins b g q + (if (g, q) = (a, 1) then 1 else 0)" for g q
    using S1(3) P1 A1(7) base by simp_all
  have pk: "pins_kept t t1'" using A1(6) h1(1) by (simp add: pins_kept_def)
  have pq: "0 < pins t1' g q \<Longrightarrow> 0 < pins t g q \<or> (g, q) = (a, 1)" for g q using h1(2) base(1) by (auto split: if_splits)
  have "two_free (bufMgr t)" using assms(4,5) by simp
  from frame_free [OF S1(1) pk a1(3) this pq] have np: "\<not> all_pinned (bufMgr t1')" .
  have "card (dom (logical t1' a)) + 1 < quota t1'" using S1(2) A1(8) assms(2,6) a1(2) by simp
  from np this obtain p2 f2 t2 where A2: "BufMgr_allocPage t1' a = (Inr (p2, f2), t2)" and X2: "fst (File_allocatePage t1' (objs t1' a)) = Inr p2"
    and A2': "buf_ok t2" "steady a t1' t2" "holds t2 a p2 f2"
    "pins_kept t1' t2" "\<forall>g q. pins t2 g q = pins t1' g q + (if (g, q) = (a, p2) then 1 else 0)"
    "logical t2 a = (logical t1' a)(p2 \<mapsto> bufPool (bufMgr t2) ! f2)" "logical t1' a p2 = None" "0 < p2" "p2 < 2147483648"
    by (rule allocPage_new [OF S1(1) a1(1)])
  note A2 = A2 A2'
  have p2: "p2 \<noteq> 1" using A2(8) S1(2) by auto
  let ?pg = "snd (Page_setNextPage (Page_init (bufPool (bufMgr t2) ! f2) p2) (- 1))"
  define t2' where "t2' = store t2 (Frame f2) ?pg"
  note S2 = store_held [OF A2(2,4), where pg = ?pg, folded t2'_def] and P2 = store_settled(1) [OF A2(2,4), where pg = ?pg, folded t2'_def]
    and Y2 = store_steady [OF A2(2,4), where pg = ?pg, folded t2'_def]
  have g1: "holds t2' a 1 f1" using A1(5) h1(1) A2(5) S2(3) by (simp add: pins_kept_def)
  let ?hd = "set_hdr_firstPage p2 (set_hdr_lastPage p2 (set_hdr_pageCnt 1 (set_hdr_recCnt 0 (bufPool (bufMgr t2') ! f1))))"
  define t2'' where "t2'' = store t2' (Frame f1) ?hd"
  note S3 = store_held [OF S2(1) g1, where pg = ?hd, folded t2''_def] and P3 = store_settled(1) [OF S2(1) g1, where pg = ?hd, folded t2''_def]
    and Y3 = store_steady [OF S2(1) g1, where pg = ?hd, folded t2''_def]
  have st2: "steady a t t2''" by (rule steady_trans [OF steady_trans [OF steady_trans [OF st1 A2(3)] Y2] Y3])
  have k: "holds t2'' = holds t2" "pins t2'' g q = pins b g q + (if (g, q) = (a, 1) then 1 else 0) + (if (g, q) = (a, p2) then 1 else 0)" for g q
    using S2(3) S3(3) P2 P3 A2(6) h1(2) by simp_all
  have hh: "holds t2'' a p2 f2" "holds t2'' a 1 f1" using A2(4) g1 S3(3) k(1) by simp_all
  have fl: "flag_ok x y z True w" for x y z w by (simp add: flag_ok_def)
  obtain r3 t3 where U3: "BufMgr_unPinPage t2'' a p2 True = (r3, t3)" by fastforce
  note V3 = unPin_held [OF S3(1) hh(1) fl U3] and Q3 = unPin_quiet [OF S3(1) hh(1) fl U3] and R3 = unPin_pins(1) [OF S3(1) hh(1) fl U3]
  have h3: "holds t3 a 1 f1" using V3(5) [of a 1 f1] hh(2) p2 by auto
  obtain r4 t4 where U4: "BufMgr_unPinPage t3 a 1 True = (r4, t4)" by fastforce
  note V4 = unPin_held [OF V3(2) h3 fl U4] and Q4 = unPin_quiet [OF V3(2) h3 fl U4] and R4 = unPin_pins(1) [OF V3(2) h3 fl U4]
  have st4: "steady a t t4" using steady_trans [OF steady_trans [OF st2]] Q3 Q4 unfolding quiet_def by blast
  have a2: "a \<in> live t2''" using steady_live(1) [OF st2] O(3) by simp
  have a3: "a \<in> live t3" using Q3 a2 by (simp add: quiet_def same_view_def)
  have l4: "logical t4 a = logical t2'' a" using quiet_logical [OF Q3 a2] quiet_logical [OF Q4 a3] by simp
  have pins: "pins t4 g q = pins b g q" for g q using R3 R4 k(2) p2 by auto
  have none: "\<not> holds t4 a q f" for q f
  proof -
    have "pins b a q = 0" using pins_zero [OF ok(1)] holds_live [OF ok(1)] O(5) by blast
    then show ?thesis using pins [of a q] pins_holds [of t4 a q] by auto
  qed
  have "holds t4 g q f" if "holds b g q f" for g q f
  proof -
    have g: "g \<noteq> a" using holds_live [OF ok(1) that] O(5) by auto
    have "holds t2'' g q f" using that base(2) A1(6) h1(1) A2(5) k(1) by (simp add: pins_kept_def)
    then show ?thesis using V3(5) V4(5) g by simp
  qed
  moreover have "logical t4 a = [1 \<mapsto> ?hd, p2 \<mapsto> ?pg]" using l4 S3(2) S2(2) A2(7) S1(2) A1(8) assms(2) p2 by (auto simp: fun_eq_iff)
  note L4 = this
  note H = new_heap [OF L4 p2 A2(9,10)]
  have dm: "dom (logical t4 a) = {1, p2}" unfolding L4 by auto
  show ?thesis
  proof (rule that [of f1 t1 p2 f2 t2 t3 t4])
    show "BufMgr_allocPage t a = (Inr (1, f1), t1)" by (rule A1(1))
    show "BufMgr_unPinPage t3 a 1 True = (OK, t4)" using U4 V4(1) by simp
  qed (use A2(1) U3 V3(1) V4(2) st4 H pins none dm calculation in \<open>simp_all add: t1'_def t2'_def t2''_def fun_eq_iff\<close>)
qed

subsection \<open>A new heap file\<close>

text \<open>The file is flushed and closed; the system is as before the file was opened.\<close>

lemma close_created:
  assumes "opened b name a t" "steady a t t4" "buf_ok t4" "pins t4 = pins b" "\<And>g q f. holds b g q f \<Longrightarrow> holds t4 g q f"
    and "\<And>q f. \<not> holds t4 a q f" "oft_map (openFiles b) name = None"
  obtains t5 u where "BufMgr_flushFile t4 a = (OK, t5)" "DB_closeFile t5 a = (OK, u)" "closed_again b name u"
    "rel_pages u name = logical t4 a"
proof -
  have O4: "opened b name a t4" by (rule opened_steady [OF assms(1-3)])
  then have D4: "db_inv t4" "a \<in> live t4" by (simp_all add: opened_def)
  obtain st5 t5 where F: "BufMgr_flushFile t4 a = (st5, t5)" by fastforce
  note F5 = flush_steady [OF D4 assms(6) F]
  have O5: "opened b name a t5" by (rule opened_steady [OF O4 F5(2) db_invD(1) [OF F5(4)]])
  then have D5: "a \<in> live t5" "fileName (objs t5 a) = name" "openCnt (objs t5 a) = 1"
    using assms(7) by (simp_all add: opened_def)
  have n5: "\<not> holds t5 a q f" for q f using assms(6) F5(6) by simp
  obtain st u where C: "DB_closeFile t5 a = (st, u)" by fastforce
  note L = close_last [OF F5(4) D5(1,3,2) C n5]
  have pk: "pins u = pins b" "pins_kept b u" using L(3,4) F5(6,7) assms(4,5) by (simp_all add: pins_kept_def)
  have "closed_again b name u" by (rule opened_twice [OF O5 L(2) pk]) (use L(6) in blast)
  then show ?thesis using that [of t5 u] F F5(1,5) C L(1,5) by simp
qed

lemma createHeapFile_new:
  assumes "db_inv s" "allocator_ok (heap_new s)" "two_free (bufMgr s)" "3 \<le> quota s"
    and "name \<noteq> []" "oft_map (openFiles s) name = None" "files s name = None"
  obtains u p where "createHeapFile s name = (OK, u)" "closed_again s name u" "relation u name [p]" "tuples u name [p] = Map.empty"
    "card (dom (rel_pages u name)) \<le> 2"
proof -
  obtain t0 where T0: "DB_openFile s name = (Inl UNIXERR, t0)" "closed_again s name t0" "files t0 = files s"
    by (rule open_absent [OF assms(1,2,5-7)])
  have d0: "db_inv t0" "oft_map (openFiles t0) = oft_map (openFiles s)" "quota t0 = quota s" "heap_new t0 = heap_new s"
    using T0(2) by (simp_all add: closed_again_def)
  define b where "b = t0\<lparr>files := (files t0)(name := Some [header_init])\<rparr>"
  have cr: "DB_createFile t0 name = (OK, b)"
    using assms(4-7) d0 T0(3) by (simp add: DB_createFile_def find_eq File_create_def b_def)
  have "closed_again t0 name b" using closed_again_files [OF d0(1) _ b_def] d0(2) assms(6) new_file_wf by simp
  then have cb: "closed_again s name b" by (rule closed_again_trans [OF T0(2)])
  then have B: "db_inv b" "allocator_ok (heap_new b)" "oft_map (openFiles b) name = None" "two_free (bufMgr b)" "3 \<le> quota b"
    using assms(2,4,6) closed_two_free [OF assms(1) cb assms(3)] by (simp_all add: closed_again_def)
  have fb: "files b name = Some [header_init]" by (simp add: b_def)
  obtain r t where O: "DB_openFile b name = (r, t)" by fastforce
  from openFile_fresh [OF B(1,2) assms(5) B(3) fb O] obtain a where a: "r = Inr a" "opened b name a t"
    "logical t a = file_map [header_init]" "bufMgr t = bufMgr b" "files t = files b" by blast
  have d: "db_inv t" "a \<in> live t" "fileName (objs t a) = name" using a(2) by (simp_all add: opened_def)
  have fp: "file_pages t (objs t a) = Some [header_init]" using db_invD(8) [OF d(1,2)] d(3) fb a(5) by (simp add: file_pages_def)
  have le: "logical t a = Map.empty" unfolding a(3) using new_file_wf by (auto simp: file_map_def fun_eq_iff)
  obtain f1 t1 p2 f2 t2 t3 t4 where P: "BufMgr_allocPage t a = (Inr (1, f1), t1)"
    "BufMgr_allocPage (store t1 (Frame f1) (set_hdr_fileName name (bufPool (bufMgr t1) ! f1))) a = (Inr (p2, f2), t2)"
    "BufMgr_unPinPage (store (store t2 (Frame f2) (snd (Page_setNextPage (Page_init (bufPool (bufMgr t2) ! f2) p2) (- 1)))) (Frame f1)
       (set_hdr_firstPage p2 (set_hdr_lastPage p2 (set_hdr_pageCnt 1 (set_hdr_recCnt 0 (bufPool (bufMgr (store t2 (Frame f2)
          (snd (Page_setNextPage (Page_init (bufPool (bufMgr t2) ! f2) p2) (- 1))))) ! f1)))))) a p2 True = (OK, t3)"
    "BufMgr_unPinPage t3 a 1 True = (OK, t4)" "steady a t t4" "buf_ok t4"
    "heap_wf (logical t4 a) 1 [p2]" "heap_recs (logical t4 a) [p2] = Map.empty" "pins t4 = pins b"
    "\<And>g q f. holds b g q f \<Longrightarrow> holds t4 g q f" "\<And>q f. \<not> holds t4 a q f" "dom (logical t4 a) = {1, p2}"
    using create_pages [OF a(2) le fp a(4) B(4,5,3)] by metis
  obtain t5 u where C: "BufMgr_flushFile t4 a = (OK, t5)" "DB_closeFile t5 a = (OK, u)" "closed_again b name u" "rel_pages u name = logical t4 a"
    by (rule close_created [OF a(2) P(5,6,9-11) B(3)])
  have "createHeapFile s name = (OK, u)"
    using T0(1) cr O a(1) P(1-4) C(1,2) unfolding createHeapFile_def Let_def by simp
  moreover have "oft_map (openFiles u) name = None" using C(3) B(3) by (simp add: closed_again_def)
  ultimately show ?thesis
    using that [of u p2] closed_again_trans [OF cb C(3)] C(4) P(7,8,12) assms(5) by (simp add: relation_def card_insert_if)
qed

end
