(* ===== verification/Catalog_Create.thy ===== *)
theory Catalog_Create
  imports Heap_Create
begin

text \<open>
  Creating relations through the catalogs, with enough room in the files and in the pool: the
  insertions into the catalogs then succeed, and \<open>createRel\<close> describes the relation and makes its
  file.
\<close>

subsection \<open>Insertions that succeed\<close>

lemma catalog_add_room:
  assumes "ready s" "relation s cat ns" "rec \<noteq> []" "length rec \<le> 1000" "catalog_add s cat rec = Some (st, u)"
    and "4 \<le> card (free_frames (bufMgr s))" "card (dom (rel_pages s cat)) + 1 < quota s"
  shows "st = OK" "card (dom (rel_pages u cat)) \<le> card (dom (rel_pages s cat)) + 1"
proof -
  obtain h t where S: "InsertFileScan_init s cat = Some ((OK, h), t)" "inserting s cat t h ns"
    "logical t (hf_filePtr h) = rel_pages s cat" by (rule insert_start [OF assms(1,2)])
  let ?a = "hf_filePtr h"
  have I: "opened s cat ?a t" "hf_ok t h ns" "owned s t h" "hf_curPageNo h = last ns" "hf_headerPageNo h = 1" "cat \<noteq> []"
    using S(2) by (simp_all add: inserting_def)
  obtain fh fc where K: "hf_core t h ns fh fc" using I(2) by (rule hf_okE)
  have D: "buf_ok t" "?a \<in> live t" "quota t = quota s" using hf_coreD(1,2) [OF K] I(1) by (simp_all add: opened_def)
  have "page_room s cat" using assms(6,7) by (simp add: page_room_def)
  from page_room_alloc [OF this I(1-3) S(3)] have ok: "fst (BufMgr_allocPage t ?a) \<noteq> Inl e" for e .
  from insertRecord_ok [OF I(2-4) assms(3,4)] obtain r h' t' where
    R: "insertRecord t h rec = Some (r, h', t')" "inserted s t h ns rec r h' t'" by blast
  have N: "hf_filePtr h' = ?a" "hf_headerPageNo h' = 1" "steady ?a t t'" "owned s t' h'" using R(2) I(5) by (simp_all add: inserted_def)
  have "r \<noteq> Inl e" for e using R(2) ok [of e] by (auto simp: inserted_def)
  then obtain rid where rid: "r = Inr rid" by (cases r) auto
  then obtain ns' p where rp: "hf_ok t' h' ns'" "dom (logical t' ?a) \<subseteq> insert p (dom (logical t ?a))" using R(2) by (auto simp: inserted_def)
  have u: "st = OK" "u = InsertFileScan_destroy t' h'" using assms(5) S(1) R(1) rid by (simp_all add: catalog_add_def)
  have "buf_ok t'" using rp(1) by (auto elim!: hf_okE dest: hf_coreD(1))
  then have o: "opened s cat (hf_filePtr h') t'" using opened_steady [OF I(1) N(3)] N(1) by simp
  have "rel_pages u cat = logical t' ?a"
    using InsertFileScan_destroy_ok(2) [OF o rp(1) N(4,2) I(6)] u(2) N(1) by simp
  then show "card (dom (rel_pages u cat)) \<le> card (dom (rel_pages s cat)) + 1"
    using card_mono [OF _ rp(2)] finite_pages [OF D(1,2)] S(3) by (simp add: card_insert_if split: if_splits)
  show "st = OK" by (rule u(1))
qed

lemma RelCatalog_addInfo_room:
  assumes "ready s" "catalog_ok s RELCATNAME sizeof_RelDesc ns" "RelDesc_wf d" "RelCatalog_addInfo s d = Some (st, u)"
    and "4 \<le> card (free_frames (bufMgr s))" "card (dom (rel_pages s RELCATNAME)) + 1 < quota s"
  shows "st = OK" "card (dom (rel_pages u RELCATNAME)) \<le> card (dom (rel_pages s RELCATNAME)) + 1"
proof -
  obtain b where b: "zero_fill (rd_relName d) = Some b" "catalog_add s RELCATNAME (RelDesc_bytes (d\<lparr>rd_relName := b\<rparr>)) = Some (st, u)"
    using assms(4) by (auto simp: RelCatalog_addInfo_def split: option.splits)
  have "length b = length (rd_relName d)" using b(1) by (auto simp: zero_fill_def Let_def split: if_splits)
  then have l: "RelDesc_bytes (d\<lparr>rd_relName := b\<rparr>) \<noteq> []" "length (RelDesc_bytes (d\<lparr>rd_relName := b\<rparr>)) \<le> 1000"
    using assms(3) by (auto simp: RelDesc_bytes_def RelDesc_wf_def MAXNAME_def)
  have "relation s RELCATNAME ns" using assms(2) by (simp add: catalog_ok_def)
  note R = catalog_add_room [OF assms(1) this l b(2) assms(5,6)]
  show "st = OK" "card (dom (rel_pages u RELCATNAME)) \<le> card (dom (rel_pages s RELCATNAME)) + 1" using R by simp_all
qed

lemma AttrCatalog_addInfo_room:
  assumes "ready s" "catalog_ok s ATTRCATNAME sizeof_AttrDesc ns" "AttrDesc_wf d" "AttrCatalog_addInfo s d = Some (st, u)"
    and "4 \<le> card (free_frames (bufMgr s))" "card (dom (rel_pages s ATTRCATNAME)) + 1 < quota s"
  shows "st = OK" "card (dom (rel_pages u ATTRCATNAME)) \<le> card (dom (rel_pages s ATTRCATNAME)) + 1"
proof -
  obtain b c where b: "zero_fill (ad_relName d) = Some b" "zero_fill (ad_attrName d) = Some c"
    "catalog_add s ATTRCATNAME (AttrDesc_bytes (d\<lparr>ad_relName := b, ad_attrName := c\<rparr>)) = Some (st, u)"
    using assms(4) by (auto simp: AttrCatalog_addInfo_def split: option.splits)
  have "length b = length (ad_relName d)" "length c = length (ad_attrName d)"
    using b(1,2) by (auto simp: zero_fill_def Let_def split: if_splits)
  then have l: "AttrDesc_bytes (d\<lparr>ad_relName := b, ad_attrName := c\<rparr>) \<noteq> []"
    "length (AttrDesc_bytes (d\<lparr>ad_relName := b, ad_attrName := c\<rparr>)) \<le> 1000"
    using assms(3) by (auto simp: AttrDesc_bytes_def AttrDesc_wf_def MAXNAME_def)
  have "relation s ATTRCATNAME ns" using assms(2) by (simp add: catalog_ok_def)
  note R = catalog_add_room [OF assms(1) this l b(3) assms(5,6)]
  show "st = OK" "card (dom (rel_pages u ATTRCATNAME)) \<le> card (dom (rel_pages s ATTRCATNAME)) + 1" using R by simp_all
qed

subsection \<open>Names in arrays\<close>

lemma c_string_plain: "CHR 0x00 \<notin> set (c_string bs)"
proof (induction bs)
  case (Cons b bs)
  have "CHR 0x00 \<noteq> char_of (unat b)" if "b \<noteq> 0" using that char_of_byte [of b "CHR 0x00"] by auto
  then show ?case using Cons by simp
qed simp

lemma strcpy_ok:
  assumes "CHR 0x00 \<notin> set n" "length n < length dst"
  shows "length (strcpy dst n) = length dst" "c_string (strcpy dst n) = n"
proof -
  have "takeWhile (\<lambda>b. b \<noteq> 0) (c_bytes n) = (map of_char n :: byte list)"
    unfolding c_bytes_def using assms(1) by (subst takeWhile_append2) (auto simp: of_char_zero)
  then have e: "strcpy dst n = map of_char n @ 0 # drop (length n + 1) dst" by (simp add: strcpy_def Let_def)
  show "length (strcpy dst n) = length dst" using assms(2) by (simp add: e)
  show "c_string (strcpy dst n) = n" using c_string_append [OF assms(1)] by (simp add: e)
qed

subsection \<open>The attributes of a relation\<close>

text \<open>Descriptions of consecutive attributes from an offset on.\<close>

fun laid_out :: "string \<Rightarrow> int \<Rightarrow> attrInfo list \<Rightarrow> AttrDesc list \<Rightarrow> bool" where
  "laid_out rel off [] ds \<longleftrightarrow> ds = []"
| "laid_out rel off (a # as) ds \<longleftrightarrow> (\<exists>d ds'. ds = d # ds' \<and> ad_rel d = rel \<and> ad_attr d = c_string (ai_attrName a) \<and>
     ad_attrOffset d = off \<and> ad_attrType d = ai_attrType a \<and> ad_attrLen d = ai_attrLen a \<and> laid_out rel (off + ai_attrLen a) as ds')"

definition attr_ok :: "attrInfo \<Rightarrow> bool" where
  "attr_ok a \<longleftrightarrow> length (c_string (ai_attrName a)) < MAXNAME \<and> 0 \<le> ai_attrLen a \<and>
     - 2147483648 \<le> ai_attrType a \<and> ai_attrType a < 2147483648"

lemma sum_list_attrs: "\<forall>a \<in> set as. attr_ok a \<Longrightarrow> 0 \<le> sum_list (map ai_attrLen as)"
  by (intro sum_list_nonneg) (auto simp: attr_ok_def)

lemma add_attrs_ok:
  assumes "ready s" "catalog_ok s ATTRCATNAME sizeof_AttrDesc na" "length (ad_relName ad) = MAXNAME" "length (ad_rel ad) < MAXNAME"
    and "length (ad_attrName ad) = MAXNAME" "\<forall>a \<in> set as. attr_ok a" "0 \<le> off" "off + sum_list (map ai_attrLen as) < 2147483648"
    and "4 \<le> card (free_frames (bufMgr s))" "card (dom (rel_pages s ATTRCATNAME)) + length as < quota s"
  shows "\<exists>u na' ds. add_attrs s ad off as = Some (OK, u) \<and> ready u \<and> closed_again s ATTRCATNAME u \<and>
    catalog_ok u ATTRCATNAME sizeof_AttrDesc na' \<and> mset (attr_descs u na') = mset (attr_descs s na) + mset ds \<and>
    laid_out (ad_rel ad) off as ds"
  using assms
proof (induction as arbitrary: s na ad off)
  case Nil
  have "closed_again s ATTRCATNAME s" using closed_again_refl [of s ATTRCATNAME] Nil.prems(1) by (simp add: ready_def)
  then show ?case using Nil.prems(1,2) by auto
next
  case (Cons a as)
  have a: "attr_ok a" "\<forall>a \<in> set as. attr_ok a" using Cons.prems(6) by simp_all
  have sum: "0 \<le> sum_list (map ai_attrLen as)" by (rule sum_list_attrs [OF a(2)])
  let ?ad = "ad\<lparr>ad_attrName := strcpy (ad_attrName ad) (c_string (ai_attrName a)), ad_attrOffset := off,
    ad_attrType := ai_attrType a, ad_attrLen := ai_attrLen a\<rparr>"
  have n: "length (strcpy (ad_attrName ad) (c_string (ai_attrName a))) = MAXNAME"
    "c_string (strcpy (ad_attrName ad) (c_string (ai_attrName a))) = c_string (ai_attrName a)"
    using strcpy_ok [OF c_string_plain] Cons.prems(5) a(1) by (simp_all add: attr_ok_def)
  have b: "0 \<le> ai_attrLen a" "off + ai_attrLen a < 2147483648" "length (c_string (ai_attrName a)) < MAXNAME"
    using a(1) Cons.prems(8) sum by (simp_all add: attr_ok_def)
  have wf: "AttrDesc_wf ?ad" using Cons.prems(3,7) n(1) b a(1) by (simp add: AttrDesc_wf_def attr_ok_def)
  have L: "length (ad_rel ?ad) < MAXNAME" "length (ad_attr ?ad) < MAXNAME" using Cons.prems(4) n(2) b(3) by simp_all
  from AttrCatalog_addInfo_ok [OF Cons.prems(1,2) wf L] obtain st t na1 d where
    A: "AttrCatalog_addInfo s ?ad = Some (st, t)" "ready t" "closed_again s ATTRCATNAME t"
      "catalog_ok t ATTRCATNAME sizeof_AttrDesc na1" "ad_rel d = ad_rel ?ad" "ad_attr d = ad_attr ?ad"
      "ad_attrOffset d = ad_attrOffset ?ad" "ad_attrType d = ad_attrType ?ad" "ad_attrLen d = ad_attrLen ?ad"
      "mset (attr_descs t na1) = (if st = OK then add_mset d (mset (attr_descs s na)) else mset (attr_descs s na))" by blast
  have "card (dom (rel_pages s ATTRCATNAME)) + 1 < quota s" using Cons.prems(10) by simp
  note R = AttrCatalog_addInfo_room [OF Cons.prems(1,2) wf A(1) Cons.prems(9) this]
  have step: "add_attr s ad off a = Some ((OK, ?ad, off + ai_attrLen a), t)"
    using A(1) R(1) b Cons.prems(7) by (simp add: add_attr_def)
  have fr: "4 \<le> card (free_frames (bufMgr t))" "quota t = quota s"
    using closed_free_card [OF _ A(3)] Cons.prems(1,9) A(3) by (simp_all add: ready_def closed_again_def)
  have P: "length (ad_relName ?ad) = MAXNAME" "length (ad_attrName ?ad) = MAXNAME" "0 \<le> off + ai_attrLen a"
    "off + ai_attrLen a + sum_list (map ai_attrLen as) < 2147483648" "card (dom (rel_pages t ATTRCATNAME)) + length as < quota t"
    using Cons.prems(3,7,8,10) n(1) b R(2) fr(2) by simp_all
  from Cons.IH [OF A(2,4) P(1) L(1) P(2) a(2) P(3,4) fr(1) P(5)] obtain u na' ds where
    I: "add_attrs t ?ad (off + ai_attrLen a) as = Some (OK, u)" "ready u" "closed_again t ATTRCATNAME u"
      "catalog_ok u ATTRCATNAME sizeof_AttrDesc na'" "mset (attr_descs u na') = mset (attr_descs t na1) + mset ds"
      "laid_out (ad_rel ad) (off + ai_attrLen a) as ds" by auto
  have "laid_out (ad_rel ad) off (a # as) (d # ds)" using A(5-9) n(2) I(6) by simp
  moreover have "mset (attr_descs u na') = mset (attr_descs s na) + mset (d # ds)" using I(5) A(10) R(1) by simp
  ultimately show ?case
    using step I(1,2,4) closed_again_trans [OF A(3) I(3)] by (intro exI [of _ u] exI [of _ na'] exI [of _ "d # ds"]) simp
qed

subsection \<open>Creating a relation\<close>

lemma closed_absent:
  assumes "closed_again s cat u" "name \<noteq> cat" "oft_map (openFiles s) name = None" "files s name = None"
  shows "oft_map (openFiles u) name = None" "files u name = None"
proof -
  have "file_view u name = file_view s name" "oft_map (openFiles u) = oft_map (openFiles s)" using assms(1-3) by (simp_all add: closed_again_def)
  then show "oft_map (openFiles u) name = None" "files u name = None" using assms(3,4) by (simp_all add: file_view_def)
qed

text \<open>The room a new relation with \<open>k\<close> attributes needs.\<close>

definition room_for :: "'a dsys_scheme \<Rightarrow> string \<Rightarrow> nat \<Rightarrow> bool" where
  "room_for s name k \<longleftrightarrow> 4 \<le> card (free_frames (bufMgr s)) \<and> 3 \<le> quota s \<and>
     card (dom (rel_pages s RELCATNAME)) + 1 < quota s \<and> card (dom (rel_pages s ATTRCATNAME)) + k < quota s \<and>
     oft_map (openFiles s) name = None \<and> files s name = None"

lemma room_undisturbed:
  assumes "ready s" "undisturbed s cat nc u" "room_for s name k" "name \<noteq> cat"
  shows "room_for u name k"
proof -
  have c: "closed_again s cat u" "db_inv s" using assms(1,2) by (simp_all add: undisturbed_def ready_def)
  have "oft_map (openFiles s) name = None" "files s name = None" using assms(3) by (simp_all add: room_for_def)
  note A = closed_absent [OF c(1) assms(4) this]
  have "quota u = quota s" using c(1) by (simp add: closed_again_def)
  then show ?thesis
    using assms(3) A closed_free_card [OF c(2,1)] undisturbed_relations(1) [OF assms(1,2)] by (simp add: room_for_def)
qed

lemma describe_relation:
  assumes "catalogs_ok s nr na" "plain name" "length name < MAXNAME" "name \<noteq> RELCATNAME" "name \<noteq> ATTRCATNAME"
    and "as \<noteq> []" "\<forall>a \<in> set as. attr_ok a" "sum_list (map ai_attrLen as) < 2147483648" "room_for s name (length as)"
  obtains s1 s2 u nr' na' d ds p where
    "RelCatalog_addInfo s \<lparr>rd_relName = strcpy (replicate MAXNAME 0) name, rd_attrCnt = int (length as)\<rparr> = Some (OK, s1)"
    "add_attrs s1 \<lparr>ad_relName = strcpy (replicate MAXNAME 0) name, ad_attrName = replicate MAXNAME 0,
       ad_attrOffset = 0, ad_attrType = 0, ad_attrLen = 0\<rparr> 0 as = Some (OK, s2)"
    "createHeapFile s2 name = (OK, u)" "catalogs_ok u nr' na'"
    "mset (rel_descs u nr') = add_mset d (mset (rel_descs s nr))" "rd_name d = name" "rd_attrCnt d = int (length as)"
    "mset (attr_descs u na') = mset (attr_descs s na) + mset ds" "laid_out name 0 as ds"
    "relation u name [p]" "tuples u name [p] = Map.empty"
    "\<forall>n. n \<notin> {name, RELCATNAME, ATTRCATNAME} \<longrightarrow> rel_pages u n = rel_pages s n"
proof -
  let ?nm = "strcpy (replicate MAXNAME 0) name" and ?rd = "\<lparr>rd_relName = strcpy (replicate MAXNAME 0) name, rd_attrCnt = int (length as)\<rparr>"
  let ?ad = "\<lparr>ad_relName = ?nm, ad_attrName = replicate MAXNAME 0, ad_attrOffset = 0, ad_attrType = 0, ad_attrLen = 0\<rparr> :: AttrDesc"
  have R: "ready s" "catalog_ok s RELCATNAME sizeof_RelDesc nr" "catalog_ok s ATTRCATNAME sizeof_AttrDesc na" "db_inv s"
    using assms(1) by (simp_all add: catalogs_ok_def ready_def)
  have room: "4 \<le> card (free_frames (bufMgr s))" "3 \<le> quota s" "card (dom (rel_pages s RELCATNAME)) + 1 < quota s"
    "card (dom (rel_pages s ATTRCATNAME)) + length as < quota s" "oft_map (openFiles s) name = None" "files s name = None"
    using assms(9) by (simp_all add: room_for_def)
  have nm: "length ?nm = MAXNAME" "c_string ?nm = name" using strcpy_ok [of name "replicate MAXNAME 0"] assms(2,3) by (simp_all add: plain_def)
  have "int (length as) < 2147483648" using room(4) db_invD(5) [OF R(4)] by simp
  then have wf: "RelDesc_wf ?rd" "length (rd_name ?rd) < MAXNAME" using nm assms(3) by (simp_all add: RelDesc_wf_def)
  from RelCatalog_addInfo_ok [OF R(1,2) wf] obtain st s1 nr' d where
    A: "RelCatalog_addInfo s ?rd = Some (st, s1)" "ready s1" "closed_again s RELCATNAME s1" "catalog_ok s1 RELCATNAME sizeof_RelDesc nr'"
      "rd_name d = rd_name ?rd" "rd_attrCnt d = rd_attrCnt ?rd"
      "mset (rel_descs s1 nr') = (if st = OK then add_mset d (mset (rel_descs s nr)) else mset (rel_descs s nr))" by blast
  note RA = RelCatalog_addInfo_room [OF R(1,2) wf(1) A(1) room(1,3)] and C1 = rel_changed [OF assms(1) A(2-4)]
  have p1: "rel_pages s1 n = rel_pages s n" if "n \<noteq> RELCATNAME" for n by (rule closed_pages [OF R(4) A(3) that])
  have f1: "4 \<le> card (free_frames (bufMgr s1))" "quota s1 = quota s" "db_inv s1"
    using closed_free_card [OF R(4) A(3)] room(1) A(2,3) by (simp_all add: closed_again_def ready_def)
  note N1 = closed_absent [OF A(3) assms(4) room(5,6)]
  have c1: "catalog_ok s1 ATTRCATNAME sizeof_AttrDesc na" using C1(1) by (simp add: catalogs_ok_def)
  have ad: "length (ad_relName ?ad) = MAXNAME" "length (ad_rel ?ad) < MAXNAME" "length (ad_attrName ?ad) = MAXNAME" using nm assms(3) by simp_all
  have r1: "card (dom (rel_pages s1 ATTRCATNAME)) + length as < quota s1" using p1 [OF names_differ(2)] room(4) f1(2) by simp
  from add_attrs_ok [OF A(2) c1 ad assms(7) _ _ f1(1) r1, of 0] assms(8) obtain s2 na' ds where
    B: "add_attrs s1 ?ad 0 as = Some (OK, s2)" "ready s2" "closed_again s1 ATTRCATNAME s2" "catalog_ok s2 ATTRCATNAME sizeof_AttrDesc na'"
      "mset (attr_descs s2 na') = mset (attr_descs s1 na) + mset ds" "laid_out (ad_rel ?ad) 0 as ds" by auto
  note C2 = attr_changed [OF C1(1) B(2-4)]
  have p2: "rel_pages s2 n = rel_pages s1 n" if "n \<noteq> ATTRCATNAME" for n by (rule closed_pages [OF f1(3) B(3) that])
  note N2 = closed_absent [OF B(3) assms(5) N1]
  have f2: "db_inv s2" "allocator_ok (heap_new s2)" "two_free (bufMgr s2)" "3 \<le> quota s2" "name \<noteq> []"
    using B(2,3) f1(2) room(2) assms(2) by (simp_all add: ready_def closed_again_def plain_def)
  obtain u p where U: "createHeapFile s2 name = (OK, u)" "closed_again s2 name u" "relation u name [p]" "tuples u name [p] = Map.empty"
    "card (dom (rel_pages u name)) \<le> 2"
    by (rule createHeapFile_new [OF f2 N2])
  have c2: "catalog_ok s2 RELCATNAME sizeof_RelDesc nr'" using C2(1) by (simp add: catalogs_ok_def)
  note E = catalog_other [OF B(2) U(2) assms(4) [symmetric] c2] catalog_other [OF B(2) U(2) assms(5) [symmetric] B(4)]
  have re: "rel_descs u nr' = rel_descs s2 nr'" "attr_descs u na' = attr_descs s2 na'" using E(2,4) by (simp_all add: rel_descs_def attr_descs_def)
  have "catalogs_ok u nr' na'" using E(1,3) closed_ready [OF B(2) U(2)] by (simp add: catalogs_ok_def)
  moreover have "mset (rel_descs u nr') = add_mset d (mset (rel_descs s nr))" using re(1) C2(2) A(7) RA(1) by simp
  moreover have "mset (attr_descs u na') = mset (attr_descs s na) + mset ds" using re(2) B(5) C1(2) by simp
  moreover have "\<forall>n. n \<notin> {name, RELCATNAME, ATTRCATNAME} \<longrightarrow> rel_pages u n = rel_pages s n"
    using p1 p2 closed_pages [OF f2(1) U(2)] by simp
  ultimately show ?thesis using that [OF _ B(1) U(1)] A(1,5,6) RA(1) B(6) U(3,4) nm(2) by simp
qed

subsection \<open>Properties\<close>

text \<open>
  C21. \<open>createHeapFile\<close> on a name that is not in use makes an empty relation, in whatever state the
  rest of the system is: no page, pin or open file of another relation changes.
\<close>

theorem createHeapFile_correct:
  assumes "ready s" "3 \<le> quota s" "name \<noteq> []" "oft_map (openFiles s) name = None" "files s name = None"
  shows "\<exists>u p. createHeapFile s name = (OK, u) \<and> ready u \<and> relation u name [p] \<and> tuples u name [p] = Map.empty \<and>
    pins u = pins s \<and> oft_map (openFiles u) = oft_map (openFiles s) \<and> (\<forall>n. n \<noteq> name \<longrightarrow> rel_pages u n = rel_pages s n)"
proof -
  have R: "db_inv s" "allocator_ok (heap_new s)" "two_free (bufMgr s)" using assms(1) by (simp_all add: ready_def)
  obtain u p where U: "createHeapFile s name = (OK, u)" "closed_again s name u" "relation u name [p]" "tuples u name [p] = Map.empty"
    "card (dom (rel_pages u name)) \<le> 2"
    by (rule createHeapFile_new [OF R assms(2-5)])
  then show ?thesis using closed_ready [OF assms(1) U(2)] closed_pages [OF R(1) U(2)] by (auto simp: closed_again_def)
qed

theorem createHeapFile_correct_witness:
  "\<exists>u p. createHeapFile demo_cat ''new'' = (OK, u) \<and> relation u ''new'' [p] \<and> tuples u ''new'' [p] = Map.empty"
proof -
  have "ready demo_cat" using demo_cat_ok(1) by (simp add: catalogs_ok_def)
  moreover have "3 \<le> quota demo_cat" "oft_map (openFiles demo_cat) ''new'' = None" "files demo_cat ''new'' = None"
    by (simp_all add: demo_cat_def demo_rel_def oft_init RELCATNAME_def ATTRCATNAME_def)
  ultimately show ?thesis using createHeapFile_correct [of demo_cat "''new''"] by auto
qed

text \<open>
  C25. \<open>createRel\<close> on every branch for valid names. A relation that the catalog knows, an attribute
  name that occurs twice and attributes that are too wide together are refused without any
  change. Otherwise the relation catalog gains one description with the number of attributes,
  the attribute catalog gains one description per attribute, in order and with consecutive
  offsets, and the relation is there and empty; no other relation changes.
\<close>

theorem createRel_correct:
  assumes "catalogs_ok s nr na" "plain name" "length name < MAXNAME" "name \<noteq> RELCATNAME" "name \<noteq> ATTRCATNAME"
    and "as \<noteq> []" "\<forall>a \<in> set as. attr_ok a" "sum_list (map ai_attrLen as) < 2147483648" "room_for s name (length as)"
  shows "\<exists>st u. createRel s name as = Some (st, u) \<and>
    (if name \<in> rd_name ` set (rel_descs s nr) then st = RELEXISTS \<and> undisturbed s RELCATNAME nr u
     else if \<not> distinct (map (\<lambda>a. c_string (ai_attrName a)) as) then st = DUPLATTR \<and> undisturbed s RELCATNAME nr u
     else if 1024 < sum_list (map ai_attrLen as) then st = ATTRTOOLONG \<and> undisturbed s RELCATNAME nr u
     else st = OK \<and> (\<exists>nr' na' d ds p. catalogs_ok u nr' na' \<and>
       mset (rel_descs u nr') = add_mset d (mset (rel_descs s nr)) \<and> rd_name d = name \<and> rd_attrCnt d = int (length as) \<and>
       mset (attr_descs u na') = mset (attr_descs s na) + mset ds \<and> laid_out name 0 as ds \<and>
       relation u name [p] \<and> tuples u name [p] = Map.empty \<and>
       (\<forall>n. n \<notin> {name, RELCATNAME, ATTRCATNAME} \<longrightarrow> rel_pages u n = rel_pages s n)))"
proof -
  have R: "ready s" "catalog_ok s RELCATNAME sizeof_RelDesc nr" using assms(1) by (simp_all add: catalogs_ok_def)
  have n: "name \<noteq> []" using assms(2) by (simp add: plain_def)
  from RelCatalog_getInfo_ok [OF R assms(2,3)] obtain t where
    G: "RelCatalog_getInfo s name = Some (case filter (\<lambda>d. rd_name d = name) (rel_descs s nr) of
      [] \<Rightarrow> Inl RELNOTFOUND | d # _ \<Rightarrow> Inr d, t)" "undisturbed s RELCATNAME nr t" by blast
  have w: "tupleWidth as = sum_list (map ai_attrLen as)"
    using sum_list_attrs [OF assms(7)] assms(8) by (simp add: tupleWidth_def)
  show ?thesis
  proof (cases "name \<in> rd_name ` set (rel_descs s nr)")
    case True
    then obtain d l where "filter (\<lambda>d. rd_name d = name) (rel_descs s nr) = d # l"
      by (cases "filter (\<lambda>d. rd_name d = name) (rel_descs s nr)") (auto simp: filter_empty_conv)
    then show ?thesis using G n assms(3,6) True by (simp add: createRel_def)
  next
    case False
    then have "filter (\<lambda>d. rd_name d = name) (rel_descs s nr) = []" by (auto simp: filter_empty_conv)
    then have g: "RelCatalog_getInfo s name = Some (Inl RELNOTFOUND, t)" using G(1) by simp
    show ?thesis
    proof (cases "distinct (map (\<lambda>a. c_string (ai_attrName a)) as) \<and> sum_list (map ai_attrLen as) \<le> 1024")
      case bad: False
      then show ?thesis using g G(2) False n assms(3,6) w by (auto simp: createRel_def PAGESIZE_def)
    next
      case good: True
      note T = undisturbed_catalogs [OF assms(1) G(2)] and P = undisturbed_relations(1) [OF R(1) G(2)]
      have room: "room_for t name (length as)" by (rule room_undisturbed [OF R(1) G(2) assms(9,4)])
      show ?thesis
      proof (rule describe_relation [OF T(1) assms(2-8) room])
        fix s1 s2 u nr' na' d ds p
        assume a: "RelCatalog_addInfo t \<lparr>rd_relName = strcpy (replicate MAXNAME 0) name, rd_attrCnt = int (length as)\<rparr> = Some (OK, s1)"
          "add_attrs s1 \<lparr>ad_relName = strcpy (replicate MAXNAME 0) name, ad_attrName = replicate MAXNAME 0,
             ad_attrOffset = 0, ad_attrType = 0, ad_attrLen = 0\<rparr> 0 as = Some (OK, s2)"
          "createHeapFile s2 name = (OK, u)"
          and b: "catalogs_ok u nr' na'"
          "mset (rel_descs u nr') = add_mset d (mset (rel_descs t nr))" "rd_name d = name" "rd_attrCnt d = int (length as)"
          "mset (attr_descs u na') = mset (attr_descs t na) + mset ds" "laid_out name 0 as ds"
          "relation u name [p]" "tuples u name [p] = Map.empty"
          "\<forall>n. n \<notin> {name, RELCATNAME, ATTRCATNAME} \<longrightarrow> rel_pages u n = rel_pages t n"
        have "createRel s name as = Some (OK, u)"
          using g n assms(3,6) good w a by (simp add: createRel_def PAGESIZE_def)
        then show ?thesis using False good b T(2,3) P by (intro exI [of _ OK] exI [of _ u]) auto
      qed
    qed
  qed
qed

definition demo_new_attr :: attrInfo where
  "demo_new_attr = \<lparr>ai_relName = strcpy (replicate MAXNAME 0) ''new'', ai_attrName = strcpy (replicate MAXNAME 0) ''a'',
     ai_attrType = 1, ai_attrLen = 4, ai_attrValue = None\<rparr>"

theorem createRel_correct_witness:
  "\<exists>u nr na d e p. createRel demo_cat ''new'' [demo_new_attr] = Some (OK, u) \<and> rel_descs u nr = [d] \<and> rd_name d = ''new'' \<and>
     rd_attrCnt d = 1 \<and> attr_descs u na = [e] \<and> ad_attr e = ''a'' \<and> ad_attrOffset e = 0 \<and> ad_attrLen e = 4 \<and>
     relation u ''new'' [p] \<and> tuples u ''new'' [p] = Map.empty"
proof -
  have a: "c_string (ai_attrName demo_new_attr) = ''a''" by code_simp
  have n: "plain ''new''" "length ''new'' < MAXNAME" "''new'' \<noteq> RELCATNAME" "''new'' \<noteq> ATTRCATNAME"
    by (simp_all add: plain_def MAXNAME_def RELCATNAME_def ATTRCATNAME_def)
  have ok: "\<forall>x \<in> set [demo_new_attr]. attr_ok x" using a by (simp add: attr_ok_def MAXNAME_def) (simp add: demo_new_attr_def)
  have w: "sum_list (map ai_attrLen [demo_new_attr]) = 4" by (simp add: demo_new_attr_def)
  have "dom (file_map demo_heap_pages) \<subseteq> {1, 2}" by (auto simp: file_map_def demo_heap_pages_def split: if_splits)
  from card_mono [OF _ this] have k: "card (dom (file_map demo_heap_pages)) \<le> 2" by simp
  have o: "oft_map (openFiles demo_cat) n = None" for n by (simp add: demo_cat_def demo_rel_def oft_init)
  have pg: "rel_pages demo_cat RELCATNAME = file_map demo_heap_pages" "rel_pages demo_cat ATTRCATNAME = file_map demo_heap_pages"
    unfolding rel_pages_def o by (simp_all add: demo_cat_def names_differ)
  have "free_frames (bufMgr demo_cat) = {0..<8}" by (auto simp: free_frames_def demo_cat_def demo_rel_def BufMgr_init_def Let_def)
  then have "room_for demo_cat ''new'' (length [demo_new_attr])"
    unfolding room_for_def pg using k o by (simp add: demo_cat_def demo_rel_def RELCATNAME_def ATTRCATNAME_def)
  from createRel_correct [OF demo_cat_ok(1) n _ ok _ this] w demo_cat_ok(2,3) a obtain u nr na d e p where
    C: "createRel demo_cat ''new'' [demo_new_attr] = Some (OK, u)" "rel_descs u nr = [d]" "rd_name d = ''new''" "rd_attrCnt d = 1"
    "attr_descs u na = [e]" "ad_attr e = ''a''" "ad_attrOffset e = 0" "ad_attrLen e = 4" "relation u ''new'' [p]" "tuples u ''new'' [p] = Map.empty"
    by auto
  then show ?thesis by (intro exI [of _ u] exI [of _ nr] exI [of _ na] exI [of _ d] exI [of _ e] exI [of _ p]) simp
qed

end
