(* ===== verification/Programs.thy ===== *)
theory Programs
  imports Catalog_Create
begin

text \<open>
  The main programs: \<open>dbcreate.C\<close> makes a database, \<open>minirel.C\<close> starts the engine on one, \<open>quit.C\<close>
  shuts it down, \<open>dbdestroy.C\<close> asks and removes the directory. A database is a directory of Unix
  files. Every run of a program begins with an empty buffer pool and no open file, and all it leaves
  behind are the files. \<open>mkdir\<close> and \<open>chdir\<close> fail when the directory exists or does not exist; the
  texts the programs print are left out, and so is the loop of the parser, which hands each command
  to the interpreter and ends in \<open>UT_Quit\<close>.
\<close>

subsection \<open>Processes\<close>

type_synonym directory = "string \<rightharpoonup> memory list"

definition boot :: "nat \<Rightarrow> (int set \<Rightarrow> int) \<Rightarrow> directory \<Rightarrow> dsys" where
  "boot q new fs = \<lparr>files = fs, quota = q, objs = (\<lambda>_. File_init []), live = {}, heap_new = new,
     bufMgr = BufMgr_init 100, bufMgr_null = False, openFiles = OpenFileHashTbl_init\<rparr>"

text \<open>
  The end of a process runs the destructor of the global \<open>db\<close>, which closes the files that are still
  open. Once \<open>bufMgr\<close> has been deleted, closing a file would flush it through the deleted object.
\<close>

definition program_exit :: "bool \<Rightarrow> dsys \<Rightarrow> directory option" where
  "program_exit deleted s = (if deleted \<and> live s \<noteq> {} then None else Some (files (OpenFileHashTbl_destroy s)))"

text \<open>\<open>relCat\<close> and \<open>attrCat\<close> are \<open>HeapFile\<close> objects that stay open until the end.\<close>

definition open_catalogs :: "dsys \<Rightarrow> ((Status + HeapFile \<times> HeapFile) \<times> dsys) option" where
  "open_catalogs s =
     (case HeapFile_init s RELCATNAME of
        None \<Rightarrow> None
      | Some (Inl st, s) \<Rightarrow> Some (Inl st, s)
      | Some (Inr relCat, s) \<Rightarrow>
          (case HeapFile_init s ATTRCATNAME of
             None \<Rightarrow> None
           | Some (Inl st, s) \<Rightarrow> Some (Inl st, s)
           | Some (Inr attrCat, s) \<Rightarrow> Some (Inr (relCat, attrCat), s)))"

text \<open>Both catalogs and then the buffer manager are deleted.\<close>

definition shut_down :: "dsys \<Rightarrow> HeapFile \<Rightarrow> HeapFile \<Rightarrow> directory option" where
  "shut_down s relCat attrCat = program_exit True (BufMgr_destroy (HeapFile_destroy (HeapFile_destroy s relCat) attrCat))"

subsection \<open>Creating a database\<close>

text \<open>The descriptions of the catalogs themselves, in the order in which they are entered.\<close>

definition own_descriptions :: "RelDesc \<Rightarrow> AttrDesc \<Rightarrow> (RelDesc + AttrDesc) list" where
  "own_descriptions rd ad =
     (let rd1 = rd\<lparr>rd_relName := strcpy (rd_relName rd) RELCATNAME, rd_attrCnt := 2\<rparr>;
          ad1 = ad\<lparr>ad_relName := strcpy (ad_relName ad) RELCATNAME, ad_attrName := strcpy (ad_attrName ad) ''relName'',
            ad_attrOffset := 0, ad_attrType := 0, ad_attrLen := int MAXNAME\<rparr>;
          ad2 = ad1\<lparr>ad_attrName := strcpy (ad_attrName ad1) ''attrCnt'', ad_attrOffset := ad_attrOffset ad1 + int MAXNAME,
            ad_attrType := 1, ad_attrLen := 4\<rparr>;
          rd2 = rd1\<lparr>rd_relName := strcpy (rd_relName rd1) ATTRCATNAME, rd_attrCnt := 5\<rparr>;
          ad3 = ad2\<lparr>ad_relName := strcpy (ad_relName ad2) ATTRCATNAME, ad_attrName := strcpy (ad_attrName ad2) ''relName'',
            ad_attrOffset := 0, ad_attrType := 0, ad_attrLen := int MAXNAME\<rparr>;
          ad4 = ad3\<lparr>ad_attrName := strcpy (ad_attrName ad3) ''attrName'', ad_attrOffset := ad_attrOffset ad3 + int MAXNAME,
            ad_attrType := 0, ad_attrLen := int MAXNAME\<rparr>;
          ad5 = ad4\<lparr>ad_attrName := strcpy (ad_attrName ad4) ''attrOffset'', ad_attrOffset := ad_attrOffset ad4 + int MAXNAME,
            ad_attrType := 1, ad_attrLen := 4\<rparr>;
          ad6 = ad5\<lparr>ad_attrName := strcpy (ad_attrName ad5) ''attrType'', ad_attrOffset := ad_attrOffset ad5 + 4,
            ad_attrType := 1, ad_attrLen := 4\<rparr>;
          ad7 = ad6\<lparr>ad_attrName := strcpy (ad_attrName ad6) ''attrLen'', ad_attrOffset := ad_attrOffset ad6 + 4,
            ad_attrType := 1, ad_attrLen := 4\<rparr>
      in [Inl rd1, Inr ad1, Inr ad2, Inl rd2, Inr ad3, Inr ad4, Inr ad5, Inr ad6, Inr ad7])"

text \<open>The calls of \<open>addInfo\<close>, each in the macro \<open>CALL\<close>, which leaves the program at the first error.\<close>

fun call_addInfo :: "dsys \<Rightarrow> (RelDesc + AttrDesc) list \<Rightarrow> (Status \<times> dsys) option" where
  "call_addInfo s [] = Some (OK, s)"
| "call_addInfo s (x # xs) =
     (case (case x of Inl rd \<Rightarrow> RelCatalog_addInfo s rd | Inr ad \<Rightarrow> AttrCatalog_addInfo s ad) of
        None \<Rightarrow> None
      | Some (st, s) \<Rightarrow> if st \<noteq> OK then Some (st, s) else call_addInfo s xs)"

text \<open>
  \<open>dbcreate\<close> in its new directory: exit code and files. \<open>rd\<close> and \<open>ad\<close> are the contents of the
  variables before they are set.
\<close>

definition dbcreate_files :: "nat \<Rightarrow> (int set \<Rightarrow> int) \<Rightarrow> RelDesc \<Rightarrow> AttrDesc \<Rightarrow> (int \<times> directory) option" where
  "dbcreate_files q new rd ad =
     (let fails = (\<lambda>s. map_option (\<lambda>fs. (1, fs)) (program_exit False s))
      in case createHeapFile (boot q new Map.empty) ''relcat'' of
           (st, s) \<Rightarrow>
             if st \<noteq> OK then fails s
             else (case createHeapFile s ''attrcat'' of
               (st, s) \<Rightarrow>
                 if st \<noteq> OK then fails s
                 else (case open_catalogs s of
                    None \<Rightarrow> None
                  | Some (Inl _, s) \<Rightarrow> fails s
                  | Some (Inr (relCat, attrCat), s) \<Rightarrow>
                      (case call_addInfo s (own_descriptions rd ad) of
                         None \<Rightarrow> None
                       | Some (st, s) \<Rightarrow>
                           if st \<noteq> OK then fails s
                           else map_option (\<lambda>fs. (0, fs)) (shut_down s relCat attrCat)))))"

definition dbcreate :: "nat \<Rightarrow> (int set \<Rightarrow> int) \<Rightarrow> RelDesc \<Rightarrow> AttrDesc \<Rightarrow> (string \<rightharpoonup> directory) \<Rightarrow> string list \<Rightarrow>
    (int \<times> (string \<rightharpoonup> directory)) option" where
  "dbcreate q new rd ad dirs argv =
     (if length argv < 2 \<or> dirs (argv ! 1) \<noteq> None then Some (1, dirs)
      else map_option (\<lambda>(code, fs). (code, dirs(argv ! 1 \<mapsto> fs))) (dbcreate_files q new rd ad))"

subsection \<open>Starting the engine\<close>

record minirel =
  mr_sys :: dsys
  mr_relCat :: HeapFile
  mr_attrCat :: HeapFile
  mr_JoinMethod :: JoinType
  mr_LogPrefix :: string

definition log_prefix :: "string option \<Rightarrow> string list \<Rightarrow> string option" where
  "log_prefix cwd argv =
     (let prefix = (if 4 \<le> length argv then argv ! 3 else ''minirel'')
      in if prefix \<noteq> [] \<and> hd prefix = CHR ''/'' then Some prefix
         else map_option (\<lambda>d. d @ ''/'' @ prefix) cwd)"

definition join_method :: "string list \<Rightarrow> JoinType" where
  "join_method argv =
     (if length argv < 3 then NLJoin else if argv ! 2 = ''SM'' then SMJoin else if argv ! 2 = ''HJ'' then HashJoin else NLJoin)"

text \<open>Up to the call of \<open>parse\<close>; \<open>Inl\<close> is an exit with this code.\<close>

definition minirel_start :: "nat \<Rightarrow> (int set \<Rightarrow> int) \<Rightarrow> string option \<Rightarrow> (string \<rightharpoonup> directory) \<Rightarrow> string list \<Rightarrow>
    (int + minirel) option" where
  "minirel_start q new cwd dirs argv =
     (if length argv < 2 then Some (Inl 1)
      else (case (log_prefix cwd argv, dirs (argv ! 1)) of
         (Some prefix, Some fs) \<Rightarrow>
           (case open_catalogs (boot q new fs) of
              None \<Rightarrow> None
            | Some (Inl _, s) \<Rightarrow> map_option (\<lambda>_. Inl 1) (program_exit False s)
            | Some (Inr (relCat, attrCat), s) \<Rightarrow>
                Some (Inr \<lparr>mr_sys = s, mr_relCat = relCat, mr_attrCat = attrCat, mr_JoinMethod = join_method argv,
                  mr_LogPrefix = prefix\<rparr>))
       | _ \<Rightarrow> Some (Inl 1)))"

text \<open>The exit code of a regular end is 1.\<close>

definition UT_Quit :: "minirel \<Rightarrow> (int \<times> directory) option" where
  "UT_Quit m = map_option (\<lambda>fs. (1, fs)) (shut_down (mr_sys m) (mr_relCat m) (mr_attrCat m))"

subsection \<open>Removing a database\<close>

text \<open>
  \<open>scanf("%s", command)\<close> reads a word into an array of 128 bytes; \<open>snprintf\<close> cuts the command at 127
  characters. What a shell does with a command is \<open>system\<close>, a parameter.
\<close>

definition dbdestroy :: "(string \<Rightarrow> 'w \<Rightarrow> int \<times> 'w) \<Rightarrow> 'w \<Rightarrow> string option \<Rightarrow> string list \<Rightarrow> (int \<times> 'w) option" where
  "dbdestroy system w answer argv =
     (if length argv < 2 then Some (1, w)
      else (case answer of
         None \<Rightarrow> Some (0, w)
       | Some word \<Rightarrow>
           if 128 \<le> length word then None
           else if word \<noteq> [] \<and> hd word \<in> {CHR ''y'', CHR ''Y''} then Some (system (take 127 (''rm -r '' @ argv ! 1)) w)
           else Some (0, w)))"

end
