(* ===== verification/Program_Props.thy ===== *)
theory Program_Props
  imports Programs
begin

text \<open>
  What a database is between two runs of the engine. A running engine holds both catalogs open;
  shutting it down writes everything to the files, and the next start finds every relation as it
  was. \<open>dbcreate\<close> makes a database whose catalogs describe themselves.
\<close>

subsection \<open>An object that stays open\<close>

definition held :: "dsys \<Rightarrow> string \<Rightarrow> HeapFile \<Rightarrow> bool" where
  "held s name h \<longleftrightarrow> hf_filePtr h \<in> live s \<and> fileName (objs s (hf_filePtr h)) = name \<and> openCnt (objs s (hf_filePtr h)) = 1 \<and>
     hf_headerPageNo h = 1 \<and> hf_curPageNo h \<noteq> 1 \<and> hf_curPage h \<noteq> Null \<and> \<not> hf_hdrDirtyFlag h \<and> \<not> hf_curDirtyFlag h \<and>
     (\<exists>f. holds s (hf_filePtr h) 1 f) \<and> (\<exists>f. holds s (hf_filePtr h) (hf_curPageNo h) f)"

lemma held_transfer:
  assumes "held s name h" "hf_filePtr h \<in> live u" "objs u (hf_filePtr h) = objs s (hf_filePtr h)"
    and "\<And>q f. holds s (hf_filePtr h) q f \<Longrightarrow> holds u (hf_filePtr h) q f"
  shows "held u name h"
proof -
  have "(\<exists>f. holds u (hf_filePtr h) 1 f) \<and> (\<exists>f. holds u (hf_filePtr h) (hf_curPageNo h) f)"
    using assms(1,4) unfolding held_def by blast
  then show ?thesis using assms(1-3) unfolding held_def by simp
qed

lemma held_closed:
  assumes "closed_again s n u" "held s name h"
  shows "held u name h"
  by (rule held_transfer [OF assms(2)]) (use assms in \<open>simp_all add: closed_again_def pins_kept_def held_def\<close>)

text \<open>Other relations while a file is opened or closed, seen from either side.\<close>

lemma opened_pages:
  assumes "opened s name a t" "n \<noteq> name"
  shows "rel_pages t n = rel_pages s n" "oft_map (openFiles t) n = oft_map (openFiles s) n"
proof -
  show o: "oft_map (openFiles t) n = oft_map (openFiles s) n" using assms by (auto simp: opened_def split: option.splits)
  have O: "db_inv s" "db_inv t" "fileName (objs t a) = name" using assms(1) by (simp_all add: opened_def)
  show "rel_pages t n = rel_pages s n"
  proof (cases "oft_map (openFiles s) n")
    case None
    then show ?thesis using assms o by (simp add: rel_pages_closed opened_def)
  next
    case (Some b)
    then have "b \<in> live s" "b \<noteq> a" using db_invD(6) [OF O(1)] db_invD(6) [OF O(2), of n b] o O(3) assms(2) by auto
    then show ?thesis using assms(1) Some o by (simp add: rel_pages_def opened_def)
  qed
qed

lemma held_init:
  assumes "ready s" "relation s name ns" "4 \<le> card (free_frames (bufMgr s))" "oft_map (openFiles s) name = None"
  obtains h t where "HeapFile_init s name = Some (Inr h, t)" "ready t" "held t name h" "relation t name ns" "rel_pages t = rel_pages s"
    "\<And>n nn. n \<noteq> name \<Longrightarrow> relation s n nn \<Longrightarrow> relation t n nn" "card (free_frames (bufMgr s)) \<le> card (free_frames (bufMgr t)) + 2"
    "\<And>n k. n \<noteq> name \<Longrightarrow> held s n k \<Longrightarrow> held t n k" "\<And>g q. pins t g q = pins s g q + own h g q" "live t = insert (hf_filePtr h) (live s)"
    "\<And>n. n \<noteq> name \<Longrightarrow> oft_map (openFiles t) n = oft_map (openFiles s) n" "quota t = quota s"
proof -
  obtain h t where H: "HeapFile_init s name = Some (Inr h, t)" "ready t" "relation t name ns" "rel_pages t name = rel_pages s name"
    "card (free_frames (bufMgr s)) \<le> card (free_frames (bufMgr t)) + 2"
    "\<And>n nn. n \<noteq> name \<Longrightarrow> relation s n nn \<Longrightarrow> relation t n nn \<and> rel_pages t n = rel_pages s n" using held_open [OF assms(1-3)] by metis
  have R: "db_inv s" "allocator_ok (heap_new s)" "two_free (bufMgr s)" using assms(1) by (simp_all add: ready_def)
  obtain h' t' where I: "HeapFile_init s name = Some (Inr h', t')" "opened s name (hf_filePtr h') t'" "hf_ok t' h' ns" "owned s t' h'"
    "hf_headerPageNo h' = 1" by (rule HeapFile_init_ok [OF R(1,2) assms(2) R(3)])
  have e: "h' = h" "t' = t" using H(1) I(1) by simp_all
  note I = I [unfolded e]
  obtain fh fc where K: "hf_core t h ns fh fc" using I(3) by (rule hf_okE)
  note D = hf_coreD [OF K]
  have fl: "\<not> hf_hdrDirtyFlag h" "\<not> hf_curDirtyFlag h"
    using H(1) by (auto simp: HeapFile_init_def Let_def split: prod.splits sum.splits)
  have O: "fileName (objs t (hf_filePtr h)) = name" "openCnt (objs t (hf_filePtr h)) = 1" "live t = insert (hf_filePtr h) (live s)"
    "quota t = quota s" "\<And>g. g \<in> live s \<Longrightarrow> g \<noteq> hf_filePtr h \<Longrightarrow> objs t g = objs s g" "hf_filePtr h \<notin> live s"
    using I(2) assms(4) by (simp_all add: opened_def)
  have "held t name h" using D(2,6,7,8,11) O(1,2) fl I(5) by (auto simp: held_def)
  moreover have "rel_pages t n = rel_pages s n" for n using H(4) opened_pages(1) [OF I(2)] by (cases "n = name") simp_all
  moreover have P: "\<forall>g q. pins t g q = pins s g q + own h g q" "pins_kept s t" using I(4) by (simp_all add: owned_def pool_base_def)
  have "held t n k" if k: "held s n k" for n k
  proof (rule held_transfer [OF k])
    have l: "hf_filePtr k \<in> live s" using k by (simp add: held_def)
    then show "hf_filePtr k \<in> live t" using O(3) by simp
    show "objs t (hf_filePtr k) = objs s (hf_filePtr k)" by (rule O(5) [OF l]) (use l O(6) in auto)
  qed (use P(2) in \<open>simp add: pins_kept_def\<close>)
  moreover have "oft_map (openFiles t) n = oft_map (openFiles s) n" if "n \<noteq> name" for n by (rule opened_pages(2) [OF I(2) that])
  ultimately show ?thesis using that [OF H(1,2)] H(3,5,6) O(3,4) P(1) by (simp add: fun_eq_iff)
qed

text \<open>The destructor of such an object, when nobody else uses the file.\<close>

lemma held_destroy:
  assumes "db_inv s" "held s name h" "relation s name ns" "\<And>q. pins s (hf_filePtr h) q = own h (hf_filePtr h) q"
  defines "u \<equiv> HeapFile_destroy s h"
  shows "db_inv u" "rel_pages u = rel_pages s" "live u = live s - {hf_filePtr h}" "oft_map (openFiles u) name = None"
    "\<And>g q. pins s g q = pins u g q + own h g q" "\<And>n k. n \<noteq> name \<Longrightarrow> held s n k \<Longrightarrow> held u n k"
    "\<And>n nn. n \<noteq> name \<Longrightarrow> relation s n nn \<Longrightarrow> relation u n nn" "quota u = quota s"
proof -
  let ?a = "hf_filePtr h"
  have H: "?a \<in> live s" "fileName (objs s ?a) = name" "openCnt (objs s ?a) = 1" "hf_headerPageNo h = 1" "hf_curPageNo h \<noteq> 1"
    "hf_curPage h \<noteq> Null" "\<not> hf_hdrDirtyFlag h" "\<not> hf_curDirtyFlag h" using assms(2) by (simp_all add: held_def)
  obtain fh fc where F: "holds s ?a 1 fh" "holds s ?a (hf_curPageNo h) fc" using assms(2) by (auto simp: held_def)
  have o: "oft_map (openFiles s) name = Some ?a" using db_invD(6) [OF assms(1), of name ?a] H(1,2) by simp
  have R: "name \<noteq> []" "heap_wf (logical s ?a) 1 ns" "\<And>q. settled s ?a q" using assms(3) o by (auto simp: relation_def rel_pages_def)
  have fl: "flag_ok s ?a 1 (hf_hdrDirtyFlag h) fh" "flag_ok s ?a (hf_curPageNo h) (hf_curDirtyFlag h) fc"
    using R(3) F H(7,8) by (simp_all add: settled_def)
  obtain st1 t1 where U1: "BufMgr_unPinPage s ?a (hf_curPageNo h) (hf_curDirtyFlag h) = (st1, t1)" by fastforce
  obtain st2 t2 where U2: "BufMgr_unPinPage t1 ?a (hf_headerPageNo h) (hf_hdrDirtyFlag h) = (st2, t2)" by fastforce
  obtain st3 v where U3: "DB_closeFile t2 ?a = (st3, v)" by fastforce
  have u: "u = v" using U1 U2 U3 H(6) by (simp add: u_def HeapFile_destroy_def)
  note E = end_pages [OF assms(1) H(2,1,4) R(1) _ R(3) _ U1 U2 U3 _ F(2) _ _ fl(2) R(2), of fh, folded u]
  have X: "hf_headerPageNo h \<noteq> hf_curPageNo h" "holds s ?a (hf_headerPageNo h) fh" "flag_ok s ?a (hf_headerPageNo h) (hf_hdrDirtyFlag h) fh"
    using H(4,5) F(1) fl(1) by simp_all
  note E = E [OF _ _ X(2,1,3)]
  have O: "opened u name ?a s" using E(1) assms(4) by simp
  have N: "oft_map (openFiles u) name = None" using opened_count [OF O] H(3) by simp
  then have L: "live s = insert ?a (live u)" "?a \<notin> live u" "db_inv u" "quota u = quota s"
    "\<And>g. g \<in> live u \<Longrightarrow> g \<noteq> ?a \<Longrightarrow> objs s g = objs u g" using O by (simp_all add: opened_def)
  show "db_inv u" "oft_map (openFiles u) name = None" "quota u = quota s" by (rule L(3) N L(4))+
  show "live u = live s - {?a}" using L(1,2) by blast
  show "pins s g q = pins u g q + own h g q" for g q using E(2) assms(4) by simp
  have "rel_pages u name = rel_pages s name" using E(4) assms(4) o by (simp add: rel_pages_def)
  then show rp: "rel_pages u = rel_pages s" using opened_pages(1) [OF O] by (metis ext)
  show "held u n k" if "n \<noteq> name" "held s n k" for n k
  proof -
    have k: "hf_filePtr k \<noteq> ?a" "hf_filePtr k \<in> live s" using that H(2) by (auto simp: held_def)
    then have "hf_filePtr k \<in> live u" "objs u (hf_filePtr k) = objs s (hf_filePtr k)" using L(1,5) by auto
    moreover have "holds u (hf_filePtr k) q f" if "holds s (hf_filePtr k) q f" for q f using E(7) assms(4) k(1) that by simp
    ultimately show ?thesis by (rule held_transfer [OF that(2)])
  qed
  show "relation u n nn" if "n \<noteq> name" "relation s n nn" for n nn
  proof -
    have "settled u b q" if b: "oft_map (openFiles u) n = Some b" for b q
    proof -
      have "settled s b q" using \<open>relation s n nn\<close> opened_pages(2) [OF O \<open>n \<noteq> name\<close>] b by (simp add: relation_def)
      then show ?thesis using E(6) assms(4) db_invD(6) [OF L(3)] b by simp
    qed
    then show ?thesis using that(2) rp by (simp add: relation_def)
  qed
qed

subsection \<open>A running engine\<close>

text \<open>Both catalogs are open, nothing else is, and only their objects hold pages.\<close>

definition session :: "dsys \<Rightarrow> HeapFile \<Rightarrow> HeapFile \<Rightarrow> bool" where
  "session s r a \<longleftrightarrow> held s RELCATNAME r \<and> held s ATTRCATNAME a \<and> live s = {hf_filePtr r, hf_filePtr a} \<and>
     (\<forall>g q. pins s g q = own r g q + own a g q)"

lemma session_differ: "session s r a \<Longrightarrow> hf_filePtr r \<noteq> hf_filePtr a"
  using names_differ(1) by (auto simp: session_def held_def)

lemma session_closed: "session s r a \<Longrightarrow> closed_again s n u \<Longrightarrow> session u r a"
  using held_closed [of s n u] by (simp add: session_def closed_again_def)

lemma own_other: "g \<noteq> hf_filePtr h \<Longrightarrow> own h g q = 0"
  by (simp add: own_def)

lemma start_session:
  assumes "ready s" "live s = {}" "8 \<le> card (free_frames (bufMgr s))" "\<And>n. oft_map (openFiles s) n = None"
    and "relation s RELCATNAME nr" "relation s ATTRCATNAME na"
  obtains r a t where "open_catalogs s = Some (Inr (r, a), t)" "ready t" "session t r a" "rel_pages t = rel_pages s"
    "relation t RELCATNAME nr" "relation t ATTRCATNAME na" "4 \<le> card (free_frames (bufMgr t))" "quota t = quota s"
proof -
  have z: "pins s g q = 0" for g q
    using pins_zero [of s g q] holds_live [of s g q] assms(1,2) by (auto simp: ready_def db_inv_def)
  have f: "4 \<le> card (free_frames (bufMgr s))" using assms(3) by simp
  obtain r v where V: "HeapFile_init s RELCATNAME = Some (Inr r, v)" "ready v" "held v RELCATNAME r" "relation v RELCATNAME nr"
    "rel_pages v = rel_pages s" "\<And>n nn. n \<noteq> RELCATNAME \<Longrightarrow> relation s n nn \<Longrightarrow> relation v n nn"
    "card (free_frames (bufMgr s)) \<le> card (free_frames (bufMgr v)) + 2" "\<And>g q. pins v g q = pins s g q + own r g q"
    "live v = insert (hf_filePtr r) (live s)" "\<And>n. n \<noteq> RELCATNAME \<Longrightarrow> oft_map (openFiles v) n = oft_map (openFiles s) n" "quota v = quota s"
    using held_init [OF assms(1,5) f assms(4)] by metis
  have w: "relation v ATTRCATNAME na" "4 \<le> card (free_frames (bufMgr v))" "oft_map (openFiles v) ATTRCATNAME = None"
    using V(6) [OF names_differ(2) assms(6)] V(7,10) assms(3,4) names_differ(2) by simp_all
  obtain a t where T: "HeapFile_init v ATTRCATNAME = Some (Inr a, t)" "ready t" "held t ATTRCATNAME a" "relation t ATTRCATNAME na"
    "rel_pages t = rel_pages v" "\<And>n nn. n \<noteq> ATTRCATNAME \<Longrightarrow> relation v n nn \<Longrightarrow> relation t n nn"
    "card (free_frames (bufMgr v)) \<le> card (free_frames (bufMgr t)) + 2" "\<And>n k. n \<noteq> ATTRCATNAME \<Longrightarrow> held v n k \<Longrightarrow> held t n k"
    "\<And>g q. pins t g q = pins v g q + own a g q" "live t = insert (hf_filePtr a) (live v)" "quota t = quota v"
    using held_init [OF V(2) w] by metis
  have "open_catalogs s = Some (Inr (r, a), t)" using V(1) T(1) by (simp add: open_catalogs_def)
  moreover have "session t r a"
    using T(3,9,10) T(8) [OF names_differ(1) V(3)] V(8,9) z assms(2) by (auto simp: session_def)
  moreover have "relation t RELCATNAME nr" by (rule T(6) [OF names_differ(1) V(4)])
  moreover have "4 \<le> card (free_frames (bufMgr t))" using V(7) T(7) assms(3) by simp
  ultimately show ?thesis using that [of r a t] T(2,4,5,11) V(5,11) by simp
qed

subsection \<open>Shutting down\<close>

lemma write_back_none: "\<forall>i \<in> set is. \<not> valid (desc (bufMgr s) i) \<Longrightarrow> write_back_loop s is = s"
  by (induction "is") (simp_all add: Let_def)

lemma destroy_empty_table:
  fixes s :: dsys
  assumes "\<forall>i. oft_ht (openFiles s) i = []"
  shows "files (OpenFileHashTbl_destroy s) = files s"
proof -
  define f where "f = (\<lambda>i s :: dsys. (delete_chain s (oft_ht (openFiles s) (int i)))
    \<lparr>openFiles := (openFiles s)\<lparr>oft_ht := (oft_ht (openFiles s))(int i := [])\<rparr>\<rparr>)"
  have "files (fold f is s) = files s \<and> (\<forall>i. oft_ht (openFiles (fold f is s)) i = [])" if "\<forall>i. oft_ht (openFiles s) i = []" for "is" s
    using that by (induction "is" arbitrary: s) (simp_all add: f_def)
  then show ?thesis using assms unfolding OpenFileHashTbl_destroy_def f_def by blast
qed

lemma exit_closed:
  assumes "db_inv s" "live s = {}"
  shows "program_exit True (BufMgr_destroy s) = Some (files s)"
proof -
  have "\<forall>i \<in> set [0..<numBufs (bufMgr s)]. \<not> valid (desc (bufMgr s) i)"
    using frame_live [OF db_invD(1) [OF assms(1)]] assms(2) by auto
  then have b: "BufMgr_destroy s = s" unfolding BufMgr_destroy_def by (rule write_back_none)
  have "oft_map (openFiles s) n = None" for n using db_invD(6) [OF assms(1), of n] assms(2) by (cases "oft_map (openFiles s) n") auto
  then have "oft_map (openFiles s) = Map.empty" by (simp add: fun_eq_iff)
  then have "\<forall>i. oft_ht (openFiles s) i = []" using oft_empty [OF db_invD(3) [OF assms(1)]] by blast
  then show ?thesis using destroy_empty_table assms(2) by (simp add: b program_exit_def)
qed

lemma shut_down_session:
  assumes "db_inv s" "session s r a" "relation s RELCATNAME nr" "relation s ATTRCATNAME na"
  obtains u :: dsys where "shut_down s r a = Some (files u)" "db_inv u" "live u = {}" "rel_pages u = rel_pages s" "quota u = quota s"
proof -
  have S: "held s RELCATNAME r" "held s ATTRCATNAME a" "live s = {hf_filePtr r, hf_filePtr a}" "hf_filePtr r \<noteq> hf_filePtr a"
    "\<And>g q. pins s g q = own r g q + own a g q" using assms(2) session_differ [OF assms(2)] by (simp_all add: session_def)
  have p: "pins s (hf_filePtr r) q = own r (hf_filePtr r) q" for q using S(4,5) own_other by simp
  note V = held_destroy [OF assms(1) S(1) assms(3) p]
  let ?v = "HeapFile_destroy s r"
  have q: "pins ?v (hf_filePtr a) q = own a (hf_filePtr a) q" for q
    using V(5) [of "hf_filePtr a" q] S(5) [of "hf_filePtr a" q] by simp
  note U = held_destroy [OF V(1) V(6) [OF names_differ(2) S(2)] V(7) [OF names_differ(2) assms(4)] q]
  let ?u = "HeapFile_destroy ?v a"
  have "live ?u = {}" using U(3) V(3) S(3) by auto
  then have "shut_down s r a = Some (files ?u)" using exit_closed [OF U(1)] by (simp add: shut_down_def)
  then show ?thesis using that [of ?u] U(1,2,8) V(2,8) \<open>live ?u = {}\<close> by simp
qed

subsection \<open>Starting again\<close>

lemma boot_ready:
  assumes "allocator_ok new" "int q < 2147483648" "\<And>n ps. fs n = Some ps \<Longrightarrow> file_wf ps"
  shows "ready (boot q new fs)" "live (boot q new fs) = {}" "oft_map (openFiles (boot q new fs)) n = None"
    "card (free_frames (bufMgr (boot q new fs))) = 100"
proof -
  let ?s = "boot q new fs"
  show l: "live ?s = {}" and o: "oft_map (openFiles ?s) n = None" for n by (simp_all add: boot_def oft_init)
  have "files_ok ?s" by (simp add: files_ok_def l)
  then have "buf_ok ?s" using BufMgr_init_ok(1) [of ?s 100] by (simp add: boot_def)
  then have "db_inv ?s" using assms(2,3) l o by (auto simp: db_inv_def) (auto simp: boot_def oft_init)
  moreover have f: "free_frames (bufMgr ?s) = {0..<100}" by (auto simp: free_frames_def boot_def BufMgr_init_def Let_def)
  then have "two_free (bufMgr ?s)" by (simp add: two_free_iff)
  ultimately show "ready ?s" using assms(1) by (simp add: ready_def) (simp add: boot_def)
  show "card (free_frames (bufMgr ?s)) = 100" by (simp add: f)
qed

text \<open>What a process left in its files is there when the next one starts.\<close>

lemma boot_again:
  assumes "db_inv u" "live u = {}" "allocator_ok new" "int q < 2147483648"
  shows "ready (boot q new (files u))" "rel_pages (boot q new (files u)) = rel_pages u"
    "relation (boot q new (files u)) n ns \<longleftrightarrow> n \<noteq> [] \<and> heap_wf (rel_pages u n) 1 ns"
proof -
  have o: "oft_map (openFiles u) n = None" for n using db_invD(6) [OF assms(1), of n] assms(2) by (cases "oft_map (openFiles u) n") auto
  have "\<And>n ps. files u n = Some ps \<Longrightarrow> file_wf ps" using assms(1) o by (auto simp: db_inv_def)
  note B = boot_ready [OF assms(3,4) this]
  show "ready (boot q new (files u))" by (rule B(1))
  have "files (boot q new (files u)) = files u" by (simp add: boot_def)
  then show r: "rel_pages (boot q new (files u)) = rel_pages u" using B(3) o by (simp add: rel_pages_def fun_eq_iff)
  show "relation (boot q new (files u)) n ns \<longleftrightarrow> n \<noteq> [] \<and> heap_wf (rel_pages u n) 1 ns" using r B(3) by (simp add: relation_def)
qed

lemma start_after:
  assumes "db_inv u" "live u = {}" "allocator_ok new" "int q < 2147483648" "2 \<le> length argv" "log_prefix cwd argv \<noteq> None"
    and "heap_wf (rel_pages u RELCATNAME) 1 nr" "heap_wf (rel_pages u ATTRCATNAME) 1 na" "dirs (argv ! 1) = Some (files u)"
  obtains m where "minirel_start q new cwd dirs argv = Some (Inr m)" "ready (mr_sys m)" "session (mr_sys m) (mr_relCat m) (mr_attrCat m)"
    "rel_pages (mr_sys m) = rel_pages u" "relation (mr_sys m) RELCATNAME nr" "relation (mr_sys m) ATTRCATNAME na"
proof -
  note B = boot_again [OF assms(1-4)]
  have "\<And>n ps. files u n = Some ps \<Longrightarrow> file_wf ps"
    using assms(1,2) db_invD(6) [OF assms(1)] by (auto simp: db_inv_def) (metis empty_iff option.exhaust)
  note R = boot_ready [OF assms(3,4) this]
  have n: "RELCATNAME \<noteq> []" "ATTRCATNAME \<noteq> []" by (simp_all add: RELCATNAME_def ATTRCATNAME_def)
  have r: "relation (boot q new (files u)) RELCATNAME nr" "relation (boot q new (files u)) ATTRCATNAME na" using B(3) n assms(7,8) by simp_all
  have f: "8 \<le> card (free_frames (bufMgr (boot q new (files u))))" using R(4) by simp
  obtain r a t where T: "open_catalogs (boot q new (files u)) = Some (Inr (r, a), t)" "ready t" "session t r a"
    "rel_pages t = rel_pages (boot q new (files u))" "relation t RELCATNAME nr" "relation t ATTRCATNAME na"
    by (rule start_session [OF R(1,2) f R(3) r])
  obtain p where p: "log_prefix cwd argv = Some p" using assms(6) by auto
  show ?thesis
    using that [of "\<lparr>mr_sys = t, mr_relCat = r, mr_attrCat = a, mr_JoinMethod = join_method argv, mr_LogPrefix = p\<rparr>"]
      T B(2) p assms(5,9) by (simp add: minirel_start_def)
qed

subsection \<open>The catalogs of a new database\<close>

definition rel_key :: "RelDesc \<Rightarrow> string \<times> int" where
  "rel_key d = (rd_name d, rd_attrCnt d)"

definition attr_key :: "AttrDesc \<Rightarrow> string \<times> string \<times> int \<times> int \<times> int" where
  "attr_key d = (ad_rel d, ad_attr d, ad_attrOffset d, ad_attrType d, ad_attrLen d)"

fun desc_ok :: "RelDesc + AttrDesc \<Rightarrow> bool" where
  "desc_ok (Inl d) = (RelDesc_wf d \<and> length (rd_name d) < MAXNAME)"
| "desc_ok (Inr d) = (AttrDesc_wf d \<and> length (ad_rel d) < MAXNAME \<and> length (ad_attr d) < MAXNAME)"

lemma call_addInfo_ok:
  assumes "catalogs_ok s nr na" "session s r a" "\<forall>x \<in> set xs. desc_ok x" "4 \<le> card (free_frames (bufMgr s))"
    and "card (dom (rel_pages s RELCATNAME)) + length xs < quota s" "card (dom (rel_pages s ATTRCATNAME)) + length xs < quota s"
  shows "\<exists>u nr' na'. call_addInfo s xs = Some (OK, u) \<and> catalogs_ok u nr' na' \<and> session u r a \<and>
    mset (map rel_key (rel_descs u nr')) = mset (map rel_key (rel_descs s nr)) + mset (map rel_key [d. Inl d \<leftarrow> xs]) \<and>
    mset (map attr_key (attr_descs u na')) = mset (map attr_key (attr_descs s na)) + mset (map attr_key [d. Inr d \<leftarrow> xs])"
  using assms
proof (induction xs arbitrary: s nr na)
  case Nil
  then show ?case by auto
next
  case (Cons x xs)
  have R: "ready s" "catalog_ok s RELCATNAME sizeof_RelDesc nr" "catalog_ok s ATTRCATNAME sizeof_AttrDesc na" "db_inv s"
    using Cons.prems(1) by (simp_all add: catalogs_ok_def ready_def)
  have step: "\<exists>t nr1 na1 n. (case x of Inl rd \<Rightarrow> RelCatalog_addInfo s rd | Inr ad \<Rightarrow> AttrCatalog_addInfo s ad) = Some (OK, t) \<and>
      catalogs_ok t nr1 na1 \<and> closed_again s n t \<and>
      card (dom (rel_pages t RELCATNAME)) \<le> card (dom (rel_pages s RELCATNAME)) + 1 \<and>
      card (dom (rel_pages t ATTRCATNAME)) \<le> card (dom (rel_pages s ATTRCATNAME)) + 1 \<and>
      mset (map rel_key (rel_descs t nr1)) = mset (map rel_key (rel_descs s nr)) + mset (map rel_key [d. Inl d \<leftarrow> [x]]) \<and>
      mset (map attr_key (attr_descs t na1)) = mset (map attr_key (attr_descs s na)) + mset (map attr_key [d. Inr d \<leftarrow> [x]])"
  proof (cases x)
    case (Inl d)
    have w: "RelDesc_wf d" "length (rd_name d) < MAXNAME" using Cons.prems(3) Inl by simp_all
    from RelCatalog_addInfo_ok [OF R(1,2) w] obtain st t nr1 e where
      A: "RelCatalog_addInfo s d = Some (st, t)" "ready t" "closed_again s RELCATNAME t" "catalog_ok t RELCATNAME sizeof_RelDesc nr1"
        "rd_name e = rd_name d" "rd_attrCnt e = rd_attrCnt d"
        "mset (rel_descs t nr1) = (if st = OK then add_mset e (mset (rel_descs s nr)) else mset (rel_descs s nr))" by blast
    have "card (dom (rel_pages s RELCATNAME)) + 1 < quota s" using Cons.prems(5) by simp
    note N = RelCatalog_addInfo_room [OF R(1,2) w(1) A(1) Cons.prems(4) this] and C = rel_changed [OF Cons.prems(1) A(2-4)]
    have "mset (map rel_key (rel_descs t nr1)) = add_mset (rel_key d) (mset (map rel_key (rel_descs s nr)))"
      using A(5-7) N(1) by (simp add: rel_key_def)
    then show ?thesis using Inl A(1,3) N C closed_pages [OF R(4) A(3) names_differ(2)]
      by (intro exI [of _ t] exI [of _ nr1] exI [of _ na] exI [of _ RELCATNAME]) simp
  next
    case (Inr d)
    have w: "AttrDesc_wf d" "length (ad_rel d) < MAXNAME" "length (ad_attr d) < MAXNAME" using Cons.prems(3) Inr by simp_all
    from AttrCatalog_addInfo_ok [OF R(1,3) w] obtain st t na1 e where
      A: "AttrCatalog_addInfo s d = Some (st, t)" "ready t" "closed_again s ATTRCATNAME t" "catalog_ok t ATTRCATNAME sizeof_AttrDesc na1"
        "ad_rel e = ad_rel d" "ad_attr e = ad_attr d" "ad_attrOffset e = ad_attrOffset d" "ad_attrType e = ad_attrType d" "ad_attrLen e = ad_attrLen d"
        "mset (attr_descs t na1) = (if st = OK then add_mset e (mset (attr_descs s na)) else mset (attr_descs s na))" by blast
    have "card (dom (rel_pages s ATTRCATNAME)) + 1 < quota s" using Cons.prems(6) by simp
    note N = AttrCatalog_addInfo_room [OF R(1,3) w(1) A(1) Cons.prems(4) this] and C = attr_changed [OF Cons.prems(1) A(2-4)]
    have "mset (map attr_key (attr_descs t na1)) = add_mset (attr_key d) (mset (map attr_key (attr_descs s na)))"
      using A(5-10) N(1) by (simp add: attr_key_def)
    then show ?thesis using Inr A(1,3) N C closed_pages [OF R(4) A(3) names_differ(1)]
      by (intro exI [of _ t] exI [of _ nr] exI [of _ na1] exI [of _ ATTRCATNAME]) simp
  qed
  then obtain t nr1 na1 n where T: "(case x of Inl rd \<Rightarrow> RelCatalog_addInfo s rd | Inr ad \<Rightarrow> AttrCatalog_addInfo s ad) = Some (OK, t)"
    "catalogs_ok t nr1 na1" "closed_again s n t" "card (dom (rel_pages t RELCATNAME)) \<le> card (dom (rel_pages s RELCATNAME)) + 1"
    "card (dom (rel_pages t ATTRCATNAME)) \<le> card (dom (rel_pages s ATTRCATNAME)) + 1"
    "mset (map rel_key (rel_descs t nr1)) = mset (map rel_key (rel_descs s nr)) + mset (map rel_key [d. Inl d \<leftarrow> [x]])"
    "mset (map attr_key (attr_descs t na1)) = mset (map attr_key (attr_descs s na)) + mset (map attr_key [d. Inr d \<leftarrow> [x]])" by blast
  have q: "quota t = quota s" "4 \<le> card (free_frames (bufMgr t))"
    using T(3) closed_free_card [OF R(4) T(3)] Cons.prems(4) by (simp_all add: closed_again_def)
  have I: "\<forall>x \<in> set xs. desc_ok x" "card (dom (rel_pages t RELCATNAME)) + length xs < quota t"
    "card (dom (rel_pages t ATTRCATNAME)) + length xs < quota t" using Cons.prems(3,5,6) T(4,5) q(1) by simp_all
  from Cons.IH [OF T(2) session_closed [OF Cons.prems(2) T(3)] I(1) q(2) I(2,3)] obtain u nr' na' where
    U: "call_addInfo t xs = Some (OK, u)" "catalogs_ok u nr' na'" "session u r a"
    "mset (map rel_key (rel_descs u nr')) = mset (map rel_key (rel_descs t nr1)) + mset (map rel_key [d. Inl d \<leftarrow> xs])"
    "mset (map attr_key (attr_descs u na')) = mset (map attr_key (attr_descs t na1)) + mset (map attr_key [d. Inr d \<leftarrow> xs])" by blast
  then show ?case using T(1,6,7)
    by (intro exI [of _ u] exI [of _ nr'] exI [of _ na']) (simp add: add.assoc)
qed

lemma own_descriptions_ok:
  assumes "length (rd_relName rd) = MAXNAME" "length (ad_relName ad) = MAXNAME" "length (ad_attrName ad) = MAXNAME"
  shows "\<forall>x \<in> set (own_descriptions rd ad). desc_ok x" "length (own_descriptions rd ad) = 9"
    "map rel_key [d. Inl d \<leftarrow> own_descriptions rd ad] = [(''relcat'', 2), (''attrcat'', 5)]"
    "map attr_key [d. Inr d \<leftarrow> own_descriptions rd ad] =
       [(''relcat'', ''relName'', 0, 0, 32), (''relcat'', ''attrCnt'', 32, 1, 4),
        (''attrcat'', ''relName'', 0, 0, 32), (''attrcat'', ''attrName'', 32, 0, 32), (''attrcat'', ''attrOffset'', 64, 1, 4),
        (''attrcat'', ''attrType'', 68, 1, 4), (''attrcat'', ''attrLen'', 72, 1, 4)]"
  using assms
  by (simp_all add: own_descriptions_def Let_def strcpy_ok RELCATNAME_def ATTRCATNAME_def MAXNAME_def RelDesc_wf_def AttrDesc_wf_def
      rel_key_def attr_key_def)

text \<open>The two empty files that \<open>dbcreate\<close> begins with.\<close>

lemma create_both:
  assumes "allocator_ok new" "int q < 2147483648" "3 \<le> q"
  obtains s t p p' where "createHeapFile (boot q new Map.empty) ''relcat'' = (OK, s)" "createHeapFile s ''attrcat'' = (OK, t)" "ready t"
    "relation t RELCATNAME [p]" "relation t ATTRCATNAME [p']" "tuples t RELCATNAME [p] = Map.empty" "tuples t ATTRCATNAME [p'] = Map.empty"
    "card (dom (rel_pages t RELCATNAME)) \<le> 2" "card (dom (rel_pages t ATTRCATNAME)) \<le> 2" "quota t = q" "live t = {}"
    "100 \<le> card (free_frames (bufMgr t))"
proof -
  let ?b = "boot q new Map.empty"
  note B = boot_ready [OF assms(1,2), of Map.empty, simplified]
  have n: "RELCATNAME \<noteq> []" "ATTRCATNAME \<noteq> []" "''relcat'' = RELCATNAME" "''attrcat'' = ATTRCATNAME" by (simp_all add: RELCATNAME_def ATTRCATNAME_def)
  have b: "db_inv ?b" "allocator_ok (heap_new ?b)" "two_free (bufMgr ?b)" "3 \<le> quota ?b" "files ?b n = None" "quota ?b = q" for n
    using B(1) assms(3) by (simp_all add: ready_def) (simp_all add: boot_def)
  obtain s p where S: "createHeapFile ?b RELCATNAME = (OK, s)" "closed_again ?b RELCATNAME s" "relation s RELCATNAME [p]"
    "tuples s RELCATNAME [p] = Map.empty" "card (dom (rel_pages s RELCATNAME)) \<le> 2"
    by (rule createHeapFile_new [OF b(1-4) n(1) B(3) b(5)])
  have r: "ready s" by (rule closed_ready [OF B(1) S(2)])
  then have d: "db_inv s" "allocator_ok (heap_new s)" "two_free (bufMgr s)" "3 \<le> quota s" "quota s = q" "live s = {}"
    using S(2) b(6) assms(3) B(2) by (simp_all add: ready_def closed_again_def)
  note a = closed_absent [OF S(2) names_differ(2) B(3) b(5)]
  obtain t p' where T: "createHeapFile s ATTRCATNAME = (OK, t)" "closed_again s ATTRCATNAME t" "relation t ATTRCATNAME [p']"
    "tuples t ATTRCATNAME [p'] = Map.empty" "card (dom (rel_pages t ATTRCATNAME)) \<le> 2"
    by (rule createHeapFile_new [OF d(1-4) n(2) a])
  note C = closed_relation [OF r T(2) names_differ(1) S(3)]
  have "quota t = q" "live t = {}" using T(2) d(5,6) by (simp_all add: closed_again_def)
  moreover have "100 \<le> card (free_frames (bufMgr t))"
    using closed_free_card [OF b(1) S(2)] closed_free_card [OF d(1) T(2)] B(4) by simp
  ultimately show ?thesis using that [of s t p p'] S T C closed_ready [OF r T(2)] unfolding n(3,4) by simp
qed

lemma empty_catalogs:
  assumes "ready t" "relation t RELCATNAME nr" "relation t ATTRCATNAME na" "tuples t RELCATNAME nr = Map.empty" "tuples t ATTRCATNAME na = Map.empty"
  shows "catalogs_ok t nr na" "rel_descs t nr = []" "attr_descs t na = []"
proof -
  have "mset (entries t RELCATNAME nr) = {#}" "mset (entries t ATTRCATNAME na) = {#}"
    using entries_mset(1) [OF assms(2)] entries_mset(1) [OF assms(3)] assms(4,5) by simp_all
  then have "entries t RELCATNAME nr = []" "entries t ATTRCATNAME na = []" by simp_all
  then show "catalogs_ok t nr na" "rel_descs t nr = []" "attr_descs t na = []"
    using assms(1-3) by (simp_all add: catalogs_ok_def catalog_ok_def rel_descs_def attr_descs_def)
qed

lemma dbcreate_files_ok:
  assumes "allocator_ok new" "12 \<le> q" "int q < 2147483648"
    and "length (rd_relName rd) = MAXNAME" "length (ad_relName ad) = MAXNAME" "length (ad_attrName ad) = MAXNAME"
  obtains u s :: dsys and nr na where "dbcreate_files q new rd ad = Some (0, files u)" "db_inv u" "live u = {}" "rel_pages u = rel_pages s"
    "catalogs_ok s nr na" "mset (map rel_key (rel_descs s nr)) = mset (map rel_key [d. Inl d \<leftarrow> own_descriptions rd ad])"
    "mset (map attr_key (attr_descs s na)) = mset (map attr_key [d. Inr d \<leftarrow> own_descriptions rd ad])"
proof -
  have q: "3 \<le> q" using assms(2) by simp
  obtain s1 s2 p p' where C: "createHeapFile (boot q new Map.empty) ''relcat'' = (OK, s1)" "createHeapFile s1 ''attrcat'' = (OK, s2)" "ready s2"
    "relation s2 RELCATNAME [p]" "relation s2 ATTRCATNAME [p']" "tuples s2 RELCATNAME [p] = Map.empty" "tuples s2 ATTRCATNAME [p'] = Map.empty"
    "card (dom (rel_pages s2 RELCATNAME)) \<le> 2" "card (dom (rel_pages s2 ATTRCATNAME)) \<le> 2" "quota s2 = q" "live s2 = {}"
    "100 \<le> card (free_frames (bufMgr s2))" by (rule create_both [OF assms(1,3) q])
  have o: "oft_map (openFiles s2) n = None" for n
    using db_invD(6) [of s2 n] C(3,11) by (cases "oft_map (openFiles s2) n") (auto simp: ready_def)
  have f: "8 \<le> card (free_frames (bufMgr s2))" using C(12) by simp
  obtain r a t where T: "open_catalogs s2 = Some (Inr (r, a), t)" "ready t" "session t r a" "rel_pages t = rel_pages s2"
    "relation t RELCATNAME [p]" "relation t ATTRCATNAME [p']" "4 \<le> card (free_frames (bufMgr t))" "quota t = quota s2"
    by (rule start_session [OF C(3,11) f o C(4,5)])
  note E = empty_catalogs [OF T(2,5,6), unfolded T(4), OF C(6,7)]
  note D = own_descriptions_ok [OF assms(4-6)]
  have "card (dom (rel_pages t RELCATNAME)) + length (own_descriptions rd ad) < quota t"
    "card (dom (rel_pages t ATTRCATNAME)) + length (own_descriptions rd ad) < quota t"
    using C(8-10) T(4,8) D(2) assms(2) by simp_all
  from call_addInfo_ok [OF E(1) T(3) D(1) T(7) this] E(2,3) obtain s nr na where
    S: "call_addInfo t (own_descriptions rd ad) = Some (OK, s)" "catalogs_ok s nr na" "session s r a"
      "mset (map rel_key (rel_descs s nr)) = mset (map rel_key [d. Inl d \<leftarrow> own_descriptions rd ad])"
      "mset (map attr_key (attr_descs s na)) = mset (map attr_key [d. Inr d \<leftarrow> own_descriptions rd ad])" by auto
  have R: "db_inv s" "relation s RELCATNAME nr" "relation s ATTRCATNAME na" using S(2) by (simp_all add: catalogs_ok_def catalog_ok_def ready_def)
  obtain u :: dsys where U: "shut_down s r a = Some (files u)" "db_inv u" "live u = {}" "rel_pages u = rel_pages s"
    by (rule shut_down_session [OF R(1) S(3) R(2,3)])
  have "dbcreate_files q new rd ad = Some (0, files u)" using C(1,2) T(1) S(1) U(1) by (simp add: dbcreate_files_def)
  then show ?thesis using that U(2-4) S(2,4,5) by blast
qed

text \<open>Catalogs that show the same pages hold the same descriptions.\<close>

lemma same_catalogs:
  assumes "catalogs_ok s nr na" "ready t" "relation t RELCATNAME nr" "relation t ATTRCATNAME na" "rel_pages t = rel_pages s"
  shows "catalogs_ok t nr na" "rel_descs t nr = rel_descs s nr" "attr_descs t na = attr_descs s na"
  using assms by (simp_all add: catalogs_ok_def catalog_ok_def entries_def rel_descs_def attr_descs_def)

definition demo_rd :: RelDesc where
  "demo_rd = \<lparr>rd_relName = replicate MAXNAME 7, rd_attrCnt = - 1\<rparr>"

definition demo_ad :: AttrDesc where
  "demo_ad = \<lparr>ad_relName = replicate MAXNAME 7, ad_attrName = replicate MAXNAME 7, ad_attrOffset = - 1, ad_attrType = - 1, ad_attrLen = - 1\<rparr>"

lemma demo_descs: "length (rd_relName demo_rd) = MAXNAME" "length (ad_relName demo_ad) = MAXNAME" "length (ad_attrName demo_ad) = MAXNAME"
  "log_prefix (Some ''/'') [''minirel'', ''db''] \<noteq> None"
  by (simp_all add: demo_rd_def demo_ad_def log_prefix_def)

subsection \<open>Properties\<close>

text \<open>
  C33. Shutdown is durable. From a running engine with intact catalogs, which holds nothing open but
  the catalogs, \<open>UT_Quit\<close> closes both catalogs, leaves with exit code 1, and the next start of
  \<open>minirel\<close> on the directory it leaves behind succeeds. The new engine is in the same kind of state,
  and every relation, the catalogs among them, has all its pages as they were, although nothing
  but the Unix files is handed from one process to the other.
\<close>

theorem quit_start_durable:
  assumes "catalogs_ok (mr_sys m) nr na" "session (mr_sys m) (mr_relCat m) (mr_attrCat m)"
    and "allocator_ok new" "int q < 2147483648" "2 \<le> length argv" "log_prefix cwd argv \<noteq> None"
  shows "\<exists>fs m'. UT_Quit m = Some (1, fs) \<and> minirel_start q new cwd (dirs(argv ! 1 \<mapsto> fs)) argv = Some (Inr m') \<and>
    catalogs_ok (mr_sys m') nr na \<and> session (mr_sys m') (mr_relCat m') (mr_attrCat m') \<and>
    (\<forall>n. rel_pages (mr_sys m') n = rel_pages (mr_sys m) n)"
proof -
  have R: "db_inv (mr_sys m)" "relation (mr_sys m) RELCATNAME nr" "relation (mr_sys m) ATTRCATNAME na"
    using assms(1) by (simp_all add: catalogs_ok_def catalog_ok_def ready_def)
  obtain u :: dsys where U: "shut_down (mr_sys m) (mr_relCat m) (mr_attrCat m) = Some (files u)" "db_inv u" "live u = {}"
    "rel_pages u = rel_pages (mr_sys m)" by (rule shut_down_session [OF R(1) assms(2) R(2,3)])
  have w: "heap_wf (rel_pages u RELCATNAME) 1 nr" "heap_wf (rel_pages u ATTRCATNAME) 1 na" "(dirs(argv ! 1 \<mapsto> files u)) (argv ! 1) = Some (files u)"
    using R(2,3) U(4) by (simp_all add: relation_def)
  obtain m' where M: "minirel_start q new cwd (dirs(argv ! 1 \<mapsto> files u)) argv = Some (Inr m')" "ready (mr_sys m')"
    "session (mr_sys m') (mr_relCat m') (mr_attrCat m')" "rel_pages (mr_sys m') = rel_pages u"
    "relation (mr_sys m') RELCATNAME nr" "relation (mr_sys m') ATTRCATNAME na"
    by (rule start_after [where dirs = "dirs(argv ! 1 \<mapsto> files u)", OF U(2,3) assms(3-6) w])
  have "rel_pages (mr_sys m') = rel_pages (mr_sys m)" using M(4) U(4) by simp
  from same_catalogs(1) [OF assms(1) M(2,5,6) this] this show ?thesis
    using M(1,3) U(1) by (intro exI [of _ "files u"] exI [of _ m']) (simp add: UT_Quit_def)
qed

text \<open>A database is created, opened, closed and opened again.\<close>

theorem quit_start_durable_witness:
  "\<exists>fs m fs' m'. dbcreate_files 12 demo_alloc demo_rd demo_ad = Some (0, fs) \<and>
     minirel_start 12 demo_alloc (Some ''/'') [''db'' \<mapsto> fs] [''minirel'', ''db''] = Some (Inr m) \<and> UT_Quit m = Some (1, fs') \<and>
     minirel_start 12 demo_alloc (Some ''/'') [''db'' \<mapsto> fs'] [''minirel'', ''db''] = Some (Inr m') \<and>
     rel_pages (mr_sys m') ''relcat'' = rel_pages (mr_sys m) ''relcat''"
proof -
  let ?v = "[''minirel'', ''db'']"
  have q: "(12 :: nat) \<le> 12" "int 12 < 2147483648" "2 \<le> length ?v" by simp_all
  obtain u s :: dsys and nr na where D: "dbcreate_files 12 demo_alloc demo_rd demo_ad = Some (0, files u)" "db_inv u" "live u = {}"
    "rel_pages u = rel_pages s" "catalogs_ok s nr na" by (rule dbcreate_files_ok [OF demo_alloc_ok q(1,2) demo_descs(1-3)])
  have w: "heap_wf (rel_pages u RELCATNAME) 1 nr" "heap_wf (rel_pages u ATTRCATNAME) 1 na" "[''db'' \<mapsto> files u] (?v ! 1) = Some (files u)"
    using D(4,5) by (simp_all add: catalogs_ok_def catalog_ok_def relation_def)
  obtain m where M: "minirel_start 12 demo_alloc (Some ''/'') [''db'' \<mapsto> files u] ?v = Some (Inr m)" "ready (mr_sys m)"
    "session (mr_sys m) (mr_relCat m) (mr_attrCat m)" "rel_pages (mr_sys m) = rel_pages u"
    "relation (mr_sys m) RELCATNAME nr" "relation (mr_sys m) ATTRCATNAME na"
    by (rule start_after [where dirs = "[''db'' \<mapsto> files u]", OF D(2,3) demo_alloc_ok q(2,3) demo_descs(4) w])
  have "rel_pages (mr_sys m) = rel_pages s" using M(4) D(4) by simp
  from quit_start_durable [OF same_catalogs(1) [OF D(5) M(2,5,6) this] M(3) demo_alloc_ok q(2,3) demo_descs(4), of Map.empty]
  show ?thesis using D(1) M(1) by auto
qed

text \<open>
  C34. \<open>dbcreate\<close> makes a database. For a new directory, with room for twelve pages per file, it
  ends with code 0, and \<open>minirel\<close> starts on what it wrote. The relation catalog then holds exactly
  the descriptions of the two catalogs, with 2 and 5 attributes, and the attribute catalog exactly
  the descriptions of their seven attributes, each with its offset, type and length as in the
  structures \<open>RelDesc\<close> and \<open>AttrDesc\<close>; whatever the variables held before and whatever the two
  processes allocate.
\<close>

theorem dbcreate_start:
  assumes "allocator_ok new" "12 \<le> q" "int q < 2147483648" "2 \<le> length argv" "dirs (argv ! 1) = None"
    and "length (rd_relName rd) = MAXNAME" "length (ad_relName ad) = MAXNAME" "length (ad_attrName ad) = MAXNAME"
    and "allocator_ok new'" "int q' < 2147483648" "2 \<le> length argv'" "argv' ! 1 = argv ! 1" "log_prefix cwd argv' \<noteq> None"
  shows "\<exists>dirs' m nr na. dbcreate q new rd ad dirs argv = Some (0, dirs') \<and> (\<forall>d. d \<noteq> argv ! 1 \<longrightarrow> dirs' d = dirs d) \<and>
    minirel_start q' new' cwd dirs' argv' = Some (Inr m) \<and> session (mr_sys m) (mr_relCat m) (mr_attrCat m) \<and> catalogs_ok (mr_sys m) nr na \<and>
    mset (map rel_key (rel_descs (mr_sys m) nr)) = {#(''relcat'', 2), (''attrcat'', 5)#} \<and>
    mset (map attr_key (attr_descs (mr_sys m) na)) = mset
       [(''relcat'', ''relName'', 0, 0, 32), (''relcat'', ''attrCnt'', 32, 1, 4),
        (''attrcat'', ''relName'', 0, 0, 32), (''attrcat'', ''attrName'', 32, 0, 32), (''attrcat'', ''attrOffset'', 64, 1, 4),
        (''attrcat'', ''attrType'', 68, 1, 4), (''attrcat'', ''attrLen'', 72, 1, 4)]"
proof -
  obtain u s :: dsys and nr na where D: "dbcreate_files q new rd ad = Some (0, files u)" "db_inv u" "live u = {}" "rel_pages u = rel_pages s"
    "catalogs_ok s nr na" "mset (map rel_key (rel_descs s nr)) = mset (map rel_key [d. Inl d \<leftarrow> own_descriptions rd ad])"
    "mset (map attr_key (attr_descs s na)) = mset (map attr_key [d. Inr d \<leftarrow> own_descriptions rd ad])"
    by (rule dbcreate_files_ok [OF assms(1-3,6-8)])
  let ?dirs = "dirs(argv ! 1 \<mapsto> files u)"
  have w: "heap_wf (rel_pages u RELCATNAME) 1 nr" "heap_wf (rel_pages u ATTRCATNAME) 1 na" "?dirs (argv' ! 1) = Some (files u)"
    using D(4,5) assms(12) by (simp_all add: catalogs_ok_def catalog_ok_def relation_def)
  obtain m where M: "minirel_start q' new' cwd ?dirs argv' = Some (Inr m)" "ready (mr_sys m)"
    "session (mr_sys m) (mr_relCat m) (mr_attrCat m)" "rel_pages (mr_sys m) = rel_pages u"
    "relation (mr_sys m) RELCATNAME nr" "relation (mr_sys m) ATTRCATNAME na"
    by (rule start_after [where dirs = "dirs(argv ! 1 \<mapsto> files u)", OF D(2,3) assms(9-11,13) w])
  have "rel_pages (mr_sys m) = rel_pages s" using M(4) D(4) by simp
  note S = same_catalogs [OF D(5) M(2,5,6) this]
  have "dbcreate q new rd ad dirs argv = Some (0, ?dirs)" using D(1) assms(4,5) by (simp add: dbcreate_def)
  then show ?thesis
    using M(1,3) S D(6,7) own_descriptions_ok(3,4) [OF assms(6-8)]
    by (intro exI [of _ ?dirs] exI [of _ m] exI [of _ nr] exI [of _ na]) (simp del: mset_map)
qed

theorem dbcreate_start_witness:
  "\<exists>dirs m nr. dbcreate 12 demo_alloc demo_rd demo_ad Map.empty [''dbcreate'', ''db''] = Some (0, dirs) \<and>
     minirel_start 12 demo_alloc (Some ''/'') dirs [''minirel'', ''db''] = Some (Inr m) \<and>
     mset (map rel_key (rel_descs (mr_sys m) nr)) = {#(''relcat'', 2), (''attrcat'', 5)#}"
  using dbcreate_start [OF demo_alloc_ok _ _ _ _ demo_descs(1-3) demo_alloc_ok _ _ _ demo_descs(4), of 12 "[''dbcreate'', ''db'']" Map.empty 12]
  by auto

end
