(* ===== verification/Nodes.thy ===== *)
theory Nodes
  imports HeapFile
begin

text \<open>
  Parse trees (\<open>src/src/parser/parse.h\<close>, \<open>src/src/parser/nodes.C\<close>). Nodes live in a pool of
  fixed size that is emptied for every query; pointers to nodes are indices into the pool, and
  lists are chains of \<open>LIST\<close> nodes. The functions that merge lists and resolve aliases change
  nodes in place.

  \<open>None\<close> is the end of the program: \<open>exit\<close> when the pool is used up, or undefined behaviour,
  a null pointer followed or a field of the union read that was not the last one written.
  Character pointers stand for their strings. Messages are left out.
\<close>

subsection \<open>Nodes\<close>

type_synonym ptr = "nat option"
type_synonym char_ptr = "string option"

text \<open>The value of a constant; a \<open>float\<close> is its four bytes.\<close>

datatype value_u = IVal int | RVal "byte list" | SVal string

text \<open>The kinds of nodes, each with the structure of the union that it uses.\<close>

datatype NODE =
    N_QUERY char_ptr ptr ptr
  | N_INSERT char_ptr ptr
  | N_DELETE char_ptr ptr
  | N_CREATE char_ptr ptr ptr
  | N_DESTROY char_ptr
  | N_BUILD char_ptr char_ptr int
  | N_REBUILD char_ptr char_ptr int
  | N_DROP char_ptr char_ptr
  | N_LOAD char_ptr char_ptr
  | N_PRINT char_ptr
  | N_HELP char_ptr
  | N_SELECT ptr int ptr
  | N_JOIN ptr int ptr
  | N_PRIMATTR char_ptr int
  | N_QUALATTR char_ptr char_ptr
  | N_ATTRVAL char_ptr ptr
  | N_ATTRTYPE char_ptr int
  | N_VALUE Datatype int value_u
  | N_LIST ptr ptr
  | N_ALIAS char_ptr char_ptr
  | N_STAR char_ptr

definition MAXNODE :: nat where "MAXNODE = 100"

record nodes =
  nodepool :: "NODE list"
  nodeptr :: nat

definition node_at :: "nodes \<Rightarrow> ptr \<Rightarrow> NODE option" where
  "node_at s p = (case p of Some i \<Rightarrow> if i < length (nodepool s) then Some (nodepool s ! i) else None | None \<Rightarrow> None)"

definition set_node :: "nat \<Rightarrow> NODE \<Rightarrow> nodes \<Rightarrow> nodes" where
  "set_node i n s = s\<lparr>nodepool := (nodepool s)[i := n]\<rparr>"

text \<open>\<open>reset_parser\<close> and \<open>new_query\<close>, as far as the pool is concerned.\<close>

definition new_query :: "nodes \<Rightarrow> nodes" where
  "new_query s = s\<lparr>nodeptr := 0\<rparr>"

text \<open>
  The next node of the pool. All callers fill the structure at once, so that the node is
  written here; its kind is that of the constructor.
\<close>

definition newnode :: "NODE \<Rightarrow> nodes \<Rightarrow> (ptr \<times> nodes) option" where
  "newnode n s =
     (if nodeptr s = MAXNODE then None
      else Some (Some (nodeptr s), (set_node (nodeptr s) n s)\<lparr>nodeptr := nodeptr s + 1\<rparr>))"

definition query_node where "query_node relname attrlist qual = newnode (N_QUERY relname attrlist qual)"
definition insert_node where "insert_node relname attrlist = newnode (N_INSERT relname attrlist)"
definition delete_node where "delete_node relname qual = newnode (N_DELETE relname qual)"
definition create_node where "create_node relname attrlist primattr = newnode (N_CREATE relname attrlist primattr)"
definition destroy_node where "destroy_node relname = newnode (N_DESTROY relname)"
definition build_node where "build_node relname attrname nbuckets = newnode (N_BUILD relname attrname nbuckets)"
definition rebuild_node where "rebuild_node relname attrname nbuckets = newnode (N_REBUILD relname attrname nbuckets)"
definition drop_node where "drop_node relname attrname = newnode (N_DROP relname attrname)"
definition load_node where "load_node relname filename = newnode (N_LOAD relname filename)"
definition print_node where "print_node relname = newnode (N_PRINT relname)"
definition help_node where "help_node relname = newnode (N_HELP relname)"
definition select_node where "select_node selattr op val = newnode (N_SELECT selattr op val)"
definition join_node where "join_node joinattr1 op joinattr2 = newnode (N_JOIN joinattr1 op joinattr2)"
definition primattr_node where "primattr_node attrname nbuckets = newnode (N_PRIMATTR attrname nbuckets)"
definition qualattr_node where "qualattr_node relname attrname = newnode (N_QUALATTR relname attrname)"
definition attrval_node where "attrval_node attrname val = newnode (N_ATTRVAL attrname val)"
definition attrtype_node where "attrtype_node attrname type = newnode (N_ATTRTYPE attrname type)"
definition int_node where "int_node ival = newnode (N_VALUE INTEGER 0 (IVal ival))"
definition float_node where "float_node rval = newnode (N_VALUE FLOAT 0 (RVal rval))"
definition string_node where "string_node str = newnode (N_VALUE STRING (int (length str)) (SVal str))"
definition list_node where "list_node n = newnode (N_LIST n None)"
definition prepend where "prepend n list = newnode (N_LIST n list)"
definition alias_node where "alias_node relname alias = newnode (N_ALIAS relname alias)"

definition star_node :: "ptr \<Rightarrow> nodes \<Rightarrow> (ptr \<times> nodes) option" where
  "star_node tables s =
     (case node_at s tables of
        Some (N_LIST self nxt) \<Rightarrow>
          if nxt \<noteq> None then Some (None, s)
          else
            (case node_at s self of
               Some (N_ALIAS relname _) \<Rightarrow> newnode (N_STAR relname) s
             | _ \<Rightarrow> None)
      | _ \<Rightarrow> None)"

subsection \<open>Merging the lists of an insertion\<close>

partial_function (option) merge_loop :: "nodes \<Rightarrow> ptr \<Rightarrow> ptr \<Rightarrow> (bool \<times> nodes) option" where
  "merge_loop s attr_ptr value_ptr =
     (if attr_ptr = None then Some (value_ptr = None, s)
      else if value_ptr = None then Some (False, s)
      else
        (case (node_at s attr_ptr, node_at s value_ptr) of
           (Some (N_LIST (Some a) anext), Some (N_LIST v vnext)) \<Rightarrow>
             (case node_at s (Some a) of
                Some (N_ATTRVAL attrname _) \<Rightarrow> merge_loop (set_node a (N_ATTRVAL attrname v) s) anext vnext
              | _ \<Rightarrow> None)
         | _ \<Rightarrow> None))"

definition merge_attr_value_list :: "ptr \<Rightarrow> ptr \<Rightarrow> nodes \<Rightarrow> (ptr \<times> nodes) option" where
  "merge_attr_value_list attr_list value_list s =
     map_option (\<lambda>(ok, s). (if ok then attr_list else None, s)) (merge_loop s attr_list value_list)"

subsection \<open>Aliases\<close>

text \<open>\<open>strcmp\<close> on a null pointer is undefined.\<close>

partial_function (option) find_match_loop :: "nodes \<Rightarrow> ptr \<Rightarrow> string \<Rightarrow> char_ptr option" where
  "find_match_loop s n rel_alias =
     (if n = None then Some None
      else
        (case node_at s n of
           Some (N_LIST self nxt) \<Rightarrow>
             (case node_at s self of
                Some (N_ALIAS (Some relname) alias) \<Rightarrow>
                  if relname = rel_alias then Some (Some rel_alias)
                  else if alias = Some rel_alias then Some (Some relname)
                  else find_match_loop s nxt rel_alias
              | _ \<Rightarrow> None)
         | _ \<Rightarrow> None))"

definition find_match_in_alias :: "nodes \<Rightarrow> ptr \<Rightarrow> char_ptr \<Rightarrow> char_ptr option" where
  "find_match_in_alias s alias rel_alias =
     (case rel_alias of None \<Rightarrow> Some None | Some r \<Rightarrow> find_match_loop s alias r)"

text \<open>
  The qualifier of one attribute is replaced by the name of a relation of the query. The
  result says whether that was possible; an attribute without a qualifier is allowed when
  the query has one table.
\<close>

definition replace_alias :: "ptr \<Rightarrow> ptr \<Rightarrow> nodes \<Rightarrow> (bool \<times> nodes) option" where
  "replace_alias alias q s =
     (case (q, node_at s q) of
        (Some i, Some (N_QUALATTR relname attrname)) \<Rightarrow>
          (case relname of
             None \<Rightarrow>
               (case node_at s alias of
                  Some (N_LIST self nxt) \<Rightarrow>
                    if nxt \<noteq> None then Some (False, s)
                    else
                      (case node_at s self of
                         Some (N_ALIAS r _) \<Rightarrow> Some (True, set_node i (N_QUALATTR r attrname) s)
                       | _ \<Rightarrow> None)
                | _ \<Rightarrow> None)
           | Some _ \<Rightarrow>
               (case find_match_in_alias s alias relname of
                  None \<Rightarrow> None
                | Some None \<Rightarrow> Some (False, s)
                | Some r \<Rightarrow> Some (True, set_node i (N_QUALATTR r attrname) s)))
      | _ \<Rightarrow> None)"

partial_function (option) replace_alias_loop :: "ptr \<Rightarrow> ptr \<Rightarrow> nodes \<Rightarrow> (bool \<times> nodes) option" where
  "replace_alias_loop alias n s =
     (if n = None then Some (True, s)
      else
        (case node_at s n of
           Some (N_LIST self nxt) \<Rightarrow>
             (case replace_alias alias self s of
                None \<Rightarrow> None
              | Some (ok, s) \<Rightarrow> if ok then replace_alias_loop alias nxt s else Some (False, s))
         | _ \<Rightarrow> None))"

definition replace_alias_in_qualattr_list :: "ptr \<Rightarrow> ptr \<Rightarrow> nodes \<Rightarrow> (ptr \<times> nodes) option" where
  "replace_alias_in_qualattr_list alias qualattr_list s =
     map_option (\<lambda>(ok, s). (if ok then qualattr_list else None, s)) (replace_alias_loop alias qualattr_list s)"

definition replace_alias_in_condition :: "ptr \<Rightarrow> ptr \<Rightarrow> nodes \<Rightarrow> (ptr \<times> nodes) option" where
  "replace_alias_in_condition alias whr s =
     (if whr = None then Some (None, s)
      else
        (case node_at s whr of
           Some (N_SELECT selattr _ _) \<Rightarrow>
             map_option (\<lambda>(ok, s). (if ok then whr else None, s)) (replace_alias alias selattr s)
         | Some (N_JOIN joinattr1 _ joinattr2) \<Rightarrow>
             (case replace_alias alias joinattr1 s of
                None \<Rightarrow> None
              | Some (ok, s) \<Rightarrow>
                  if \<not> ok then Some (None, s)
                  else map_option (\<lambda>(ok, s). (if ok then whr else None, s)) (replace_alias alias joinattr2 s))
         | _ \<Rightarrow> None))"

end
