(* ===== verification/Interp.thy ===== *)
theory Interp
  imports Nodes Query
begin

text \<open>
  The interpreter (\<open>src/src/parser/interp.C\<close>): parse trees are checked, turned into the argument
  lists of the catalogs and query operators, and carried out. What is written to the terminal is
  a list of outputs: the echo of the query, messages, and the records and descriptions that are
  printed.

  \<open>None\<close> is the end of the program in the middle of a command: a failed assertion inside of an
  operation, or undefined behaviour, such as a null pointer that is followed, a field of the union
  read that is not the last one written, a name that does not fit in its array, or an operation of
  the layers below that does not return. The arrays at file scope are filled anew for every query, so that they are local here; bytes behind
  the terminator of a name are never read.
\<close>

subsection \<open>Codes and structures\<close>

definition E_OK :: int where "E_OK = 0"
definition E_INCOMPATIBLE :: int where "E_INCOMPATIBLE = - 1"
definition E_TOOMANYATTRS :: int where "E_TOOMANYATTRS = - 2"
definition E_NOLENGTH :: int where "E_NOLENGTH = - 3"
definition E_INVINTSIZE :: int where "E_INVINTSIZE = - 4"
definition E_INVFLOATSIZE :: int where "E_INVFLOATSIZE = - 5"
definition E_INVFORMATSTRING :: int where "E_INVFORMATSTRING = - 6"
definition E_INVSTRLEN :: int where "E_INVSTRLEN = - 7"
definition E_DUPLICATEATTR :: int where "E_DUPLICATEATTR = - 8"
definition E_TOOLONG :: int where "E_TOOLONG = - 9"
definition E_STRINGTOOLONG :: int where "E_STRINGTOOLONG = - 10"

definition MAXATTRS :: nat where "MAXATTRS = 40"
definition MAXSTRINGLEN :: int where "MAXSTRINGLEN = 255"

record ATTR_DESCR =
  de_attrName :: char_ptr
  de_attrType :: int
  de_attrLen :: int

record REL_ATTR =
  ra_relName :: char_ptr
  ra_attrName :: char_ptr

record ATTR_VAL =
  av_attrName :: char_ptr
  av_valType :: int
  av_valLength :: int
  av_value :: "byte list"

subsection \<open>Numbers as text\<close>

definition digit_char :: "nat \<Rightarrow> char" where
  "digit_char d = char_of (48 + d)"

fun show_nat :: "nat \<Rightarrow> string" where
  "show_nat n = (if n < 10 then [digit_char n] else show_nat (n div 10) @ [digit_char (n mod 10)])"

declare show_nat.simps [simp del]

text \<open>The conversion \<open>%d\<close>.\<close>

definition show_int :: "int \<Rightarrow> string" where
  "show_int i = (if i < 0 then CHR ''-'' # show_nat (nat (- i)) else show_nat (nat i))"

text \<open>
  The conversion \<open>%f\<close> of a \<open>float\<close>: its exact value, rounded to six decimals, halves to even. The
  value is a multiple of \<open>2 ^ -149\<close>; a zero keeps its sign.
\<close>

definition show_float :: "byte list \<Rightarrow> string" where
  "show_float bs =
     (let sgn = (if bytes_le bs 4 div 2 ^ 31 = 1 then ''-'' else [])
      in case float_of_bytes bs of
           FNaN \<Rightarrow> sgn @ ''nan''
         | FInf _ \<Rightarrow> sgn @ ''inf''
         | FNum v \<Rightarrow>
             (let u = round_half_even (\<bar>v\<bar> * 10 ^ 6) (2 ^ 149);
                  frac = show_nat (nat (u mod 10 ^ 6))
              in sgn @ show_nat (nat (u div 10 ^ 6)) @ ''.'' @ replicate (6 - length frac) (CHR ''0'') @ frac))"

subsection \<open>Values\<close>

definition value_node :: "nodes \<Rightarrow> ptr \<Rightarrow> (Datatype \<times> int \<times> value_u) option" where
  "value_node ns n = (case node_at ns n of Some (N_VALUE ty len v) \<Rightarrow> Some (ty, len, v) | _ \<Rightarrow> None)"

definition type_of :: "nodes \<Rightarrow> ptr \<Rightarrow> Datatype option" where
  "type_of ns n = map_option fst (value_node ns n)"

definition length_of :: "nodes \<Rightarrow> ptr \<Rightarrow> int option" where
  "length_of ns n = map_option (fst \<circ> snd) (value_node ns n)"

text \<open>A fresh copy of the value as text. The buffer has 255 bytes, one of them for the terminator.\<close>

definition value_of :: "nodes \<Rightarrow> ptr \<Rightarrow> string option" where
  "value_of ns n =
     (case value_node ns n of
        Some (INTEGER, _, IVal i) \<Rightarrow> Some (take 254 (show_int i))
      | Some (FLOAT, _, RVal r) \<Rightarrow> Some (take 254 (show_float r))
      | Some (STRING, _, SVal str) \<Rightarrow> Some (take 254 str)
      | _ \<Rightarrow> None)"

text \<open>The type and length of an attribute from the code the parser makes of its type.\<close>

definition parse_format_string :: "int \<Rightarrow> int + int \<times> int" where
  "parse_format_string format =
     (if format = 105 - 128 then Inr (datatype_code INTEGER, 4)
      else if format = 102 - 128 then Inr (datatype_code FLOAT, 4)
      else if format \<le> 255 \<and> 1 \<le> format then Inr (datatype_code STRING, format)
      else Inl E_INVFORMATSTRING)"

subsection \<open>Lists\<close>

text \<open>
  The loops over a list stop behind \<open>MAXATTRS\<close> elements; the first argument counts the room that
  is left. An array that has been filled completely is an error.
\<close>

fun attrnames_loop :: "nat \<Rightarrow> nodes \<Rightarrow> ptr \<Rightarrow> char_ptr \<Rightarrow> (int + char_ptr list \<times> char_ptr) option" where
  "attrnames_loop 0 ns lst relname = Some (Inl E_TOOMANYATTRS)"
| "attrnames_loop (Suc k) ns lst relname =
     (if lst = None then Some (Inr ([], relname))
      else
        (case node_at ns lst of
           Some (N_LIST self nxt) \<Rightarrow>
             (case node_at ns self of
                Some (N_QUALATTR r a) \<Rightarrow>
                  (case relname of
                     None \<Rightarrow> map_option (map_sum id (\<lambda>(as, rel). (a # as, rel))) (attrnames_loop k ns nxt r)
                   | Some x \<Rightarrow>
                       (case r of
                          None \<Rightarrow> None
                        | Some y \<Rightarrow>
                            if x \<noteq> y then Some (Inl E_INCOMPATIBLE)
                            else map_option (map_sum id (\<lambda>(as, rel). (a # as, rel))) (attrnames_loop k ns nxt relname)))
              | _ \<Rightarrow> None)
         | _ \<Rightarrow> None))"

text \<open>The names of the attributes and of their relation, which is put behind them in the array.\<close>

definition mk_attrnames :: "'a dsys_scheme \<Rightarrow> nodes \<Rightarrow> ptr \<Rightarrow> char_ptr \<Rightarrow>
    ((int + char_ptr list \<times> char_ptr) \<times> 'a dsys_scheme) option" where
  "mk_attrnames s ns lst relname =
     (case node_at ns lst of
        None \<Rightarrow> None
      | Some (N_STAR None) \<Rightarrow> None
      | Some (N_STAR (Some r)) \<Rightarrow>
          (case AttrCatalog_getRelInfo s r of
             None \<Rightarrow> None
           | Some (Inl _, s) \<Rightarrow> Some (Inl E_INCOMPATIBLE, s)
           | Some (Inr ds, s) \<Rightarrow>
               Some (if MAXATTRS \<le> length ds then Inl E_TOOMANYATTRS
                     else Inr (map (\<lambda>d. Some (c_string (ad_attrName d))) ds, Some r), s))
      | _ \<Rightarrow> map_option (\<lambda>r. (r, s)) (attrnames_loop MAXATTRS ns lst relname))"

text \<open>\<open>strcmp\<close> on two pointers.\<close>

definition str_eq :: "char_ptr \<Rightarrow> char_ptr \<Rightarrow> bool option" where
  "str_eq a b = (case (a, b) of (Some x, Some y) \<Rightarrow> Some (x = y) | _ \<Rightarrow> None)"

fun qual_attrs_loop :: "nat \<Rightarrow> nodes \<Rightarrow> ptr \<Rightarrow> char_ptr \<Rightarrow> char_ptr \<Rightarrow> (int + REL_ATTR list) option" where
  "qual_attrs_loop 0 ns lst relname1 relname2 = Some (Inl E_TOOMANYATTRS)"
| "qual_attrs_loop (Suc k) ns lst relname1 relname2 =
     (if lst = None then Some (Inr [])
      else
        (case node_at ns lst of
           Some (N_LIST self nxt) \<Rightarrow>
             (case node_at ns self of
                Some (N_QUALATTR r a) \<Rightarrow>
                  Option.bind (str_eq r relname1)
                    (\<lambda>e1. Option.bind (if e1 then Some True else str_eq r relname2)
                      (\<lambda>e2. if \<not> e2 then Some (Inl E_INCOMPATIBLE)
                            else map_option (map_sum id (\<lambda>qs. \<lparr>ra_relName = r, ra_attrName = a\<rparr> # qs))
                                   (qual_attrs_loop k ns nxt relname1 relname2)))
              | _ \<Rightarrow> None)
         | _ \<Rightarrow> None))"

definition mk_qual_attrs :: "nodes \<Rightarrow> ptr \<Rightarrow> char_ptr \<Rightarrow> char_ptr \<Rightarrow> (int + REL_ATTR list) option" where
  "mk_qual_attrs ns lst relname1 relname2 = qual_attrs_loop MAXATTRS ns lst relname1 relname2"

fun attr_descrs_loop :: "nat \<Rightarrow> nodes \<Rightarrow> ptr \<Rightarrow> (int + ATTR_DESCR list) option" where
  "attr_descrs_loop 0 ns lst = Some (Inl E_TOOMANYATTRS)"
| "attr_descrs_loop (Suc k) ns lst =
     (if lst = None then Some (Inr [])
      else
        (case node_at ns lst of
           Some (N_LIST self nxt) \<Rightarrow>
             (case node_at ns self of
                Some (N_ATTRTYPE name format) \<Rightarrow>
                  (case parse_format_string format of
                     Inl e \<Rightarrow> Some (Inl e)
                   | Inr (ty, len) \<Rightarrow>
                       map_option (map_sum id (\<lambda>l. \<lparr>de_attrName = name, de_attrType = ty, de_attrLen = len\<rparr> # l))
                         (attr_descrs_loop k ns nxt))
              | _ \<Rightarrow> None)
         | _ \<Rightarrow> None))"

definition mk_attr_descrs :: "nodes \<Rightarrow> ptr \<Rightarrow> (int + ATTR_DESCR list) option" where
  "mk_attr_descrs ns lst = attr_descrs_loop MAXATTRS ns lst"

fun ins_attrs_loop :: "nat \<Rightarrow> nodes \<Rightarrow> ptr \<Rightarrow> (int + ATTR_VAL list) option" where
  "ins_attrs_loop 0 ns lst = Some (Inl E_TOOMANYATTRS)"
| "ins_attrs_loop (Suc k) ns lst =
     (if lst = None then Some (Inr [])
      else
        (case node_at ns lst of
           Some (N_LIST self nxt) \<Rightarrow>
             (case node_at ns self of
                Some (N_ATTRVAL name val) \<Rightarrow>
                  (case (type_of ns val, length_of ns val) of
                     (Some ty, Some len) \<Rightarrow>
                       if ty = STRING \<and> MAXSTRINGLEN < len then Some (Inl E_STRINGTOOLONG)
                       else
                         (case value_of ns val of
                            None \<Rightarrow> None
                          | Some v \<Rightarrow>
                              map_option (map_sum id (\<lambda>l. \<lparr>av_attrName = name, av_valType = datatype_code ty,
                                  av_valLength = len, av_value = c_bytes v\<rparr> # l)) (ins_attrs_loop k ns nxt))
                   | _ \<Rightarrow> None)
              | _ \<Rightarrow> None)
         | _ \<Rightarrow> None))"

definition mk_ins_attrs :: "nodes \<Rightarrow> ptr \<Rightarrow> (int + ATTR_VAL list) option" where
  "mk_ins_attrs ns lst = ins_attrs_loop MAXATTRS ns lst"

subsection \<open>The argument lists of the operators\<close>

definition name_array :: "char_ptr \<Rightarrow> byte list option" where
  "name_array p = (case p of None \<Rightarrow> None
     | Some n \<Rightarrow> if length n < MAXNAME then Some (strcpy (replicate MAXNAME 0) n) else None)"

definition mk_info :: "char_ptr \<Rightarrow> char_ptr \<Rightarrow> int \<Rightarrow> int \<Rightarrow> byte list option \<Rightarrow> attrInfo option" where
  "mk_info rel attr ty len val =
     (case (name_array rel, name_array attr) of
        (Some r, Some a) \<Rightarrow> Some \<lparr>ai_relName = r, ai_attrName = a, ai_attrType = ty, ai_attrLen = len, ai_attrValue = val\<rparr>
      | _ \<Rightarrow> None)"

text \<open>\<open>(Operator) op\<close>.\<close>

definition operator_of :: "int \<Rightarrow> Operator option" where
  "operator_of op = (if 0 \<le> op \<and> op < 6 then Some ([LT, LTE, EQ, GTE, GT, NE] ! nat op) else None)"

subsection \<open>The result of a query\<close>

text \<open>
  The attributes of a result relation that has to be created. For a join, an attribute whose
  name is taken gets a number behind its name, by a call of \<open>snprintf\<close> whose source and target
  overlap: that is undefined.
\<close>

fun create_infos :: "bool \<Rightarrow> byte list \<Rightarrow> string list \<Rightarrow> 'a dsys_scheme \<Rightarrow> attrInfo list \<Rightarrow>
    ((Status + attrInfo list) \<times> 'a dsys_scheme) option" where
  "create_infos join result seen s [] = Some (Inr [], s)"
| "create_infos join result seen s (a # as) =
     (if join \<and> c_string (ai_attrName a) \<in> set seen then None
      else
        (case AttrCatalog_getInfo s (c_string (ai_relName a)) (c_string (ai_attrName a)) of
           None \<Rightarrow> None
         | Some (Inl st, s) \<Rightarrow> Some (Inl st, s)
         | Some (Inr d, s) \<Rightarrow>
             (case create_infos join result (c_string (ai_attrName a) # seen) s as of
                None \<Rightarrow> None
              | Some (r, s) \<Rightarrow>
                  Some (map_sum id (\<lambda>l. \<lparr>ai_relName = result, ai_attrName = ai_attrName a, ai_attrType = ad_attrType d,
                    ai_attrLen = ad_attrLen d, ai_attrValue = None\<rparr> # l) r, s))))"

text \<open>The attributes of a result relation that exists have to agree in type and length.\<close>

fun match_attrs :: "'a dsys_scheme \<Rightarrow> attrInfo list \<Rightarrow> AttrDesc list \<Rightarrow> (Status \<times> 'a dsys_scheme) option" where
  "match_attrs s (a # as) (e # es) =
     (case AttrCatalog_getInfo s (c_string (ai_relName a)) (c_string (ai_attrName a)) of
        None \<Rightarrow> None
      | Some (Inl st, s) \<Rightarrow> Some (st, s)
      | Some (Inr d, s) \<Rightarrow>
          if ad_attrType d \<noteq> ad_attrType e \<or> ad_attrLen d \<noteq> ad_attrLen e then Some (ATTRTYPEMISMATCH, s)
          else match_attrs s as es)"
| "match_attrs s _ _ = Some (OK, s)"

definition make_result :: "bool \<Rightarrow> 'a dsys_scheme \<Rightarrow> string \<Rightarrow> AttrDesc list option \<Rightarrow> attrInfo list \<Rightarrow>
    (Status \<times> 'a dsys_scheme) option" where
  "make_result join s resultName attrs attrList =
     (case attrs of
        None \<Rightarrow>
          (case (if attrList = [] then Some [] else name_array (Some resultName)) of
             None \<Rightarrow> None
           | Some result \<Rightarrow>
               (case create_infos join result [] s attrList of
                  None \<Rightarrow> None
                | Some (Inl st, s) \<Rightarrow> Some (st, s)
                | Some (Inr infos, s) \<Rightarrow> createRel s resultName infos))
      | Some ds \<Rightarrow>
          if length attrList \<noteq> length ds then Some (ATTRTYPEMISMATCH, s) else match_attrs s attrList ds)"

subsection \<open>Output\<close>

datatype shown =
    Echo string
  | ErrorStatus Status
  | ErrorCode string int
  | SyntaxError
  | Printed "byte list list"
  | Described "(byte list list + RelDesc \<times> AttrDesc list) option"
  | AssertionFailed

definition report :: "Status \<Rightarrow> shown list" where
  "report st = (if st = OK then [] else [ErrorStatus st])"

definition print_error :: "string \<Rightarrow> int \<Rightarrow> string" where
  "print_error errmsg errval = errmsg @ '': '' @
     (if errval = E_OK then ''no error''
      else if errval = E_INCOMPATIBLE then ''attributes must be from selected relation(s)''
      else if errval = E_TOOMANYATTRS then ''too many attributes''
      else if errval = E_NOLENGTH then ''length must be specified for STRING attribute''
      else if errval = E_INVINTSIZE then ''invalid size for INTEGER attribute (should be 4)''
      else if errval = E_INVFLOATSIZE then ''invalid size for FLOAT attribute (should be 4)''
      else if errval = E_INVFORMATSTRING then ''invalid format string''
      else if errval = E_INVSTRLEN then ''invalid length for string attribute''
      else if errval = E_DUPLICATEATTR then ''duplicated attribute name''
      else if errval = E_TOOLONG then ''relation name or attribute name too long''
      else if errval = E_STRINGTOOLONG then ''string attribute too long''
      else ''unrecognized errval: '' @ show_int errval)"

subsection \<open>The echo of a query\<close>

text \<open>A null pointer for \<open>%s\<close> is undefined. The newline at the end is left out.\<close>

abbreviation (input) lit :: "string \<Rightarrow> string option" where "lit \<equiv> Some"

definition text_of :: "string option list \<Rightarrow> string option" where
  "text_of xs = map_option concat (those xs)"

definition print_qualattr :: "nodes \<Rightarrow> ptr \<Rightarrow> string option" where
  "print_qualattr ns n =
     (case node_at ns n of Some (N_QUALATTR r a) \<Rightarrow> text_of [r, lit ''.'', a] | _ \<Rightarrow> None)"

definition print_op :: "int \<Rightarrow> string" where
  "print_op op = (case operator_of op of
     Some LT \<Rightarrow> '' <'' | Some LTE \<Rightarrow> '' <='' | Some EQ \<Rightarrow> '' ='' | Some GT \<Rightarrow> '' >'' | Some GTE \<Rightarrow> '' >=''
   | Some NE \<Rightarrow> '' <>'' | None \<Rightarrow> [])"

definition print_val :: "nodes \<Rightarrow> ptr \<Rightarrow> string option" where
  "print_val ns n =
     (case value_node ns n of
        Some (INTEGER, _, IVal i) \<Rightarrow> Some ('' '' @ show_int i)
      | Some (FLOAT, _, RVal r) \<Rightarrow> Some ('' '' @ show_float r)
      | Some (STRING, _, SVal x) \<Rightarrow> Some ('' '' @ [CHR 0x22] @ x @ [CHR 0x22])
      | _ \<Rightarrow> None)"

text \<open>The loops over lists: the text of every element, with commas between.\<close>

partial_function (option) print_list :: "(ptr \<Rightarrow> string option) \<Rightarrow> nodes \<Rightarrow> ptr \<Rightarrow> string option" where
  "print_list elem ns n =
     (if n = None then Some []
      else
        (case node_at ns n of
           Some (N_LIST self nxt) \<Rightarrow>
             Option.bind (elem self)
               (\<lambda>x. Option.bind (print_list elem ns nxt) (\<lambda>y. Some (x @ (if nxt \<noteq> None then '', '' else []) @ y)))
         | _ \<Rightarrow> None))"

definition print_attrnames :: "nodes \<Rightarrow> ptr \<Rightarrow> string option" where
  "print_attrnames ns n = print_list (print_qualattr ns) ns n"

definition print_attrvals :: "nodes \<Rightarrow> ptr \<Rightarrow> string option" where
  "print_attrvals ns n =
     print_list (\<lambda>e. case node_at ns e of Some (N_ATTRVAL a v) \<Rightarrow> text_of [a, lit '' ='', print_val ns v] | _ \<Rightarrow> None) ns n"

definition print_attrdescrs :: "nodes \<Rightarrow> ptr \<Rightarrow> string option" where
  "print_attrdescrs ns n =
     print_list (\<lambda>e. case node_at ns e of
         Some (N_ATTRTYPE a format) \<Rightarrow>
           text_of [a, lit '' = '',
             lit (if format = 105 - 128 then ''int'' else if format = 102 - 128 then ''real''
                  else if format \<le> 255 \<and> 1 \<le> format then ''char('' @ show_int format @ '')'' else [])]
       | _ \<Rightarrow> None) ns n"

definition print_primattr :: "nodes \<Rightarrow> ptr \<Rightarrow> string option" where
  "print_primattr ns n =
     (if n = None then Some []
      else (case node_at ns n of
              Some (N_PRIMATTR a k) \<Rightarrow> text_of [lit '' primary '', a, lit '' numbuckets = '', lit (show_int k)]
            | _ \<Rightarrow> None))"

definition print_qual :: "nodes \<Rightarrow> ptr \<Rightarrow> string option" where
  "print_qual ns n =
     (if n = None then Some []
      else (case node_at ns n of
              Some (N_SELECT a op v) \<Rightarrow> text_of [lit '' where '', print_qualattr ns a, lit (print_op op), print_val ns v]
            | Some (N_JOIN a op b) \<Rightarrow> text_of [lit '' where '', print_qualattr ns a, lit (print_op op), lit '' '', print_qualattr ns b]
            | _ \<Rightarrow> None))"

definition echo_query :: "nodes \<Rightarrow> NODE \<Rightarrow> string option" where
  "echo_query ns n =
     (case n of
        N_QUERY relname attrlist qual \<Rightarrow>
          text_of [lit ''select'', lit (case relname of None \<Rightarrow> [] | Some r \<Rightarrow> '' into '' @ r), lit '' ('',
            print_attrnames ns attrlist, lit '')'', print_qual ns qual, lit '';'']
      | N_INSERT relname attrlist \<Rightarrow> text_of [lit ''insert '', relname, lit '' ('', print_attrvals ns attrlist, lit '');'']
      | N_DELETE relname qual \<Rightarrow> text_of [lit ''delete '', relname, print_qual ns qual, lit '';'']
      | N_CREATE relname attrlist primattr \<Rightarrow>
          text_of [lit ''create '', relname, lit '' ('', print_attrdescrs ns attrlist, lit '')'', print_primattr ns primattr, lit '';'']
      | N_DESTROY relname \<Rightarrow> text_of [lit ''destroy '', relname, lit '';'']
      | N_BUILD relname attrname nbuckets \<Rightarrow> text_of [lit ''buildindex '', relname, lit ''('', attrname, lit '');'']
      | N_REBUILD relname attrname nbuckets \<Rightarrow>
          text_of [lit ''rebuildindex '', relname, lit ''('', attrname, lit '') numbuckets = '', lit (show_int nbuckets), lit '';'']
      | N_DROP relname attrname \<Rightarrow>
          text_of [lit ''dropindex '', relname, lit (case attrname of None \<Rightarrow> [] | Some a \<Rightarrow> ''('' @ a @ '')''), lit '';'']
      | N_LOAD relname filename \<Rightarrow> text_of [lit ''load '', relname, lit ''('', lit [CHR 0x22], filename, lit [CHR 0x22], lit '');'']
      | N_PRINT relname \<Rightarrow> text_of [lit ''print '', relname, lit '';'']
      | N_HELP relname \<Rightarrow> text_of [lit ''help'', lit (case relname of None \<Rightarrow> [] | Some r \<Rightarrow> '' '' @ r), lit '';'']
      | _ \<Rightarrow> None)"

subsection \<open>Queries\<close>

definition TMP_RESULT :: string where "TMP_RESULT = ''Tmp_Minirel_Result''"

text \<open>After the operator: a result without a name is printed and removed.\<close>

definition finish_query :: "'a dsys_scheme \<Rightarrow> string \<Rightarrow> Status \<Rightarrow> (shown list \<times> 'a dsys_scheme) option" where
  "finish_query s resultName st =
     (if resultName = TMP_RESULT then
        (case UT_Print s resultName of
           None \<Rightarrow> None
         | Some ((pst, out), s) \<Rightarrow>
             (case destroyRel s resultName of
                None \<Rightarrow> None
              | Some (dst, s) \<Rightarrow> Some (report st @ [Printed out] @ report pst @ report dst, s)))
      else Some (report st, s))"

definition name_infos :: "char_ptr list \<Rightarrow> char_ptr \<Rightarrow> attrInfo list option" where
  "name_infos names rel = those (map (\<lambda>a. mk_info rel a (- 1) (- 1) None) names)"

text \<open>The three forms of a query, given the descriptions of a result relation that exists.\<close>

definition select_all :: "'a dsys_scheme \<Rightarrow> nodes \<Rightarrow> string \<Rightarrow> AttrDesc list option \<Rightarrow> ptr \<Rightarrow> (shown list \<times> 'a dsys_scheme) option" where
  "select_all s ns resultName attrs attrlist =
     (case mk_attrnames s ns attrlist None of
        None \<Rightarrow> None
      | Some (Inl e, s) \<Rightarrow> Some ([ErrorCode ''select'' e], s)
      | Some (Inr (names, rel), s) \<Rightarrow>
          (case name_infos names rel of
             None \<Rightarrow> None
           | Some attrList \<Rightarrow>
               (case make_result False s resultName attrs attrList of
                  None \<Rightarrow> None
                | Some (st, s) \<Rightarrow>
                    if st \<noteq> OK then Some ([ErrorStatus st], s)
                    else
                      (case QU_Select s resultName attrList None LT [] of
                         None \<Rightarrow> None
                       | Some (st, s) \<Rightarrow> finish_query s resultName st))))"

definition select_where :: "'a dsys_scheme \<Rightarrow> nodes \<Rightarrow> string \<Rightarrow> AttrDesc list option \<Rightarrow> ptr \<Rightarrow> ptr \<Rightarrow> int \<Rightarrow> ptr \<Rightarrow>
    (shown list \<times> 'a dsys_scheme) option" where
  "select_where s ns resultName attrs attrlist selattr op val =
     (case node_at ns selattr of
        Some (N_QUALATTR r a) \<Rightarrow>
          (case mk_attrnames s ns attrlist r of
             None \<Rightarrow> None
           | Some (Inl e, s) \<Rightarrow> Some ([ErrorCode ''select'' e], s)
           | Some (Inr (names, rel), s) \<Rightarrow>
               (case (name_infos names rel, type_of ns val, value_of ns val, operator_of op) of
                  (Some attrList, Some ty, Some v, Some oper) \<Rightarrow>
                    (case mk_info rel a (datatype_code ty) (- 1) (Some (c_bytes v)) of
                       None \<Rightarrow> None
                     | Some attr1 \<Rightarrow>
                         (case make_result False s resultName attrs attrList of
                            None \<Rightarrow> None
                          | Some (st, s) \<Rightarrow>
                              if st \<noteq> OK then Some ([ErrorStatus st], s)
                              else
                                (case QU_Select s resultName attrList (Some attr1) oper v of
                                   None \<Rightarrow> None
                                 | Some (st, s) \<Rightarrow> finish_query s resultName st)))
                | _ \<Rightarrow> None))
      | _ \<Rightarrow> None)"

definition select_join :: "JoinType \<Rightarrow> 'a dsys_scheme \<Rightarrow> nodes \<Rightarrow> string \<Rightarrow> AttrDesc list option \<Rightarrow> ptr \<Rightarrow> ptr \<Rightarrow> int \<Rightarrow> ptr \<Rightarrow>
    (shown list \<times> 'a dsys_scheme) option" where
  "select_join jm s ns resultName attrs attrlist joinattr1 op joinattr2 =
     (case (node_at ns joinattr1, node_at ns joinattr2) of
        (Some (N_QUALATTR r1 a1), Some (N_QUALATTR r2 a2)) \<Rightarrow>
          (case mk_qual_attrs ns attrlist r1 r2 of
             None \<Rightarrow> None
           | Some (Inl e) \<Rightarrow> Some ([ErrorCode ''select'' e], s)
           | Some (Inr qs) \<Rightarrow>
               (case (those (map (\<lambda>q. mk_info (ra_relName q) (ra_attrName q) (- 1) (- 1) None) qs),
                      mk_info r1 a1 (- 1) (- 1) None, mk_info r2 a2 (- 1) (- 1) None, operator_of op) of
                  (Some attrList, Some attr1, Some attr2, Some oper) \<Rightarrow>
                    (case make_result True s resultName attrs attrList of
                       None \<Rightarrow> None
                     | Some (st, s) \<Rightarrow>
                         if st \<noteq> OK then Some ([ErrorStatus st], s)
                         else
                           (case QU_Join jm s resultName attrList attr1 oper attr2 of
                              None \<Rightarrow> None
                            | Some (st, s) \<Rightarrow> finish_query s resultName st))
                | _ \<Rightarrow> None))
      | _ \<Rightarrow> None)"

definition query_body :: "JoinType \<Rightarrow> 'a dsys_scheme \<Rightarrow> nodes \<Rightarrow> string \<Rightarrow> AttrDesc list option \<Rightarrow> ptr \<Rightarrow> ptr \<Rightarrow>
    (shown list \<times> 'a dsys_scheme) option" where
  "query_body jm s ns resultName attrs attrlist qual =
     (if qual = None then select_all s ns resultName attrs attrlist
      else
        (case node_at ns qual of
           Some (N_SELECT selattr op val) \<Rightarrow> select_where s ns resultName attrs attrlist selattr op val
         | Some (N_JOIN joinattr1 op joinattr2) \<Rightarrow> select_join jm s ns resultName attrs attrlist joinattr1 op joinattr2
         | _ \<Rightarrow> None))"

definition interp_query :: "JoinType \<Rightarrow> 'a dsys_scheme \<Rightarrow> nodes \<Rightarrow> char_ptr \<Rightarrow> ptr \<Rightarrow> ptr \<Rightarrow>
    (shown list \<times> 'a dsys_scheme) option" where
  "interp_query jm s ns relname attrlist qual =
     (case relname of
        Some r \<Rightarrow>
          (case AttrCatalog_getRelInfo s r of
             None \<Rightarrow> None
           | Some (Inl st, s) \<Rightarrow>
               if st \<noteq> RELNOTFOUND then Some ([ErrorStatus st], s) else query_body jm s ns r None attrlist qual
           | Some (Inr ds, s) \<Rightarrow> query_body jm s ns r (Some ds) attrlist qual)
      | None \<Rightarrow>
          (case RelCatalog_getInfo s TMP_RESULT of
             None \<Rightarrow> None
           | Some (Inl st, s) \<Rightarrow>
               if st \<noteq> RELNOTFOUND then Some ([ErrorStatus st], s) else query_body jm s ns TMP_RESULT None attrlist qual
           | Some (Inr _, s) \<Rightarrow> Some ([ErrorStatus TMP_RES_EXISTS], s)))"

subsection \<open>The other commands\<close>

definition interp_insert :: "(nat \<Rightarrow> byte) \<Rightarrow> 'a dsys_scheme \<Rightarrow> nodes \<Rightarrow> char_ptr \<Rightarrow> ptr \<Rightarrow> (shown list \<times> 'a dsys_scheme) option" where
  "interp_insert junk s ns relname attrlist =
     (case mk_ins_attrs ns attrlist of
        None \<Rightarrow> None
      | Some (Inl e) \<Rightarrow> Some ([ErrorCode ''insert'' e], s)
      | Some (Inr vs) \<Rightarrow>
          (case (relname, those (map (\<lambda>v. mk_info relname (av_attrName v) (av_valType v) (- 1) (Some (av_value v))) vs)) of
             (Some r, Some attrList) \<Rightarrow> map_option (\<lambda>(st, s). (report st, s)) (QU_Insert junk s r attrList)
           | _ \<Rightarrow> None))"

text \<open>Without a condition the operator, type and value are those of the code 0.\<close>

definition interp_delete :: "'a dsys_scheme \<Rightarrow> nodes \<Rightarrow> char_ptr \<Rightarrow> ptr \<Rightarrow> (shown list \<times> 'a dsys_scheme) option" where
  "interp_delete s ns relname qual =
     (case relname of
        None \<Rightarrow> None
      | Some r \<Rightarrow>
          if qual = None then map_option (\<lambda>(st, s). (report st, s)) (QU_Delete s r [] LT STRING [])
          else
            (case node_at ns qual of
               None \<Rightarrow> None
             | Some (N_SELECT selattr op val) \<Rightarrow>
                 (case (node_at ns selattr, type_of ns val, value_of ns val, operator_of op) of
                    (Some (N_QUALATTR _ attrname), Some ty, Some v, Some oper) \<Rightarrow>
                      map_option (\<lambda>(st, s). (report st, s))
                        (QU_Delete s r (case attrname of None \<Rightarrow> [] | Some a \<Rightarrow> a) oper ty v)
                  | _ \<Rightarrow> None)
             | _ \<Rightarrow> Some ([SyntaxError], s)))"

definition interp_create :: "'a dsys_scheme \<Rightarrow> nodes \<Rightarrow> char_ptr \<Rightarrow> ptr \<Rightarrow> ptr \<Rightarrow> (shown list \<times> 'a dsys_scheme) option" where
  "interp_create s ns relname attrlist primattr =
     (case mk_attr_descrs ns attrlist of
        None \<Rightarrow> None
      | Some (Inl e) \<Rightarrow> Some ([ErrorCode ''create'' e], s)
      | Some (Inr ds) \<Rightarrow>
          if primattr \<noteq> None \<and> (case node_at ns primattr of Some (N_PRIMATTR _ _) \<Rightarrow> False | _ \<Rightarrow> True) then None
          else
            (case (relname, those (map (\<lambda>d. mk_info relname (de_attrName d) (de_attrType d) (de_attrLen d) None) ds)) of
               (Some r, Some attrList) \<Rightarrow> map_option (\<lambda>(st, s). (report st, s)) (createRel s r attrList)
             | _ \<Rightarrow> None))"

text \<open>
  \<open>tty\<close> says whether the input is a terminal, \<open>jm\<close> is the join method, \<open>junk\<close> the contents of
  fresh memory, and \<open>unix\<close> the files that can be loaded. A null name cannot become a \<open>string\<close>. Any
  other node, among them the commands on indices, runs into the \<open>assert(0)\<close> behind the last case:
  the program ends with its message as the last output.
\<close>

definition interp_command :: "JoinType \<Rightarrow> (nat \<Rightarrow> byte) \<Rightarrow> (string \<Rightarrow> byte list option) \<Rightarrow> 'a dsys_scheme \<Rightarrow> nodes \<Rightarrow> NODE \<Rightarrow>
    (shown list \<times> 'a dsys_scheme) option" where
  "interp_command jm junk unix s ns n =
     (case n of
        N_QUERY relname attrlist qual \<Rightarrow> interp_query jm s ns relname attrlist qual
      | N_INSERT relname attrlist \<Rightarrow> interp_insert junk s ns relname attrlist
      | N_DELETE relname qual \<Rightarrow> interp_delete s ns relname qual
      | N_CREATE relname attrlist primattr \<Rightarrow> interp_create s ns relname attrlist primattr
      | N_DESTROY (Some r) \<Rightarrow> map_option (\<lambda>(st, s). (report st, s)) (destroyRel s r)
      | N_LOAD (Some r) (Some f) \<Rightarrow> map_option (\<lambda>(st, s). (report st, s)) (UT_Load s r f (unix f))
      | N_PRINT (Some r) \<Rightarrow> map_option (\<lambda>((st, out), s). (Printed out # report st, s)) (UT_Print s r)
      | N_HELP relname \<Rightarrow>
          map_option (\<lambda>((st, out), s). (Described out # report st, s))
            (RelCatalog_help s (case relname of None \<Rightarrow> [] | Some r \<Rightarrow> r))
      | N_DESTROY None \<Rightarrow> None
      | N_LOAD _ _ \<Rightarrow> None
      | N_PRINT None \<Rightarrow> None
      | _ \<Rightarrow> Some ([AssertionFailed], s))"

definition interp :: "bool \<Rightarrow> JoinType \<Rightarrow> (nat \<Rightarrow> byte) \<Rightarrow> (string \<Rightarrow> byte list option) \<Rightarrow> 'a dsys_scheme \<Rightarrow> nodes \<Rightarrow> ptr \<Rightarrow>
    (shown list \<times> 'a dsys_scheme) option" where
  "interp tty jm junk unix s ns n =
     (case node_at ns n of
        None \<Rightarrow> None
      | Some nd \<Rightarrow>
          if tty then interp_command jm junk unix s ns nd
          else
            (case echo_query ns nd of
               None \<Rightarrow> None
             | Some x \<Rightarrow> map_option (\<lambda>(out, s). (Echo x # out, s)) (interp_command jm junk unix s ns nd)))"

end
