(* ===== verification/Nodes_Props.thy ===== *)
theory Nodes_Props
  imports Nodes
begin

text \<open>
  Lists in the node pool as HOL lists, and the properties of the functions that change nodes
  in place: the merge of attribute and value lists, and the resolution of aliases.
\<close>

subsection \<open>Lists of nodes\<close>

text \<open>\<open>list_at s p xs\<close>: from \<open>p\<close> there is a list with the elements \<open>xs\<close>.\<close>

inductive list_at :: "nodes \<Rightarrow> ptr \<Rightarrow> ptr list \<Rightarrow> bool" for s where
  list_end: "list_at s None []"
| list_cell: "node_at s (Some c) = Some (N_LIST e nxt) \<Longrightarrow> list_at s nxt xs \<Longrightarrow> list_at s (Some c) (e # xs)"

inductive_cases list_at_NilE: "list_at s p []"
inductive_cases list_at_ConsE: "list_at s p (e # xs)"
inductive_simps list_at_None [simp]: "list_at s None xs"

lemma node_at_set: "node_at (set_node i n s) p = (if p = Some i \<and> i < length (nodepool s) then Some n else node_at s p)"
  by (auto simp: node_at_def set_node_def split: option.split)

text \<open>Changing a node that is not a list cell keeps all lists.\<close>

lemma list_at_set:
  assumes "list_at s p xs" "\<nexists>e nxt. node_at s (Some i) = Some (N_LIST e nxt)"
  shows "list_at (set_node i n s) p xs"
  using assms
proof (induction rule: list_at.induct)
  case (list_cell c e nxt xs)
  then have "node_at (set_node i n s) (Some c) = Some (N_LIST e nxt)" by (auto simp: node_at_set)
  then show ?case using list_cell by (intro list_at.list_cell) simp_all
qed simp

lemma node_at_nodeptr [simp]: "node_at (s\<lparr>nodeptr := k\<rparr>) = node_at s"
  by (simp add: node_at_def fun_eq_iff split: option.split)

lemma list_at_cong: "list_at s p xs \<Longrightarrow> node_at s' = node_at s \<Longrightarrow> list_at s' p xs"
  by (induction rule: list_at.induct) (auto intro: list_at.list_cell)

lemma prepend_list:
  assumes "list_at s p xs" "nodeptr s < MAXNODE" "length (nodepool s) = MAXNODE"
    and "\<forall>c. c \<ge> nodeptr s \<longrightarrow> \<not> (\<exists>e nxt. node_at s (Some c) = Some (N_LIST e nxt))"
  shows "\<exists>q s'. prepend e p s = Some (q, s') \<and> list_at s' q (e # xs)"
proof -
  let ?s = "(set_node (nodeptr s) (N_LIST e p) s)\<lparr>nodeptr := nodeptr s + 1\<rparr>"
  have "list_at (set_node (nodeptr s) (N_LIST e p) s) p xs" using assms by (intro list_at_set) auto
  then have "list_at ?s p xs" by (rule list_at_cong) simp
  then have "list_at ?s (Some (nodeptr s)) (e # xs)"
    using assms(2,3) by (intro list_cell) (auto simp: node_at_set)
  then show ?thesis using assms(2) by (auto simp: prepend_def newnode_def)
qed

subsection \<open>Merging\<close>

definition attrval_at :: "nodes \<Rightarrow> nat \<Rightarrow> char_ptr \<Rightarrow> ptr \<Rightarrow> bool" where
  "attrval_at s a name v \<longleftrightarrow> node_at s (Some a) = Some (N_ATTRVAL name v)"

lemma merge_loop_ok:
  assumes "list_at s p (map Some as)" "list_at s q vs" "distinct as" "\<forall>a \<in> set as. \<exists>n v. attrval_at s a n v"
  shows "\<exists>s'. merge_loop s p q = Some (length as = length vs, s') \<and>
    (\<forall>x. x \<notin> Some ` set as \<longrightarrow> node_at s' x = node_at s x) \<and>
    (\<forall>k n v. k < length as \<longrightarrow> k < length vs \<longrightarrow> attrval_at s (as ! k) n v \<longrightarrow> attrval_at s' (as ! k) n (vs ! k))"
  using assms
proof (induction as arbitrary: s p q vs)
  case Nil
  then have "p = None" by (auto elim: list_at_NilE)
  moreover have "q = None \<longleftrightarrow> vs = []" using Nil.prems(2) by (auto elim: list_at.cases)
  ultimately show ?case by (subst merge_loop.simps) auto
next
  case (Cons a as)
  obtain c nxt where c: "p = Some c" "node_at s p = Some (N_LIST (Some a) nxt)" "list_at s nxt (map Some as)"
    using Cons.prems(1) by (auto elim: list_at_ConsE)
  obtain n v where a: "node_at s (Some a) = Some (N_ATTRVAL n v)" using Cons.prems(4) by (auto simp: attrval_at_def)
  then have la: "a < length (nodepool s)" by (simp add: node_at_def split: if_splits)
  show ?case
  proof (cases vs)
    case Nil
    then have "q = None" using Cons.prems(2) by (auto elim: list_at_NilE)
    then show ?thesis using c(1) Nil by (subst merge_loop.simps) auto
  next
    case (Cons w ws)
    obtain d vn where d: "q = Some d" "node_at s q = Some (N_LIST w vn)" "list_at s vn ws"
      using Cons.prems(2) \<open>vs = w # ws\<close> by (auto elim: list_at_ConsE)
    let ?s = "set_node a (N_ATTRVAL n w) s"
    have L: "list_at ?s nxt (map Some as)" "list_at ?s vn ws" using c(3) d(3) a by (auto intro: list_at_set)
    have "\<forall>b \<in> set as. \<exists>n v. attrval_at ?s b n v"
      using Cons.prems(3,4) by (auto simp: attrval_at_def node_at_set)
    from Cons.IH [OF L _ this] Cons.prems(3) obtain s' where
      I: "merge_loop ?s nxt vn = Some (length as = length ws, s')"
        "\<forall>x. x \<notin> Some ` set as \<longrightarrow> node_at s' x = node_at ?s x"
        "\<forall>k n v. k < length as \<longrightarrow> k < length ws \<longrightarrow> attrval_at ?s (as ! k) n v \<longrightarrow> attrval_at s' (as ! k) n (ws ! k)" by auto
    have "merge_loop s p q = merge_loop ?s nxt vn" using c(1,2) d(1,2) a by (subst merge_loop.simps) simp
    moreover have "attrval_at s' ((a # as) ! k) m ((w # ws) ! k)"
      if "k < length (a # as)" "k < length (w # ws)" "attrval_at s ((a # as) ! k) m u" for k m u
    proof (cases k)
      case 0
      have "a \<notin> set as" using Cons.prems(3) by simp
      then have "node_at s' (Some a) = Some (N_ATTRVAL n w)" using I(2) la by (auto simp: node_at_set)
      then show ?thesis using 0 that(3) a by (simp add: attrval_at_def)
    next
      case (Suc j)
      then have "as ! j \<noteq> a" using Cons.prems(3) that(1) by (metis Suc_less_eq distinct.simps(2) length_Cons nth_mem)
      then have "attrval_at ?s (as ! j) m u" using that(3) Suc by (simp add: attrval_at_def node_at_set)
      then show ?thesis using I(3) Suc that(1,2) by auto
    qed
    ultimately show ?thesis using I(1,2) Cons by (intro exI [of _ s']) (auto simp: node_at_set)
  qed
qed

subsection \<open>Aliases\<close>

text \<open>The tables of a query, and what a qualifier stands for.\<close>

definition tables_at :: "nodes \<Rightarrow> ptr \<Rightarrow> (string \<times> char_ptr) list \<Rightarrow> bool" where
  "tables_at s p ts \<longleftrightarrow> (\<exists>es. list_at s p es \<and> list_all2 (\<lambda>e (r, a). node_at s e = Some (N_ALIAS (Some r) a)) es ts)"

definition resolve :: "(string \<times> char_ptr) list \<Rightarrow> char_ptr \<Rightarrow> string option" where
  "resolve ts q =
     (case q of
        None \<Rightarrow> (case ts of [(r, _)] \<Rightarrow> Some r | _ \<Rightarrow> None)
      | Some x \<Rightarrow> map_option fst (List.find (\<lambda>(r, a). r = x \<or> a = Some x) ts))"

lemma find_match_ok:
  assumes "list_at s p es" "list_all2 (\<lambda>e (r, a). node_at s e = Some (N_ALIAS (Some r) a)) es ts"
  shows "find_match_loop s p x = Some (resolve ts (Some x))"
  using assms
proof (induction arbitrary: ts rule: list_at.induct)
  case list_end
  then show ?case by (subst find_match_loop.simps) (simp add: resolve_def)
next
  case (list_cell c e nxt xs)
  obtain r a us where u: "ts = (r, a) # us" "node_at s e = Some (N_ALIAS (Some r) a)"
    "list_all2 (\<lambda>e (r, a). node_at s e = Some (N_ALIAS (Some r) a)) xs us"
    using list_cell.prems by (cases ts) auto
  then show ?case
    using list_cell.hyps(1) list_cell.IH [OF u(3)] by (subst find_match_loop.simps) (auto simp: resolve_def)
qed

lemma replace_alias_ok:
  assumes "tables_at s p ts" "ts \<noteq> []" "node_at s (Some i) = Some (N_QUALATTR q a)"
  shows "replace_alias p (Some i) s = Some (case resolve ts q of
    None \<Rightarrow> (False, s) | Some r \<Rightarrow> (True, set_node i (N_QUALATTR (Some r) a) s))"
proof -
  obtain es where E: "list_at s p es" "list_all2 (\<lambda>e (r, a). node_at s e = Some (N_ALIAS (Some r) a)) es ts"
    using assms(1) by (auto simp: tables_at_def)
  show ?thesis
  proof (cases q)
    case None
    obtain r b us where t: "ts = (r, b) # us" using assms(2) by (cases ts) auto
    obtain e xs where e: "es = e # xs" "node_at s e = Some (N_ALIAS (Some r) b)" "length xs = length us"
      using E(2) t by (cases es) (auto simp: list_all2_lengthD)
    obtain nxt where n: "node_at s p = Some (N_LIST e nxt)" "list_at s nxt xs" using E(1) e(1) by (auto elim: list_at_ConsE)
    have "nxt = None \<longleftrightarrow> us = []" using n(2) e(3) by (auto elim: list_at.cases)
    then show ?thesis using assms(3) None n(1) e(2) t by (cases us) (auto simp: replace_alias_def resolve_def)
  next
    case (Some x)
    then show ?thesis
      using assms(3) find_match_ok [OF E, of x] by (auto simp: replace_alias_def find_match_in_alias_def split: option.split)
  qed
qed

lemma tables_at_set:
  assumes "tables_at s p ts" "node_at s (Some i) = Some (N_QUALATTR q a)"
  shows "tables_at (set_node i n s) p ts"
proof -
  obtain es where E: "list_at s p es" "list_all2 (\<lambda>e (r, a). node_at s e = Some (N_ALIAS (Some r) a)) es ts"
    using assms(1) by (auto simp: tables_at_def)
  have "list_at (set_node i n s) p es" using E(1) assms(2) by (intro list_at_set) auto
  moreover have "list_all2 (\<lambda>e (r, a). node_at (set_node i n s) e = Some (N_ALIAS (Some r) a)) es ts"
    using E(2) by (rule list_all2_mono) (use assms(2) in \<open>auto simp: node_at_set\<close>)
  ultimately show ?thesis by (auto simp: tables_at_def)
qed

lemma replace_loop_ok:
  assumes "tables_at s p ts" "ts \<noteq> []" "list_at s n (map Some is)" "distinct is"
    and "\<forall>i \<in> set is. \<exists>q a. node_at s (Some i) = Some (N_QUALATTR q a)"
  shows "\<exists>ok s'. replace_alias_loop p n s = Some (ok, s') \<and>
    (ok \<longleftrightarrow> (\<forall>i \<in> set is. \<forall>q a. node_at s (Some i) = Some (N_QUALATTR q a) \<longrightarrow> resolve ts q \<noteq> None)) \<and>
    (\<forall>x. x \<notin> Some ` set is \<longrightarrow> node_at s' x = node_at s x) \<and>
    (ok \<longrightarrow> (\<forall>i \<in> set is. \<forall>q a. node_at s (Some i) = Some (N_QUALATTR q a) \<longrightarrow>
       node_at s' (Some i) = Some (N_QUALATTR (resolve ts q) a)))"
  using assms(1,3-5)
proof (induction "is" arbitrary: s n)
  case Nil
  then have "n = None" by (auto elim: list_at_NilE)
  then show ?case by (subst replace_alias_loop.simps) auto
next
  case (Cons i js)
  obtain c nxt where c: "n = Some c" "node_at s n = Some (N_LIST (Some i) nxt)" "list_at s nxt (map Some js)"
    using Cons.prems(2) by (auto elim: list_at_ConsE)
  obtain q a where q: "node_at s (Some i) = Some (N_QUALATTR q a)" using Cons.prems(4) by auto
  then have li: "i < length (nodepool s)" by (simp add: node_at_def split: if_splits)
  note R = replace_alias_ok [OF Cons.prems(1) assms(2) q]
  show ?case
  proof (cases "resolve ts q")
    case None
    then have "replace_alias_loop p n s = Some (False, s)" using c(1,2) R by (subst replace_alias_loop.simps) simp
    then show ?thesis using q None by auto
  next
    case (Some r)
    let ?s = "set_node i (N_QUALATTR (Some r) a) s"
    have run: "replace_alias_loop p n s = replace_alias_loop p nxt ?s" using c(1,2) R Some by (subst replace_alias_loop.simps) simp
    have i: "i \<notin> set js" using Cons.prems(3) by simp
    then have same: "node_at ?s (Some j) = node_at s (Some j)" if "j \<in> set js" for j using that by (auto simp: node_at_set)
    have P: "tables_at ?s p ts" "list_at ?s nxt (map Some js)" "\<forall>j \<in> set js. \<exists>q a. node_at ?s (Some j) = Some (N_QUALATTR q a)"
      using tables_at_set [OF Cons.prems(1) q] list_at_set [OF c(3)] q same Cons.prems(4) by auto
    have d: "distinct js" using Cons.prems(3) by simp
    from Cons.IH [OF P(1,2) d P(3)] obtain ok s' where
      I: "replace_alias_loop p nxt ?s = Some (ok, s')"
        "ok \<longleftrightarrow> (\<forall>i \<in> set js. \<forall>q a. node_at ?s (Some i) = Some (N_QUALATTR q a) \<longrightarrow> resolve ts q \<noteq> None)"
        "\<forall>x. x \<notin> Some ` set js \<longrightarrow> node_at s' x = node_at ?s x"
        "ok \<longrightarrow> (\<forall>i \<in> set js. \<forall>q a. node_at ?s (Some i) = Some (N_QUALATTR q a) \<longrightarrow>
           node_at s' (Some i) = Some (N_QUALATTR (resolve ts q) a))" by blast
    have "node_at s' (Some i) = Some (N_QUALATTR (Some r) a)" using I(3) i li by (auto simp: node_at_set)
    then show ?thesis
      using run I same q Some by (intro exI [of _ ok] exI [of _ s']) (auto simp: node_at_set)
  qed
qed

subsection \<open>Properties\<close>

text \<open>
  C28. \<open>merge_attr_value_list\<close> pairs the attribute list of an insertion with its value list. It
  ends, and returns the attribute list exactly when the two lists have the same length; then
  the \<open>k\<close>-th attribute has kept its name and points to the \<open>k\<close>-th value. No other node changes.
\<close>

theorem merge_attr_value_list_correct:
  assumes "list_at s p (map Some as)" "list_at s q vs" "distinct as" "\<forall>a \<in> set as. \<exists>n v. attrval_at s a n v"
  shows "\<exists>s'. merge_attr_value_list p q s = Some (if length as = length vs then p else None, s') \<and>
    (\<forall>x. x \<notin> Some ` set as \<longrightarrow> node_at s' x = node_at s x) \<and>
    (length as = length vs \<longrightarrow> (\<forall>k < length as. \<forall>n v. attrval_at s (as ! k) n v \<longrightarrow> attrval_at s' (as ! k) n (vs ! k)))"
proof -
  from merge_loop_ok [OF assms] obtain s' where
    L: "merge_loop s p q = Some (length as = length vs, s')" "\<forall>x. x \<notin> Some ` set as \<longrightarrow> node_at s' x = node_at s x"
      "\<forall>k n v. k < length as \<longrightarrow> k < length vs \<longrightarrow> attrval_at s (as ! k) n v \<longrightarrow> attrval_at s' (as ! k) n (vs ! k)" by blast
  then show ?thesis by (intro exI [of _ s']) (simp add: merge_attr_value_list_def)
qed

text \<open>Attributes \<open>a\<close> and \<open>b\<close>, values 7 and 8.\<close>

definition demo_nodes :: nodes where
  "demo_nodes = \<lparr>nodepool = [N_ATTRVAL (Some ''a'') None, N_ATTRVAL (Some ''b'') None,
     N_VALUE INTEGER 0 (IVal 7), N_VALUE INTEGER 0 (IVal 8),
     N_LIST (Some 1) None, N_LIST (Some 0) (Some 4), N_LIST (Some 3) None, N_LIST (Some 2) (Some 6)], nodeptr = 8\<rparr>"

lemma demo_nodes_lists: "list_at demo_nodes (Some 5) [Some 0, Some 1]" "list_at demo_nodes (Some 7) [Some 2, Some 3]"
proof -
  have "node_at demo_nodes (Some 5) = Some (N_LIST (Some 0) (Some 4))" "node_at demo_nodes (Some 4) = Some (N_LIST (Some 1) None)"
    "node_at demo_nodes (Some 7) = Some (N_LIST (Some 2) (Some 6))" "node_at demo_nodes (Some 6) = Some (N_LIST (Some 3) None)"
    by code_simp+
  then show "list_at demo_nodes (Some 5) [Some 0, Some 1]" "list_at demo_nodes (Some 7) [Some 2, Some 3]"
    by (auto intro!: list_at.intros)
qed

theorem merge_attr_value_list_correct_witness:
  "\<exists>s'. merge_attr_value_list (Some 5) (Some 7) demo_nodes = Some (Some 5, s') \<and>
     attrval_at s' 0 (Some ''a'') (Some 2) \<and> attrval_at s' 1 (Some ''b'') (Some 3)"
proof -
  have A: "attrval_at demo_nodes 0 (Some ''a'') None" "attrval_at demo_nodes 1 (Some ''b'') None"
    by (simp_all add: attrval_at_def node_at_def demo_nodes_def)
  have "list_at demo_nodes (Some 5) (map Some [0, 1])" "distinct [0, 1 :: nat]"
    "\<forall>a \<in> set [0, 1]. \<exists>n v. attrval_at demo_nodes a n v" using demo_nodes_lists(1) A by auto
  from merge_attr_value_list_correct [OF this(1) demo_nodes_lists(2) this(2,3)] obtain s' where
    "merge_attr_value_list (Some 5) (Some 7) demo_nodes = Some (Some 5, s')"
    "\<forall>k < 2. \<forall>n v. attrval_at demo_nodes ([0, 1] ! k) n v \<longrightarrow> attrval_at s' ([0, 1] ! k) n ([Some 2, Some 3] ! k)"
    by (auto simp: numeral_2_eq_2)
  moreover from this(2) [THEN spec, of 0] this(2) [THEN spec, of 1]
  have "attrval_at s' 0 (Some ''a'') (Some 2)" "attrval_at s' 1 (Some ''b'') (Some 3)" using A by auto
  ultimately show ?thesis by blast
qed

text \<open>
  C29. Aliases. \<open>replace_alias_in_qualattr_list\<close> ends, and succeeds exactly when every qualifier
  of the list is the name or the alias of a table of the query, or is missing in a query of
  one table. Then every qualifier has become the name of that table, the first one that fits,
  and the attribute names are as before. Nodes outside of the list never change.
\<close>

theorem replace_alias_correct:
  assumes "tables_at s p ts" "ts \<noteq> []" "list_at s n (map Some is)" "distinct is"
    and "\<forall>i \<in> set is. \<exists>q a. node_at s (Some i) = Some (N_QUALATTR q a)"
  shows "\<exists>ok s'. replace_alias_in_qualattr_list p n s = Some (if ok then n else None, s') \<and>
    (ok \<longleftrightarrow> (\<forall>i \<in> set is. \<forall>q a. node_at s (Some i) = Some (N_QUALATTR q a) \<longrightarrow> resolve ts q \<noteq> None)) \<and>
    (\<forall>x. x \<notin> Some ` set is \<longrightarrow> node_at s' x = node_at s x) \<and>
    (ok \<longrightarrow> (\<forall>i \<in> set is. \<forall>q a. node_at s (Some i) = Some (N_QUALATTR q a) \<longrightarrow>
       node_at s' (Some i) = Some (N_QUALATTR (resolve ts q) a)))"
proof -
  from replace_loop_ok [OF assms] obtain ok s' where
    L: "replace_alias_loop p n s = Some (ok, s')"
      "ok \<longleftrightarrow> (\<forall>i \<in> set is. \<forall>q a. node_at s (Some i) = Some (N_QUALATTR q a) \<longrightarrow> resolve ts q \<noteq> None)"
      "\<forall>x. x \<notin> Some ` set is \<longrightarrow> node_at s' x = node_at s x"
      "ok \<longrightarrow> (\<forall>i \<in> set is. \<forall>q a. node_at s (Some i) = Some (N_QUALATTR q a) \<longrightarrow>
         node_at s' (Some i) = Some (N_QUALATTR (resolve ts q) a))" by blast
  then show ?thesis by (intro exI [of _ ok] exI [of _ s']) (simp add: replace_alias_in_qualattr_list_def)
qed

text \<open>The query \<open>select e.name from emp as e\<close>.\<close>

definition demo_query :: nodes where
  "demo_query = \<lparr>nodepool = [N_ALIAS (Some ''emp'') (Some ''e''), N_LIST (Some 0) None,
     N_QUALATTR (Some ''e'') (Some ''name''), N_LIST (Some 2) None], nodeptr = 4\<rparr>"

theorem replace_alias_correct_witness:
  "\<exists>s'. replace_alias_in_qualattr_list (Some 1) (Some 3) demo_query = Some (Some 3, s') \<and>
     node_at s' (Some 2) = Some (N_QUALATTR (Some ''emp'') (Some ''name''))"
proof -
  have N: "node_at demo_query (Some 0) = Some (N_ALIAS (Some ''emp'') (Some ''e''))" "node_at demo_query (Some 1) = Some (N_LIST (Some 0) None)"
    "node_at demo_query (Some 2) = Some (N_QUALATTR (Some ''e'') (Some ''name''))" "node_at demo_query (Some 3) = Some (N_LIST (Some 2) None)"
    by code_simp+
  have L: "list_at demo_query (Some 1) [Some 0]" "list_at demo_query (Some 3) (map Some [2])"
    using N by (auto intro!: list_at.intros)
  have "tables_at demo_query (Some 1) [(''emp'', Some ''e'')]" using L(1) N(1) by (auto simp: tables_at_def)
  from replace_alias_correct [OF this _ L(2)] N(3) show ?thesis by (auto simp: resolve_def)
qed

end
