(* ===== verification/Interp_Props.thy ===== *)
theory Interp_Props
  imports Interp Nodes_Props Catalog_Rel
begin

text \<open>
  Properties of the interpreter: constants keep their value on the way from the parse tree to
  the operators, the lists of a command are handed over completely and in order, and which
  commands end the program.
\<close>

subsection \<open>Integer constants\<close>

lemma digit_char:
  assumes "d < 10"
  shows "isdigit (digit_char d) \<and> digit_val (digit_char d) = int d"
proof
  show "isdigit (digit_char d)" using assms by (simp add: isdigit_def digit_char_def)
  have "char_of (48 + d) = (char_of (int (48 + d)) :: char)" by (rule char_of_nat [symmetric])
  then show "digit_val (digit_char d) = int d" using assms by (simp add: digit_val_def digit_char_def)
qed

lemma show_nat_digits: "(\<forall>c \<in> set (show_nat n). isdigit c) \<and> digits_val (show_nat n) = int n \<and> show_nat n \<noteq> []"
proof (induction n rule: show_nat.induct)
  case (1 n)
  show ?case
  proof (cases "n < 10")
    case True
    then show ?thesis using digit_char [OF True] by (simp add: show_nat.simps [of n] digits_val_def)
  next
    case False
    note IH = 1 [OF False] and D = digit_char [of "n mod 10"]
    have "digits_val (show_nat (n div 10) @ [digit_char (n mod 10)]) = 10 * int (n div 10) + int (n mod 10)"
      using IH D by (simp add: digits_val_def)
    also have "\<dots> = int n" by presburger
    finally show ?thesis using IH D False by (simp add: show_nat.simps [of n])
  qed
qed

lemma isdigit_special: "isdigit c \<Longrightarrow> \<not> isspace c \<and> c \<noteq> CHR ''-'' \<and> c \<noteq> CHR ''+''"
  by (auto simp: isdigit_def isspace_def)

lemma atoi_show_int:
  assumes "- (2 ^ 31) \<le> i" "i < 2 ^ 31"
  shows "atoi (show_int i) = Some i"
proof -
  let ?n = "nat \<bar>i\<bar>"
  note S = show_nat_digits [of ?n]
  obtain c cs where c: "show_nat ?n = c # cs" using S by (cases "show_nat ?n") auto
  then have C: "\<not> isspace c" "c \<noteq> CHR ''-''" "c \<noteq> CHR ''+''" using S isdigit_special [of c] by auto
  have t: "takeWhile isdigit (c # cs) = c # cs" using S c takeWhile_eq_all_conv [of isdigit "c # cs"] by metis
  have "read_int (dropWhile isspace (show_int i)) = i"
  proof (cases "i < 0")
    case True
    then have "show_int i = CHR ''-'' # c # cs" using c by (simp add: show_int_def)
    moreover have "\<not> isspace (CHR ''-'')" by (simp add: isspace_def)
    ultimately have "read_int (dropWhile isspace (show_int i)) = - digits_val (c # cs)"
      by (simp add: read_int_def t del: takeWhile.simps)
    then show ?thesis using S c True by simp
  next
    case False
    then have "show_int i = c # cs" using c by (simp add: show_int_def)
    then have "read_int (dropWhile isspace (show_int i)) = digits_val (c # cs)"
      using C by (simp add: read_int_def t del: takeWhile.simps)
    then show ?thesis using S c False by simp
  qed
  then show ?thesis using assms by (simp add: atoi_def)
qed

lemma show_nat_length: "n < 10 ^ k \<Longrightarrow> 0 < k \<Longrightarrow> length (show_nat n) \<le> k"
proof (induction k arbitrary: n)
  case (Suc k)
  show ?case
  proof (cases "n < 10")
    case False
    then have "n div 10 < 10 ^ k" "0 < k" using Suc.prems(1) by (auto intro!: Nat.gr0I)
    then show ?thesis using Suc.IH [of "n div 10"] False by (simp add: show_nat.simps [of n])
  qed (simp add: show_nat.simps [of n])
qed simp

lemma show_int_short: "- (2 ^ 31) \<le> i \<Longrightarrow> i < 2 ^ 31 \<Longrightarrow> length (show_int i) \<le> 11"
  using show_nat_length [of "nat \<bar>i\<bar>" 10] by (cases "i < 0") (auto simp: show_int_def nat_less_iff)

text \<open>
  C36. An integer constant of a query is handed to the operators as text and read back there. The
  comparison is made with the number that was written, for every value of the type.
\<close>

theorem integer_constant_roundtrip:
  assumes "value_node ns p = Some (INTEGER, len, IVal i)" "- (2 ^ 31) \<le> i" "i < 2 ^ 31"
  shows "\<exists>v. value_of ns p = Some v \<and> filter_value INTEGER v = Some (le_bytes 4 i) \<and>
    swrap 32 (bytes_le (le_bytes 4 i) 4) = i"
proof -
  have "value_of ns p = Some (show_int i)" using assms show_int_short [OF assms(2,3)] by (simp add: value_of_def)
  moreover have "filter_value INTEGER (show_int i) = Some (le_bytes 4 i)"
    using atoi_show_int [OF assms(2,3)] by (simp add: filter_value_def)
  moreover have "swrap 32 (bytes_le (le_bytes 4 i) 4) = i"
    using int_at_bytes [of i 0 "[]" "[]"] assms(2,3) by (simp add: int_at_def)
  ultimately show ?thesis by blast
qed

definition demo_tree :: nodes where
  "demo_tree = \<lparr>nodepool = [N_VALUE INTEGER 0 (IVal (- 17)), N_ATTRVAL (Some ''a'') (Some 0), N_LIST (Some 1) None,
     N_STAR (Some ''r''), N_QUERY None (Some 3) None], nodeptr = 5\<rparr>"

theorem integer_constant_roundtrip_witness:
  "\<exists>v. value_of demo_tree (Some 0) = Some v \<and> filter_value INTEGER v = Some (le_bytes 4 (- 17))"
proof -
  have "value_node demo_tree (Some 0) = Some (INTEGER, 0, IVal (- 17))"
    by (simp add: value_node_def node_at_def demo_tree_def)
  from integer_constant_roundtrip [OF this] show ?thesis by auto
qed

subsection \<open>The values of an insertion\<close>

text \<open>A list of attributes with their values, and what becomes of one of them.\<close>

definition values_at :: "nodes \<Rightarrow> ptr \<Rightarrow> (char_ptr \<times> Datatype \<times> int \<times> string) list \<Rightarrow> bool" where
  "values_at ns p xs \<longleftrightarrow> (\<exists>es. list_at ns p es \<and> list_all2 (\<lambda>e (name, ty, len, v).
     \<exists>q. node_at ns e = Some (N_ATTRVAL name q) \<and> type_of ns q = Some ty \<and> length_of ns q = Some len \<and>
       value_of ns q = Some v) es xs)"

fun attr_val :: "char_ptr \<times> Datatype \<times> int \<times> string \<Rightarrow> ATTR_VAL" where
  "attr_val (name, ty, len, v) =
     \<lparr>av_attrName = name, av_valType = datatype_code ty, av_valLength = len, av_value = c_bytes v\<rparr>"

abbreviation too_long :: "char_ptr \<times> Datatype \<times> int \<times> string \<Rightarrow> bool" where
  "too_long x \<equiv> (case x of (_, ty, len, _) \<Rightarrow> ty = STRING \<and> MAXSTRINGLEN < len)"

lemma values_at_Nil: "values_at ns p [] \<longleftrightarrow> p = None"
  by (auto simp: values_at_def elim: list_at_NilE)

lemma values_at_Cons:
  "values_at ns p ((name, ty, len, v) # xs) \<Longrightarrow> \<exists>c e nxt q. p = Some c \<and> node_at ns p = Some (N_LIST e nxt) \<and>
    node_at ns e = Some (N_ATTRVAL name q) \<and> type_of ns q = Some ty \<and> length_of ns q = Some len \<and>
    value_of ns q = Some v \<and> values_at ns nxt xs"
  unfolding values_at_def by (auto simp: list_all2_Cons2 elim!: list_at_ConsE)

lemma ins_attrs_loop_ok:
  assumes "values_at ns p xs"
  shows "ins_attrs_loop k ns p = Some (if \<exists>x \<in> set (take k xs). too_long x then Inl E_STRINGTOOLONG
    else if k \<le> length xs then Inl E_TOOMANYATTRS else Inr (map attr_val xs))"
  using assms
proof (induction k arbitrary: p xs)
  case (Suc k)
  show ?case
  proof (cases xs)
    case Nil
    then show ?thesis using Suc.prems by (simp add: values_at_Nil)
  next
    case (Cons x ys)
    obtain name ty len v where x: "x = (name, ty, len, v)" using prod_cases4 by blast
    obtain c e nxt q where "p = Some c" "node_at ns p = Some (N_LIST e nxt)" "node_at ns e = Some (N_ATTRVAL name q)"
      "type_of ns q = Some ty" "length_of ns q = Some len" "value_of ns q = Some v" "values_at ns nxt ys"
      using values_at_Cons [of ns p name ty len v ys] Suc.prems Cons x by blast
    then show ?thesis using Suc.IH [of nxt ys] Cons x by simp
  qed
qed simp

text \<open>
  The list of an insertion is handed over completely and in order: every attribute with the
  type, length and text of its value. A string of more than 255 characters among the first 40
  values, or 40 values or more, are refused.
\<close>

theorem mk_ins_attrs_correct:
  assumes "values_at ns p xs"
  shows "mk_ins_attrs ns p = Some (if \<exists>x \<in> set (take 40 xs). too_long x then Inl E_STRINGTOOLONG
    else if 40 \<le> length xs then Inl E_TOOMANYATTRS else Inr (map attr_val xs))"
  unfolding mk_ins_attrs_def MAXATTRS_def by (rule ins_attrs_loop_ok [OF assms])

theorem mk_ins_attrs_correct_witness:
  "mk_ins_attrs demo_tree (Some 2) =
     Some (Inr [\<lparr>av_attrName = Some ''a'', av_valType = 1, av_valLength = 0, av_value = c_bytes ''-17''\<rparr>])"
proof -
  have "value_of demo_tree (Some 0) = Some ''-17''" "type_of demo_tree (Some 0) = Some INTEGER" "length_of demo_tree (Some 0) = Some 0"
    by code_simp+
  moreover have "list_at demo_tree (Some 2) [Some 1]"
    by (rule list_cell, simp add: node_at_def demo_tree_def, rule list_end)
  ultimately have "values_at demo_tree (Some 2) [(Some ''a'', INTEGER, 0, ''-17'')]"
    unfolding values_at_def by (intro exI [of _ "[Some 1]"]) (simp add: node_at_def demo_tree_def)
  from mk_ins_attrs_correct [OF this] show ?thesis by (simp add: datatype_code_def)
qed

end
