(* ===== verification/Query_Props.thy ===== *)
theory Query_Props
  imports Query_Sessions
begin

text \<open>
  The properties of the query operators: which records a deletion removes, and what an
  insertion stores.
\<close>

subsection \<open>Deletion\<close>

text \<open>The loop removes every record that the scan delivers.\<close>

lemma delete_loop_ok:
  assumes "cursor s name ns m flt (t, h) rest"
  shows "\<exists>h' t' m'. delete_loop t h = Some (OK, h', t') \<and> cursor s name ns m' flt (t', h') [] \<and>
    heap_recs m' ns = (\<lambda>r. if r \<in> fst ` set rest then None else heap_recs m ns r)"
  using assms
proof (induction rest arbitrary: t h m)
  case Nil
  from cursor_next [OF Nil] obtain h' t' where
    "scanNext t h = Some (Inl FILEEOF, h', t')" "cursor s name ns m flt (t', h') []" by auto
  then show ?case by (intro exI [of _ h'] exI [of _ t'] exI [of _ m]) (subst delete_loop.simps, simp)
next
  case (Cons x xs)
  from cursor_next [OF Cons.prems] obtain h1 t1 where N:
    "scanNext t h = Some (Inr (fst x), h1, t1)" "cursor s name ns m flt (t1, h1) xs" "current ns (t1, h1) x" by auto
  from cursor_delete [OF N(2,3)] obtain h2 t2 m2 where D:
    "HeapFileScan_deleteRecord t1 h1 = Some (OK, h2, t2)" "cursor s name ns m2 flt (t2, h2) xs"
    "heap_recs m2 ns = (heap_recs m ns)(fst x := None)" by blast
  from Cons.IH [OF D(2)] obtain h' t' m' where
    "delete_loop t2 h2 = Some (OK, h', t')" "cursor s name ns m' flt (t', h') []"
    "heap_recs m' ns = (\<lambda>r. if r \<in> fst ` set xs then None else heap_recs m2 ns r)" by blast
  then show ?case using N(1) D(1,3)
    by (intro exI [of _ h'] exI [of _ t'] exI [of _ m'])
      (subst delete_loop.simps, auto simp: fun_eq_iff)
qed

text \<open>The condition of a deletion, or the status that refuses it.\<close>

definition delete_filter :: "AttrDesc list \<Rightarrow> string \<Rightarrow> string \<Rightarrow> Operator \<Rightarrow> Datatype \<Rightarrow> byte list \<Rightarrow> Status + scan_filter option" where
  "delete_filter ds n a op ty bs =
     (if a = [] then Inr None
      else
        (case filter (\<lambda>d. ad_rel d = n \<and> ad_attr d = a) ds of
           [] \<Rightarrow> Inl ATTRNOTFOUND
         | d # _ \<Rightarrow>
             if ad_attrOffset d < 0 \<or> ad_attrLen d < 1 \<or> ty \<noteq> STRING \<and> ad_attrLen d \<noteq> 4 then Inl BADSCANPARM
             else Inr (Some \<lparr>sf_offset = ad_attrOffset d, sf_length = ad_attrLen d, sf_type = ty, sf_filter = bs, sf_op = op\<rparr>)))"

lemma startScan_delete:
  "startScan off len ty (Some bs) op h =
     (if off < 0 \<or> len < 1 \<or> ty \<noteq> STRING \<and> len \<noteq> 4 then (BADSCANPARM, h)
      else (OK, h\<lparr>hs_filter := Some \<lparr>sf_offset = off, sf_length = len, sf_type = ty, sf_filter = bs, sf_op = op\<rparr>\<rparr>))"
  by (cases ty) (simp_all add: startScan_def)

lemma filter_same: "hs_filter h = None \<Longrightarrow> h\<lparr>hs_filter := None\<rparr> = h"
  by simp

text \<open>Up to the start of the loop.\<close>

lemma delete_start:
  assumes "catalogs_ok s nr na" "relation s n ns" "plain n" "length n < MAXNAME" "n \<noteq> ATTRCATNAME"
    and "oft_map (openFiles s) ATTRCATNAME = Some c" "4 \<le> card (free_frames (bufMgr s))" "filter_value ty v = Some bs"
  shows "\<exists>h t rest. (case delete_filter (attr_descs s na) n a op ty bs of
      Inl st \<Rightarrow> QU_Delete s n a op ty v = Some (st, HeapFileScan_destroy t h) \<and>
        cursor s n ns (rel_pages s n) None (t, h) rest
    | Inr flt \<Rightarrow> QU_Delete s n a op ty v = map_option (\<lambda>(st, h, s). (st, HeapFileScan_destroy s h)) (delete_loop t h) \<and>
        cursor s n ns (rel_pages s n) flt (t, h) (rel_records s n ns flt))"
proof -
  have R: "ready s" "catalog_ok s ATTRCATNAME sizeof_AttrDesc na" using assms(1) by (simp_all add: catalogs_ok_def)
  obtain h t where S: "HeapFileScan_init s n = Some (Inr h, t)" "hs_filter h = None"
    "\<forall>flt. cursor s n ns (rel_pages s n) flt (t, h\<lparr>hs_filter := flt\<rparr>) (rel_records s n ns flt)"
    by (rule cursor_start [OF R(1) assms(2)])
  have C: "cursor s n ns (rel_pages s n) flt (t, h\<lparr>hs_filter := flt\<rparr>) (rel_records s n ns flt)" for flt using S(3) by blast
  have C0: "cursor s n ns (rel_pages s n) None (t, h) (rel_records s n ns None)" using C [of None] filter_same [OF S(2)] by simp
  show ?thesis
  proof (cases "a = []")
    case True
    then have f: "delete_filter (attr_descs s na) n a op ty bs = Inr None" by (simp add: delete_filter_def)
    have "QU_Delete s n a op ty v = map_option (\<lambda>(st, h, s). (st, HeapFileScan_destroy s h)) (delete_loop t h)"
      using True S(1) filter_same [OF S(2)]
      by (auto simp: QU_Delete_def startScan_def split: option.splits)
    then show ?thesis unfolding f using C0 by auto
  next
    case False
    have op: "opened s n (hf_filePtr h) t" using C0 by (auto simp: cursor_def scanning_def)
    have rel: "relation s ATTRCATNAME na" using R(2) by (simp add: catalog_ok_def)
    note O = opened_relation [OF op rel assms(5) [symmetric]]
    have e: "entries t ATTRCATNAME na = entries s ATTRCATNAME na" using O(2) by (simp add: entries_def)
    then have "catalog_ok t ATTRCATNAME sizeof_AttrDesc na" using R(2) O(1) by (simp add: catalog_ok_def)
    from AttrCatalog_getInfo_ok [OF cursor_ready [OF R(1) C0 assms(7)] this assms(3,4) False] obtain u where
      G: "AttrCatalog_getInfo t n a = Some (case filter (\<lambda>d. ad_rel d = n \<and> ad_attr d = a) (attr_descs s na) of
        [] \<Rightarrow> Inl ATTRNOTFOUND | d # _ \<Rightarrow> Inr d, u)" "undisturbed t ATTRCATNAME na u"
      using e by (auto simp: attr_descs_def)
    note X = cursor_other [OF C G(2) assms(6) assms(5) [symmetric]]
    have X0: "cursor s n ns (rel_pages s n) None (u, h) (rel_records s n ns None)" using X [of None] filter_same [OF S(2)] by simp
    show ?thesis
    proof (cases "filter (\<lambda>d. ad_rel d = n \<and> ad_attr d = a) (attr_descs s na)")
      case Nil
      then have "delete_filter (attr_descs s na) n a op ty bs = Inl ATTRNOTFOUND" using False by (simp add: delete_filter_def)
      moreover have "QU_Delete s n a op ty v = Some (ATTRNOTFOUND, HeapFileScan_destroy u h)"
        using False S(1) G(1) Nil by (simp add: QU_Delete_def)
      ultimately show ?thesis using X0 by auto
    next
      case (Cons d ds)
      let ?flt = "\<lparr>sf_offset = ad_attrOffset d, sf_length = ad_attrLen d, sf_type = ty, sf_filter = bs, sf_op = op\<rparr>"
      have q: "QU_Delete s n a op ty v = (case startScan (ad_attrOffset d) (ad_attrLen d) ty (Some bs) op h of (st, h) \<Rightarrow>
          if st \<noteq> OK then Some (st, HeapFileScan_destroy u h)
          else (case delete_loop u h of None \<Rightarrow> None | Some (st, h, s) \<Rightarrow> Some (st, HeapFileScan_destroy s h)))"
        using False S(1) G(1) Cons assms(8) by (simp add: QU_Delete_def split: prod.splits)
      show ?thesis
      proof (cases "ad_attrOffset d < 0 \<or> ad_attrLen d < 1 \<or> ty \<noteq> STRING \<and> ad_attrLen d \<noteq> 4")
        case True
        then have "delete_filter (attr_descs s na) n a op ty bs = Inl BADSCANPARM" using False Cons by (simp add: delete_filter_def)
        moreover have "QU_Delete s n a op ty v = Some (BADSCANPARM, HeapFileScan_destroy u h)"
          using q True by (simp add: startScan_delete)
        ultimately show ?thesis using X0 by auto
      next
        case ok: False
        then have "delete_filter (attr_descs s na) n a op ty bs = Inr (Some ?flt)" using False Cons by (simp add: delete_filter_def)
        moreover have "QU_Delete s n a op ty v =
            map_option (\<lambda>(st, h, s). (st, HeapFileScan_destroy s h)) (delete_loop u (h\<lparr>hs_filter := Some ?flt\<rparr>))"
          using q ok by (auto simp: startScan_delete split: option.splits)
        ultimately show ?thesis using X [of "Some ?flt"] by auto
      qed
    qed
  qed
qed

text \<open>
  C30. \<open>QU_Delete\<close>, with the attribute catalog open and frames for a second scan. It ends; when
  there is no condition, or the attribute is known and the constant fits it, the result is \<open>OK\<close>
  and exactly the records that satisfy the condition are gone, all others being where they were.
  Otherwise it reports \<open>ATTRNOTFOUND\<close> or \<open>BADSCANPARM\<close> and all records stay. The rest of the
  system, other relations and pinned pages, is as before in every case.
\<close>

theorem QU_Delete_correct:
  assumes "catalogs_ok s nr na" "relation s n ns" "plain n" "length n < MAXNAME" "n \<noteq> ATTRCATNAME"
    and "oft_map (openFiles s) ATTRCATNAME = Some c" "4 \<le> card (free_frames (bufMgr s))" "filter_value ty v = Some bs"
  shows "\<exists>st u. QU_Delete s n a op ty v = Some (st, u) \<and> closed_again s n u \<and> relation u n ns \<and>
    (case delete_filter (attr_descs s na) n a op ty bs of
       Inl e \<Rightarrow> st = e \<and> tuples u n ns = tuples s n ns
     | Inr flt \<Rightarrow> st = OK \<and> tuples u n ns = (\<lambda>r. case tuples s n ns r of
           None \<Rightarrow> None | Some rec \<Rightarrow> if matchRec flt rec then None else Some rec))"
proof -
  from delete_start [OF assms, where a = a and op = op] obtain h t rest where
    S: "case delete_filter (attr_descs s na) n a op ty bs of
      Inl st \<Rightarrow> QU_Delete s n a op ty v = Some (st, HeapFileScan_destroy t h) \<and>
        cursor s n ns (rel_pages s n) None (t, h) rest
    | Inr flt \<Rightarrow> QU_Delete s n a op ty v = map_option (\<lambda>(st, h, s). (st, HeapFileScan_destroy s h)) (delete_loop t h) \<and>
        cursor s n ns (rel_pages s n) flt (t, h) (rel_records s n ns flt)" by blast
  show ?thesis
  proof (cases "delete_filter (attr_descs s na) n a op ty bs")
    case (Inl e)
    then have "QU_Delete s n a op ty v = Some (e, HeapFileScan_destroy t h)" "cursor s n ns (rel_pages s n) None (t, h) rest"
      using S by simp_all
    then show ?thesis using Inl cursor_end(1-3) [of s n ns "rel_pages s n" None t h rest] by auto
  next
    case (Inr flt)
    then have Q: "QU_Delete s n a op ty v = map_option (\<lambda>(st, h, s). (st, HeapFileScan_destroy s h)) (delete_loop t h)"
      "cursor s n ns (rel_pages s n) flt (t, h) (rel_records s n ns flt)" using S by simp_all
    from delete_loop_ok [OF Q(2)] obtain h' t' m' where
      L: "delete_loop t h = Some (OK, h', t')" "cursor s n ns m' flt (t', h') []"
        "heap_recs m' ns = (\<lambda>r. if r \<in> fst ` set (rel_records s n ns flt) then None else tuples s n ns r)" by blast
    have "fst ` set (rel_records s n ns flt) = {r. \<exists>rec. tuples s n ns r = Some rec \<and> matchRec flt rec}"
      unfolding rel_records_all(1) [OF assms(2)] by force
    then have "heap_recs m' ns = (\<lambda>r. case tuples s n ns r of
        None \<Rightarrow> None | Some rec \<Rightarrow> if matchRec flt rec then None else Some rec)"
      unfolding L(3) by (auto simp: fun_eq_iff split: option.splits)
    then show ?thesis using Q(1) L(1) Inr cursor_end(1-3) [OF L(2)] by auto
  qed
qed

text \<open>A file with one record, the integer 5.\<close>

definition demo_five_page :: memory where
  "demo_five_page = snd (Page_insertRecord demo_data [5, 0, 0, 0])"

definition demo_five_pages :: "memory list" where
  "demo_five_pages = [set_numPages 3 (set_firstPage 1 header_init), set_hdr_recCnt 1 demo_hdr, demo_five_page]"

lemma demo_five_page: "page_inv demo_five_page" "curPage demo_five_page = 2" "nextPage demo_five_page = - 1"
  "contents demo_five_page = [0 \<mapsto> [5, 0, 0, 0]]"
proof -
  have d: "page_inv demo_data" "curPage demo_data = 2" "nextPage demo_data = - 1" "contents demo_data = Map.empty"
    "freeSpace demo_data = 1004"
    by (simp_all add: demo_data_def setNextPage_inv setNextPage_contents Page_init_inv Page_init_contents
        slot_simps Page_init_fields PAGESIZE_def DPFIXED_eq)
  have s: "insert_slot demo_data = 0" by code_simp
  obtain r where I: "Page_insertRecord demo_data [5, 0, 0, 0] = (r, demo_five_page)" by (metis demo_five_page_def prod.collapse)
  have f: "int (length [5, 0, 0, 0 :: byte]) + 4 \<le> freeSpace demo_data" using d(5) by simp
  show "page_inv demo_five_page" by (rule insert_inv [OF d(1) f I]) simp
  show "curPage demo_five_page = 2" "nextPage demo_five_page = - 1" using insert_effect(5,6) [OF d(1) f I] d(2,3) by simp_all
  show "contents demo_five_page = [0 \<mapsto> [5, 0, 0, 0]]" using insert_contents [OF d(1) f I] d(4) s by simp
qed

lemma demo_five_heap: "file_wf demo_five_pages" "heap_wf (file_map demo_five_pages) 1 [2]"
  "heap_recs (file_map demo_five_pages) [2] = [RID 2 0 \<mapsto> [5, 0, 0, 0]]"
proof -
  have wf: "file_wf demo_five_pages \<and> free_list demo_five_pages = []"
    by (rule file_wfI) (simp_all add: demo_five_pages_def header_init_fields)
  then show "file_wf demo_five_pages" by blast
  have pg: "file_map demo_five_pages 1 = Some (set_hdr_recCnt 1 demo_hdr)" "file_map demo_five_pages 2 = Some demo_five_page"
    using wf by (simp_all add: file_map_def) (simp_all add: demo_five_pages_def)
  note P = demo_five_page
  show "heap_wf (file_map demo_five_pages) 1 [2]"
    using P(1-3) by (simp add: heap_wf_def pg rec_count_def P(4)) (simp add: demo_hdr_def)
  show "heap_recs (file_map demo_five_pages) [2] = [RID 2 0 \<mapsto> [5, 0, 0, 0]]"
  proof
    fix r :: RID
    show "heap_recs (file_map demo_five_pages) [2] r = [RID 2 0 \<mapsto> [5, 0, 0, 0]] r"
      using pg(2) P(4) by (cases r) (auto simp: heap_recs_def)
  qed
qed

text \<open>
  A database with the attribute catalog open and the relation \<open>r\<close> of one integer attribute \<open>a\<close>:
  first empty, then with the record 5.
\<close>

definition demo_open :: dsys where
  "demo_open = (case HeapFile_init demo_full ATTRCATNAME of Some (_, s) \<Rightarrow> s | None \<Rightarrow> demo_full)"

definition demo_five :: dsys where
  "demo_five = demo_open\<lparr>files := (files demo_open)(''r'' \<mapsto> demo_five_pages)\<rparr>"

lemma demo_names: "''r'' \<noteq> ATTRCATNAME" "''r'' \<noteq> RELCATNAME"
  by (simp_all add: RELCATNAME_def ATTRCATNAME_def)

lemma demo_open_ok:
  obtains nr na d c where "catalogs_ok demo_open nr na" "attr_descs demo_open na = [d]" "ad_rel d = ''r''" "ad_attr d = ''a''"
    "ad_attrOffset d = 0" "ad_attrType d = 1" "ad_attrLen d = 4" "oft_map (openFiles demo_open) ATTRCATNAME = Some c"
    "oft_map (openFiles demo_open) ''r'' = None" "relation demo_open ''r'' [2]" "tuples demo_open ''r'' [2] = Map.empty"
    "4 \<le> card (free_frames (bufMgr demo_open))" "page_room demo_open ''r''"
proof -
  obtain nr na d where F: "catalogs_ok demo_full nr na" "attr_descs demo_full na = [d]" "ad_rel d = ''r''" "ad_attr d = ''a''"
    "file_view demo_full ''r'' = Some (file_map demo_heap_pages)" "ad_attrOffset d = 0" "ad_attrType d = 1" "ad_attrLen d = 4"
    "\<forall>n. oft_map (openFiles demo_full) n = None" "8 \<le> card (free_frames (bufMgr demo_full))" "quota demo_full = 4" by (rule demo_full_ok)
  have R: "ready demo_full" "relation demo_full RELCATNAME nr" "relation demo_full ATTRCATNAME na"
    using F(1) by (simp_all add: catalogs_ok_def catalog_ok_def)
  have r: "relation demo_full ''r'' [2]" "tuples demo_full ''r'' [2] = Map.empty"
    by (rule demo_relation; simp add: F(5,9))+
  have "4 \<le> card (free_frames (bufMgr demo_full))" using F(10) by simp
  then obtain h t where T: "HeapFile_init demo_full ATTRCATNAME = Some (Inr h, t)" "ready t" "relation t ATTRCATNAME na"
    "rel_pages t ATTRCATNAME = rel_pages demo_full ATTRCATNAME" "oft_map (openFiles t) ATTRCATNAME = Some (hf_filePtr h)"
    "card (free_frames (bufMgr demo_full)) \<le> card (free_frames (bufMgr t)) + 2"
    "\<And>n nn. n \<noteq> ATTRCATNAME \<Longrightarrow> relation demo_full n nn \<Longrightarrow> relation t n nn \<and> rel_pages t n = rel_pages demo_full n"
    "\<And>n. n \<noteq> ATTRCATNAME \<Longrightarrow> oft_map (openFiles t) n = oft_map (openFiles demo_full) n"
    using held_open [OF R(1,3)] by metis
  have t: "t = demo_open" using T(1) by (simp add: demo_open_def)
  note X = T(7) [OF names_differ(1) R(2)] and Y = T(7) [OF demo_names(1) r(1)]
  have "entries t ATTRCATNAME na = entries demo_full ATTRCATNAME na" "entries t RELCATNAME nr = entries demo_full RELCATNAME nr"
    using T(4) X by (simp_all add: entries_def)
  then have "catalogs_ok t nr na" "attr_descs t na = [d]"
    using F(1,2) T(2,3) X by (simp_all add: catalogs_ok_def catalog_ok_def attr_descs_def)
  moreover have "page_room t ''r''"
  proof -
    have I: "db_inv demo_full" "allocator_ok (heap_new demo_full)" "two_free (bufMgr demo_full)" using R(1) by (simp_all add: ready_def)
    obtain h' t' where "HeapFile_init demo_full ATTRCATNAME = Some (Inr h', t')" "opened demo_full ATTRCATNAME (hf_filePtr h') t'"
      by (rule HeapFile_init_ok [OF I(1,2) R(3) I(3)])
    then have "quota t = 4" using T(1) F(11) by (simp add: opened_def)
    moreover have "rel_pages demo_full ''r'' = file_map demo_heap_pages" using F(5,9) by (simp add: rel_pages_closed)
    moreover have "dom (file_map demo_heap_pages) \<subseteq> {1, 2}" by (auto simp: file_map_def demo_heap_pages_def split: if_splits)
    moreover from card_mono [OF _ this] have "card (dom (file_map demo_heap_pages)) \<le> 2" by simp
    ultimately show ?thesis using Y F(10) T(6) by (simp add: page_room_def)
  qed
  ultimately show ?thesis
    using that [of nr na d "hf_filePtr h"] F(3,4,6-10) T(5,6) T(8) [OF demo_names(1)] Y r(2) t by simp
qed

lemma demo_five_ok:
  obtains nr na d c where "catalogs_ok demo_five nr na" "attr_descs demo_five na = [d]" "ad_rel d = ''r''" "ad_attr d = ''a''"
    "ad_attrOffset d = 0" "ad_attrLen d = 4" "oft_map (openFiles demo_five) ATTRCATNAME = Some c"
    "relation demo_five ''r'' [2]" "tuples demo_five ''r'' [2] = [RID 2 0 \<mapsto> [5, 0, 0, 0]]"
    "4 \<le> card (free_frames (bufMgr demo_five))"
proof -
  obtain nr na d c where O: "catalogs_ok demo_open nr na" "attr_descs demo_open na = [d]" "ad_rel d = ''r''" "ad_attr d = ''a''"
    "ad_attrOffset d = 0" "ad_attrLen d = 4" "oft_map (openFiles demo_open) ATTRCATNAME = Some c"
    "oft_map (openFiles demo_open) ''r'' = None" "4 \<le> card (free_frames (bufMgr demo_open))" by (rule demo_open_ok)
  have "ready demo_open" using O(1) by (simp add: catalogs_ok_def)
  note C = closed_file_ready [OF this O(8) demo_five_def]
  have w: "\<And>ps. Some demo_five_pages = Some ps \<Longrightarrow> file_wf ps" using demo_five_heap(1) by simp
  have "rel_pages demo_five n = rel_pages demo_open n" "relation demo_open n ns \<Longrightarrow> relation demo_five n ns" if "n \<noteq> ''r''" for n ns
    using C(2,3) [OF w that] by simp_all
  then have "catalogs_ok demo_five nr na" "attr_descs demo_five na = [d]"
    using C(1) [OF w] O(1,2) demo_names by (simp_all add: catalogs_ok_def catalog_ok_def entries_def attr_descs_def)
  moreover have f: "openFiles demo_five = openFiles demo_open" "bufMgr demo_five = bufMgr demo_open" by (simp_all add: demo_five_def)
  moreover have "rel_pages demo_five ''r'' = file_map demo_five_pages"
    unfolding rel_pages_def f O(8) by (simp add: demo_five_def)
  ultimately show ?thesis
    using that [of nr na d c] O demo_five_heap by (simp add: relation_def)
qed

theorem QU_Delete_correct_witness:
  "\<exists>u. tuples demo_five ''r'' [2] (RID 2 0) = Some [5, 0, 0, 0] \<and>
     QU_Delete demo_five ''r'' ''a'' EQ INTEGER ''5'' = Some (OK, u) \<and> tuples u ''r'' [2] = Map.empty"
proof -
  obtain nr na d c where F: "catalogs_ok demo_five nr na" "attr_descs demo_five na = [d]" "ad_rel d = ''r''" "ad_attr d = ''a''"
    "ad_attrOffset d = 0" "ad_attrLen d = 4" "oft_map (openFiles demo_five) ATTRCATNAME = Some c"
    "relation demo_five ''r'' [2]" "tuples demo_five ''r'' [2] = [RID 2 0 \<mapsto> [5, 0, 0, 0]]"
    "4 \<le> card (free_frames (bufMgr demo_five))" by (rule demo_five_ok)
  have v: "filter_value INTEGER ''5'' = Some [5, 0, 0, 0]" by code_simp
  let ?flt = "Some \<lparr>sf_offset = 0, sf_length = 4, sf_type = INTEGER, sf_filter = [5, 0, 0, 0], sf_op = EQ\<rparr>"
  have "delete_filter (attr_descs demo_five na) ''r'' ''a'' EQ INTEGER [5, 0, 0, 0] = Inr ?flt"
    using F(2-6) by (simp add: delete_filter_def)
  moreover have "matchRec ?flt [5, 0, 0, 0]" by code_simp
  ultimately show ?thesis
    using QU_Delete_correct [OF F(1,8) demo_desc(3,4) demo_names(1) F(7,10) v, of "''a''" EQ] F(9)
    by (auto simp: fun_eq_iff)
qed

subsection \<open>Insertion\<close>

text \<open>
  The fields of a record: attributes lie inside of it and do not overlap. The catalog operation
  \<open>createRel\<close> lays attributes out one behind the other.
\<close>

definition separate :: "AttrDesc \<Rightarrow> AttrDesc \<Rightarrow> bool" where
  "separate d e \<longleftrightarrow> ad_attrOffset d + ad_attrLen d \<le> ad_attrOffset e \<or> ad_attrOffset e + ad_attrLen e \<le> ad_attrOffset d"

definition layout_ok :: "AttrDesc list \<Rightarrow> bool" where
  "layout_ok ds \<longleftrightarrow> distinct (map ad_attr ds) \<and>
     (\<forall>d \<in> set ds. 0 \<le> ad_attrOffset d \<and> 0 \<le> ad_attrLen d \<and> ad_attrOffset d + ad_attrLen d \<le> total_len ds) \<and>
     (\<forall>d \<in> set ds. \<forall>e \<in> set ds. d \<noteq> e \<longrightarrow> separate d e)"

lemma info_map_eq: "info_map ds = map_of (rev (map (\<lambda>d. (ad_attr d, d)) ds))"
proof -
  have "foldl (\<lambda>mp d. mp(ad_attr d \<mapsto> d)) m ds = m ++ map_of (rev (map (\<lambda>d. (ad_attr d, d)) ds))" for m
    by (induction ds arbitrary: m) (auto simp: map_add_def fun_eq_iff split: option.splits)
  then show ?thesis by (simp add: info_map_def)
qed

lemma info_map_name: "info_map ds n = Some d \<Longrightarrow> d \<in> set ds \<and> ad_attr d = n"
  unfolding info_map_eq by (drule map_of_SomeD) auto

lemma copy_into_SomeD:
  assumes "copy_into data off src len = Some data'"
  shows "length data' = length data" "0 \<le> off" "0 \<le> len" "len \<le> int (length src)" "off + len \<le> int (length data)"
    "\<And>k. k < length data \<Longrightarrow> data' ! k = (if off \<le> int k \<and> int k < off + len then src ! (k - nat off) else data ! k)"
proof -
  have B: "0 \<le> off" "0 \<le> len" "len \<le> int (length src)" "off + len \<le> int (length data)"
    and e: "data' = take (nat off) data @ take (nat len) src @ drop (nat (off + len)) data"
    using assms by (auto simp: copy_into_def split: if_splits)
  show "0 \<le> off" "0 \<le> len" "len \<le> int (length src)" "off + len \<le> int (length data)" by (fact B)+
  show "length data' = length data" unfolding e using B by auto
  show "data' ! k = (if off \<le> int k \<and> int k < off + len then src ! (k - nat off) else data ! k)" if "k < length data" for k
    unfolding e nth_append using B that by (auto simp: nat_add_distrib)
qed

lemma field_nth:
  "field d rec = Some bs \<longleftrightarrow> 0 \<le> ad_attrOffset d \<and> 0 \<le> ad_attrLen d \<and> ad_attrOffset d + ad_attrLen d \<le> int (length rec) \<and>
     length bs = nat (ad_attrLen d) \<and> (\<forall>i < length bs. bs ! i = rec ! (nat (ad_attrOffset d) + i))"
proof -
  have "take n (drop m rec) = bs \<longleftrightarrow> length bs = n \<and> (\<forall>i < length bs. bs ! i = rec ! (m + i))" if "m + n \<le> length rec" for n m
    using that by (auto simp: list_eq_iff_nth_eq)
  then show ?thesis by (auto simp: field_def)
qed

lemma field_copied:
  assumes "copy_into data (ad_attrOffset d) v (ad_attrLen d) = Some data'"
  shows "field d data' = Some (take (nat (ad_attrLen d)) v)"
  unfolding field_nth using copy_into_SomeD [OF assms] by auto

lemma field_kept:
  assumes "copy_into data (ad_attrOffset d) v (ad_attrLen d) = Some data'" "separate d e"
  shows "field e data' = field e data"
proof -
  note C = copy_into_SomeD [OF assms(1)]
  have "field e data' = Some bs \<longleftrightarrow> field e data = Some bs" for bs
    unfolding field_nth using C assms(2) by (auto simp: separate_def)
  then show ?thesis by (metis not_None_eq)
qed

text \<open>The attribute a value goes to, and its bytes there.\<close>

definition value_for :: "AttrDesc list \<Rightarrow> attrInfo \<Rightarrow> (AttrDesc \<times> byte list) option" where
  "value_for ds a =
     (case (ai_attrValue a, info_map ds (c_string (ai_attrName a))) of
        (Some v, Some d) \<Rightarrow>
          (case convert_value (ad_attrType d) v of
             Some w \<Rightarrow> if ad_attrLen d \<le> int (length w) then Some (d, take (nat (ad_attrLen d)) w) else None
           | None \<Rightarrow> None)
      | _ \<Rightarrow> None)"

lemma value_forE:
  assumes "value_for ds a = Some (d, bs)"
  obtains v w where "ai_attrValue a = Some v" "info_map ds (c_string (ai_attrName a)) = Some d"
    "convert_value (ad_attrType d) v = Some w" "ad_attrLen d \<le> int (length w)" "bs = take (nat (ad_attrLen d)) w"
  using assms by (auto simp: value_for_def split: option.splits if_splits)

abbreviation ai_attr :: "attrInfo \<Rightarrow> string" where "ai_attr a \<equiv> c_string (ai_attrName a)"

lemma fill_data_ok:
  assumes "layout_ok ds" "\<forall>a \<in> set as. value_for ds a \<noteq> None" "distinct (map ai_attr as)" "int (length data) = total_len ds"
  shows "\<exists>data'. fill_data (info_map ds) as data = Some (Inr data') \<and> length data' = length data \<and>
    (\<forall>a \<in> set as. \<forall>d bs. value_for ds a = Some (d, bs) \<longrightarrow> field d data' = Some bs) \<and>
    (\<forall>e \<in> set ds. ad_attr e \<notin> ai_attr ` set as \<longrightarrow> field e data' = field e data)"
  using assms(2-4)
proof (induction as arbitrary: data)
  case (Cons a as)
  obtain d bs where V: "value_for ds a = Some (d, bs)" using Cons.prems(1) by auto
  obtain v w where W: "ai_attrValue a = Some v" "info_map ds (ai_attr a) = Some d" "convert_value (ad_attrType d) v = Some w"
    "ad_attrLen d \<le> int (length w)" "bs = take (nat (ad_attrLen d)) w" by (rule value_forE [OF V])
  have d: "d \<in> set ds" "ad_attr d = ai_attr a" using info_map_name [OF W(2)] by simp_all
  then have "0 \<le> ad_attrOffset d" "0 \<le> ad_attrLen d" "ad_attrOffset d + ad_attrLen d \<le> int (length data)"
    using assms(1) Cons.prems(3) by (simp_all add: layout_ok_def)
  then obtain data1 where D: "copy_into data (ad_attrOffset d) w (ad_attrLen d) = Some data1" using W(4) by (simp add: copy_into_def)
  have l: "length data1 = length data" by (rule copy_into_SomeD(1) [OF D])
  from Cons.IH [of data1] Cons.prems l obtain data' where
    I: "fill_data (info_map ds) as data1 = Some (Inr data')" "length data' = length data"
      "\<forall>a \<in> set as. \<forall>d bs. value_for ds a = Some (d, bs) \<longrightarrow> field d data' = Some bs"
      "\<forall>e \<in> set ds. ad_attr e \<notin> ai_attr ` set as \<longrightarrow> field e data' = field e data1" by auto
  have "fill_data (info_map ds) (a # as) data = Some (Inr data')" using W(1-3) D I(1) by simp
  moreover have "field d data' = Some bs" using I(4) d Cons.prems(2) field_copied [OF D] W(5) by auto
  moreover have "field e data' = field e data" if e: "e \<in> set ds" "ad_attr e \<notin> ai_attr ` set (a # as)" for e
  proof -
    have "d \<noteq> e" using d(2) e(2) by auto
    then have "separate d e" using assms(1) d(1) e(1) by (simp add: layout_ok_def)
    then show ?thesis using field_kept [OF D] I(4) e by simp
  qed
  ultimately show ?case using I(2,3) V by (intro exI [of _ data']) auto
qed auto

definition insertable :: "AttrDesc list \<Rightarrow> attrInfo list \<Rightarrow> bool" where
  "insertable ds as \<longleftrightarrow> layout_ok ds \<and> 0 < total_len ds \<and> total_len ds \<le> 1000 \<and> distinct (map ai_attr as) \<and>
     list_all (\<lambda>a. value_for ds a \<noteq> None) as"

text \<open>Room for a page stays while another relation is used.\<close>

lemma page_room_closed:
  assumes "db_inv s" "closed_again s cat t" "n \<noteq> cat" "page_room s n"
  shows "page_room t n"
  using closed_free_card [OF assms(1,2)] closed_pages [OF assms(1-3)] assms(2,4) by (simp add: page_room_def closed_again_def)

text \<open>
  C31. \<open>QU_Insert\<close>. An unknown relation is reported as \<open>RELNOTFOUND\<close> and a wrong number of values
  as \<open>BADCATPARM\<close>, with all records as they were. For values that can be converted and fill the
  attributes they name, in any order, one record is added under an unused identifier: reading
  any attribute of it gives back the bytes of the value that was given for its name, whatever
  was in the memory the record was built in. The insertion succeeds whenever four frames of the
  pool are not pinned and the file of the relation is below its limit; only without that room may
  it report an error, and then no record changes. The attribute catalog is untouched.
\<close>

theorem QU_Insert_stores:
  assumes "catalogs_ok s nr na" "relation s n ns" "plain n" "length n < MAXNAME" "n \<noteq> ATTRCATNAME"
    and "ds = filter (\<lambda>d. ad_rel d = n) (attr_descs s na)" "length as = length ds \<Longrightarrow> insertable ds as"
  shows "\<exists>st u ns'. QU_Insert junk s n as = Some (st, u) \<and> ready u \<and> relation u n ns' \<and>
    catalog_ok u ATTRCATNAME sizeof_AttrDesc na \<and> attr_descs u na = attr_descs s na \<and>
    (if ds = [] then st = RELNOTFOUND \<and> tuples u n ns' = tuples s n ns
     else if length as \<noteq> length ds then st = BADCATPARM \<and> tuples u n ns' = tuples s n ns
     else if st \<noteq> OK then \<not> page_room s n \<and> tuples u n ns' = tuples s n ns
     else \<exists>rid rec. tuples u n ns' = (tuples s n ns)(rid \<mapsto> rec) \<and> tuples s n ns rid = None \<and>
       int (length rec) = total_len ds \<and>
       (\<forall>a \<in> set as. \<forall>d bs. value_for ds a = Some (d, bs) \<longrightarrow> field d rec = Some bs))"
proof -
  have R: "ready s" "catalog_ok s ATTRCATNAME sizeof_AttrDesc na" using assms(1) by (simp_all add: catalogs_ok_def)
  from AttrCatalog_getRelInfo_ok [OF R assms(3,4)] obtain t where
    G: "AttrCatalog_getRelInfo s n = Some (case ds of [] \<Rightarrow> Inl RELNOTFOUND | d # ds \<Rightarrow> Inr (d # ds), t)"
      "undisturbed s ATTRCATNAME na t" unfolding assms(6) by blast
  have T: "ready t" "closed_again s ATTRCATNAME t" "relation t ATTRCATNAME na" "rel_pages t ATTRCATNAME = rel_pages s ATTRCATNAME"
    using G(2) by (simp_all add: undisturbed_def)
  note N = closed_relation [OF R(1) T(2) assms(5,2)]
  have "entries t ATTRCATNAME na = entries s ATTRCATNAME na" using T(4) by (simp add: entries_def)
  then have A: "catalog_ok t ATTRCATNAME sizeof_AttrDesc na" "attr_descs t na = attr_descs s na"
    using R(2) T(3) by (simp_all add: catalog_ok_def attr_descs_def)
  show ?thesis
  proof (cases "ds \<noteq> [] \<and> length as = length ds")
    case False
    then have "QU_Insert junk s n as = Some (if ds = [] then RELNOTFOUND else BADCATPARM, t)"
      using G(1) by (cases ds) (auto simp: QU_Insert_def)
    then show ?thesis using False T(1) N A by auto
  next
    case True
    have I: "layout_ok ds" "0 < total_len ds" "total_len ds \<le> 1000" "distinct (map ai_attr as)" "\<forall>a \<in> set as. value_for ds a \<noteq> None"
      using assms(7) True by (auto simp: insertable_def list_all_iff)
    let ?d0 = "map junk [0..<nat (total_len ds)]"
    have "int (length ?d0) = total_len ds" using I(2) by simp
    from fill_data_ok [OF I(1,5,4) this] obtain rec where
      F: "fill_data (info_map ds) as ?d0 = Some (Inr rec)" "int (length rec) = total_len ds"
        "\<forall>a \<in> set as. \<forall>d bs. value_for ds a = Some (d, bs) \<longrightarrow> field d rec = Some bs" using I(2) by auto
    have l: "rec \<noteq> []" "length rec \<le> 1000" using F(2) I(2,3) by auto
    obtain h t1 r h' t' ns' where J: "InsertFileScan_init t n = Some ((OK, h), t1)" "insertRecord t1 h rec = Some (r, h', t')"
      "one_inserted t t1 h n ns rec r (InsertFileScan_destroy t' h') ns'" by (rule insert_one [OF T(1) N(2) l])
    let ?u = "InsertFileScan_destroy t' h'"
    have U: "ready ?u" "closed_again t n ?u" "relation ?u n ns'" using J(3) by (simp_all add: one_inserted_def)
    have run: "QU_Insert junk s n as = Some (case r of Inl st \<Rightarrow> st | Inr _ \<Rightarrow> OK, ?u)"
      using G(1) True I(2) F(1) J(1,2) by (cases ds) (simp_all add: QU_Insert_def)
    note C = catalog_other [OF T(1) U(2) assms(5) [symmetric] A(1)]
    have base: "catalog_ok ?u ATTRCATNAME sizeof_AttrDesc na" "attr_descs ?u na = attr_descs s na"
      using C A(2) by (simp_all add: attr_descs_def)
    show ?thesis
    proof (cases r)
      case (Inl e)
      have "db_inv s" using R(1) by (simp add: ready_def)
      then have "\<not> page_room s n" using page_room_closed [OF _ T(2) assms(5)] J(3) Inl by (auto simp: one_inserted_def)
      then show ?thesis using run J(3) N(1) U base True Inl
        by (intro exI [of _ e] exI [of _ ?u] exI [of _ ns']) (simp add: one_inserted_def)
    next
      case (Inr rid)
      then have K: "tuples ?u n ns' = (tuples s n ns)(rid \<mapsto> rec)" "tuples s n ns rid = None"
        using J(3) N(1) by (simp_all add: one_inserted_def)
      have X: "\<exists>rid rec. tuples ?u n ns' = (tuples s n ns)(rid \<mapsto> rec) \<and> tuples s n ns rid = None \<and>
          int (length rec) = total_len ds \<and> (\<forall>a \<in> set as. \<forall>d bs. value_for ds a = Some (d, bs) \<longrightarrow> field d rec = Some bs)"
        by (rule exI [of _ rid], rule exI [of _ rec]) (intro conjI K F(2,3))
      have "QU_Insert junk s n as = Some (OK, ?u)" using run Inr by simp
      then show ?thesis using base U True X
        by (intro exI [of _ OK] exI [of _ ?u] exI [of _ ns'] conjI) simp_all
    qed
  qed
qed

text \<open>\<open>insert into r (a) values (1000)\<close>.\<close>

definition demo_value :: attrInfo where
  "demo_value = \<lparr>ai_relName = c_bytes ''r'', ai_attrName = c_bytes ''a'', ai_attrType = 1, ai_attrLen = - 1,
     ai_attrValue = Some (c_bytes ''1000'')\<rparr>"

theorem QU_Insert_stores_witness:
  "\<exists>u ns' rid. QU_Insert (\<lambda>_. 0) demo_open ''r'' [demo_value] = Some (OK, u) \<and> relation u ''r'' ns' \<and>
     tuples u ''r'' ns' = [rid \<mapsto> [232, 3, 0, 0]]"
proof -
  obtain nr na d c where O: "catalogs_ok demo_open nr na" "attr_descs demo_open na = [d]" "ad_rel d = ''r''" "ad_attr d = ''a''"
    "ad_attrOffset d = 0" "ad_attrType d = 1" "ad_attrLen d = 4" "relation demo_open ''r'' [2]" "tuples demo_open ''r'' [2] = Map.empty"
    "page_room demo_open ''r''" by (rule demo_open_ok)
  have cv: "convert_value 1 (c_bytes ''1000'') = Some [232, 3, 0, 0, 0]" "c_string (c_bytes ''a'') = ''a''" by code_simp+
  have t: "total_len [d] = 4" using O(7) by (simp add: total_len_def)
  have v: "value_for [d] demo_value = Some (d, [232, 3, 0, 0])"
    using O(4,6,7) cv by (simp add: value_for_def info_map_def demo_value_def)
  have i: "insertable [d] [demo_value]"
    using O(5,7) t v by (simp add: insertable_def layout_ok_def)
  have f: "[d] = filter (\<lambda>d. ad_rel d = ''r'') (attr_descs demo_open na)" using O(2,3) by simp
  obtain u ns' rid rec where
    Q: "QU_Insert (\<lambda>_. 0) demo_open ''r'' [demo_value] = Some (OK, u)" "relation u ''r'' ns'"
      "tuples u ''r'' ns' = [rid \<mapsto> rec]" "int (length rec) = 4" "field d rec = Some [232, 3, 0, 0]"
    using QU_Insert_stores [OF O(1,8) demo_desc(3,4) demo_names(1) f i, of "\<lambda>_. 0"] O(9,10) t v by (auto split: if_splits)
  then show ?thesis using O(5,7)
    by (intro exI [of _ u] exI [of _ ns'] exI [of _ rid]) (auto simp: field_def split: if_splits)
qed

end
