(* ===== verification/Query_Select.thy ===== *)
theory Query_Select
  imports Query_Pair Query_Props
begin

text \<open>
  Selection with projection. The result relation gains, for each record that satisfies the
  condition, one record with the projected fields: a statement about bags of records.
\<close>

subsection \<open>Bags of records\<close>

definition bag_of :: "('k \<Rightarrow> 'v option) \<Rightarrow> 'v multiset" where
  "bag_of f = image_mset (\<lambda>k. the (f k)) (mset_set (dom f))"

lemma bag_of_upd:
  assumes "finite (dom f)" "f k = None"
  shows "bag_of (f(k \<mapsto> v)) = add_mset v (bag_of f)"
proof -
  have "k \<notin> dom f" using assms(2) by auto
  moreover from this have "image_mset (\<lambda>x. the ((f(k \<mapsto> v)) x)) (mset_set (dom f)) = image_mset (\<lambda>x. the (f x)) (mset_set (dom f))"
    by (intro image_mset_cong) (use assms(1) in auto)
  ultimately show ?thesis using assms(1) by (simp add: bag_of_def)
qed

lemma finite_recs: "heap_wf m p ns \<Longrightarrow> finite (dom (heap_recs m ns))"
  using heap_scan_all(1) [of m p ns] by (metis (mono_tags) List.finite_set dom_def)

text \<open>What a scan delivers.\<close>

lemma scan_bag:
  assumes "relation s name ns"
  shows "image_mset snd (mset (rel_records s name ns flt)) = filter_mset (matchRec flt) (bag_of (tuples s name ns))"
proof -
  let ?m = "rel_pages s name"
  have wf: "heap_wf ?m 1 ns" using assms by (simp add: relation_def)
  note A = heap_scan_all [OF wf]
  have d: "mset (heap_scan ?m ns) = mset_set (dom (heap_recs ?m ns))"
    using mset_set_set [OF A(2)] A(1) by (simp add: dom_def)
  have "image_mset snd (mset (rel_records s name ns flt)) =
      image_mset (\<lambda>r. the (heap_recs ?m ns r)) (filter_mset (\<lambda>r. matchRec flt (the (heap_recs ?m ns r))) (mset (heap_scan ?m ns)))"
    by (simp add: scan_records_def image_mset.compositionality comp_def)
  then show ?thesis unfolding d bag_of_def filter_mset_image_mset .
qed

subsection \<open>The loop\<close>

lemma scan_insert_finite:
  assumes "scan_insert s n1 h1 ns1 n2 ns2 m flt (t, h2) rest"
  shows "finite (dom (recs t h1 ns1))"
proof -
  have "hf_ok t h1 ns1" by (rule scan_insert_base [OF assms])
  then show ?thesis by (auto elim!: hf_okE dest!: hf_coreD(4) intro: finite_recs)
qed

lemma select_loop_ok:
  assumes "scan_insert s n1 h1 ns1 n2 ns2 m flt (t, h2) rest"
    and "\<forall>x \<in> set rest. \<exists>out. project ds (snd x) = Some out \<and> out \<noteq> [] \<and> length out \<le> 1000"
    and "card (dom (logical t (hf_filePtr h1))) + length rest < quota s"
  shows "\<exists>h2' h1' t' ns1'. select_loop ds t h2 h1 = Some (h2', h1', t') \<and>
    scan_insert s n1 h1' ns1' n2 ns2 m flt (t', h2') [] \<and>
    bag_of (recs t' h1' ns1') = bag_of (recs t h1 ns1) + image_mset (\<lambda>x. the (project ds (snd x))) (mset rest)"
  using assms
proof (induction rest arbitrary: t h1 ns1 h2)
  case Nil
  from scan_insert_next [OF Nil(1)] obtain h' t' where
    "logical t' (hf_filePtr h1) = logical t (hf_filePtr h1)" "scanNext t h2 = Some (Inl FILEEOF, h', t')"
    "scan_insert s n1 h1 ns1 n2 ns2 m flt (t', h') []" by auto
  then show ?case
    by (intro exI [of _ h'] exI [of _ h1] exI [of _ t'] exI [of _ ns1]) (subst select_loop.simps, simp)
next
  case (Cons x xs)
  from scan_insert_next [OF Cons.prems(1)] obtain h3 t3 where N:
    "logical t3 (hf_filePtr h1) = logical t (hf_filePtr h1)" "scanNext t h2 = Some (Inr (fst x), h3, t3)"
    "HeapFileScan_getRecord t3 h3 = Some (Inr (snd x))" "scan_insert s n1 h1 ns1 n2 ns2 m flt (t3, h3) xs" by auto
  obtain out where out: "project ds (snd x) = Some out" "out \<noteq> []" "length out \<le> 1000" using Cons.prems(2) by auto
  have "card (dom (logical t3 (hf_filePtr h1))) + 1 < quota s" using Cons.prems(3) N(1) by simp
  from scan_insert_step [OF N(4) out(2,3) this] obtain rid h' t' ns' where I:
    "insertRecord t3 h1 out = Some (Inr rid, h', t')" "scan_insert s n1 h' ns' n2 ns2 m flt (t', h3) xs"
    "recs t' h' ns' = (recs t3 h1 ns1)(rid \<mapsto> out)" "recs t3 h1 ns1 rid = None"
    "card (dom (logical t' (hf_filePtr h'))) \<le> card (dom (logical t3 (hf_filePtr h1))) + 1" by blast
  have "bag_of (recs t' h' ns') = add_mset out (bag_of (recs t h1 ns1))"
    using bag_of_upd [OF scan_insert_finite [OF N(4)] I(4)] I(3) N(1) by simp
  moreover have "card (dom (logical t' (hf_filePtr h'))) + length xs < quota s" using Cons.prems(3) I(5) N(1) by simp
  moreover have "\<forall>x \<in> set xs. \<exists>out. project ds (snd x) = Some out \<and> out \<noteq> [] \<and> length out \<le> 1000" using Cons.prems(2) by simp
  ultimately show ?case
    using Cons.IH [OF I(2)] N(2,3) out(1) I(1) by (subst select_loop.simps) auto
qed

subsection \<open>Looking up the attributes\<close>

abbreviation ai_rel :: "attrInfo \<Rightarrow> string" where "ai_rel a \<equiv> c_string (ai_relName a)"

definition named_ok :: "attrInfo \<Rightarrow> bool" where
  "named_ok a \<longleftrightarrow> plain (ai_rel a) \<and> length (ai_rel a) < MAXNAME \<and> ai_attr a \<noteq> []"

definition described :: "AttrDesc list \<Rightarrow> attrInfo \<Rightarrow> Status + AttrDesc" where
  "described cat a = (case filter (\<lambda>d. ad_rel d = ai_rel a \<and> ad_attr d = ai_attr a) cat of
     [] \<Rightarrow> Inl ATTRNOTFOUND | d # _ \<Rightarrow> Inr d)"

fun all_described :: "AttrDesc list \<Rightarrow> attrInfo list \<Rightarrow> Status + AttrDesc list" where
  "all_described cat [] = Inr []"
| "all_described cat (a # as) =
     (case described cat a of Inl e \<Rightarrow> Inl e | Inr d \<Rightarrow> map_sum id (\<lambda>ds. d # ds) (all_described cat as))"

lemma all_described_length: "all_described cat as = Inr ds \<Longrightarrow> length ds = length as"
proof (induction as arbitrary: ds)
  case (Cons a as)
  then show ?case by (cases "all_described cat as") (auto split: sum.splits)
qed simp

lemma undisturbed_catalog:
  assumes "undisturbed s ATTRCATNAME na u" "catalog_ok s ATTRCATNAME sizeof_AttrDesc na"
  shows "ready u" "catalog_ok u ATTRCATNAME sizeof_AttrDesc na" "attr_descs u na = attr_descs s na"
  using assms by (simp_all add: undisturbed_def catalog_ok_def attr_descs_def entries_def)

lemma undisturbed_trans: "undisturbed s cat nc t \<Longrightarrow> undisturbed t cat nc u \<Longrightarrow> undisturbed s cat nc u"
  by (auto simp: undisturbed_def intro: closed_again_trans)

lemma getInfo_described:
  assumes "ready s" "catalog_ok s ATTRCATNAME sizeof_AttrDesc na" "named_ok a"
  shows "\<exists>u. AttrCatalog_getInfo s (ai_rel a) (ai_attr a) = Some (described (attr_descs s na) a, u) \<and> undisturbed s ATTRCATNAME na u"
  using AttrCatalog_getInfo_ok [OF assms(1,2)] assms(3) by (auto simp: named_ok_def described_def)

lemma lookup_attrs_ok:
  assumes "ready s" "catalog_ok s ATTRCATNAME sizeof_AttrDesc na" "\<forall>a \<in> set as. named_ok a"
  shows "\<exists>u. lookup_attrs s as = Some (all_described (attr_descs s na) as, u) \<and> undisturbed s ATTRCATNAME na u"
  using assms
proof (induction as arbitrary: s)
  case Nil
  then have "undisturbed s ATTRCATNAME na s"
    using closed_again_refl [of s] by (simp add: undisturbed_def ready_def catalog_ok_def)
  then show ?case by auto
next
  case (Cons a as)
  from getInfo_described [OF Cons.prems(1,2)] Cons.prems(3) obtain t where
    G: "AttrCatalog_getInfo s (ai_rel a) (ai_attr a) = Some (described (attr_descs s na) a, t)" "undisturbed s ATTRCATNAME na t" by auto
  note U = undisturbed_catalog [OF G(2) Cons.prems(2)]
  from Cons.IH [OF U(1,2)] Cons.prems(3) U(3) obtain u where
    "lookup_attrs t as = Some (all_described (attr_descs s na) as, u)" "undisturbed t ATTRCATNAME na u" by auto
  then show ?case using G undisturbed_trans [OF G(2)] by (cases "described (attr_descs s na) a") auto
qed

subsection \<open>The operator\<close>

text \<open>The condition on a described attribute, or the status that refuses it.\<close>

definition select_filter :: "AttrDesc \<Rightarrow> Operator \<Rightarrow> string \<Rightarrow> Status + scan_filter option" where
  "select_filter d op v =
     (let ty = the (datatype_of (ad_attrType d))
      in if ad_attrOffset d < 0 \<or> ad_attrLen d < 1 \<or> ty \<noteq> STRING \<and> ad_attrLen d \<noteq> 4 then Inl BADSCANPARM
         else Inr (Some \<lparr>sf_offset = ad_attrOffset d, sf_length = ad_attrLen d, sf_type = ty,
           sf_filter = the (filter_value ty v), sf_op = op\<rparr>))"

definition typed :: "AttrDesc \<Rightarrow> string \<Rightarrow> bool" where
  "typed d v \<longleftrightarrow> (\<exists>ty bs. datatype_of (ad_attrType d) = Some ty \<and> filter_value ty v = Some bs)"

text \<open>What \<open>ScanSelect\<close> does, once its relations are there.\<close>

lemma ScanSelect_ok:
  assumes "ready s" "relation s n1 ns1" "relation s n2 ns2" "n1 \<noteq> n2" "6 \<le> card (free_frames (bufMgr s))"
    and "ds \<noteq> []" "n2 = ad_rel (hd ds)" "0 < len" "\<forall>d. ad = Some d \<longrightarrow> typed d v"
    and F: "F = (case ad of None \<Rightarrow> Inr None | Some d \<Rightarrow> select_filter d op v)"
    and "\<forall>flt r rec. F = Inr flt \<longrightarrow> tuples s n2 ns2 r = Some rec \<longrightarrow> matchRec flt rec \<longrightarrow>
      (\<exists>out. project ds rec = Some out \<and> out \<noteq> [] \<and> length out \<le> 1000)"
    and "\<forall>flt. F = Inr flt \<longrightarrow>
      card (dom (rel_pages s n1)) + size (filter_mset (matchRec flt) (bag_of (tuples s n2 ns2))) < quota s"
  shows "\<exists>st u ns1'. ScanSelect s n1 ds ad op v len = Some (st, u) \<and> closed_again s n1 u \<and> relation u n1 ns1' \<and>
    (case F of
       Inl e \<Rightarrow> st = e \<and> bag_of (tuples u n1 ns1') = bag_of (tuples s n1 ns1)
     | Inr flt \<Rightarrow> st = OK \<and> bag_of (tuples u n1 ns1') = bag_of (tuples s n1 ns1) +
         image_mset (\<lambda>rec. the (project ds rec)) (filter_mset (matchRec flt) (bag_of (tuples s n2 ns2))))"
proof -
  obtain h1 b h2 t where S: "InsertFileScan_init s n1 = Some ((OK, h1), b)" "HeapFileScan_init b n2 = Some (Inr h2, t)"
    "hs_filter h2 = None" "logical t (hf_filePtr h1) = rel_pages s n1"
    "\<forall>flt. scan_insert s n1 h1 ns1 n2 ns2 (rel_pages s n2) flt (t, h2\<lparr>hs_filter := flt\<rparr>) (rel_records s n2 ns2 flt)"
    by (rule scan_insert_start [OF assms(1-5)])
  have S0: "scan_insert s n1 h1 ns1 n2 ns2 (rel_pages s n2) None (t, h2) (rel_records s n2 ns2 None)"
    using spec [OF S(5), of None] filter_same [OF S(3)] by simp
  have Q: "ScanSelect s n1 ds ad op v len = (case F of
      Inl e \<Rightarrow> Some (e, InsertFileScan_destroy (HeapFileScan_destroy t h2) h1)
    | Inr flt \<Rightarrow> map_option (\<lambda>(scan, res, s). (OK, InsertFileScan_destroy (HeapFileScan_destroy s scan) res))
        (select_loop ds t (h2\<lparr>hs_filter := flt\<rparr>) h1))"
  proof (cases ad)
    case None
    then show ?thesis using S(1,2) assms(6-8) F filter_same [OF S(3)]
      by (simp add: ScanSelect_def startScan_def split: option.splits prod.splits)
  next
    case (Some d)
    then obtain ty bs where ty: "datatype_of (ad_attrType d) = Some ty" "filter_value ty v = Some bs" using assms(9) by (auto simp: typed_def)
    show ?thesis using S(1,2) assms(6-8) F Some ty
      by (auto simp: ScanSelect_def startScan_delete select_filter_def split: option.splits prod.splits)
  qed
  show ?thesis
  proof (cases F)
    case (Inl e)
    then show ?thesis using Q scan_insert_end [OF S0] S(4) by (intro exI [of _ e] exI [of _ ns1] exI) auto
  next
    case (Inr flt)
    let ?rest = "rel_records s n2 ns2 flt"
    note S1 = spec [OF S(5), of flt]
    have bag: "image_mset snd (mset ?rest) = filter_mset (matchRec flt) (bag_of (tuples s n2 ns2))" by (rule scan_bag [OF assms(3)])
    then have "size (filter_mset (matchRec flt) (bag_of (tuples s n2 ns2))) = length ?rest" by (metis size_image_mset size_mset)
    then have "card (dom (logical t (hf_filePtr h1))) + length ?rest < quota s" using assms(12) Inr S(4) by simp
    moreover have "\<forall>x \<in> set ?rest. \<exists>out. project ds (snd x) = Some out \<and> out \<noteq> [] \<and> length out \<le> 1000"
      using assms(11) Inr rel_records_all(1) [OF assms(3), of flt] by fastforce
    ultimately obtain h2' h1' t' ns1' where L: "select_loop ds t (h2\<lparr>hs_filter := flt\<rparr>) h1 = Some (h2', h1', t')"
      "scan_insert s n1 h1' ns1' n2 ns2 (rel_pages s n2) flt (t', h2') []"
      "bag_of (recs t' h1' ns1') = bag_of (recs t h1 ns1) + image_mset (\<lambda>x. the (project ds (snd x))) (mset ?rest)"
      using select_loop_ok [OF S1] by blast
    have "image_mset (\<lambda>x. the (project ds (snd x))) (mset ?rest) =
        image_mset (\<lambda>rec. the (project ds rec)) (filter_mset (matchRec flt) (bag_of (tuples s n2 ns2)))"
      unfolding bag [symmetric] by (simp add: image_mset.compositionality comp_def)
    then show ?thesis using Q Inr L(1,3) scan_insert_end [OF L(2)] S(4) by auto
  qed
qed

text \<open>The attributes of a query, or the status that ends it before anything is opened.\<close>

definition select_plan :: "AttrDesc list \<Rightarrow> attrInfo list \<Rightarrow> attrInfo option \<Rightarrow> Status + AttrDesc list \<times> AttrDesc option" where
  "select_plan cat proj attr =
     (case all_described cat proj of
        Inl e \<Rightarrow> Inl e
      | Inr ds \<Rightarrow>
          (case attr of
             None \<Rightarrow> Inr (ds, None)
           | Some a \<Rightarrow> (case described cat a of Inl e \<Rightarrow> Inl e | Inr d \<Rightarrow> Inr (ds, Some d))))"

definition condition :: "AttrDesc option \<Rightarrow> Operator \<Rightarrow> string \<Rightarrow> Status + scan_filter option" where
  "condition ad op v = (case ad of None \<Rightarrow> Inr None | Some d \<Rightarrow> select_filter d op v)"

abbreviation chosen :: "'a dsys_scheme \<Rightarrow> string \<Rightarrow> int list \<Rightarrow> scan_filter option \<Rightarrow> byte list multiset" where
  "chosen s n ns flt \<equiv> filter_mset (matchRec flt) (bag_of (tuples s n ns))"

text \<open>
  A query that can be carried out: the source is another relation, the constant can be read as a
  value of the type of its attribute, the projected fields lie inside of the chosen records and
  fit on a page, and the file of the result may grow by a page for each of them.
\<close>

definition selectable :: "'a dsys_scheme \<Rightarrow> string \<Rightarrow> int list \<Rightarrow> AttrDesc list \<Rightarrow> AttrDesc option \<Rightarrow> Operator \<Rightarrow> string \<Rightarrow> bool" where
  "selectable s result ns ds ad op v \<longleftrightarrow> relation s (ad_rel (hd ds)) ns \<and> result \<noteq> ad_rel (hd ds) \<and> 0 < total_len ds \<and>
     (\<forall>d. ad = Some d \<longrightarrow> typed d v) \<and>
     (\<forall>flt. condition ad op v = Inr flt \<longrightarrow>
        (\<forall>rec \<in># chosen s (ad_rel (hd ds)) ns flt. \<exists>out. project ds rec = Some out \<and> out \<noteq> [] \<and> length out \<le> 1000) \<and>
        card (dom (rel_pages s result)) + size (chosen s (ad_rel (hd ds)) ns flt) < quota s)"

lemma bag_member: "finite (dom f) \<Longrightarrow> f k = Some x \<Longrightarrow> x \<in># bag_of f"
  by (force simp: bag_of_def)

lemma select_lookup:
  assumes "ready s" "catalog_ok s ATTRCATNAME sizeof_AttrDesc na" "\<forall>a \<in> set proj \<union> set_option attr. named_ok a"
  obtains u where "undisturbed s ATTRCATNAME na u" "QU_Select s result proj attr op v =
    (case select_plan (attr_descs s na) proj attr of
       Inl e \<Rightarrow> Some (e, u)
     | Inr (ds, ad) \<Rightarrow> ScanSelect u result ds ad op (if ad = None then [] else v) (total_len ds))"
proof -
  let ?cat = "attr_descs s na"
  from lookup_attrs_ok [OF assms(1,2)] assms(3) obtain t where
    L: "lookup_attrs s proj = Some (all_described ?cat proj, t)" "undisturbed s ATTRCATNAME na t" by auto
  show ?thesis
  proof (cases attr)
    case None
    then show ?thesis using that [OF L(2)] L(1) by (auto simp: QU_Select_def select_plan_def split: sum.splits)
  next
    case (Some a)
    note U = undisturbed_catalog [OF L(2) assms(2)]
    from getInfo_described [OF U(1,2)] assms(3) Some U(3) obtain u where
      G: "AttrCatalog_getInfo t (ai_rel a) (ai_attr a) = Some (described ?cat a, u)" "undisturbed t ATTRCATNAME na u" by auto
    show ?thesis
    proof (cases "all_described ?cat proj")
      case (Inl e)
      then show ?thesis using that [OF L(2)] L(1) by (simp add: QU_Select_def select_plan_def)
    next
      case (Inr ds)
      then show ?thesis using that [OF undisturbed_trans [OF L(2) G(2)]] L(1) G(1) Some
        by (simp add: QU_Select_def select_plan_def split: sum.splits)
    qed
  qed
qed

lemma catalogs_beside:
  assumes "catalogs_ok s nr na" "closed_again s n u" "n \<noteq> ATTRCATNAME" "n \<noteq> RELCATNAME"
  shows "catalogs_ok u nr na" "attr_descs u na = attr_descs s na"
proof -
  have R: "ready s" "relation s RELCATNAME nr" "relation s ATTRCATNAME na" using assms(1) by (simp_all add: catalogs_ok_def catalog_ok_def)
  note C = closed_relation [OF R(1) assms(2) assms(4) [symmetric] R(2)] closed_relation [OF R(1) assms(2) assms(3) [symmetric] R(3)]
  show "catalogs_ok u nr na" "attr_descs u na = attr_descs s na"
    using assms(1) C closed_ready [OF R(1) assms(2)] by (simp_all add: catalogs_ok_def catalog_ok_def entries_def attr_descs_def)
qed

lemma QU_Select_ok:
  assumes "catalogs_ok s nr na" "relation s result rs" "result \<noteq> ATTRCATNAME" "result \<noteq> RELCATNAME"
    and "6 \<le> card (free_frames (bufMgr s))" "proj \<noteq> []" "\<forall>a \<in> set proj \<union> set_option attr. named_ok a"
    and "\<forall>ds ad. select_plan (attr_descs s na) proj attr = Inr (ds, ad) \<longrightarrow> selectable s result ns ds ad op v"
  shows "\<exists>st u rs'. QU_Select s result proj attr op v = Some (st, u) \<and> catalogs_ok u nr na \<and> relation u result rs' \<and>
    (\<forall>n. n \<noteq> result \<longrightarrow> rel_pages u n = rel_pages s n) \<and>
    (case select_plan (attr_descs s na) proj attr of
       Inl e \<Rightarrow> st = e \<and> bag_of (tuples u result rs') = bag_of (tuples s result rs)
     | Inr (ds, ad) \<Rightarrow>
         (case condition ad op v of
            Inl e \<Rightarrow> st = e \<and> bag_of (tuples u result rs') = bag_of (tuples s result rs)
          | Inr flt \<Rightarrow> st = OK \<and> bag_of (tuples u result rs') = bag_of (tuples s result rs) +
              image_mset (\<lambda>rec. the (project ds rec)) (chosen s (ad_rel (hd ds)) ns flt)))"
proof -
  have R: "ready s" "catalog_ok s ATTRCATNAME sizeof_AttrDesc na" using assms(1) by (simp_all add: catalogs_ok_def)
  obtain t where T: "undisturbed s ATTRCATNAME na t" "QU_Select s result proj attr op v =
    (case select_plan (attr_descs s na) proj attr of
       Inl e \<Rightarrow> Some (e, t)
     | Inr (ds, ad) \<Rightarrow> ScanSelect t result ds ad op (if ad = None then [] else v) (total_len ds))"
    by (rule select_lookup [OF R assms(7)])
  have C: "closed_again s ATTRCATNAME t" "ready t" "quota t = quota s" using T(1) by (simp_all add: undisturbed_def closed_again_def)
  note U = undisturbed_relations [OF R(1) T(1)] and K = undisturbed_catalogs(1) [OF assms(1) T(1)]
  show ?thesis
  proof (cases "select_plan (attr_descs s na) proj attr")
    case (Inl e)
    then show ?thesis using T(2) K U(1) U(2) [OF assms(2)] by (intro exI [of _ e] exI [of _ t] exI [of _ rs]) simp
  next
    case (Inr p)
    obtain ds ad where p: "p = (ds, ad)" by (cases p) auto
    let ?n = "ad_rel (hd ds)" and ?v = "if ad = None then [] else v"
    have S: "selectable s result ns ds ad op v" using assms(8) Inr p by blast
    then have src: "relation s ?n ns" "result \<noteq> ?n" "0 < total_len ds" "\<forall>d. ad = Some d \<longrightarrow> typed d ?v" by (auto simp: selectable_def)
    have "all_described (attr_descs s na) proj = Inr ds" using Inr p by (auto simp: select_plan_def split: sum.splits option.splits)
    from all_described_length [OF this] have ds: "ds \<noteq> []" using assms(6) by auto
    have c: "condition ad op ?v = condition ad op v" by (simp add: condition_def split: option.split)
    have fin: "finite (dom (tuples s ?n ns))" using src(1) by (auto simp: relation_def intro: finite_recs)
    have "6 \<le> card (free_frames (bufMgr t))" using closed_free_card [OF _ C(1)] R(1) assms(5) by (simp add: ready_def)
    from ScanSelect_ok [OF C(2) U(2) [OF assms(2)] U(2) [OF src(1)] src(2) this ds refl src(3,4) condition_def [of ad op ?v],
        unfolded U(1) C(3) c]
    obtain st u rs' where Q: "ScanSelect t result ds ad op ?v (total_len ds) = Some (st, u)" "closed_again t result u" "relation u result rs'"
      "case condition ad op v of
         Inl e \<Rightarrow> st = e \<and> bag_of (tuples u result rs') = bag_of (tuples s result rs)
       | Inr flt \<Rightarrow> st = OK \<and> bag_of (tuples u result rs') = bag_of (tuples s result rs) +
           image_mset (\<lambda>rec. the (project ds rec)) (chosen s ?n ns flt)"
      using S bag_member [OF fin] by (auto simp: selectable_def)
    have "db_inv t" using C(2) by (simp add: ready_def)
    note P = closed_pages [OF this Q(2)]
    then show ?thesis
      using T(2) Inr p Q U(1) catalogs_beside(1) [OF K Q(2) assms(3,4)] by (intro exI [of _ st] exI [of _ u] exI [of _ rs']) simp
  qed
qed

text \<open>
  C32. \<open>QU_Select\<close>, with six free frames. An unknown attribute is reported as \<open>ATTRNOTFOUND\<close>, a
  condition the scan does not accept as \<open>BADSCANPARM\<close>, and the result relation keeps its records.
  Otherwise the operator ends with \<open>OK\<close>, and the result relation has gained one record for each
  record of the source that satisfies the condition: its projected fields, one behind the other.
  In every case all other relations are as before, and the catalogs stay in order.
\<close>

theorem QU_Select_correct:
  assumes "catalogs_ok s nr na" "relation s result rs" "result \<noteq> ATTRCATNAME" "result \<noteq> RELCATNAME"
    and "6 \<le> card (free_frames (bufMgr s))" "proj \<noteq> []" "\<forall>a \<in> set proj \<union> set_option attr. named_ok a"
    and "\<forall>ds ad. select_plan (attr_descs s na) proj attr = Inr (ds, ad) \<longrightarrow> selectable s result ns ds ad op v"
  shows "\<exists>st u rs'. QU_Select s result proj attr op v = Some (st, u) \<and> catalogs_ok u nr na \<and> relation u result rs' \<and>
    (\<forall>n. n \<noteq> result \<longrightarrow> rel_pages u n = rel_pages s n) \<and>
    (case select_plan (attr_descs s na) proj attr of
       Inl e \<Rightarrow> st = e \<and> bag_of (tuples u result rs') = bag_of (tuples s result rs)
     | Inr (ds, ad) \<Rightarrow>
         (case condition ad op v of
            Inl e \<Rightarrow> st = e \<and> bag_of (tuples u result rs') = bag_of (tuples s result rs)
          | Inr flt \<Rightarrow> st = OK \<and> bag_of (tuples u result rs') = bag_of (tuples s result rs) +
              image_mset (\<lambda>rec. the (project ds rec)) (chosen s (ad_rel (hd ds)) ns flt)))"
  by (rule QU_Select_ok [OF assms])

text \<open>\<open>select into t (r.a) where r.a = 5\<close>, where \<open>r\<close> has the record 5 and \<open>t\<close> is empty.\<close>

definition demo_attrs :: attrInfo where
  "demo_attrs = \<lparr>ai_relName = c_bytes ''r'', ai_attrName = c_bytes ''a'', ai_attrType = 1, ai_attrLen = - 1, ai_attrValue = None\<rparr>"

definition demo_source :: dsys where
  "demo_source = demo_full\<lparr>files := (files demo_full)(''r'' \<mapsto> demo_five_pages)\<rparr>"

definition demo_select :: dsys where
  "demo_select = demo_source\<lparr>files := (files demo_source)(''t'' \<mapsto> demo_heap_pages)\<rparr>"

lemma demo_select_ok:
  obtains nr na d where "catalogs_ok demo_select nr na" "attr_descs demo_select na = [d]" "ad_rel d = ''r''" "ad_attr d = ''a''"
    "ad_attrOffset d = 0" "ad_attrType d = 1" "ad_attrLen d = 4" "quota demo_select = 4"
    "relation demo_select ''r'' [2]" "tuples demo_select ''r'' [2] = [RID 2 0 \<mapsto> [5, 0, 0, 0]]"
    "relation demo_select ''t'' [2]" "tuples demo_select ''t'' [2] = Map.empty" "rel_pages demo_select ''t'' = file_map demo_heap_pages"
    "6 \<le> card (free_frames (bufMgr demo_select))" "\<forall>n. oft_map (openFiles demo_select) n = None"
proof -
  obtain nr na d where F: "catalogs_ok demo_full nr na" "attr_descs demo_full na = [d]" "ad_rel d = ''r''" "ad_attr d = ''a''"
    "ad_attrOffset d = 0" "ad_attrType d = 1" "ad_attrLen d = 4" "\<forall>n. oft_map (openFiles demo_full) n = None"
    "8 \<le> card (free_frames (bufMgr demo_full))" "quota demo_full = 4" by (rule demo_full_ok)
  have f: "openFiles demo_source = openFiles demo_full" "openFiles demo_select = openFiles demo_full"
    "bufMgr demo_select = bufMgr demo_full" "quota demo_select = 4" using F(10) by (simp_all add: demo_select_def demo_source_def)
  have R: "ready demo_full" using F(1) by (simp add: catalogs_ok_def)
  have o: "oft_map (openFiles demo_full) n = None" "oft_map (openFiles demo_source) n = None" for n using F(8) f(1) by simp_all
  have w: "\<And>ps. Some demo_five_pages = Some ps \<Longrightarrow> file_wf ps" "\<And>ps. Some demo_heap_pages = Some ps \<Longrightarrow> file_wf ps"
    using demo_five_heap(1) demo_pages_heap by simp_all
  note A = closed_file_ready [OF R o(1) demo_source_def w(1)]
  note B = closed_file_ready [OF A(1) o(2) demo_select_def w(2)]
  have same: "rel_pages demo_select n = rel_pages demo_full n" "relation demo_full n x \<Longrightarrow> relation demo_select n x"
    if "n \<noteq> ''r''" "n \<noteq> ''t''" for n x
    using A(2,3) [of n] B(2,3) [of n] that by auto
  have names: "RELCATNAME \<noteq> ''t''" "ATTRCATNAME \<noteq> ''t''" "RELCATNAME \<noteq> ''r''" "ATTRCATNAME \<noteq> ''r''"
    by (simp_all add: RELCATNAME_def ATTRCATNAME_def)
  have "catalogs_ok demo_select nr na" "attr_descs demo_select na = [d]"
    using F(1,2) B(1) same [OF names(3,1)] same [OF names(4,2)]
    by (simp_all add: catalogs_ok_def catalog_ok_def entries_def attr_descs_def)
  moreover have r: "rel_pages demo_select ''r'' = file_map demo_five_pages" "rel_pages demo_select ''t'' = file_map demo_heap_pages"
    using o(1) f(2) by (simp_all add: rel_pages_def demo_select_def demo_source_def)
  moreover have "relation demo_select ''r'' [2]" "relation demo_select ''t'' [2]"
    "tuples demo_select ''r'' [2] = [RID 2 0 \<mapsto> [5, 0, 0, 0]]" "tuples demo_select ''t'' [2] = Map.empty"
    using r demo_five_heap(2,3) demo_pages_heap o(1) f(2) by (simp_all add: relation_def)
  ultimately show ?thesis using that [of nr na d] F(3-9) f(2-4) by simp
qed

abbreviation demo_five_filter :: "scan_filter option" where
  "demo_five_filter \<equiv> Some \<lparr>sf_offset = 0, sf_length = 4, sf_type = INTEGER, sf_filter = [5, 0, 0, 0], sf_op = EQ\<rparr>"

lemma demo_selects:
  assumes "ad_rel d = ''r''" "ad_attrOffset d = 0" "ad_attrType d = 1" "ad_attrLen d = 4"
    and "relation s ''r'' [2]" "tuples s ''r'' [2] = [RID 2 0 \<mapsto> [5, 0, 0, 0]]" "rel_pages s ''t'' = file_map demo_heap_pages" "quota s = 4"
  shows "selectable s ''t'' [2] [d] (Some d) EQ ''5''" "condition (Some d) EQ ''5'' = Inr demo_five_filter"
    "chosen s ''r'' [2] demo_five_filter = {#[5, 0, 0, 0]#}" "project [d] [5, 0, 0, 0] = Some [5, 0, 0, 0]"
proof -
  have v: "filter_value INTEGER ''5'' = Some [5, 0, 0, 0]" by code_simp
  have m: "matchRec demo_five_filter [5, 0, 0, 0]" by code_simp
  show c: "condition (Some d) EQ ''5'' = Inr demo_five_filter"
    using assms(2-4) v by (simp add: condition_def select_filter_def datatype_of_def)
  have B: "bag_of (tuples s ''r'' [2]) = {#[5, 0, 0, 0]#}" unfolding assms(6) by (simp add: bag_of_def)
  then show "chosen s ''r'' [2] demo_five_filter = {#[5, 0, 0, 0]#}" using m by simp
  show pr: "project [d] [5, 0, 0, 0] = Some [5, 0, 0, 0]" using assms(2,4) by (simp add: field_def)
  have "length demo_heap_pages = 3" by (simp add: demo_heap_pages_def)
  then have "dom (file_map demo_heap_pages) \<subseteq> {1, 2}" by (auto simp: file_map_def split: if_splits)
  from card_mono [OF _ this] have k: "card (dom (file_map demo_heap_pages)) \<le> 2" by simp
  have "total_len [d] = 4" "typed d ''5''" using assms(3,4) v by (auto simp: total_len_def typed_def datatype_of_def)
  then show "selectable s ''t'' [2] [d] (Some d) EQ ''5''"
    unfolding selectable_def c using assms(1,5,7,8) B m pr k by (simp del: project.simps)
qed

theorem QU_Select_correct_witness:
  "\<exists>u rs'. QU_Select demo_select ''t'' [demo_attrs] (Some demo_attrs) EQ ''5'' = Some (OK, u) \<and> relation u ''t'' rs' \<and>
     bag_of (tuples u ''t'' rs') = {#[5, 0, 0, 0]#}"
proof -
  obtain nr na d where F: "catalogs_ok demo_select nr na" "attr_descs demo_select na = [d]" "ad_rel d = ''r''" "ad_attr d = ''a''"
    "ad_attrOffset d = 0" "ad_attrType d = 1" "ad_attrLen d = 4" "quota demo_select = 4"
    "relation demo_select ''r'' [2]" "tuples demo_select ''r'' [2] = [RID 2 0 \<mapsto> [5, 0, 0, 0]]"
    "relation demo_select ''t'' [2]" "tuples demo_select ''t'' [2] = Map.empty" "rel_pages demo_select ''t'' = file_map demo_heap_pages"
    "6 \<le> card (free_frames (bufMgr demo_select))" by (rule demo_select_ok)
  have n: "named_ok demo_attrs" "ai_rel demo_attrs = ''r''" "ai_attr demo_attrs = ''a''"
    unfolding named_ok_def demo_attrs_def by code_simp+
  have p: "select_plan (attr_descs demo_select na) [demo_attrs] (Some demo_attrs) = Inr ([d], Some d)"
    using F(2-4) n by (simp add: select_plan_def described_def)
  note S = demo_selects [OF F(3,5-7,9,10,13,8)]
  have s: "\<forall>ds ad. select_plan (attr_descs demo_select na) [demo_attrs] (Some demo_attrs) = Inr (ds, ad) \<longrightarrow>
      selectable demo_select ''t'' [2] ds ad EQ ''5''" using p S(1) by simp
  have t: "''t'' \<noteq> ATTRCATNAME" "''t'' \<noteq> RELCATNAME" by (simp_all add: RELCATNAME_def ATTRCATNAME_def)
  have a: "[demo_attrs] \<noteq> []" "\<forall>a \<in> set [demo_attrs] \<union> set_option (Some demo_attrs). named_ok a" using n(1) by simp_all
  have "bag_of (tuples demo_select ''t'' [2]) = {#}" unfolding F(12) by (simp add: bag_of_def)
  then show ?thesis
    using QU_Select_correct [OF F(1,11) t F(14) a s] unfolding p prod.case sum.case S(2)
    using F(3) S(3,4) by auto
qed

end
