(* ===== verification/Interp_Select.thy ===== *)
theory Interp_Select
  imports Interp_Props Query_Select
begin

text \<open>
  A selection from the parse tree to the result relation: what the interpreter makes of the
  tree, the checks on the result relation, and the operator.
\<close>

subsection \<open>Names\<close>

definition good_name :: "string \<Rightarrow> bool" where
  "good_name n \<longleftrightarrow> plain n \<and> length n < MAXNAME"

lemma name_array_string: "good_name n \<Longrightarrow> \<exists>bs. name_array (Some n) = Some bs \<and> c_string bs = n"
proof -
  assume n: "good_name n"
  then have z: "CHR 0x00 \<notin> set n" by (simp add: good_name_def plain_def)
  have "strcpy (replicate MAXNAME 0) n = map of_char n @ 0 # drop (length n + 1) (replicate MAXNAME 0)"
  proof -
    have "takeWhile (\<lambda>b. b \<noteq> 0) (c_bytes n) = (map of_char n :: byte list)"
      unfolding c_bytes_def using z by (subst takeWhile_append2) (auto simp: of_char_zero)
    then show ?thesis by (simp add: strcpy_def Let_def)
  qed
  then show ?thesis using n c_string_append [OF z] by (simp add: name_array_def good_name_def)
qed

text \<open>The argument for an attribute of a relation.\<close>

definition info :: "string \<Rightarrow> string \<Rightarrow> attrInfo" where
  "info r a = the (mk_info (Some r) (Some a) (- 1) (- 1) None)"

lemma info_names:
  assumes "good_name r" "good_name a"
  shows "mk_info (Some r) (Some a) ty len val = Some ((info r a)\<lparr>ai_attrType := ty, ai_attrLen := len, ai_attrValue := val\<rparr>)"
    "ai_rel ((info r a)\<lparr>ai_attrType := ty, ai_attrLen := len, ai_attrValue := val\<rparr>) = r"
    "ai_attr ((info r a)\<lparr>ai_attrType := ty, ai_attrLen := len, ai_attrValue := val\<rparr>) = a"
    "ai_rel (info r a) = r" "ai_attr (info r a) = a" "mk_info (Some r) (Some a) (- 1) (- 1) None = Some (info r a)"
  using name_array_string [OF assms(1)] name_array_string [OF assms(2)] by (auto simp: mk_info_def info_def)

lemma info_named: "good_name r \<Longrightarrow> good_name a \<Longrightarrow> named_ok (info r a)"
  by (auto simp: named_ok_def info_names good_name_def) (simp add: plain_def)

subsection \<open>The list of attributes\<close>

definition columns_at :: "nodes \<Rightarrow> ptr \<Rightarrow> string \<Rightarrow> string list \<Rightarrow> bool" where
  "columns_at ns p r as \<longleftrightarrow>
     (\<exists>es. list_at ns p es \<and> list_all2 (\<lambda>e a. node_at ns e = Some (N_QUALATTR (Some r) (Some a))) es as)"

lemma columns_at_Cons:
  "columns_at ns p r (a # as) \<Longrightarrow> \<exists>c e nxt. p = Some c \<and> node_at ns p = Some (N_LIST e nxt) \<and>
    node_at ns e = Some (N_QUALATTR (Some r) (Some a)) \<and> columns_at ns nxt r as"
  unfolding columns_at_def by (auto simp: list_all2_Cons2 elim!: list_at_ConsE)

lemma attrnames_loop_ok:
  "columns_at ns p r as \<Longrightarrow> rel = Some r \<or> rel = None \<and> as \<noteq> [] \<Longrightarrow> attrnames_loop k ns p rel =
    Some (if k \<le> length as then Inl E_TOOMANYATTRS else Inr (map Some as, Some r))"
proof (induction k arbitrary: p as rel)
  case (Suc k)
  show ?case
  proof (cases as)
    case Nil
    then show ?thesis using Suc.prems by (auto simp: columns_at_def elim: list_at_NilE)
  next
    case (Cons a as')
    obtain c e nxt where "p = Some c" "node_at ns p = Some (N_LIST e nxt)" "node_at ns e = Some (N_QUALATTR (Some r) (Some a))"
      "columns_at ns nxt r as'" using columns_at_Cons Suc.prems(1) Cons by blast
    then show ?thesis using Suc.IH [of nxt as' "Some r"] Suc.prems(2) Cons by auto
  qed
qed simp

lemma mk_attrnames_ok:
  assumes "columns_at ns p r as" "as \<noteq> []" "length as < 40" "rel = Some r \<or> rel = None"
  shows "mk_attrnames s ns p rel = Some (Inr (map Some as, Some r), s)"
proof -
  obtain c e nxt where "node_at ns p = Some (N_LIST e nxt)" using assms(1,2) columns_at_Cons by (cases as) blast+
  then show ?thesis using attrnames_loop_ok [OF assms(1), of rel 40] assms(2-4) by (auto simp: mk_attrnames_def MAXATTRS_def)
qed

lemma name_infos_ok: "good_name r \<Longrightarrow> \<forall>a \<in> set as. good_name a \<Longrightarrow> name_infos (map Some as) (Some r) = Some (map (info r) as)"
  by (induction as) (auto simp: name_infos_def info_names(6))

subsection \<open>The result relation\<close>

lemma match_attrs_ok:
  assumes "ready s" "catalog_ok s ATTRCATNAME sizeof_AttrDesc na" "\<forall>x \<in> set xs. named_ok x"
    and "all_described (attr_descs s na) xs = Inr ds" "list_all2 (\<lambda>d e. ad_attrType d = ad_attrType e \<and> ad_attrLen d = ad_attrLen e) ds es"
  shows "\<exists>u. match_attrs s xs es = Some (OK, u) \<and> undisturbed s ATTRCATNAME na u"
  using assms
proof (induction xs arbitrary: s ds es)
  case Nil
  then have "undisturbed s ATTRCATNAME na s"
    using closed_again_refl [of s] by (simp add: undisturbed_def ready_def catalog_ok_def)
  then show ?case by auto
next
  case (Cons x xs)
  obtain d ds' where d: "described (attr_descs s na) x = Inr d" "all_described (attr_descs s na) xs = Inr ds'" "ds = d # ds'"
    using Cons.prems(4) by (cases "all_described (attr_descs s na) xs") (auto split: sum.splits)
  obtain e es' where e: "es = e # es'" "ad_attrType d = ad_attrType e" "ad_attrLen d = ad_attrLen e"
    "list_all2 (\<lambda>d e. ad_attrType d = ad_attrType e \<and> ad_attrLen d = ad_attrLen e) ds' es'"
    using Cons.prems(5) d(3) by (auto simp: list_all2_Cons1)
  from getInfo_described [OF Cons.prems(1,2), of x] Cons.prems(3) d(1) obtain t where
    G: "AttrCatalog_getInfo s (ai_rel x) (ai_attr x) = Some (Inr d, t)" "undisturbed s ATTRCATNAME na t" by auto
  note U = undisturbed_catalog [OF G(2) Cons.prems(2)]
  from Cons.IH [OF U(1,2), of ds' es'] Cons.prems(3) d(2) e(4) U(3) obtain u where
    "match_attrs t xs es' = Some (OK, u)" "undisturbed t ATTRCATNAME na u" by auto
  then show ?case using G e undisturbed_trans [OF G(2)] by auto
qed

subsection \<open>The whole way\<close>

text \<open>The tree of \<open>select a1, a2, ... into result from r where r.a op v\<close>.\<close>

definition select_tree :: "nodes \<Rightarrow> ptr \<Rightarrow> string \<Rightarrow> string list \<Rightarrow> string \<Rightarrow> string \<Rightarrow> Operator \<Rightarrow> Datatype \<Rightarrow> string \<Rightarrow> bool" where
  "select_tree ns n result as r a oper ty v \<longleftrightarrow> (\<exists>lst q qa op val.
     node_at ns n = Some (N_QUERY (Some result) lst (Some q)) \<and> node_at ns (Some q) = Some (N_SELECT qa op val) \<and>
     node_at ns qa = Some (N_QUALATTR (Some r) (Some a)) \<and> columns_at ns lst r as \<and>
     operator_of op = Some oper \<and> type_of ns val = Some ty \<and> value_of ns val = Some v)"

lemma selectable_same:
  assumes "\<And>n. rel_pages t n = rel_pages s n" "\<And>n ns. relation s n ns \<Longrightarrow> relation t n ns" "quota t = quota s"
    and "selectable s result ns ds ad op v"
  shows "selectable t result ns ds ad op v"
  using assms(4) assms(2) by (auto simp: selectable_def assms(1,3))

lemma interp_select_ok:
  assumes "catalogs_ok s nr na" "relation s result rs" "result \<noteq> ATTRCATNAME" "result \<noteq> RELCATNAME" "result \<noteq> TMP_RESULT"
    and "6 \<le> card (free_frames (bufMgr s))" "select_tree nodes n result as r a oper ty v" "as \<noteq> []" "length as < 40"
    and "\<forall>x \<in> set (result # r # a # as). good_name x"
    and "all_described (attr_descs s na) (map (info r) as) = Inr ds" "described (attr_descs s na) (info r a) = Inr d"
    and "list_all2 (\<lambda>d e. ad_attrType d = ad_attrType e \<and> ad_attrLen d = ad_attrLen e) ds
      (filter (\<lambda>e. ad_rel e = result) (attr_descs s na))"
    and "selectable s result ns ds (Some d) oper v" "condition (Some d) oper v = Inr flt"
  shows "\<exists>u rs'. interp True jm junk unix s nodes n = Some ([], u) \<and> catalogs_ok u nr na \<and> relation u result rs' \<and>
    (\<forall>n. n \<noteq> result \<longrightarrow> rel_pages u n = rel_pages s n) \<and>
    bag_of (tuples u result rs') = bag_of (tuples s result rs) +
      image_mset (\<lambda>rec. the (project ds rec)) (chosen s (ad_rel (hd ds)) ns flt)"
proof -
  let ?cat = "attr_descs s na" and ?es = "filter (\<lambda>e. ad_rel e = result) (attr_descs s na)" and ?xs = "map (info r) as"
  have R: "ready s" "catalog_ok s ATTRCATNAME sizeof_AttrDesc na" using assms(1) by (simp_all add: catalogs_ok_def)
  have g: "good_name result" "good_name r" "good_name a" "\<forall>x \<in> set as. good_name x" using assms(10) by simp_all
  have len: "length ds = length as" "length ?es = length as"
    using all_described_length [OF assms(11)] list_all2_lengthD [OF assms(13)] by simp_all
  then obtain e es where es: "?es = e # es" using assms(8) by (cases ?es) auto
  obtain s1 where S1: "AttrCatalog_getRelInfo s result = Some (Inr ?es, s1)" "undisturbed s ATTRCATNAME na s1"
    using AttrCatalog_getRelInfo_ok [OF R, of result] g(1) es by (auto simp: good_name_def)
  note U1 = undisturbed_catalog [OF S1(2) R(2)]
  have nm: "\<forall>x \<in> set ?xs. named_ok x" using g by (auto intro: info_named)
  from match_attrs_ok [OF U1(1,2) nm, of ds ?es] assms(11,13) U1(3) obtain s2 where
    M: "match_attrs s1 ?xs ?es = Some (OK, s2)" "undisturbed s1 ATTRCATNAME na s2" by auto
  note U = undisturbed_trans [OF S1(2) M(2)]
  define attr1 where "attr1 = (info r a)\<lparr>ai_attrType := datatype_code ty, ai_attrLen := - 1, ai_attrValue := Some (c_bytes v)\<rparr>"
  have a1: "ai_rel attr1 = r" "ai_attr attr1 = a" "named_ok attr1" "described ?cat attr1 = Inr d"
    using info_names(2-5) [OF g(2,3)] info_named [OF g(2,3)] assms(12) by (simp_all add: attr1_def named_ok_def described_def)
  note C = undisturbed_catalogs [OF assms(1) U] and P = undisturbed_relations [OF R(1) U]
  have c2: "closed_again s ATTRCATNAME s2" "quota s2 = quota s" using U by (simp_all add: undisturbed_def closed_again_def)
  have fr: "6 \<le> card (free_frames (bufMgr s2))" using closed_free_card [OF _ c2(1)] R(1) assms(6) by (simp add: ready_def)
  have plan: "select_plan (attr_descs s2 na) ?xs (Some attr1) = Inr (ds, Some d)"
    using C(3) assms(11) a1(4) by (simp add: select_plan_def)
  have sel: "\<forall>ds' ad. select_plan (attr_descs s2 na) ?xs (Some attr1) = Inr (ds', ad) \<longrightarrow> selectable s2 result ns ds' ad oper v"
    using plan selectable_same [OF P c2(2) assms(14)] by simp
  have nm2: "\<forall>x \<in> set ?xs \<union> set_option (Some attr1). named_ok x" and ne: "?xs \<noteq> []" using nm a1(3) assms(8) by auto
  obtain u rs' where Q: "QU_Select s2 result ?xs (Some attr1) oper v = Some (OK, u)" "catalogs_ok u nr na" "relation u result rs'"
    "\<forall>n. n \<noteq> result \<longrightarrow> rel_pages u n = rel_pages s n"
    "bag_of (tuples u result rs') = bag_of (tuples s result rs) +
      image_mset (\<lambda>rec. the (project ds rec)) (chosen s (ad_rel (hd ds)) ns flt)"
    using QU_Select_ok [OF C(1) P(2) [OF assms(2)] assms(3,4) fr ne nm2 sel, unfolded plan sum.case prod.case assms(15) P(1)] by blast
  obtain lst q qa op val where T: "node_at nodes n = Some (N_QUERY (Some result) lst (Some q))"
    "node_at nodes (Some q) = Some (N_SELECT qa op val)" "node_at nodes qa = Some (N_QUALATTR (Some r) (Some a))" "columns_at nodes lst r as"
    "operator_of op = Some oper" "type_of nodes val = Some ty" "value_of nodes val = Some v" using assms(7) by (auto simp: select_tree_def)
  have "select_where s1 nodes result (Some ?es) lst qa op val = Some ([], u)"
    using T mk_attrnames_ok [OF T(4) assms(8,9), of "Some r" s1] name_infos_ok [OF g(2,4)] info_names(1) [OF g(2,3)] M(1) Q(1) len assms(5)
    by (simp add: select_where_def make_result_def finish_query_def report_def attr1_def)
  then have "interp True jm junk unix s nodes n = Some ([], u)"
    using T(1,2) S1(1) by (simp add: interp_def interp_command_def interp_query_def query_body_def)
  then show ?thesis using Q(2-5) by blast
qed

subsection \<open>Files with given records\<close>

definition page_of :: "byte list list \<Rightarrow> memory" where
  "page_of rs = foldl (\<lambda>p r. snd (Page_insertRecord p r)) demo_data rs"

definition pages_of :: "byte list list \<Rightarrow> memory list" where
  "pages_of rs = [set_numPages 3 (set_firstPage 1 header_init), set_hdr_recCnt (int (length rs)) demo_hdr, page_of rs]"

lemma page_of_ok:
  assumes "(\<Sum>r \<leftarrow> rs. length r + 4) \<le> 1004" "\<forall>r \<in> set rs. r \<noteq> []"
  shows "page_inv (page_of rs) \<and> curPage (page_of rs) = 2 \<and> nextPage (page_of rs) = - 1 \<and>
    bag_of (contents (page_of rs)) = mset rs \<and> int (1004 - (\<Sum>r \<leftarrow> rs. length r + 4)) \<le> freeSpace (page_of rs)"
  using assms
proof (induction rs rule: rev_induct)
  case Nil
  then show ?case
    by (simp add: page_of_def demo_data_def setNextPage_inv setNextPage_contents Page_init_inv Page_init_contents
        slot_simps Page_init_fields PAGESIZE_def DPFIXED_eq bag_of_def)
next
  case (snoc r rs)
  let ?p = "page_of rs"
  have I: "page_inv ?p" "curPage ?p = 2" "nextPage ?p = - 1" "bag_of (contents ?p) = mset rs"
    "int (1004 - (\<Sum>r \<leftarrow> rs. length r + 4)) \<le> freeSpace ?p" using snoc by simp_all
  have f: "int (length r) + 4 \<le> freeSpace ?p" using I(5) snoc.prems(1) by simp
  obtain x where x: "Page_insertRecord ?p r = (x, page_of (rs @ [r]))" by (metis page_of_def foldl_append foldl_Cons foldl_Nil prod.collapse)
  note E = insert_effect [OF I(1) f x]
  have "contents ?p (- insert_slot ?p) = None" using insert_slot_spec(3) [OF I(1)] contents_dom [of ?p "- insert_slot ?p"] by auto
  then have "bag_of (contents (page_of (rs @ [r]))) = add_mset r (mset rs)"
    using insert_contents [OF I(1) f x] bag_of_upd [OF finite_contents, of ?p] I(4) by simp
  moreover have "page_inv (page_of (rs @ [r]))" using insert_inv [OF I(1) f x] snoc.prems(2) by simp
  ultimately show ?case using E(4-6) I(2,3,5) snoc.prems(1) by auto
qed

lemma bag_of_page: "bag_of (\<lambda>r. if rid_pageNo r = n then c (rid_slotNo r) else None) = bag_of c"
proof -
  have d: "dom (\<lambda>r. if rid_pageNo r = n then c (rid_slotNo r) else None) = RID n ` dom c"
  proof (rule set_eqI)
    fix r
    show "r \<in> dom (\<lambda>r. if rid_pageNo r = n then c (rid_slotNo r) else None) \<longleftrightarrow> r \<in> RID n ` dom c"
      by (cases r) (auto split: if_splits)
  qed
  have "mset_set (RID n ` dom c) = image_mset (RID n) (mset_set (dom c))" by (rule image_mset_mset_set [symmetric]) (simp add: inj_on_def)
  then show ?thesis unfolding bag_of_def d by (simp add: image_mset.compositionality comp_def)
qed

lemma pages_of_ok:
  assumes "(\<Sum>r \<leftarrow> rs. length r + 4) \<le> 1004" "\<forall>r \<in> set rs. r \<noteq> []"
  shows "file_wf (pages_of rs)" "heap_wf (file_map (pages_of rs)) 1 [2]" "bag_of (heap_recs (file_map (pages_of rs)) [2]) = mset rs"
proof -
  have wf: "file_wf (pages_of rs) \<and> free_list (pages_of rs) = []"
    by (rule file_wfI) (simp_all add: pages_of_def header_init_fields)
  then show "file_wf (pages_of rs)" by blast
  have pg: "file_map (pages_of rs) 1 = Some (set_hdr_recCnt (int (length rs)) demo_hdr)" "file_map (pages_of rs) 2 = Some (page_of rs)"
    using wf by (simp_all add: file_map_def) (simp_all add: pages_of_def)
  note P = page_of_ok [OF assms]
  have c: "card (dom (contents (page_of rs))) = length rs"
    using P finite_contents [of "page_of rs"] by (metis bag_of_def size_image_mset size_mset size_mset_set)
  have "length rs \<le> (\<Sum>r \<leftarrow> rs. length r + 4)" by (induction rs) auto
  then have "int (length rs) < 2 ^ 31" using assms(1) by simp
  then show "heap_wf (file_map (pages_of rs)) 1 [2]"
    using P c by (simp add: heap_wf_def pg rec_count_def) (simp add: demo_hdr_def)
  have "heap_recs (file_map (pages_of rs)) [2] = (\<lambda>r. if rid_pageNo r = 2 then contents (page_of rs) (rid_slotNo r) else None)"
    using pg(2) by (auto simp: heap_recs_def fun_eq_iff)
  then show "bag_of (heap_recs (file_map (pages_of rs)) [2]) = mset rs" using P bag_of_page [of 2 "contents (page_of rs)"] by simp
qed

text \<open>
  A database in which \<open>r\<close> and \<open>t\<close> are described, both with an integer \<open>a\<close>; \<open>r\<close> holds the record 5.
\<close>

definition demo_attr_t :: AttrDesc where
  "demo_attr_t = demo_attr\<lparr>ad_relName := strcpy (replicate MAXNAME 0) ''t''\<rparr>"

definition demo_attrcat :: "memory list" where
  "demo_attrcat = pages_of [AttrDesc_bytes demo_attr, AttrDesc_bytes demo_attr_t]"

definition demo_both :: dsys where
  "demo_both = demo_select\<lparr>files := (files demo_select)(ATTRCATNAME \<mapsto> demo_attrcat)\<rparr>"

lemma demo_attr_t: "AttrDesc_wf demo_attr_t" "ad_rel demo_attr_t = ''t''" "ad_attr demo_attr_t = ''a''"
  by code_simp+

lemma length_AttrDesc_bytes: "AttrDesc_wf d \<Longrightarrow> length (AttrDesc_bytes d) = 76"
  by (simp add: AttrDesc_bytes_def AttrDesc_wf_def MAXNAME_def)

lemma demo_attrcat_ok: "file_wf demo_attrcat" "heap_wf (file_map demo_attrcat) 1 [2]"
  "bag_of (heap_recs (file_map demo_attrcat) [2]) = {#AttrDesc_bytes demo_attr, AttrDesc_bytes demo_attr_t#}"
proof -
  note L = length_AttrDesc_bytes [OF demo_attr(1)] length_AttrDesc_bytes [OF demo_attr_t(1)]
  have "(\<Sum>r \<leftarrow> [AttrDesc_bytes demo_attr, AttrDesc_bytes demo_attr_t]. length r + 4) \<le> 1004"
    "\<forall>r \<in> set [AttrDesc_bytes demo_attr, AttrDesc_bytes demo_attr_t]. r \<noteq> []" using L by auto
  note P = pages_of_ok [OF this]
  show "file_wf demo_attrcat" "heap_wf (file_map demo_attrcat) 1 [2]"
    "bag_of (heap_recs (file_map demo_attrcat) [2]) = {#AttrDesc_bytes demo_attr, AttrDesc_bytes demo_attr_t#}"
    using P by (simp_all add: demo_attrcat_def)
qed

lemma demo_both_ok:
  obtains nr na where "catalogs_ok demo_both nr na" "mset (attr_descs demo_both na) = {#demo_attr, demo_attr_t#}"
    "quota demo_both = 4" "relation demo_both ''r'' [2]" "tuples demo_both ''r'' [2] = [RID 2 0 \<mapsto> [5, 0, 0, 0]]"
    "relation demo_both ''t'' [2]" "tuples demo_both ''t'' [2] = Map.empty" "rel_pages demo_both ''t'' = file_map demo_heap_pages"
    "6 \<le> card (free_frames (bufMgr demo_both))"
proof -
  obtain nr na where F: "catalogs_ok demo_select nr na" "quota demo_select = 4"
    "relation demo_select ''r'' [2]" "tuples demo_select ''r'' [2] = [RID 2 0 \<mapsto> [5, 0, 0, 0]]"
    "relation demo_select ''t'' [2]" "tuples demo_select ''t'' [2] = Map.empty" "rel_pages demo_select ''t'' = file_map demo_heap_pages"
    "6 \<le> card (free_frames (bufMgr demo_select))" "\<forall>n. oft_map (openFiles demo_select) n = None" by (rule demo_select_ok)
  have f: "openFiles demo_both = openFiles demo_select" "bufMgr demo_both = bufMgr demo_select" "quota demo_both = 4"
    using F(2) by (simp_all add: demo_both_def)
  have o: "oft_map (openFiles demo_select) ATTRCATNAME = None" using F(9) by simp
  have w: "\<And>ps. Some demo_attrcat = Some ps \<Longrightarrow> file_wf ps" using demo_attrcat_ok(1) by simp
  have "ready demo_select" using F(1) by (simp add: catalogs_ok_def)
  note A = closed_file_ready [OF this o demo_both_def]
  have names: "''r'' \<noteq> ATTRCATNAME" "''t'' \<noteq> ATTRCATNAME" by (simp_all add: ATTRCATNAME_def)
  have rp: "rel_pages demo_both ATTRCATNAME = file_map demo_attrcat"
    unfolding rel_pages_def f(1) o by (simp add: demo_both_def)
  have rel: "relation demo_both ATTRCATNAME [2]"
    using rp demo_attrcat_ok(2) o f(1) by (simp add: relation_def ATTRCATNAME_def)
  have e: "mset (entries demo_both ATTRCATNAME [2]) = {#AttrDesc_bytes demo_attr, AttrDesc_bytes demo_attr_t#}"
    using scan_bag [OF rel, of None] demo_attrcat_ok(3) rp by (simp add: entries_def matchRec_def)
  have "length b = sizeof_AttrDesc" if "b \<in> set (entries demo_both ATTRCATNAME [2])" for b
  proof -
    have "b \<in># {#AttrDesc_bytes demo_attr, AttrDesc_bytes demo_attr_t#}" using that e by (metis set_mset_mset)
    then show ?thesis using length_AttrDesc_bytes demo_attr(1) demo_attr_t(1) by (auto simp: sizeof_AttrDesc_def)
  qed
  then have "catalogs_ok demo_both nr [2]"
    using A(1) [OF w] A(2,3) [OF w names_differ(1)] F(1) rel by (simp add: catalogs_ok_def catalog_ok_def entries_def)
  moreover have "mset (attr_descs demo_both [2]) = {#demo_attr, demo_attr_t#}"
    unfolding attr_descs_def mset_map e using AttrDesc_round demo_attr(1) demo_attr_t(1) by simp
  ultimately show ?thesis
    using that [of nr "[2]"] f A(2,3) [OF w names(1)] A(2,3) [OF w names(2)] F(3-8) by simp
qed

end
