(* ===== verification/JoinHT.thy ===== *)
theory JoinHT
  imports Clib Catalog_Ops
begin

text \<open>
  The hash table for joins (\<open>src/src/joinHT.h\<close>, \<open>src/src/joinHT.C\<close>): record identifiers by the value
  of one attribute, with duplicates. A table is an array of chains with their lengths.

  Pointers to attribute values are the bytes from there on. \<open>None\<close> is undefined behaviour: bytes
  behind the end of what was given, a division by zero, a float that no \<open>int\<close> can hold, more
  results than the result array has room for. Signed overflow wraps around.
\<close>

subsection \<open>Float arithmetic\<close>

text \<open>The fraction \<open>n / d\<close> with a sign as a \<open>float\<close>, to the nearest.\<close>

definition float_round :: "bool \<Rightarrow> int \<Rightarrow> int \<Rightarrow> float_val" where
  "float_round neg n d =
     (if n = 0 then FNum 0
      else
        (case round_bits 24 (- 149) n d of (m, e) \<Rightarrow>
           if 255 * 2 ^ 23 \<le> (e + 149) * 2 ^ 23 + m then FInf neg
           else FNum ((if neg then - 1 else 1) * m * 2 ^ nat (e + 149))))"

definition float_of_int :: "int \<Rightarrow> float_val" where
  "float_of_int i = float_round (i < 0) \<bar>i\<bar> 1"

fun float_mult :: "float_val \<Rightarrow> float_val \<Rightarrow> float_val" where
  "float_mult (FNum a) (FNum b) = float_round (a * b < 0) \<bar>a * b\<bar> (2 ^ 298)"
| "float_mult (FInf n) (FInf m) = FInf (n \<noteq> m)"
| "float_mult (FInf n) (FNum b) = (if b = 0 then FNaN else FInf (n \<noteq> (b < 0)))"
| "float_mult (FNum a) (FInf m) = (if a = 0 then FNaN else FInf ((a < 0) \<noteq> m))"
| "float_mult _ _ = FNaN"

text \<open>Conversion to \<open>int\<close>, towards zero.\<close>

fun float_to_int :: "float_val \<Rightarrow> int option" where
  "float_to_int (FNum v) =
     (let i = sgn v * (\<bar>v\<bar> div 2 ^ 149) in if - (2 ^ 31) \<le> i \<and> i < 2 ^ 31 then Some i else None)"
| "float_to_int _ = None"

fun float_eq :: "float_val \<Rightarrow> float_val \<Rightarrow> bool" where
  "float_eq (FNum a) (FNum b) = (a = b)"
| "float_eq (FInf n) (FInf m) = (n = m)"
| "float_eq _ _ = False"

subsection \<open>Structures\<close>

datatype JAttrType = IValue int | FValue "byte list" | SValue "byte list" | NoValue

record joinhashBucket =
  jb_attrValue :: JAttrType
  jb_rid :: RID

record HTentry =
  bucketCnt :: int
  chain :: "joinhashBucket list"

record joinHashTbl =
  joinAttr :: AttrDesc
  jt_HTSIZE :: int
  jt_ht :: "HTentry list"

subsection \<open>Operations\<close>

definition joinHashTbl_init :: "int \<Rightarrow> AttrDesc \<Rightarrow> joinHashTbl option" where
  "joinHashTbl_init htSize attr =
     (if htSize < 0 then None
      else Some \<lparr>joinAttr = attr, jt_HTSIZE = htSize, jt_ht = replicate (nat htSize) \<lparr>bucketCnt = 0, chain = []\<rparr>\<rparr>)"

text \<open>
  The loop over a string. The character that is added is the one behind the character that was
  tested, so that the first one does not count and the terminator does.
\<close>

fun hash_string :: "int \<Rightarrow> byte list \<Rightarrow> int option" where
  "hash_string val [] = None"
| "hash_string val (c # cs) =
     (if c = 0 then Some val
      else (case cs of [] \<Rightarrow> None | d # _ \<Rightarrow> hash_string (swrap 32 (31 * val + swrap 8 (uint d))) cs))"

definition hash_value :: "int \<Rightarrow> byte list \<Rightarrow> int \<Rightarrow> int option" where
  "hash_value htSize attrPtr attrType =
     (if attrType = datatype_code INTEGER then
        if length attrPtr < 4 then None
        else Some (swrap 32 (swrap 32 (int_at attrPtr 0 * htSize) * 31))
      else if attrType = datatype_code FLOAT then
        if length attrPtr < 4 then None
        else float_to_int (float_mult (float_mult (float_of_bytes attrPtr) (float_of_int htSize)) (float_of_int 31))
      else if attrType = datatype_code STRING then hash_string 0 attrPtr
      else Some 0)"

definition joinHashTbl_hash :: "joinHashTbl \<Rightarrow> byte list \<Rightarrow> int \<Rightarrow> int option" where
  "joinHashTbl_hash t attrPtr attrType =
     (if jt_HTSIZE t = 0 then None
      else map_option (\<lambda>val. \<bar>c_rem val (jt_HTSIZE t)\<bar>) (hash_value (jt_HTSIZE t) attrPtr attrType))"

definition join_value :: "AttrDesc \<Rightarrow> byte list \<Rightarrow> JAttrType option" where
  "join_value attr joinAttrPtr =
     (if ad_attrType attr = datatype_code INTEGER then Some (IValue (int_at joinAttrPtr 0))
      else if ad_attrType attr = datatype_code FLOAT then Some (FValue (take 4 joinAttrPtr))
      else if ad_attrType attr = datatype_code STRING then
        if ad_attrLen attr < 0 \<or> int (length joinAttrPtr) < ad_attrLen attr then None
        else Some (SValue (take (nat (ad_attrLen attr)) joinAttrPtr))
      else Some NoValue)"

definition joinHashTbl_insert :: "joinHashTbl \<Rightarrow> RID \<Rightarrow> byte list \<Rightarrow> (Status \<times> joinHashTbl) option" where
  "joinHashTbl_insert t newRid tuple =
     (let joinAttrPtr = drop (nat (ad_attrOffset (joinAttr t))) tuple
      in if ad_attrOffset (joinAttr t) < 0 then None
         else case (joinHashTbl_hash t joinAttrPtr (ad_attrType (joinAttr t)), join_value (joinAttr t) joinAttrPtr) of
           (Some index, Some v) \<Rightarrow>
             (let e = jt_ht t ! nat index
              in Some (OK, t\<lparr>jt_ht := (jt_ht t)[nat index :=
                   \<lparr>bucketCnt = swrap 32 (bucketCnt e + 1), chain = \<lparr>jb_attrValue = v, jb_rid = newRid\<rparr> # chain e\<rparr>]\<rparr>))
         | _ \<Rightarrow> None)"

text \<open>The comparison with the value in a bucket.\<close>

definition bucket_matches :: "AttrDesc \<Rightarrow> byte list \<Rightarrow> joinhashBucket \<Rightarrow> bool" where
  "bucket_matches attr innerJoinAttrPtr b =
     (case jb_attrValue b of
        IValue i \<Rightarrow> i = int_at innerJoinAttrPtr 0
      | FValue bs \<Rightarrow> float_eq (float_of_bytes bs) (float_of_bytes innerJoinAttrPtr)
      | SValue bs \<Rightarrow> strncmp (nat (ad_attrLen attr)) bs innerJoinAttrPtr = 0
      | NoValue \<Rightarrow> False)"

fun lookup_loop :: "AttrDesc \<Rightarrow> byte list \<Rightarrow> joinhashBucket list \<Rightarrow> RID list \<Rightarrow> RID list" where
  "lookup_loop attr innerJoinAttrPtr [] outRids = outRids"
| "lookup_loop attr innerJoinAttrPtr (b # bs) outRids =
     lookup_loop attr innerJoinAttrPtr bs
       (if bucket_matches attr innerJoinAttrPtr b then outRids @ [jb_rid b] else outRids)"

definition joinHashTbl_lookup :: "joinHashTbl \<Rightarrow> byte list \<Rightarrow> (Status \<times> RID list) option" where
  "joinHashTbl_lookup t innerJoinAttrPtr =
     (case joinHashTbl_hash t innerJoinAttrPtr (ad_attrType (joinAttr t)) of
        None \<Rightarrow> None
      | Some index \<Rightarrow>
          (let e = jt_ht t ! nat index; outRids = lookup_loop (joinAttr t) innerJoinAttrPtr (chain e) []
           in if bucketCnt e < int (length outRids) then None else Some (OK, outRids)))"

subsection \<open>Hash values of equal keys\<close>

text \<open>The bytes of an attribute from which it can be hashed and compared.\<close>

definition hashable_value :: "int \<Rightarrow> AttrDesc \<Rightarrow> byte list \<Rightarrow> bool" where
  "hashable_value htSize attr bs \<longleftrightarrow>
     (if ad_attrType attr = datatype_code STRING then
        0 \<le> ad_attrLen attr \<and> ad_attrLen attr \<le> int (length bs) \<and> 0 \<in> set (take (nat (ad_attrLen attr)) bs)
      else hash_value htSize bs (ad_attrType attr) \<noteq> None)"

text \<open>Equality of attribute values: as integers, as floats, as strings.\<close>

definition same_value :: "AttrDesc \<Rightarrow> byte list \<Rightarrow> byte list \<Rightarrow> bool" where
  "same_value attr a b \<longleftrightarrow>
     (if ad_attrType attr = datatype_code INTEGER then int_at a 0 = int_at b 0
      else if ad_attrType attr = datatype_code FLOAT then float_eq (float_of_bytes a) (float_of_bytes b)
      else ad_attrType attr = datatype_code STRING \<and> c_string a = c_string b)"

lemma hash_string_terminated: "0 \<in> set bs \<Longrightarrow> \<exists>h. hash_string v bs = Some h"
proof (induction v bs rule: hash_string.induct)
  case (2 v c cs)
  show ?case
  proof (cases "c = 0")
    case False
    then obtain d ds where "cs = d # ds" "0 \<in> set cs" using "2.prems" by (cases cs) auto
    then show ?thesis using "2.IH" [OF False, of d ds] False by simp
  qed simp
qed simp

lemma hash_string_prefix:
  "0 \<in> set a \<Longrightarrow> 0 \<in> set b \<Longrightarrow> takeWhile (\<lambda>c. c \<noteq> 0) a = takeWhile (\<lambda>c. c \<noteq> 0) b \<Longrightarrow> hash_string v a = hash_string v b"
proof (induction v a arbitrary: b rule: hash_string.induct)
  case (2 v c cs)
  obtain d ds where b: "b = d # ds" using "2.prems"(2) by (cases b) auto
  show ?case
  proof (cases "c = 0")
    case True
    then show ?thesis using "2.prems"(3) b by (auto split: if_splits)
  next
    case False
    then have d: "d = c" "d \<noteq> 0" "takeWhile (\<lambda>c. c \<noteq> 0) cs = takeWhile (\<lambda>c. c \<noteq> 0) ds" using "2.prems"(3) b by (auto split: if_splits)
    have z: "0 \<in> set cs" "0 \<in> set ds" using "2.prems"(1,2) False d(2) b by auto
    then obtain x xs y ys where e: "cs = x # xs" "ds = y # ys" by (cases cs; cases ds) auto
    have "x = y" using d(3) e by (auto split: if_splits)
    then show ?thesis using "2.IH" [OF False e(1) z d(3)] False d(1,2) b e by simp
  qed
qed simp

lemma strncmp_zero_iff:
  "0 \<in> set (take n a) \<Longrightarrow> 0 \<in> set (take n b) \<Longrightarrow>
    strncmp n a b = 0 \<longleftrightarrow> takeWhile (\<lambda>c. c \<noteq> 0) a = takeWhile (\<lambda>c. c \<noteq> 0) b"
proof (induction n arbitrary: a b)
  case (Suc n)
  obtain x xs y ys where e: "a = x # xs" "b = y # ys" using Suc.prems by (cases a; cases b) auto
  show ?case
  proof (cases "x = y \<and> x \<noteq> 0")
    case True
    then have "0 \<in> set (take n xs)" "0 \<in> set (take n ys)" using Suc.prems e by auto
    then show ?thesis using Suc.IH True e by (simp add: strncmp_Cons del: strncmp.simps)
  next
    case False
    then show ?thesis using e by (auto simp: strncmp_Cons word_uint_eq_iff simp del: strncmp.simps)
  qed
qed simp

lemma takeWhile_take_zero: "0 \<in> set (take n a) \<Longrightarrow> takeWhile (\<lambda>c. c \<noteq> 0) (take n a) = takeWhile (\<lambda>c. c \<noteq> (0::byte)) a"
  using takeWhile_append1 [of 0 "take n a" "\<lambda>c. c \<noteq> 0" "drop n a"] by simp

lemma c_string_eq_iff: "c_string a = c_string b \<longleftrightarrow> takeWhile (\<lambda>c. c \<noteq> 0) a = takeWhile (\<lambda>c. c \<noteq> 0) b"
proof -
  have "inj (\<lambda>b :: byte. char_of (unat b) :: char)" by (rule injI) (metis char_of_byte)
  then show ?thesis by (auto simp: c_string_def inj_map_eq_map)
qed

lemma bytes_le_take: "n \<le> k \<Longrightarrow> bytes_le (take k bs) n = bytes_le bs n"
  unfolding bytes_le_def by (rule get_le_cong) auto

lemma float_of_take: "float_of_bytes (take 4 bs) = float_of_bytes bs"
  by (simp add: float_of_bytes_def bytes_le_take)

lemma float_eq_same: "float_eq x y \<Longrightarrow> x = y"
  by (cases x; cases y) auto

lemma datatype_codes [simp]: "datatype_code STRING = 0" "datatype_code INTEGER = 1" "datatype_code FLOAT = 2"
  by (simp_all add: datatype_code_def)

lemma hashable_hash: "hashable_value n attr bs \<Longrightarrow> \<exists>h. hash_value n bs (ad_attrType attr) = Some h"
  using hash_string_terminated [of bs 0] set_take_subset [of "nat (ad_attrLen attr)" bs]
  by (auto simp: hashable_value_def hash_value_def split: if_splits)

text \<open>What the table relies on: equal values have equal hash values.\<close>

lemma same_value_hash:
  assumes "hashable_value n attr a" "hashable_value n attr b" "same_value attr a b"
  shows "hash_value n a (ad_attrType attr) = hash_value n b (ad_attrType attr)"
proof (cases "ad_attrType attr = 0")
  case True
  have "0 \<in> set a" "0 \<in> set b"
    using assms(1,2) True by (auto simp: hashable_value_def dest: in_set_takeD)
  then show ?thesis using assms(3) True hash_string_prefix [of a b 0]
    by (simp add: hash_value_def same_value_def c_string_eq_iff)
next
  case False
  then show ?thesis using assms float_eq_same
    by (fastforce simp: hash_value_def same_value_def hashable_value_def split: if_splits)
qed

lemma bucket_matches_iff:
  assumes "hashable_value n attr a" "hashable_value n attr b" "join_value attr a = Some v"
  shows "bucket_matches attr b \<lparr>jb_attrValue = v, jb_rid = r\<rparr> \<longleftrightarrow> same_value attr a b"
proof (cases "ad_attrType attr = 0")
  case True
  let ?n = "nat (ad_attrLen attr)"
  have z: "0 \<in> set (take ?n a)" "0 \<in> set (take ?n b)" using assms(1,2) True by (simp_all add: hashable_value_def)
  have "v = SValue (take ?n a)" using assms(1,3) True by (auto simp: join_value_def split: if_splits)
  then show ?thesis using True strncmp_zero_iff [of ?n "take ?n a" b] takeWhile_take_zero [OF z(1)] z
    by (simp add: bucket_matches_def same_value_def c_string_eq_iff)
next
  case False
  then show ?thesis using assms(3)
    by (auto simp: join_value_def bucket_matches_def same_value_def float_of_take split: if_splits)
qed

lemma hashable_join_value: "hashable_value n attr a \<Longrightarrow> \<exists>v. join_value attr a = Some v"
  by (auto simp: hashable_value_def join_value_def split: if_splits)

lemma lookup_loop_filter: "lookup_loop attr k bs out = out @ map jb_rid (filter (bucket_matches attr k) bs)"
  by (induction bs arbitrary: out) auto

subsection \<open>The contents of a table\<close>

fun insert_all :: "joinHashTbl \<Rightarrow> (RID \<times> byte list) list \<Rightarrow> joinHashTbl option" where
  "insert_all t [] = Some t"
| "insert_all t ((rid, tuple) # ts) =
     (case joinHashTbl_insert t rid tuple of None \<Rightarrow> None | Some (_, t) \<Rightarrow> insert_all t ts)"

definition attr_at :: "AttrDesc \<Rightarrow> byte list \<Rightarrow> byte list" where
  "attr_at attr tuple = drop (nat (ad_attrOffset attr)) tuple"

definition bucket_of :: "AttrDesc \<Rightarrow> RID \<times> byte list \<Rightarrow> joinhashBucket" where
  "bucket_of attr e = \<lparr>jb_attrValue = the (join_value attr (attr_at attr (snd e))), jb_rid = fst e\<rparr>"

definition index_of :: "int \<Rightarrow> AttrDesc \<Rightarrow> byte list \<Rightarrow> nat" where
  "index_of n attr bs = nat \<bar>c_rem (the (hash_value n bs (ad_attrType attr))) n\<bar>"

text \<open>A table with the entries \<open>ts\<close>, the last one first.\<close>

definition table_of :: "int \<Rightarrow> AttrDesc \<Rightarrow> (RID \<times> byte list) list \<Rightarrow> joinHashTbl \<Rightarrow> bool" where
  "table_of n attr ts t \<longleftrightarrow> joinAttr t = attr \<and> jt_HTSIZE t = n \<and> length (jt_ht t) = nat n \<and>
     (\<forall>i < nat n. chain (jt_ht t ! i) = map (bucket_of attr) (filter (\<lambda>e. index_of n attr (attr_at attr (snd e)) = i) ts) \<and>
       bucketCnt (jt_ht t ! i) = int (length (chain (jt_ht t ! i))))"

lemma index_of_bound: "0 < n \<Longrightarrow> index_of n attr bs < nat n"
  using c_rem_bound [of n] by (simp add: index_of_def)

lemma hash_index: "0 < n \<Longrightarrow> hashable_value n attr bs \<Longrightarrow> jt_HTSIZE t = n \<Longrightarrow>
    \<exists>i. joinHashTbl_hash t bs (ad_attrType attr) = Some i \<and> nat i = index_of n attr bs"
  using hashable_hash [of n attr bs] by (auto simp: joinHashTbl_hash_def index_of_def)

lemma insert_table:
  assumes "table_of n attr ts t" "0 < n" "0 \<le> ad_attrOffset attr" "hashable_value n attr (attr_at attr tuple)" "length ts < 2 ^ 31 - 1"
  shows "\<exists>t'. joinHashTbl_insert t rid tuple = Some (OK, t') \<and> table_of n attr ((rid, tuple) # ts) t'"
proof -
  have t: "joinAttr t = attr" "jt_HTSIZE t = n" "length (jt_ht t) = nat n" using assms(1) by (simp_all add: table_of_def)
  obtain v where v: "join_value attr (attr_at attr tuple) = Some v" using hashable_join_value [OF assms(4)] by blast
  obtain i where i: "joinHashTbl_hash t (attr_at attr tuple) (ad_attrType attr) = Some i" "nat i = index_of n attr (attr_at attr tuple)"
    using hash_index [OF assms(2,4) t(2)] by blast
  have "nat i < nat n" using i(2) index_of_bound [OF assms(2)] by simp
  then have c: "bucketCnt (jt_ht t ! nat i) = int (length (chain (jt_ht t ! nat i)))"
    "chain (jt_ht t ! nat i) = map (bucket_of attr) (filter (\<lambda>e. index_of n attr (attr_at attr (snd e)) = nat i) ts)"
    using assms(1) by (simp_all add: table_of_def)
  have "length (chain (jt_ht t ! nat i)) \<le> length ts" unfolding c(2) by simp
  then have w: "swrap 32 (bucketCnt (jt_ht t ! nat i) + 1) = bucketCnt (jt_ht t ! nat i) + 1" using assms(5) c(1) by simp
  let ?b = "\<lparr>jb_attrValue = v, jb_rid = rid\<rparr>"
  let ?t = "t\<lparr>jt_ht := (jt_ht t)[nat i := \<lparr>bucketCnt = bucketCnt (jt_ht t ! nat i) + 1, chain = ?b # chain (jt_ht t ! nat i)\<rparr>]\<rparr>"
  have "joinHashTbl_insert t rid tuple = Some (OK, ?t)"
    using assms(3) t(1) i(1) v w by (simp add: joinHashTbl_insert_def attr_at_def Let_def)
  moreover have "bucket_of attr (rid, tuple) = ?b" using v by (simp add: bucket_of_def)
  then have "table_of n attr ((rid, tuple) # ts) ?t"
    using assms(1) i(2) c(1) t by (auto simp: table_of_def nth_list_update)
  ultimately show ?thesis by blast
qed

lemma insert_all_table:
  assumes "table_of n attr us t" "0 < n" "0 \<le> ad_attrOffset attr" "\<forall>(rid, tuple) \<in> set ts. hashable_value n attr (attr_at attr tuple)"
    and "length us + length ts < 2 ^ 31"
  shows "\<exists>t'. insert_all t ts = Some t' \<and> table_of n attr (rev ts @ us) t'"
  using assms
proof (induction ts arbitrary: t us)
  case (Cons e ts)
  obtain rid tuple where e: "e = (rid, tuple)" by (cases e)
  obtain t1 where "joinHashTbl_insert t rid tuple = Some (OK, t1)" "table_of n attr (e # us) t1"
    using insert_table [OF Cons.prems(1-3), of tuple rid] Cons.prems(4,5) e by auto
  then show ?case using Cons.IH [of "e # us" t1] Cons.prems(2-5) e by auto
qed simp

lemma lookup_table:
  assumes "table_of n attr ts t" "0 < n" "hashable_value n attr ky" "\<forall>(rid, tuple) \<in> set ts. hashable_value n attr (attr_at attr tuple)"
  shows "joinHashTbl_lookup t ky = Some (OK, map fst (filter (\<lambda>(rid, tuple). same_value attr (attr_at attr tuple) ky) ts))"
proof -
  have t: "joinAttr t = attr" "jt_HTSIZE t = n" using assms(1) by (simp_all add: table_of_def)
  obtain i where i: "joinHashTbl_hash t ky (ad_attrType attr) = Some i" "nat i = index_of n attr ky"
    using hash_index [OF assms(2,3) t(2)] by blast
  have c: "chain (jt_ht t ! nat i) = map (bucket_of attr) (filter (\<lambda>e. index_of n attr (attr_at attr (snd e)) = nat i) ts)"
    "bucketCnt (jt_ht t ! nat i) = int (length (chain (jt_ht t ! nat i)))"
    using assms(1) i(2) index_of_bound [OF assms(2)] by (simp_all add: table_of_def)
  have m: "bucket_matches attr ky (bucket_of attr e) \<longleftrightarrow> same_value attr (attr_at attr (snd e)) ky" if "e \<in> set ts" for e
  proof -
    have h: "hashable_value n attr (attr_at attr (snd e))" using assms(4) that by auto
    then obtain v where "join_value attr (attr_at attr (snd e)) = Some v" using hashable_join_value by blast
    then show ?thesis using bucket_matches_iff [OF h assms(3)] by (simp add: bucket_of_def)
  qed
  have s: "index_of n attr (attr_at attr (snd e)) = nat i" if "e \<in> set ts" "same_value attr (attr_at attr (snd e)) ky" for e
    using same_value_hash [OF _ assms(3) that(2)] assms(4) that(1) i(2) by (fastforce simp: index_of_def)
  have "filter (bucket_matches attr ky) (chain (jt_ht t ! nat i)) =
      map (bucket_of attr) (filter (\<lambda>e. same_value attr (attr_at attr (snd e)) ky) ts)"
    unfolding c(1) filter_map filter_filter using m s by (auto intro!: arg_cong [where f = "map _"] filter_cong)
  then have "lookup_loop attr ky (chain (jt_ht t ! nat i)) [] = map fst (filter (\<lambda>e. same_value attr (attr_at attr (snd e)) ky) ts)"
    by (simp add: lookup_loop_filter bucket_of_def)
  moreover have "length (lookup_loop attr ky (chain (jt_ht t ! nat i)) []) \<le> length (chain (jt_ht t ! nat i))"
    by (simp add: lookup_loop_filter)
  ultimately show ?thesis using i(1) t(1) c(2) by (simp add: joinHashTbl_lookup_def Let_def case_prod_unfold)
qed

lemma init_table: "0 \<le> n \<Longrightarrow> \<exists>t. joinHashTbl_init n attr = Some t \<and> table_of n attr [] t"
  by (simp add: joinHashTbl_init_def table_of_def)

subsection \<open>Properties\<close>

text \<open>
  C37. For values that can be hashed, the join hash table agrees with a linear search. Integers can
  be hashed always, floats when their product with 31 times the size of the table fits in an int,
  strings when they have a terminator inside of the attribute. After any sequence of insertions of
  such values a lookup of such a value returns exactly the identifiers of the tuples whose attribute
  has the value looked up, each as often as it was inserted, the last one first, whatever the hash
  values are; the result array is never too small. Strings that fill their attribute are outside of
  this: \<open>joinHashTbl_string_missed\<close> below shows that they can be missed.
\<close>

theorem joinHashTbl_lookup_correct:
  assumes "0 < n" "0 \<le> ad_attrOffset attr" "length ts < 2 ^ 31" "hashable_value n attr ky"
    and "\<forall>(rid, tuple) \<in> set ts. hashable_value n attr (attr_at attr tuple)"
  shows "\<exists>t u. joinHashTbl_init n attr = Some t \<and> insert_all t ts = Some u \<and>
    joinHashTbl_lookup u ky = Some (OK, map fst (filter (\<lambda>(rid, tuple). same_value attr (attr_at attr tuple) ky) (rev ts)))"
proof -
  obtain t where t: "joinHashTbl_init n attr = Some t" "table_of n attr [] t" using init_table [of n attr] assms(1) by auto
  then obtain u where "insert_all t ts = Some u" "table_of n attr (rev ts) u"
    using insert_all_table [OF t(2) assms(1,2,5)] assms(3) by auto
  then show ?thesis using t(1) lookup_table [OF _ assms(1,4)] assms(5) by auto
qed

definition demo_join_attr :: AttrDesc where
  "demo_join_attr = \<lparr>ad_relName = [], ad_attrName = [], ad_attrOffset = 4, ad_attrType = 1, ad_attrLen = 4\<rparr>"

theorem joinHashTbl_lookup_correct_witness:
  "\<exists>t u. joinHashTbl_init 7 demo_join_attr = Some t \<and>
     insert_all t [(RID 1 0, [0, 0, 0, 0, 5, 0, 0, 0]), (RID 1 1, [0, 0, 0, 0, 6, 0, 0, 0]), (RID 2 0, [9, 0, 0, 0, 5, 0, 0, 0])] = Some u \<and>
     joinHashTbl_lookup u [5, 0, 0, 0] = Some (OK, [RID 2 0, RID 1 0])"
proof -
  let ?ts = "[(RID 1 0, [0, 0, 0, 0, 5, 0, 0, 0]), (RID 1 1, [0, 0, 0, 0, 6, 0, 0, 0]), (RID 2 0, [9, 0, 0, 0, 5, 0, 0, 0 :: byte])]"
  have h: "hashable_value 7 demo_join_attr [5, 0, 0, 0]" "\<forall>(rid, tuple) \<in> set ?ts. hashable_value 7 demo_join_attr (attr_at demo_join_attr tuple)"
    by code_simp+
  have f: "map fst (filter (\<lambda>(rid, tuple). same_value demo_join_attr (attr_at demo_join_attr tuple) [5, 0, 0, 0]) (rev ?ts)) = [RID 2 0, RID 1 0]"
    by code_simp
  have "0 \<le> ad_attrOffset demo_join_attr" by (simp add: demo_join_attr_def)
  then show ?thesis using joinHashTbl_lookup_correct [OF _ _ _ h(1) h(2), unfolded f] by simp
qed

text \<open>
  The hash function does not spread integers: as long as its products do not overflow, every
  integer has the hash value 0, and the table is a single list.
\<close>

theorem joinHashTbl_hash_integers:
  assumes "0 < n" "joinHashTbl_init n attr = Some t" "4 \<le> length bs" "\<bar>int_at bs 0\<bar> * n * 31 < 2 ^ 31"
  shows "joinHashTbl_hash t bs (datatype_code INTEGER) = Some 0"
proof -
  let ?i = "int_at bs 0"
  have t: "jt_HTSIZE t = n" using assms(1,2) by (auto simp: joinHashTbl_init_def)
  have b: "\<bar>?i * n * 31\<bar> < 2 ^ 31" using assms(1,4) by (simp add: abs_mult)
  then have "\<bar>?i * n\<bar> < 2 ^ 31" by simp
  then have "hash_value n bs 1 = Some (?i * n * 31)" using b assms(3) by (simp add: hash_value_def)
  moreover have "c_rem (?i * n * 31) n = 0" by (simp add: c_rem_def abs_mult)
  ultimately show ?thesis using t assms(1) by (simp add: joinHashTbl_hash_def)
qed

theorem joinHashTbl_hash_integers_witness:
  "\<exists>t. joinHashTbl_init 7 demo_join_attr = Some t \<and> joinHashTbl_hash t [5, 0, 0, 0] 1 = Some 0 \<and> joinHashTbl_hash t [6, 0, 0, 0] 1 = Some 0"
proof -
  obtain t where t: "joinHashTbl_init 7 demo_join_attr = Some t" by (simp add: joinHashTbl_init_def)
  have i: "int_at [5, 0, 0, 0] 0 = 5" "int_at [6, 0, 0, 0] 0 = 6" by code_simp+
  show ?thesis using t joinHashTbl_hash_integers [OF _ t, of "[5, 0, 0, 0]"] joinHashTbl_hash_integers [OF _ t, of "[6, 0, 0, 0]"] i by simp
qed

text \<open>
  A string that fills its attribute has no terminator in it, and its hash value then depends on the
  attributes behind it: two tuples with the same string are in different chains, although the
  comparison of the table takes the strings for equal.
\<close>

definition demo_join_string :: AttrDesc where
  "demo_join_string = \<lparr>ad_relName = [], ad_attrName = [], ad_attrOffset = 0, ad_attrType = 0, ad_attrLen = 2\<rparr>"

lemma joinHashTbl_string_missed:
  "Option.bind (joinHashTbl_init 7 demo_join_string)
     (\<lambda>t. Option.bind (insert_all t [(RID 1 0, [97, 98, 1, 0])]) (\<lambda>u. joinHashTbl_lookup u [97, 98, 2, 0])) = Some (OK, [])"
  "strncmp 2 [97, 98, 1, 0] [97, 98, 2, 0] = 0"
  by code_simp+

subsection \<open>The comparison of records in \<open>join.C\<close>\<close>

fun float_sub :: "float_val \<Rightarrow> float_val \<Rightarrow> float_val" where
  "float_sub (FNum a) (FNum b) = float_round (a < b) \<bar>a - b\<bar> (2 ^ 149)"
| "float_sub (FInf n) (FInf m) = (if n = m then FNaN else FInf n)"
| "float_sub (FInf n) (FNum b) = FInf n"
| "float_sub (FNum a) (FInf m) = FInf (\<not> m)"
| "float_sub _ _ = FNaN"

fun strcmp :: "byte list \<Rightarrow> byte list \<Rightarrow> int option" where
  "strcmp (a # as) (b # bs) = (if a \<noteq> b then Some (uint a - uint b) else if a = 0 then Some 0 else strcmp as bs)"
| "strcmp _ _ = None"

definition join_matchRec :: "byte list \<Rightarrow> byte list \<Rightarrow> AttrDesc \<Rightarrow> AttrDesc \<Rightarrow> int option" where
  "join_matchRec outerRec innerRec attrDesc1 attrDesc2 =
     (if ad_attrOffset attrDesc1 < 0 \<or> ad_attrOffset attrDesc2 < 0 then None
      else
        (let a = attr_at attrDesc1 outerRec; b = attr_at attrDesc2 innerRec
         in if ad_attrType attrDesc1 = datatype_code INTEGER then
              if length a < 4 \<or> length b < 4 then None else Some (swrap 32 (int_at a 0 - int_at b 0))
            else if ad_attrType attrDesc1 = datatype_code FLOAT then
              if length a < 4 \<or> length b < 4 then None else float_to_int (float_sub (float_of_bytes a) (float_of_bytes b))
            else if ad_attrType attrDesc1 = datatype_code STRING then strcmp a b
            else Some 0))"

text \<open>
  The difference of two floats is cut down to an integer, so that 1.0 and 1.5 compare as equal.
\<close>

definition demo_join_float :: AttrDesc where
  "demo_join_float = \<lparr>ad_relName = [], ad_attrName = [], ad_attrOffset = 0, ad_attrType = 2, ad_attrLen = 4\<rparr>"

lemma join_matchRec_floats: "join_matchRec [0, 0, 128, 63] [0, 0, 192, 63] demo_join_float demo_join_float = Some 0"
  by code_simp

end
