(* ===== verification/Scanhelp.thy ===== *)
theory Scanhelp
  imports Catalog_Ops
begin

text \<open>
  The helpers of the scanner (\<open>src/src/parser/scanhelp.C\<close>, with the token codes of
  \<open>src/src/parser/y.tab.h\<close>): reserved words, and the pool from which the strings of a query are
  allocated.

  A pointer into the pool is an index; what is behind a pointer into the scanner's own text is the
  list of bytes from there on. \<open>None\<close> is the end of the program, by \<open>exit\<close> when the pool is used up,
  or by a write or read outside of an array.
\<close>

subsection \<open>Tokens\<close>

datatype token =
    RW_CREATE | RW_BUILD | RW_REBUILD | RW_DROP | RW_DESTROY | RW_PRINT | RW_LOAD | RW_HELP | RW_QUIT
  | RW_SELECT | RW_INTO | RW_WHERE | RW_INSERT | RW_DELETE | RW_PRIMARY | RW_NUMBUCKETS | RW_ALL | RW_FROM
  | RW_AS | RW_TABLE | RW_AND | RW_OR | RW_NOT | RW_VALUES | INT_TYPE | REAL_TYPE | CHAR_TYPE
  | T_EQ | T_LT | T_LE | T_GT | T_GE | T_NE | T_EOF | T_STAR | NOTOKEN | T_INT | T_REAL | T_STRING
  | T_QSTRING | T_SHELL_CMD

definition token_order :: "token list" where
  "token_order =
     [RW_CREATE, RW_BUILD, RW_REBUILD, RW_DROP, RW_DESTROY, RW_PRINT, RW_LOAD, RW_HELP, RW_QUIT,
      RW_SELECT, RW_INTO, RW_WHERE, RW_INSERT, RW_DELETE, RW_PRIMARY, RW_NUMBUCKETS, RW_ALL, RW_FROM,
      RW_AS, RW_TABLE, RW_AND, RW_OR, RW_NOT, RW_VALUES, INT_TYPE, REAL_TYPE, CHAR_TYPE,
      T_EQ, T_LT, T_LE, T_GT, T_GE, T_NE, T_EOF, T_STAR, NOTOKEN, T_INT, T_REAL, T_STRING,
      T_QSTRING, T_SHELL_CMD]"

definition token_code :: "token \<Rightarrow> int" where
  "token_code t = 258 + int (length (takeWhile (\<lambda>u. u \<noteq> t) token_order))"

text \<open>The union \<open>yylval\<close>: an integer or a string in the pool.\<close>

datatype yylval = Ival int | Sval nat

subsection \<open>The pool of strings\<close>

definition MAXCHAR :: nat where "MAXCHAR = 5000"
definition ID_MAXSTRINGLEN :: nat where "ID_MAXSTRINGLEN = 50"

record scanner =
  charpool :: "byte list"
  charptr :: nat
  id_string :: "byte list"

definition scanner_init :: scanner where
  "scanner_init = \<lparr>charpool = replicate MAXCHAR 0, charptr = 0, id_string = replicate ID_MAXSTRINGLEN 0\<rparr>"

definition string_alloc :: "scanner \<Rightarrow> nat \<Rightarrow> (nat \<times> scanner) option" where
  "string_alloc s len =
     (if MAXCHAR < charptr s + len then None else Some (charptr s, s\<lparr>charptr := charptr s + len\<rparr>))"

definition reset_charptr :: "scanner \<Rightarrow> scanner" where
  "reset_charptr s = s\<lparr>charptr := 0\<rparr>"

text \<open>\<open>strncpy\<close>: up to \<open>n\<close> bytes, filled up with zeros behind a terminator.\<close>

fun strncpy :: "nat \<Rightarrow> byte list \<Rightarrow> byte list option" where
  "strncpy 0 src = Some []"
| "strncpy (Suc n) [] = None"
| "strncpy (Suc n) (c # cs) = (if c = 0 then Some (replicate (Suc n) 0) else map_option (\<lambda>d. c # d) (strncpy n cs))"

definition mk_string :: "scanner \<Rightarrow> byte list \<Rightarrow> nat \<Rightarrow> (nat \<times> scanner) option" where
  "mk_string s src len =
     (case string_alloc s (len + 1) of
        None \<Rightarrow> None
      | Some (copy, s) \<Rightarrow>
          (case strncpy (len + 1) src of
             None \<Rightarrow> None
           | Some bs \<Rightarrow> Some (copy, s\<lparr>charpool := take copy (charpool s) @ bs @ drop (copy + length bs) (charpool s)\<rparr>)))"

subsection \<open>Identifiers\<close>

definition lower_char :: "byte \<Rightarrow> byte" where
  "lower_char c = (if 65 \<le> uint c \<and> uint c \<le> 90 then c + 32 else c)"

fun lower_loop :: "nat \<Rightarrow> byte list \<Rightarrow> byte list option" where
  "lower_loop 0 src = Some []"
| "lower_loop (Suc n) [] = None"
| "lower_loop (Suc n) (c # cs) = (if c = 0 then Some [] else map_option (\<lambda>d. lower_char c # d) (lower_loop n cs))"

text \<open>The terminator is written behind the characters, also when they fill the array.\<close>

definition lower :: "byte list \<Rightarrow> byte list \<Rightarrow> nat \<Rightarrow> (nat \<times> byte list) option" where
  "lower dst src n =
     (case lower_loop n src of
        None \<Rightarrow> None
      | Some d \<Rightarrow> if length d < length dst then Some (length d, d @ 0 # drop (length d + 1) dst) else None)"

definition reserved_words :: "(string \<times> token) list" where
  "reserved_words =
     [(''select'', RW_SELECT), (''insert'', RW_INSERT), (''delete'', RW_DELETE), (''create'', RW_CREATE),
      (''destroy'', RW_DESTROY), (''buildindex'', RW_BUILD), (''rebuildindex'', RW_REBUILD), (''dropindex'', RW_DROP),
      (''load'', RW_LOAD), (''print'', RW_PRINT), (''help'', RW_HELP), (''quit'', RW_QUIT), (''into'', RW_INTO),
      (''where'', RW_WHERE), (''primary'', RW_PRIMARY), (''numbuckets'', RW_NUMBUCKETS), (''all'', RW_ALL),
      (''from'', RW_FROM), (''as'', RW_AS), (''table'', RW_TABLE), (''and'', RW_AND), (''or'', RW_OR),
      (''not'', RW_NOT), (''values'', RW_VALUES), (''int'', INT_TYPE), (''real'', REAL_TYPE), (''char'', CHAR_TYPE)]"

definition get_id :: "scanner \<Rightarrow> byte list \<Rightarrow> (token \<times> yylval option \<times> scanner) option" where
  "get_id s src =
     (case lower (id_string s) src ID_MAXSTRINGLEN of
        None \<Rightarrow> None
      | Some (len, str) \<Rightarrow>
          (let s = s\<lparr>id_string := str\<rparr>
           in if len = ID_MAXSTRINGLEN then Some (NOTOKEN, None, s)
              else
                (case map_of reserved_words (c_string str) of
                   Some t \<Rightarrow> Some (t, Some (Ival (token_code t)), s)
                 | None \<Rightarrow>
                     (case mk_string s src len of
                        None \<Rightarrow> None
                      | Some (p, s) \<Rightarrow> Some (T_STRING, Some (Sval p), s)))))"

text \<open>\<open>len\<close> counts both quotes.\<close>

definition get_qstring :: "scanner \<Rightarrow> byte list \<Rightarrow> nat \<Rightarrow> (nat \<times> scanner) option" where
  "get_qstring s qstring len =
     (if len < 2 \<or> length qstring < len then None else mk_string s (tl (qstring[len - 1 := 0])) (len - 2))"

subsection \<open>Allocation\<close>

text \<open>The string behind a pointer into the pool, and the pointers that have been handed out.\<close>

definition pool_string :: "scanner \<Rightarrow> nat \<Rightarrow> string" where
  "pool_string s p = c_string (drop p (charpool s))"

definition allocated :: "scanner \<Rightarrow> nat \<Rightarrow> bool" where
  "allocated s p \<longleftrightarrow> p < charptr s \<and> 0 \<in> set (drop p (take (charptr s) (charpool s)))"

definition scanner_ok :: "scanner \<Rightarrow> bool" where
  "scanner_ok s \<longleftrightarrow> length (charpool s) = MAXCHAR \<and> charptr s \<le> MAXCHAR \<and> length (id_string s) = ID_MAXSTRINGLEN"

definition text_bytes :: "string \<Rightarrow> byte list" where
  "text_bytes str = map of_char str"

lemma text_bytes_simps [simp]: "text_bytes [] = []" "text_bytes (c # cs) = of_char c # text_bytes cs" "length (text_bytes str) = length str"
  by (simp_all add: text_bytes_def)

lemma text_bytes_zero: "CHR 0x00 \<notin> set str \<Longrightarrow> 0 \<notin> set (text_bytes str)"
  by (auto simp: text_bytes_def of_char_zero)

lemma c_string_text: "CHR 0x00 \<notin> set str \<Longrightarrow> c_string (text_bytes str @ 0 # bs) = str"
  using c_string_append [of str "0 # bs"] by (simp add: text_bytes_def)

lemma c_string_prefix: "0 \<in> set a \<Longrightarrow> c_string (a @ b) = c_string (a @ c)"
  by (induction a) auto

lemma strncpy_text: "CHR 0x00 \<notin> set str \<Longrightarrow> strncpy (length str + 1) (text_bytes str @ 0 # bs) = Some (text_bytes str @ [0])"
  by (induction str) (auto simp: of_char_zero)

lemma lower_loop_text:
  "CHR 0x00 \<notin> set str \<Longrightarrow> length str < n \<Longrightarrow> lower_loop n (text_bytes str @ 0 # bs) = Some (map lower_char (text_bytes str))"
proof (induction str arbitrary: n)
  case Nil
  then show ?case by (cases n) auto
next
  case (Cons c str)
  then show ?case by (cases n) (auto simp: of_char_zero)
qed

lemma lower_loop_long: "CHR 0x00 \<notin> set str \<Longrightarrow> n \<le> length str \<Longrightarrow> \<exists>d. lower_loop n (text_bytes str @ bs) = Some d \<and> length d = n"
proof (induction str arbitrary: n)
  case Nil
  then show ?case by simp
next
  case (Cons c str)
  show ?case
  proof (cases n)
    case (Suc m)
    then obtain d where "lower_loop m (text_bytes str @ bs) = Some d" "length d = m" using Cons by auto
    then show ?thesis using Suc Cons.prems by (auto simp: of_char_zero)
  qed simp
qed

lemma mk_string_ok:
  assumes "scanner_ok s" "CHR 0x00 \<notin> set str"
  shows "case mk_string s (text_bytes str @ 0 # bs) (length str) of
      None \<Rightarrow> MAXCHAR < charptr s + length str + 1
    | Some (p, t) \<Rightarrow> scanner_ok t \<and> charptr t = charptr s + length str + 1 \<and> pool_string t p = str \<and> allocated t p \<and> \<not> allocated s p \<and>
        (\<forall>q. allocated s q \<longrightarrow> allocated t q \<and> pool_string t q = pool_string s q)"
proof (cases "MAXCHAR < charptr s + length str + 1")
  case True
  then show ?thesis by (simp add: mk_string_def string_alloc_def)
next
  case False
  let ?c = "charptr s" and ?x = "text_bytes str @ [0]" and ?P = "charpool s"
  have len: "length ?P = MAXCHAR" "?c + length ?x \<le> MAXCHAR" using assms(1) False by (simp_all add: scanner_ok_def)
  define t where "t = s\<lparr>charptr := ?c + length ?x, charpool := take ?c ?P @ ?x @ drop (?c + length ?x) ?P\<rparr>"
  have m: "mk_string s (text_bytes str @ 0 # bs) (length str) = Some (?c, t)"
    using False strncpy_text [OF assms(2)] by (simp add: mk_string_def string_alloc_def t_def)
  have ok: "scanner_ok t" using assms(1) len by (simp add: scanner_ok_def t_def)
  have d: "drop ?c (charpool t) = ?x @ drop (?c + length ?x) ?P" using len by (simp add: t_def)
  have p: "pool_string t ?c = str" unfolding pool_string_def d using c_string_text [OF assms(2)] by simp
  have tk: "take (charptr t) (charpool t) = take ?c ?P @ ?x" using len by (simp add: t_def)
  have a: "allocated t ?c" using len unfolding allocated_def tk by (simp add: t_def)
  have o: "allocated t q \<and> pool_string t q = pool_string s q" if "allocated s q" for q
  proof -
    have q: "q < ?c" "0 \<in> set (drop q (take ?c ?P))" using that by (simp_all add: allocated_def)
    then have "drop q (charpool t) = drop q (take ?c ?P) @ ?x @ drop (?c + length ?x) ?P" using len by (simp add: t_def)
    moreover have "drop q ?P = drop q (take ?c ?P) @ drop ?c ?P"
      using q(1) len by (metis append_take_drop_id drop_append length_take less_imp_le_nat min.absorb2 diff_is_0_eq drop0 add_leD1)
    ultimately have "pool_string t q = pool_string s q" unfolding pool_string_def using c_string_prefix [OF q(2)] by metis
    moreover have "allocated t q" using q len unfolding allocated_def tk by (simp add: t_def)
    ultimately show ?thesis by blast
  qed
  have "\<not> allocated s ?c" "charptr t = charptr s + length str + 1" by (simp_all add: allocated_def t_def)
  then show ?thesis using m ok p a o by simp
qed

subsection \<open>The scanner\<close>

definition lower_text :: "string \<Rightarrow> string" where
  "lower_text str = map (\<lambda>c. if 65 \<le> (of_char c :: nat) \<and> (of_char c :: nat) \<le> 90 then char_of (of_char c + 32 :: nat) else c) str"

lemma lower_char_of: "lower_char (of_char c) =
    of_char (if 65 \<le> (of_char c :: nat) \<and> (of_char c :: nat) \<le> 90 then char_of (of_char c + 32 :: nat) else c)"
proof -
  have u: "uint (of_char c :: byte) = int (of_char c)" by (simp flip: unat_of_char)
  have "(of_char (char_of (of_char c + 32 :: nat) :: char) :: byte) = of_char c + 32" if "(of_char c :: nat) \<le> 90"
  proof -
    have "(of_char (char_of (of_char c + 32 :: nat) :: char) :: byte) = word_of_nat ((of_char c + 32) mod 256)"
      by (metis of_nat_of_char of_char_of)
    also have "\<dots> = word_of_nat (of_char c) + 32" using that by simp
    finally show ?thesis by (simp add: of_nat_of_char)
  qed
  then show ?thesis using u by (simp add: lower_char_def)
qed

lemma lower_char_text: "map lower_char (text_bytes str) = text_bytes (lower_text str)"
  by (induction str) (simp_all add: lower_char_of lower_text_def)

lemma lower_text_plain: "CHR 0x00 \<notin> set str \<Longrightarrow> CHR 0x00 \<notin> set (lower_text str)"
proof -
  assume n: "CHR 0x00 \<notin> set str"
  have z: "char_of (of_char c + 32 :: nat) \<noteq> CHR 0x00" if "(of_char c :: nat) \<le> 90" for c
  proof
    assume "char_of (of_char c + 32 :: nat) = CHR 0x00"
    then have "(of_char (char_of (of_char c + 32 :: nat) :: char) :: nat) = of_char (CHR 0x00)" by (rule arg_cong)
    then have "(of_char c + 32) mod 256 = (0 :: nat)" unfolding of_char_of by simp
    then show False using that by simp
  qed
  show ?thesis
  proof
    assume "CHR 0x00 \<in> set (lower_text str)"
    then obtain c where c: "c \<in> set str"
      "(if 65 \<le> (of_char c :: nat) \<and> (of_char c :: nat) \<le> 90 then char_of (of_char c + 32 :: nat) else c) = CHR 0x00"
      unfolding lower_text_def set_map by (elim imageE) (rule that, assumption, erule sym)
    show False
    proof (cases "65 \<le> (of_char c :: nat) \<and> (of_char c :: nat) \<le> 90")
      case True
      then show ?thesis using z [of c] c(2) by simp
    next
      case False
      then have "c = CHR 0x00" using c(2) by meson
      then show ?thesis using n c(1) by simp
    qed
  qed
qed

lemma lower_ok:
  assumes "CHR 0x00 \<notin> set str" "length str < 50" "length dst = 50"
  shows "\<exists>d. lower dst (text_bytes str @ 0 # bs) 50 = Some (length str, d) \<and> c_string d = lower_text str \<and> length d = 50"
proof -
  have "length (lower_text str) = length str" by (simp add: lower_text_def)
  then show ?thesis
    using lower_loop_text [OF assms(1,2)] assms(2,3) c_string_text [OF lower_text_plain [OF assms(1)]]
    by (simp add: lower_def lower_char_text)
qed

text \<open>The scanner apart from the buffer of \<open>get_id\<close>.\<close>

lemma get_id_ok:
  assumes "scanner_ok s" "CHR 0x00 \<notin> set str" "length str < 50"
  shows "case map_of reserved_words (lower_text str) of
      Some t \<Rightarrow> \<exists>b. get_id s (text_bytes str @ 0 # bs) = Some (t, Some (Ival (token_code t)), s\<lparr>id_string := b\<rparr>) \<and> length b = 50
    | None \<Rightarrow>
        (case get_id s (text_bytes str @ 0 # bs) of
           None \<Rightarrow> MAXCHAR < charptr s + length str + 1
         | Some (t, v, u) \<Rightarrow> \<exists>p. t = T_STRING \<and> v = Some (Sval p) \<and> scanner_ok u \<and> charptr u = charptr s + length str + 1 \<and> pool_string u p = str \<and>
             allocated u p \<and> \<not> allocated s p \<and> (\<forall>q. allocated s q \<longrightarrow> allocated u q \<and> pool_string u q = pool_string s q))"
proof -
  obtain d where d: "lower (id_string s) (text_bytes str @ 0 # bs) 50 = Some (length str, d)" "c_string d = lower_text str" "length d = 50"
    using lower_ok [OF assms(2,3)] assms(1) by (auto simp: scanner_ok_def ID_MAXSTRINGLEN_def)
  let ?s = "s\<lparr>id_string := d\<rparr>"
  have ok: "scanner_ok ?s" using assms(1) d(3) by (simp add: scanner_ok_def ID_MAXSTRINGLEN_def)
  have same: "allocated ?s = allocated s" "pool_string ?s = pool_string s" "charptr ?s = charptr s"
    by (simp_all add: allocated_def pool_string_def fun_eq_iff)
  show ?thesis
  proof (cases "map_of reserved_words (lower_text str)")
    case None
    then show ?thesis using mk_string_ok [OF ok assms(2), of bs] d assms(3)
      by (auto simp: get_id_def ID_MAXSTRINGLEN_def Let_def same split: option.splits)
  next
    case (Some t)
    then show ?thesis using d assms(3) by (auto simp: get_id_def ID_MAXSTRINGLEN_def Let_def)
  qed
qed

lemma get_qstring_ok:
  assumes "scanner_ok s" "CHR 0x00 \<notin> set str"
  shows "case get_qstring s (q # text_bytes str @ r # bs) (length str + 2) of
      None \<Rightarrow> MAXCHAR < charptr s + length str + 1
    | Some (p, t) \<Rightarrow> scanner_ok t \<and> charptr t = charptr s + length str + 1 \<and> pool_string t p = str \<and> allocated t p \<and> \<not> allocated s p \<and>
        (\<forall>q. allocated s q \<longrightarrow> allocated t q \<and> pool_string t q = pool_string s q)"
proof -
  have "tl ((q # text_bytes str @ r # bs)[length str + 2 - 1 := 0]) = text_bytes str @ 0 # bs"
    by (simp add: list_update_append)
  then show ?thesis using mk_string_ok [OF assms, of bs] by (simp add: get_qstring_def)
qed

subsection \<open>Properties\<close>

text \<open>
  C38. Identifiers of less than 50 characters. A reserved word in any mixture of cases is its token
  and allocates nothing. Any other identifier is \<open>T_STRING\<close> with a copy of it in the pool, in the
  case it was written in, at a place that no string was given before; if the pool has no room for
  it the program ends.
\<close>

theorem get_id_correct:
  assumes "scanner_ok s" "CHR 0x00 \<notin> set str" "length str < 50"
  shows "case map_of reserved_words (lower_text str) of
      Some t \<Rightarrow> \<exists>b. get_id s (text_bytes str @ 0 # bs) = Some (t, Some (Ival (token_code t)), s\<lparr>id_string := b\<rparr>) \<and> length b = 50
    | None \<Rightarrow>
        (case get_id s (text_bytes str @ 0 # bs) of
           None \<Rightarrow> MAXCHAR < charptr s + length str + 1
         | Some (t, v, u) \<Rightarrow> \<exists>p. t = T_STRING \<and> v = Some (Sval p) \<and> scanner_ok u \<and> charptr u = charptr s + length str + 1 \<and> pool_string u p = str \<and>
             allocated u p \<and> \<not> allocated s p \<and> (\<forall>q. allocated s q \<longrightarrow> allocated u q \<and> pool_string u q = pool_string s q))"
  by (rule get_id_ok [OF assms])

lemma scanner_init_ok: "scanner_ok scanner_init"
  by (simp add: scanner_ok_def scanner_init_def)

theorem get_id_correct_witness:
  "(\<exists>b. get_id scanner_init (text_bytes ''SeLect'' @ [0]) = Some (RW_SELECT, Some (Ival 267), scanner_init\<lparr>id_string := b\<rparr>)) \<and>
   (\<exists>p u. get_id scanner_init (text_bytes ''Emp'' @ [0]) = Some (T_STRING, Some (Sval p), u) \<and> pool_string u p = ''Emp'')"
proof -
  have n: "CHR 0x00 \<notin> set ''SeLect''" "CHR 0x00 \<notin> set ''Emp''" by simp_all
  have r: "map_of reserved_words (lower_text ''SeLect'') = Some RW_SELECT" "map_of reserved_words (lower_text ''Emp'') = None"
    "token_code RW_SELECT = 267" by code_simp+
  have m: "\<not> MAXCHAR < charptr scanner_init + length ''Emp'' + 1" by (simp add: scanner_init_def MAXCHAR_def)
  show ?thesis
    using get_id_correct [OF scanner_init_ok n(1), of "[]"] get_id_correct [OF scanner_init_ok n(2), of "[]"] r m
    by (auto split: option.splits)
qed

text \<open>What \<open>scan.l\<close> hands to these functions: the text of an identifier, or of a quoted string with its quotes.\<close>

datatype lexeme = Identifier string | Quoted string

fun lexeme_text :: "lexeme \<Rightarrow> string" where
  "lexeme_text (Identifier str) = str"
| "lexeme_text (Quoted str) = str"

fun scan_lexeme :: "scanner \<Rightarrow> lexeme \<Rightarrow> (nat option \<times> scanner) option" where
  "scan_lexeme s (Identifier str) =
     map_option (\<lambda>(t, v, u). (case v of Some (Sval p) \<Rightarrow> Some p | _ \<Rightarrow> None, u)) (get_id s (text_bytes str @ [0]))"
| "scan_lexeme s (Quoted str) =
     map_option (\<lambda>(p, u). (Some p, u)) (get_qstring s (34 # text_bytes str @ [34, 0]) (length str + 2))"

fun scan_lexemes :: "scanner \<Rightarrow> lexeme list \<Rightarrow> ((nat \<times> string) list \<times> scanner) option" where
  "scan_lexemes s [] = Some ([], s)"
| "scan_lexemes s (x # xs) =
     (case scan_lexeme s x of
        None \<Rightarrow> None
      | Some (p, u) \<Rightarrow>
          map_option (\<lambda>(ps, w). ((case p of Some a \<Rightarrow> (a, lexeme_text x) # ps | None \<Rightarrow> ps), w)) (scan_lexemes u xs))"

fun good_lexeme :: "lexeme \<Rightarrow> bool" where
  "good_lexeme (Identifier str) = (CHR 0x00 \<notin> set str \<and> length str < 50)"
| "good_lexeme (Quoted str) = (CHR 0x00 \<notin> set str)"

fun is_reserved :: "lexeme \<Rightarrow> bool" where
  "is_reserved (Identifier str) = (map_of reserved_words (lower_text str) \<noteq> None)"
| "is_reserved (Quoted str) = False"

lemma scan_lexeme_ok:
  assumes "scanner_ok s" "good_lexeme x" "charptr s + length (lexeme_text x) + 1 \<le> MAXCHAR"
  obtains p t where "scan_lexeme s x = Some (p, t)" "scanner_ok t" "charptr t \<le> charptr s + length (lexeme_text x) + 1"
    "\<forall>q. allocated s q \<longrightarrow> allocated t q \<and> pool_string t q = pool_string s q"
    "case p of None \<Rightarrow> is_reserved x | Some a \<Rightarrow> \<not> is_reserved x \<and> allocated t a \<and> \<not> allocated s a \<and> pool_string t a = lexeme_text x"
proof (cases x)
  case (Identifier str)
  have g: "CHR 0x00 \<notin> set str" "length str < 50" using assms(2) Identifier by simp_all
  note I = get_id_ok [OF assms(1) g, of "[]"]
  show ?thesis
  proof (cases "map_of reserved_words (lower_text str)")
    case None
    then show ?thesis using I assms(3) Identifier by (auto split: option.splits intro!: that)
  next
    case (Some w)
    then obtain b where "get_id s (text_bytes str @ [0]) = Some (w, Some (Ival (token_code w)), s\<lparr>id_string := b\<rparr>)" "length b = 50"
      using I by auto
    then show ?thesis using assms(1) Identifier Some
      by (intro that [of None "s\<lparr>id_string := b\<rparr>"]) (simp_all add: scanner_ok_def allocated_def pool_string_def ID_MAXSTRINGLEN_def)
  qed
next
  case (Quoted str)
  then show ?thesis using get_qstring_ok [OF assms(1), of str 34 34 "[0]"] assms(2,3) by (auto split: option.splits intro!: that)
qed

lemma scan_lexemes_ok:
  assumes "scanner_ok s" "\<forall>x \<in> set xs. good_lexeme x" "charptr s + sum_list (map (\<lambda>x. length (lexeme_text x) + 1) xs) \<le> MAXCHAR"
  shows "\<exists>ps t. scan_lexemes s xs = Some (ps, t) \<and> (\<forall>q. allocated s q \<longrightarrow> allocated t q \<and> pool_string t q = pool_string s q) \<and>
    (\<forall>(p, str) \<in> set ps. allocated t p \<and> \<not> allocated s p \<and> pool_string t p = str) \<and> distinct (map fst ps) \<and>
    map snd ps = map lexeme_text (filter (\<lambda>x. \<not> is_reserved x) xs)"
  using assms
proof (induction xs arbitrary: s)
  case (Cons x xs)
  have g: "good_lexeme x" "\<forall>x \<in> set xs. good_lexeme x" "charptr s + length (lexeme_text x) + 1 \<le> MAXCHAR" using Cons.prems by simp_all
  obtain p u where U: "scan_lexeme s x = Some (p, u)" "scanner_ok u" "charptr u \<le> charptr s + length (lexeme_text x) + 1"
    "\<forall>q. allocated s q \<longrightarrow> allocated u q \<and> pool_string u q = pool_string s q"
    "case p of None \<Rightarrow> is_reserved x | Some a \<Rightarrow> \<not> is_reserved x \<and> allocated u a \<and> \<not> allocated s a \<and> pool_string u a = lexeme_text x"
    by (rule scan_lexeme_ok [OF Cons.prems(1) g(1,3)])
  have "charptr u + sum_list (map (\<lambda>x. length (lexeme_text x) + 1) xs) \<le> MAXCHAR" using Cons.prems(3) U(3) by simp
  from Cons.IH [OF U(2) g(2) this] obtain ps t where T: "scan_lexemes u xs = Some (ps, t)"
    "\<forall>q. allocated u q \<longrightarrow> allocated t q \<and> pool_string t q = pool_string u q"
    "\<forall>(p, str) \<in> set ps. allocated t p \<and> \<not> allocated u p \<and> pool_string t p = str" "distinct (map fst ps)"
    "map snd ps = map lexeme_text (filter (\<lambda>x. \<not> is_reserved x) xs)" by blast
  show ?case
  proof (cases p)
    case None
    then show ?thesis using U(1,4,5) T by auto
  next
    case (Some a)
    then show ?thesis using U(1,4,5) T by fastforce
  qed
qed auto

text \<open>
  C39. Strings survive until the end of the query: over any sequence of identifiers and quoted
  strings that fits into the pool, none is refused, every pointer that was handed out denotes, at
  the end, the text it was made of, all these pointers are different, and every text but those of
  reserved words has one.
\<close>

theorem scanner_strings_kept:
  assumes "scanner_ok s" "\<forall>x \<in> set xs. good_lexeme x" "sum_list (map (\<lambda>x. length (lexeme_text x) + 1) xs) \<le> 5000"
  shows "\<exists>ps t. scan_lexemes (reset_charptr s) xs = Some (ps, t) \<and> (\<forall>(p, str) \<in> set ps. pool_string t p = str) \<and>
    distinct (map fst ps) \<and> map snd ps = map lexeme_text (filter (\<lambda>x. \<not> is_reserved x) xs)"
proof -
  have "scanner_ok (reset_charptr s)" "charptr (reset_charptr s) + sum_list (map (\<lambda>x. length (lexeme_text x) + 1) xs) \<le> MAXCHAR"
    using assms(1,3) by (simp_all add: scanner_ok_def reset_charptr_def MAXCHAR_def)
  from scan_lexemes_ok [OF this(1) assms(2) this(2)] show ?thesis by fastforce
qed

theorem scanner_strings_kept_witness:
  "\<exists>p q t. scan_lexemes (reset_charptr scanner_init) [Identifier ''select'', Identifier ''Emp'', Quoted ''x y''] =
     Some ([(p, ''Emp''), (q, ''x y'')], t) \<and> pool_string t p = ''Emp'' \<and> pool_string t q = ''x y'' \<and> p \<noteq> q"
proof -
  let ?xs = "[Identifier ''select'', Identifier ''Emp'', Quoted ''x y'']"
  have "\<forall>x \<in> set ?xs. good_lexeme x" "sum_list (map (\<lambda>x. length (lexeme_text x) + 1) ?xs) \<le> 5000" by simp_all
  from scanner_strings_kept [OF scanner_init_ok this] obtain ps t where T: "scan_lexemes (reset_charptr scanner_init) ?xs = Some (ps, t)"
    "\<forall>(p, str) \<in> set ps. pool_string t p = str" "distinct (map fst ps)" "map snd ps = map lexeme_text (filter (\<lambda>x. \<not> is_reserved x) ?xs)"
    by blast
  have "map lexeme_text (filter (\<lambda>x. \<not> is_reserved x) ?xs) = [''Emp'', ''x y'']" by code_simp
  then obtain p q where "ps = [(p, ''Emp''), (q, ''x y'')]" using T(4) by (auto simp: map_eq_Cons_conv)
  then show ?thesis using T(1,2,3) by auto
qed

text \<open>
  C40. Identifiers of 50 and more characters, which are meant to be answered with \<open>NOTOKEN\<close>: the
  terminator is written behind the end of the array before the length is looked at.
\<close>

theorem get_id_overrun:
  assumes "scanner_ok s" "CHR 0x00 \<notin> set str" "50 \<le> length str"
  shows "get_id s (text_bytes str @ 0 # bs) = None"
proof -
  obtain d where "lower_loop 50 (text_bytes str @ 0 # bs) = Some d" "length d = 50" using lower_loop_long [OF assms(2,3)] by blast
  then show ?thesis using assms(1) by (simp add: get_id_def lower_def scanner_ok_def ID_MAXSTRINGLEN_def)
qed

theorem get_id_overrun_witness: "get_id scanner_init (text_bytes (replicate 50 (CHR ''x'')) @ [0]) = None"
  using get_id_overrun [OF scanner_init_ok, of "replicate 50 (CHR ''x'')" "[]"] by simp

end
