(* ===== verification/Spec2Isabelle.thy ===== *)
theory Spec2Isabelle
  imports Page_Refine DB_Props Heap_Props Catalog_Props Program_Props Interp_Select JoinHT Scanhelp
begin

text \<open>
  Verification of the minirel engine of PrimitiveDB, a single-user relational database in C++
  (\<open>src/src\<close>).

  \<^bold>\<open>The program.\<close> From the bottom up: slotted pages of 1024 bytes (\<open>page.C\<close>); paged access to Unix
  files with a free list (class \<open>File\<close> in \<open>db.C\<close>); a table of open files with reference-counted
  file objects (class \<open>DB\<close> in \<open>db.C\<close>); a buffer pool with clock replacement and a hash table of
  its pages (\<open>buf.C\<close>, \<open>bufHash.C\<close>); heap files, scans over them and insertion into them
  (\<open>heapfile.C\<close>); the relation and the attribute catalog, which are heap files themselves
  (\<open>catalog.C\<close>, \<open>create.C\<close>, \<open>destroy.C\<close>); the query operators (\<open>insert.C\<close>, \<open>delete.C\<close>, \<open>select.C\<close>,
  \<open>join.C\<close>) and utilities (\<open>load.C\<close>, \<open>print.C\<close>, \<open>help.C\<close>); the parse trees of the SQL front end
  (\<open>parser/nodes.C\<close>) and their interpreter (\<open>parser/interp.C\<close>). All functions report errors as values
  of \<open>Status\<close> (\<open>error.h\<close>).

  \<^bold>\<open>How it is modelled.\<close> The state is one record that grows with the layers: Unix files and file
  objects (\<open>sys\<close> in \<open>FileIO\<close>), the buffer pool (\<open>bsys\<close> in \<open>Buf\<close>), the table of open files (\<open>dsys\<close>
  in \<open>DB\<close>). Every function of the program is a HOL function that takes the state and returns its
  result and the new state. A page is a function from addresses to bytes, and all its fields are
  read and written as little-endian integers of the width they have in C, so that wrap-around is
  part of the model. Pointers to pages are frame numbers or null; file objects have addresses
  that an allocator hands out, which is a parameter of the state. Unix calls behave as documented
  on files of whole pages; a limit on the size of a file (\<open>quota\<close>) is the cause of write errors.

  Functions with loops that could fail to end, or that could run into undefined behaviour, return
  an option. \<open>None\<close> means that the program does not come back from the call: an endless loop
  (\<open>partial_function\<close>), a failed assertion, a null or uninitialised pointer followed, or memory
  accessed outside of its array. The assertion behind the last case of \<open>interp\<close> is an output instead,
  \<open>AssertionFailed\<close>. There is no fuel. All properties of such functions state that the
  result is \<open>Some\<close>.

  \<^bold>\<open>Theories.\<close>
  \<^item> \<open>Prelude\<close>: memory, C integers, block copies, lemma collections. \<open>ErrorCodes\<close>: \<open>error.h\<close>, \<open>error.C\<close>.
  \<^item> \<open>Page\<close> (\<open>page.C\<close>), \<open>Page_Spec\<close>, \<open>Page_Refine\<close>: the page invariant; a page refines a finite map
    from slot numbers to records; insertion, deletion with compaction, iteration; the locale
    \<open>record_store\<close> is the contract of a page.
  \<^item> \<open>HashTables\<close> (\<open>bufHash.C\<close>, \<open>db.C\<close>): both chained tables refine finite maps.
  \<^item> \<open>FileIO\<close> (class \<open>File\<close>), \<open>File_Spec\<close>, \<open>File_Refine\<close>: the free list; a file refines a finite map
    from page numbers to pages.
  \<^item> \<open>Buf\<close> (\<open>buf.C\<close>), \<open>Buf_Clock\<close>, \<open>Buf_Spec\<close>, \<open>Buf_Ops\<close>, \<open>Buf_Refine\<close>, \<open>Buf_Props\<close>: the clock search ends
    and fails only when every frame is pinned; whatever is evicted and read again, a page has the
    contents that were last written to it.
  \<^item> \<open>DB\<close> (class \<open>DB\<close>), \<open>DB_Props\<close>: opening, closing, creating and destroying files.
  \<^item> \<open>HeapFile\<close> (\<open>heapfile.C\<close>), \<open>Heap_Spec\<close> to \<open>Heap_Props\<close>: well-formed heap files refine a finite map
    from record identifiers to records; scans end and deliver every matching record once;
    insertion adds one record. \<open>Heap_Session\<close> treats objects from construction to destruction, on
    files that may be open already, \<open>Heap_Room\<close> says when a file can grow, and \<open>Heap_Client\<close> gives clients a cursor, with the locale
    \<open>record_cursor\<close> as its contract.
  \<^item> \<open>Catalog\<close> (\<open>catalog.C\<close>, \<open>create.C\<close>, \<open>destroy.C\<close>), \<open>Catalog_Ops\<close>, \<open>Catalog_Rel\<close>, \<open>Catalog_Attr\<close>,
    \<open>Catalog_Props\<close>: the catalogs as lists of descriptions, through the bytes of their records.
    \<open>Heap_Create\<close>, \<open>Catalog_Create\<close>: creation of heap files and of relations with their descriptions.
  \<^item> \<open>Programs\<close> (\<open>dbcreate.C\<close>, \<open>minirel.C\<close>, \<open>quit.C\<close>, \<open>dbdestroy.C\<close>), \<open>Program_Props\<close>: a new database, the
    start of the engine, and that everything survives a shutdown in the Unix files.
  \<^item> \<open>Clib\<close>, \<open>Query\<close> (\<open>insert.C\<close>, \<open>delete.C\<close>, \<open>select.C\<close>, \<open>join.C\<close>, \<open>load.C\<close>, \<open>print.C\<close>, \<open>help.C\<close>),
    \<open>Query_Sessions\<close>, \<open>Query_Props\<close>: which records a deletion removes and an insertion stores.
    \<open>Query_Pair\<close> treats two objects that are open at the same time, a scan and an insertion into
    another file; \<open>Query_Select\<close> shows which records a selection adds to its result.
  \<^item> \<open>JoinHT\<close> (\<open>joinHT.C\<close>, \<open>matchRec\<close> of \<open>join.C\<close>): lookups in the hash table for joins are equivalent to
    a search through all pairs inserted, within the range where the hash function is defined.
  \<^item> \<open>Scanhelp\<close> (\<open>parser/scanhelp.C\<close>, \<open>parser/y.tab.h\<close>): reserved words, and the pool of the strings of
    a command.
  \<^item> \<open>Nodes\<close> (\<open>parser/nodes.C\<close>, \<open>parser/parse.h\<close>), \<open>Nodes_Props\<close>: merging of lists and resolution of
    aliases on parse trees.
  \<^item> \<open>Interp\<close> (\<open>parser/interp.C\<close>), \<open>Interp_Props\<close>, \<open>Interp_Select\<close>: commands from their parse trees; the
    argument lists they become, constants as text, and a selection all the way from its tree to
    the records of the result relation (the theorem below).

  Each group proves, per operation, the result and the effect on every branch, and that the
  invariant of the layer is kept. The refinements of pages, files and the buffer pool are for
  clients that keep to rules which the code does not check (no negative slot numbers, no page
  disposed of twice, changed pages reported as dirty); the relations \<open>page_reach\<close>, \<open>file_reach\<close> and
  \<open>buf_reach\<close> state these rules. The properties about errors state defects of the code where the
  code has them: frames that are left behind, files that stay open, comparisons that overflow.

  \<^bold>\<open>Not modelled.\<close> Output to the terminal and its formats; performance counters (\<open>perf_measure.C\<close>,
  \<open>perf_test.C\<close>); the rules of the scanner and the grammar (\<open>scan.l\<close>, \<open>parse.y\<close>), which are input to
  generators; external sorting and partitioning (\<open>sort.C\<close>, \<open>partition.C\<close>), which no operator calls;
  the loop of the parser, which hands commands to the interpreter. Memory allocation does not fail in
  the model.
\<close>

subsection \<open>From the parse tree to the relation\<close>

text \<open>
  C35. The command \<open>select a1, a2, ... into t from r where r.a op v\<close> read from a terminal, with a result
  relation whose attributes have the types of those selected. The interpreter reports no error,
  and the result relation gains the projections of exactly the records of \<open>r\<close> that satisfy the
  condition; every other relation and the catalogs are as before. The parse tree, the catalogs,
  the scans, the buffer pool and the files take part in this.
\<close>

theorem interp_select_into:
  assumes "catalogs_ok s nr na" "relation s result rs" "result \<noteq> ATTRCATNAME" "result \<noteq> RELCATNAME" "result \<noteq> TMP_RESULT"
    and "6 \<le> card (free_frames (bufMgr s))" "select_tree nodes n result as r a oper ty v" "as \<noteq> []" "length as < 40"
    and "\<forall>x \<in> set (result # r # a # as). good_name x"
    and "all_described (attr_descs s na) (map (info r) as) = Inr ds" "described (attr_descs s na) (info r a) = Inr d"
    and "list_all2 (\<lambda>d e. ad_attrType d = ad_attrType e \<and> ad_attrLen d = ad_attrLen e) ds
      (filter (\<lambda>e. ad_rel e = result) (attr_descs s na))"
    and "selectable s result ns ds (Some d) oper v" "condition (Some d) oper v = Inr flt"
  shows "\<exists>u rs'. interp True jm junk unix s nodes n = Some ([], u) \<and> catalogs_ok u nr na \<and> relation u result rs' \<and>
    (\<forall>n. n \<noteq> result \<longrightarrow> rel_pages u n = rel_pages s n) \<and>
    bag_of (tuples u result rs') = bag_of (tuples s result rs) +
      image_mset (\<lambda>rec. the (project ds rec)) (chosen s (ad_rel (hd ds)) ns flt)"
  by (rule interp_select_ok [OF assms])

text \<open>The tree of \<open>select r.a into t from r where r.a = 5\<close>.\<close>

definition demo_select_tree :: nodes where
  "demo_select_tree = \<lparr>nodepool = [N_VALUE INTEGER 0 (IVal 5), N_QUALATTR (Some ''r'') (Some ''a''), N_SELECT (Some 1) 2 (Some 0),
     N_QUALATTR (Some ''r'') (Some ''a''), N_LIST (Some 3) None, N_QUERY (Some ''t'') (Some 4) (Some 2)], nodeptr = 6\<rparr>"

lemma demo_select_tree_ok: "select_tree demo_select_tree (Some 5) ''t'' [''a''] ''r'' ''a'' EQ INTEGER ''5''"
proof -
  have v: "value_of demo_select_tree (Some 0) = Some ''5''" "type_of demo_select_tree (Some 0) = Some INTEGER" "operator_of 2 = Some EQ"
    by code_simp+
  have N: "node_at demo_select_tree (Some 5) = Some (N_QUERY (Some ''t'') (Some 4) (Some 2))"
    "node_at demo_select_tree (Some 2) = Some (N_SELECT (Some 1) 2 (Some 0))"
    "node_at demo_select_tree (Some 1) = Some (N_QUALATTR (Some ''r'') (Some ''a''))"
    "node_at demo_select_tree (Some 4) = Some (N_LIST (Some 3) None)"
    "node_at demo_select_tree (Some 3) = Some (N_QUALATTR (Some ''r'') (Some ''a''))"
    by (simp_all add: node_at_def demo_select_tree_def)
  have "list_at demo_select_tree (Some 4) [Some 3]" by (rule list_cell [OF N(4) list_end])
  then have "columns_at demo_select_tree (Some 4) ''r'' [''a'']" using N(5) by (auto simp: columns_at_def)
  then show ?thesis unfolding select_tree_def using N v by blast
qed

theorem interp_select_into_witness:
  "\<exists>u rs'. interp True NLJoin (\<lambda>_. 0) (\<lambda>_. None) demo_both demo_select_tree (Some 5) = Some ([], u) \<and> relation u ''t'' rs' \<and>
     bag_of (tuples u ''t'' rs') = {#[5, 0, 0, 0]#}"
proof -
  obtain nr na where F: "catalogs_ok demo_both nr na" "mset (attr_descs demo_both na) = {#demo_attr, demo_attr_t#}"
    "quota demo_both = 4" "relation demo_both ''r'' [2]" "tuples demo_both ''r'' [2] = [RID 2 0 \<mapsto> [5, 0, 0, 0]]"
    "relation demo_both ''t'' [2]" "tuples demo_both ''t'' [2] = Map.empty" "rel_pages demo_both ''t'' = file_map demo_heap_pages"
    "6 \<le> card (free_frames (bufMgr demo_both))" by (rule demo_both_ok)
  have g: "good_name ''r''" "good_name ''a''" "good_name ''t''" by (simp_all add: good_name_def plain_def MAXNAME_def)
  have "mset (filter (\<lambda>d. ad_rel d = ''r'' \<and> ad_attr d = ''a'') (attr_descs demo_both na)) = {#demo_attr#}"
    "mset (filter (\<lambda>d. ad_rel d = ''t'') (attr_descs demo_both na)) = {#demo_attr_t#}"
    unfolding mset_filter F(2) using demo_attr(2,3) demo_attr_t(2,3) by simp_all
  then have fl: "filter (\<lambda>d. ad_rel d = ''r'' \<and> ad_attr d = ''a'') (attr_descs demo_both na) = [demo_attr]"
    "filter (\<lambda>d. ad_rel d = ''t'') (attr_descs demo_both na) = [demo_attr_t]" unfolding mset_single_iff .
  have d: "described (attr_descs demo_both na) (info ''r'' ''a'') = Inr demo_attr"
    using fl(1) info_names(4,5) [OF g(1,2)] by (simp add: described_def)
  then have ds: "all_described (attr_descs demo_both na) (map (info ''r'') [''a'']) = Inr [demo_attr]" by simp
  have l: "list_all2 (\<lambda>d e. ad_attrType d = ad_attrType e \<and> ad_attrLen d = ad_attrLen e) [demo_attr]
      (filter (\<lambda>e. ad_rel e = ''t'') (attr_descs demo_both na))"
    unfolding fl(2) by (simp add: demo_attr_t_def)
  note S = demo_selects [OF demo_attr(2) _ _ _ F(4,5,8,3)]
  have A: "ad_attrOffset demo_attr = 0" "ad_attrType demo_attr = 1" "ad_attrLen demo_attr = 4" by (simp_all add: demo_attr_def)
  note S = S [OF A]
  have n: "''t'' \<noteq> ATTRCATNAME" "''t'' \<noteq> RELCATNAME" "''t'' \<noteq> TMP_RESULT"
    by (simp_all add: RELCATNAME_def ATTRCATNAME_def TMP_RESULT_def)
  have g': "\<forall>x \<in> set (''t'' # ''r'' # ''a'' # [''a'']). good_name x" using g by simp
  obtain u rs' where U: "interp True NLJoin (\<lambda>_. 0) (\<lambda>_. None) demo_both demo_select_tree (Some 5) = Some ([], u)"
    "relation u ''t'' rs'" "bag_of (tuples u ''t'' rs') = bag_of (tuples demo_both ''t'' [2]) +
      image_mset (\<lambda>rec. the (project [demo_attr] rec)) (chosen demo_both (ad_rel (hd [demo_attr])) [2] demo_five_filter)"
    using interp_select_into [OF F(1,6) n F(9) demo_select_tree_ok _ _ g' ds d l S(1,2), of NLJoin "\<lambda>_. 0" "\<lambda>_. None"] by auto
  have "bag_of (tuples demo_both ''t'' [2]) = {#}" unfolding F(7) by (simp add: bag_of_def)
  moreover have "chosen demo_both (ad_rel (hd [demo_attr])) [2] demo_five_filter = {#[5, 0, 0, 0]#}" using S(3) demo_attr(2) by simp
  ultimately have "bag_of (tuples u ''t'' rs') = {#the (project [demo_attr] [5, 0, 0, 0])#}" using U(3) by simp
  then show ?thesis using U(1,2) S(4) by auto
qed

end
